(* ===== verification/Prelude.thy ===== *)
theory Prelude
  imports Main "HOL-Library.Word" "HOL-Library.Monad_Syntax"
begin

unbundle bit_operations_syntax

text \<open>
  What every component shares.  Machine integers are \<open>'w word\<close>s of the width the C code
  declares; an access that leaves its C array, a failed \<open>assert\<close> and a dereference of
  \<open>NULL\<close> all end the run and are the value \<open>None\<close> of the option monad, so a result
  \<open>Some x\<close> says that the code returned \<open>x\<close> without leaving its memory.  A C array is a
  list of its cells; \<open>rd\<close> and \<open>wr\<close> are the indexed read and write, \<open>foldM\<close> is a
  counted loop whose body may fail.
\<close>

type_synonym u8 = "8 word"
type_synonym u16 = "16 word"
type_synonym u32 = "32 word"
type_synonym u64 = "64 word"

text \<open>Rules that resolve array accesses and failing loops once the bounds are known.\<close>

named_theorems cmem \<open>array reads, writes and loops whose bounds are known\<close>

section \<open>Arrays\<close>

definition rd :: "'a list \<Rightarrow> nat \<Rightarrow> 'a option" where
  "rd xs i = (if i < length xs then Some (xs ! i) else None)"

definition wr :: "'a list \<Rightarrow> nat \<Rightarrow> 'a \<Rightarrow> 'a list option" where
  "wr xs i x = (if i < length xs then Some (xs[i := x]) else None)"

lemma rd_in [cmem]: "i < length xs \<Longrightarrow> rd xs i = Some (xs ! i)"
  by (simp add: rd_def)

lemma rd_out [cmem]: "length xs \<le> i \<Longrightarrow> rd xs i = None"
  by (simp add: rd_def)

lemma wr_in [cmem]: "i < length xs \<Longrightarrow> wr xs i x = Some (xs[i := x])"
  by (simp add: wr_def)

lemma wr_out [cmem]: "length xs \<le> i \<Longrightarrow> wr xs i x = None"
  by (simp add: wr_def)

lemma rd_eq_Some: "rd xs i = Some x \<longleftrightarrow> i < length xs \<and> x = xs ! i"
  by (auto simp: rd_def)

lemma wr_eq_Some: "wr xs i x = Some ys \<longleftrightarrow> i < length xs \<and> ys = xs[i := x]"
  by (auto simp: wr_def)

lemma rd_wr: "wr xs i x = Some ys \<Longrightarrow> rd ys j = (if j = i then Some x else rd xs j)"
  by (auto simp: rd_def wr_eq_Some)

lemma length_wr: "wr xs i x = Some ys \<Longrightarrow> length ys = length xs"
  by (simp add: wr_eq_Some)

text \<open>\<open>memcpy\<close> out of a block and into a block.\<close>

definition mem_read :: "'a list \<Rightarrow> nat \<Rightarrow> nat \<Rightarrow> 'a list option" where
  "mem_read m i n = (if i + n \<le> length m then Some (take n (drop i m)) else None)"

definition mem_write :: "'a list \<Rightarrow> nat \<Rightarrow> 'a list \<Rightarrow> 'a list option" where
  "mem_write m i xs = (if i + length xs \<le> length m then Some (take i m @ xs @ drop (i + length xs) m) else None)"

lemma mem_read_in [cmem]: "i + n \<le> length m \<Longrightarrow> mem_read m i n = Some (take n (drop i m))"
  by (simp add: mem_read_def)

lemma mem_write_in [cmem]: "i + length xs \<le> length m \<Longrightarrow> mem_write m i xs = Some (take i m @ xs @ drop (i + length xs) m)"
  by (simp add: mem_write_def)

lemma mem_write_out [cmem]: "length m < i + length xs \<Longrightarrow> mem_write m i xs = None"
  by (simp add: mem_write_def)

section \<open>Signed integers\<close>

text \<open>A signed 32-bit result: overflow is undefined.\<close>

definition s32 :: "int \<Rightarrow> int option" where
  "s32 i = (if - (2 ^ 31) \<le> i \<and> i < 2 ^ 31 then Some i else None)"

section \<open>Counted loops whose body may fail\<close>

fun foldM :: "('a \<Rightarrow> 's \<Rightarrow> 's option) \<Rightarrow> 'a list \<Rightarrow> 's \<Rightarrow> 's option" where
  "foldM f [] s = Some s"
| "foldM f (x # xs) s = Option.bind (f x s) (foldM f xs)"

lemma foldM_append:
  "foldM f (xs @ ys) s = Option.bind (foldM f xs s) (foldM f ys)"
  by (induction xs arbitrary: s) (auto split: Option.bind_splits)

lemma foldM_cong:
  "xs = ys \<Longrightarrow> s = t \<Longrightarrow> (\<And>x u. x \<in> set ys \<Longrightarrow> f x u = g x u) \<Longrightarrow> foldM f xs s = foldM g ys t"
proof (induction xs arbitrary: ys s t)
  case (Cons x xs)
  have "foldM f xs = foldM g xs"
    using Cons.IH [of xs] Cons.prems by fastforce
  then show ?case using Cons.prems by auto
qed simp

text \<open>
  A loop whose body succeeds wherever its invariant holds is the ordinary fold of what the
  body computes: this turns memory safety of a loop into a side condition.
\<close>

lemma foldM_fold:
  assumes "P s"
    and "\<And>x s. x \<in> set xs \<Longrightarrow> P s \<Longrightarrow> f x s = Some (g x s) \<and> P (g x s)"
  shows "foldM f xs s = Some (fold g xs s) \<and> P (fold g xs s)"
  using assms by (induction xs arbitrary: s) auto

lemma foldM_invariant:
  assumes "foldM f xs s = Some t" and "P s"
    and "\<And>x s t. x \<in> set xs \<Longrightarrow> P s \<Longrightarrow> f x s = Some t \<Longrightarrow> P t"
  shows "P t"
  using assms
proof (induction xs arbitrary: s)
  case (Cons x xs)
  from Cons.prems(1) obtain u where "f x s = Some u" and "foldM f xs u = Some t"
    by (auto split: Option.bind_splits)
  moreover from this Cons.prems(2,3) have "P u" by auto
  ultimately show ?case using Cons.IH Cons.prems(3) by auto
qed simp

lemma foldM_total:
  assumes "P s" and "\<And>x s. x \<in> set xs \<Longrightarrow> P s \<Longrightarrow> \<exists>t. f x s = Some t \<and> P t"
  shows "\<exists>t. foldM f xs s = Some t \<and> P t"
  using assms
proof (induction xs arbitrary: s)
  case (Cons x xs)
  from Cons.prems obtain u where u: "f x s = Some u" "P u" by auto
  have "\<exists>t. foldM f xs u = Some t \<and> P t"
    using u(2) Cons.prems(2) by (intro Cons.IH) auto
  with u(1) show ?case by simp
qed simp

lemma foldM_range_invariant:
  assumes "P m s" and "m \<le> n" and "\<And>i s. m \<le> i \<Longrightarrow> i < n \<Longrightarrow> P i s \<Longrightarrow> \<exists>t. f i s = Some t \<and> P (Suc i) t"
  shows "\<exists>t. foldM f [m..<n] s = Some t \<and> P n t"
  using assms(2,3)
proof (induction n rule: dec_induct)
  case (step n)
  then obtain t where "foldM f [m..<n] s = Some t" "P n t" by fastforce
  with step.prems [of n t] step.hyps show ?case by (auto simp: foldM_append)
qed (simp add: assms(1))

lemma foldM_upt_invariant:
  assumes "P 0 s" and "\<And>i s. i < n \<Longrightarrow> P i s \<Longrightarrow> \<exists>t. f i s = Some t \<and> P (Suc i) t"
  shows "\<exists>t. foldM f [0..<n] s = Some t \<and> P n t"
  using assms by (intro foldM_range_invariant) auto

lemma foldM_map: "foldM f (map g xs) s = foldM (\<lambda>x. f (g x)) xs s"
  by (induction xs arbitrary: s) (auto split: Option.bind_splits)

text \<open>Two nested loops are one loop over the pairs.\<close>

lemma foldM_product: "foldM (\<lambda>y. foldM (f y) xs) ys s = foldM (\<lambda>(y, x). f y x) (List.product ys xs) s"
proof (induction ys arbitrary: s)
  case (Cons y ys)
  have "foldM (\<lambda>(y, x). f y x) (map (Pair y) xs) s = foldM (f y) xs s" by (simp add: foldM_map)
  moreover have "foldM (\<lambda>y. foldM (f y) xs) ys = foldM (\<lambda>(y, x). f y x) (List.product ys xs)"
    using Cons.IH by blast
  ultimately show ?case by (simp add: foldM_append)
qed simp

text \<open>A loop over the indices of a list is a loop over the list.\<close>

lemma foldM_nth:
  assumes "\<And>i s. i < length xs \<Longrightarrow> f i s = g (xs ! i) s"
  shows "foldM f [0..<length xs] s = foldM g xs s"
proof -
  have "foldM f [0..<length xs] s = foldM (\<lambda>i. g (xs ! i)) [0..<length xs] s"
    by (rule foldM_cong) (simp_all add: assms)
  also have "\<dots> = foldM g (map ((!) xs) [0..<length xs]) s" by (simp add: foldM_map)
  finally show ?thesis by (simp add: map_nth)
qed

lemma fold_invariant_upt:
  assumes "P 0 s" and "\<And>i s. i < n \<Longrightarrow> P i s \<Longrightarrow> P (Suc i) (f i s)"
  shows "P n (fold f [0..<n] s)"
  using assms by (induction n arbitrary: s) auto

section \<open>An output pointer that moves through a buffer\<close>

text \<open>\<open>*p++ = c\<close> on a buffer and a position in it.\<close>

definition put_char :: "'a \<Rightarrow> 'a list \<times> nat \<Rightarrow> ('a list \<times> nat) option" where
  "put_char c out = (case out of (buf, p) \<Rightarrow> map_option (\<lambda>buf'. (buf', Suc p)) (wr buf p c))"

definition put_chars :: "'a list \<Rightarrow> 'a list \<times> nat \<Rightarrow> ('a list \<times> nat) option" where
  "put_chars cs = foldM put_char cs"

lemma put_chars_simps [simp]:
  "put_chars [] out = Some out"
  "put_chars (c # cs) out = Option.bind (put_char c out) (put_chars cs)"
  by (simp_all add: put_chars_def)

lemma put_chars_append: "put_chars (xs @ ys) out = Option.bind (put_chars xs out) (put_chars ys)"
  by (simp add: put_chars_def foldM_append)

lemma put_chars_eq:
  "p \<le> length buf \<Longrightarrow> put_chars cs (buf, p) =
     (if p + length cs \<le> length buf
      then Some (take p buf @ cs @ drop (p + length cs) buf, p + length cs) else None)"
proof (induction cs arbitrary: buf p)
  case (Cons c cs)
  show ?case
  proof (cases "p < length buf")
    case True
    then have "take (Suc p) (buf[p := c]) = take p buf @ [c]"
      by (simp add: take_Suc_conv_app_nth)
    then show ?thesis
      using True Cons.IH [of "Suc p" "buf[p := c]"] by (simp add: put_char_def cmem)
  qed (use Cons.prems in \<open>simp add: put_char_def cmem\<close>)
qed simp

section \<open>Lists\<close>

lemma nth_append_drop: "i < length xs \<Longrightarrow> xs ! i # drop (Suc i) xs = drop i xs"
  by (rule Cons_nth_drop_Suc)

lemma map_of_filter_fst: "map_of (filter (\<lambda>p. P (fst p)) xs) k = (if P k then map_of xs k else None)"
  by (induction xs) auto

lemma distinct_map_fst_filter: "distinct (map fst xs) \<Longrightarrow> distinct (map fst (filter P xs))"
  by (rule distinct_map_filter)

section \<open>Bits of words\<close>

lemma word_bit_of_nat: "bit (word_of_nat n :: 'a::len word) i \<longleftrightarrow> i < LENGTH('a) \<and> bit n i"
  by (simp add: bit_simps)

lemma xor_cancel_left [simp]: "(x :: 'a::len word) XOR (x XOR y) = y"
  by (simp flip: xor.assoc)

lemma unat_less_u8: "unat (x :: u8) < 256"
  using unsigned_less [of x] by simp


lemma bit_u8_high: "8 \<le> n \<Longrightarrow> \<not> bit (w :: u8) n"
  using bit_imp_le_length [of w n] by auto

lemma unat_ucast_u8: "unat (ucast (x :: u8) :: u32) = unat x"
  using unat_less_u8 [of x]
  by (simp add: unsigned_ucast_eq take_bit_nat_eq_self_iff)


text \<open>Two bytes are equal when their eight bits are.\<close>

lemma u8_eqI:
  assumes "bit x 0 = bit y 0" "bit x 1 = bit y 1" "bit x 2 = bit y 2" "bit x 3 = bit y 3"
    "bit x 4 = bit y 4" "bit x 5 = bit y 5" "bit x 6 = bit y 6" "bit x 7 = bit y 7"
  shows "(x :: u8) = y"
proof (rule bit_word_eqI)
  fix n assume "n < LENGTH(8)"
  then have "n = 0 \<or> n = 1 \<or> n = 2 \<or> n = 3 \<or> n = 4 \<or> n = 5 \<or> n = 6 \<or> n = 7" by auto
  with assms show "bit x n = bit y n" by blast
qed


text \<open>All bytes, for checking a table by evaluation.\<close>

definition all_bytes :: "u8 list" where
  "all_bytes = map word_of_int [0..255]"

lemma all_bytes: "c \<in> set all_bytes"
proof -
  have "uint c \<in> set [0..255]" using uint_lt2p [of c] by simp
  then have "word_of_int (uint c) \<in> set all_bytes" unfolding all_bytes_def set_map by (rule imageI)
  then show ?thesis by simp
qed

lemma list_all_bytes: "list_all P all_bytes \<Longrightarrow> P c"
  using all_bytes by (simp add: list_all_iff)


text \<open>The bits of a byte and of a byte string, most significant first.\<close>

definition byte_bits :: "u8 \<Rightarrow> bool list" where
  "byte_bits b = map (bit b) [7, 6, 5, 4, 3, 2, 1, 0]"

lemma byte_bits_nth: "i < 8 \<Longrightarrow> byte_bits b ! i = bit b (7 - i)"
  by (auto simp: byte_bits_def less_Suc_eq numeral_eq_Suc)

lemma length_byte_bits [simp]: "length (byte_bits b) = 8"
  by (simp add: byte_bits_def)


definition bits_of :: "u8 list \<Rightarrow> bool list" where
  "bits_of data = concat (map byte_bits data)"

lemma bits_of_simps [simp]: "bits_of [] = []" "bits_of (b # data) = byte_bits b @ bits_of data"
  by (simp_all add: bits_of_def)

lemma length_bits_of [simp]: "length (bits_of data) = 8 * length data"
  by (induction data) simp_all

lemma bits_of_nth: "k < 8 * length data \<Longrightarrow> bits_of data ! k = bit (data ! (k div 8)) (7 - k mod 8)"
proof (induction data arbitrary: k)
  case (Cons b data)
  show ?case
  proof (cases "k < 8")
    case False
    then have "k div 8 = Suc ((k - 8) div 8)" "k mod 8 = (k - 8) mod 8"
      by (simp_all add: div_if mod_if)
    then show ?thesis using False Cons by (simp add: nth_append)
  qed (simp add: nth_append byte_bits_nth)
qed simp

lemma bits_of_inject: "length xs = length ys \<Longrightarrow> bits_of xs = bits_of ys \<longleftrightarrow> xs = ys"
proof (induction xs ys rule: list_induct2)
  case (Cons x xs y ys)
  have "byte_bits x = byte_bits y \<longleftrightarrow> x = y" by (auto simp: byte_bits_def intro: u8_eqI)
  then show ?case using Cons.IH by simp
qed simp

end
