(* ===== verification/CString.thy ===== *)
theory CString
  imports Prelude
begin

text \<open>
  What the sources use of the C string library.  A C string is the list of its characters
  without the terminator; a buffer that holds one is a \<open>char list\<close> with the terminator
  \<open>NUL\<close> in it.  \<open>char\<close> is unsigned on this target, so a \<open>char\<close> is one of 256 codes.
\<close>

abbreviation NUL :: char where "NUL \<equiv> CHR 0x00"

text \<open>The string a buffer holds, and the buffer \<open>strdup\<close> allocates for a string.\<close>

definition cstr :: "char list \<Rightarrow> string" where
  "cstr buf = takeWhile (\<lambda>c. c \<noteq> NUL) buf"

definition strdup :: "string \<Rightarrow> char list" where
  "strdup s = cstr s @ [NUL]"

definition is_cstr :: "string \<Rightarrow> bool" where
  "is_cstr s \<longleftrightarrow> NUL \<notin> set s"

text \<open>\<open>isspace\<close> in the C locale: space, tab, newline, vertical tab, form feed, return.\<close>

definition isspace :: "char \<Rightarrow> bool" where
  "isspace c \<longleftrightarrow> c \<in> set [CHR '' '', CHR 0x09, CHR 0x0A, CHR 0x0B, CHR 0x0C, CHR 0x0D]"

text \<open>
  \<open>strsep(&p, delim)\<close>: \<open>NULL\<close> if \<open>p\<close> is \<open>NULL\<close>; otherwise the characters up to the first
  delimiter, and \<open>p\<close> moves behind that delimiter, or becomes \<open>NULL\<close> if there is none.
\<close>

definition strsep :: "string option \<Rightarrow> char list \<Rightarrow> string option \<times> string option" where
  "strsep p delim =
     (case p of
        None \<Rightarrow> (None, None)
      | Some s \<Rightarrow>
          (Some (takeWhile (\<lambda>c. c \<notin> set delim) s),
           case dropWhile (\<lambda>c. c \<notin> set delim) s of [] \<Rightarrow> None | _ # rest \<Rightarrow> Some rest))"

text \<open>How much of its string a \<open>strsep\<close> cursor has left: what makes the loops over it stop.\<close>

definition left :: "string option \<Rightarrow> nat" where
  "left p = (case p of None \<Rightarrow> 0 | Some s \<Rightarrow> Suc (length s))"

text \<open>\<open>%lu\<close> and \<open>%i\<close>: the decimal digits of a number.\<close>

definition digit_char :: "nat \<Rightarrow> char" where
  "digit_char d = char_of (48 + d)"

fun dec :: "nat \<Rightarrow> string" where
  "dec n = (if n < 10 then [digit_char n] else dec (n div 10) @ [digit_char (n mod 10)])"

declare dec.simps [simp del]

definition dec_int :: "int \<Rightarrow> string" where
  "dec_int i = (if i < 0 then CHR ''-'' # dec (nat (- i)) else dec (nat i))"

text \<open>\<open>snprintf(buf, n, ...)\<close> keeps what fits in \<open>n - 1\<close> characters; \<open>%02d\<close> pads with a zero.\<close>

definition snprintf :: "nat \<Rightarrow> string \<Rightarrow> string" where
  "snprintf n s = take (n - 1) s"

definition dec02 :: "nat \<Rightarrow> string" where
  "dec02 n = (if n < 10 then CHR ''0'' # dec n else dec n)"

text \<open>
  \<open>strtod\<close> followed by the conversion to an integer type: leading white space, a sign and
  decimal digits, up to the first other character.  Exponents, hexadecimal numbers, infinities
  and the rounding of values beyond 53 bits are left out.  The conversion to \<open>uint32_t\<close> of a value
  out of range is undefined.
\<close>

definition is_digit :: "char \<Rightarrow> bool" where
  "is_digit c \<longleftrightarrow> 48 \<le> (of_char c :: nat) \<and> (of_char c :: nat) \<le> 57"

definition digits_value :: "string \<Rightarrow> nat" where
  "digits_value s = foldl (\<lambda>n c. 10 * n + (of_char c - 48)) 0 s"

definition strtod_int :: "string \<Rightarrow> int" where
  "strtod_int s =
     (let s = dropWhile isspace s;
          (sign, s) = (if s \<noteq> [] \<and> hd s = CHR ''-'' then (-1, tl s)
            else if s \<noteq> [] \<and> hd s = CHR ''+'' then (1, tl s) else (1, s))
      in sign * int (digits_value (takeWhile is_digit s)))"

definition strtod_u32 :: "string \<Rightarrow> u32 option" where
  "strtod_u32 s =
     (let i = strtod_int s in if 0 \<le> i \<and> i < 2 ^ 32 then Some (word_of_int i) else None)"

section \<open>Lemmas\<close>

lemma is_cstr_append [simp]: "is_cstr (s @ t) \<longleftrightarrow> is_cstr s \<and> is_cstr t"
  by (auto simp: is_cstr_def)

lemma is_cstr_Nil [simp]: "is_cstr []"
  by (simp add: is_cstr_def)

lemma is_cstr_Cons [simp]: "is_cstr (c # s) \<longleftrightarrow> c \<noteq> NUL \<and> is_cstr s"
  by (auto simp: is_cstr_def)

lemma cstr_id [simp]: "is_cstr s \<Longrightarrow> cstr s = s"
  by (auto simp: is_cstr_def cstr_def takeWhile_eq_all_conv)

lemma cstr_append_NUL [simp]: "is_cstr s \<Longrightarrow> cstr (s @ NUL # t) = s"
  by (induction s) (auto simp: cstr_def)

lemma is_cstr_cstr [simp]: "is_cstr (cstr s)"
  unfolding is_cstr_def cstr_def by (metis (mono_tags, lifting) set_takeWhileD)

lemma not_isspace_NUL [simp]: "\<not> isspace NUL"
  by (simp add: isspace_def)

lemma strsep_None [simp]: "strsep None delim = (None, None)"
  by (simp add: strsep_def)

lemma left_None [simp]: "left None = 0" and left_Some [simp]: "left (Some s) = Suc (length s)"
  by (simp_all add: left_def)

lemma strsep_left:
  "strsep (Some s) delim = (t, p) \<Longrightarrow> left p < left (Some s)"
proof -
  assume "strsep (Some s) delim = (t, p)"
  then have p: "p = (case dropWhile (\<lambda>c. c \<notin> set delim) s of [] \<Rightarrow> None | _ # r \<Rightarrow> Some r)"
    by (simp add: strsep_def)
  have "length (dropWhile (\<lambda>c. c \<notin> set delim) s) \<le> length s"
    by (rule length_dropWhile_le)
  then show ?thesis unfolding p by (auto split: list.splits)
qed

lemma strsep_progress: "(Some t, q) = strsep p delim \<Longrightarrow> left q < left p"
  by (cases p) (auto dest: strsep_left [OF sym])

lemma strsep_left_le: "left (snd (strsep p delim)) \<le> left p"
  by (cases p; cases "strsep p delim") (auto dest: strsep_left)

lemma strsep_found:
  "\<forall>c\<in>set s. c \<notin> set delim \<Longrightarrow> d \<in> set delim \<Longrightarrow>
     strsep (Some (s @ d # rest)) delim = (Some s, Some rest)"
  by (simp add: strsep_def takeWhile_append2 dropWhile_append2)

lemma strsep_last:
  "\<forall>c\<in>set s. c \<notin> set delim \<Longrightarrow> strsep (Some s) delim = (Some s, None)"
  by (simp add: strsep_def takeWhile_eq_all_conv [THEN iffD2] dropWhile_eq_Nil_conv [THEN iffD2])

lemma digit_char_table: "map digit_char [0..<10] = ''0123456789''"
  by code_simp

lemma digit_chars:
  "digit_char 0 = CHR ''0''" "digit_char 1 = CHR ''1''" "digit_char (Suc 0) = CHR ''1''"
  "digit_char 2 = CHR ''2''" "digit_char 3 = CHR ''3''" "digit_char 4 = CHR ''4''"
  "digit_char 5 = CHR ''5''" "digit_char 6 = CHR ''6''" "digit_char 7 = CHR ''7''"
  "digit_char 8 = CHR ''8''" "digit_char 9 = CHR ''9''"
  by code_simp+

lemma digit_char_range: "d < 10 \<Longrightarrow> digit_char d \<in> set ''0123456789''"
  unfolding digit_char_table [symmetric] by simp

lemma dec_digits: "set (dec n) \<subseteq> set ''0123456789''"
proof (induction n rule: dec.induct)
  case (1 n)
  show ?case
  proof (cases "n < 10")
    case True
    then show ?thesis using digit_char_range [of n] by (subst dec.simps) simp
  next
    case False
    then show ?thesis using "1.IH" digit_char_range [of "n mod 10"] by (subst dec.simps) simp
  qed
qed

lemma dec_nonempty [simp]: "dec n \<noteq> []"
  by (subst dec.simps) simp

lemma dec_is_cstr [simp]: "is_cstr (dec n)"
  using dec_digits [of n] by (auto simp: is_cstr_def)


lemma digit_char_value: "d < 10 \<Longrightarrow> (of_char (digit_char d) :: nat) = 48 + d"
  by (simp add: digit_char_def)

lemma digits_value_snoc: "digits_value (s @ [c]) = 10 * digits_value s + (of_char c - 48)"
  by (simp add: digits_value_def)

lemma digits_value_dec: "digits_value (dec n) = n"
proof (induction n rule: dec.induct)
  case (1 n)
  show ?case
  proof (cases "n < 10")
    case True
    then show ?thesis by (subst dec.simps) (simp add: digits_value_def digit_char_value)
  next
    case False
    then show ?thesis
      using "1.IH" by (subst dec.simps) (simp add: digits_value_snoc digit_char_value)
  qed
qed

lemma is_digit_dec: "c \<in> set (dec n) \<Longrightarrow> is_digit c"
  using dec_digits [of n] by (auto simp: is_digit_def)

lemma is_digit_plain:
  assumes "is_digit c"
  shows "\<not> isspace c" and "c \<noteq> CHR ''-''" and "c \<noteq> CHR ''+''"
  using assms by (auto simp: is_digit_def isspace_def)

lemma strtod_dec: "strtod_int (dec n) = int n"
proof -
  have hd: "is_digit (hd (dec n))" by (rule is_digit_dec [of _ n]) simp
  moreover have "dropWhile isspace (dec n) = dec n"
    using is_digit_plain(1) [OF hd] dec_nonempty [of n] by (cases "dec n") auto
  moreover have "takeWhile is_digit (dec n) = dec n"
    by (simp add: takeWhile_eq_all_conv is_digit_dec)
  ultimately show ?thesis
    using is_digit_plain [OF hd]
    by (simp add: strtod_int_def digits_value_dec del: takeWhile_eq_all_conv)
qed

lemma strtod_u32_dec: "n < 2 ^ 32 \<Longrightarrow> strtod_u32 (dec n) = Some (word_of_nat n)"
  by (simp add: strtod_u32_def strtod_dec)

end
