(* ===== verification/WString.thy ===== *)
theory WString
  imports CString "HOL-Library.Sublist"
begin

text \<open>
  The class \<open>String\<close> of \<open>components/arduino/cores/esp32/WString.cpp\<close>.  Its buffer is a block of memory
  of one byte more than the capacity; every access outside it fails.  Whether \<open>realloc\<close> can deliver a
  block is the argument \<open>heap\<close>, and the contents of fresh memory are \<open>junk\<close>.  The functions of the C
  library are those of \<open>CString\<close> and the ones below.  Lengths are natural numbers, sums of lengths are
  assumed to stay below \<open>2 ^ 32\<close>; the differences the code takes are computed modulo \<open>2 ^ 32\<close>.
\<close>

section \<open>C strings in memory\<close>

text \<open>The string at an address of a block; without a terminator the read leaves the block.\<close>

definition c_string :: "char list \<Rightarrow> nat \<Rightarrow> string option" where
  "c_string m i = (if NUL \<in> set (drop i m) then Some (takeWhile (\<lambda>c. c \<noteq> NUL) (drop i m)) else None)"

definition strcpy :: "char list \<Rightarrow> nat \<Rightarrow> string \<Rightarrow> char list option" where
  "strcpy m i s = mem_write m i (s @ [NUL])"

text \<open>\<open>strcpy\<close> within a block, byte by byte: the source may be overwritten before it is read.\<close>

function strcpy_within :: "char list \<Rightarrow> nat \<Rightarrow> nat \<Rightarrow> char list option" where
  "strcpy_within m dst src =
     (if dst < length m then
        Option.bind (rd m src) (\<lambda>c.
        if c = NUL then Some (m[dst := c]) else strcpy_within (m[dst := c]) (dst + 1) (src + 1))
      else None)"
  by pat_completeness auto
termination by (relation "measure (\<lambda>(m, dst, _). length m - dst)") auto

declare strcpy_within.simps [simp del]

definition strstr :: "string \<Rightarrow> string \<Rightarrow> nat option" where
  "strstr s t = find (\<lambda>i. prefix t (drop i s)) [0..<length s + 1]"

definition strchr :: "string \<Rightarrow> char \<Rightarrow> nat option" where
  "strchr s c = find (\<lambda>i. (s @ [NUL]) ! i = c) [0..<length s + 1]"

definition strrchr :: "string \<Rightarrow> char \<Rightarrow> nat option" where
  "strrchr s c = find (\<lambda>i. (s @ [NUL]) ! i = c) (rev [0..<length s + 1])"

text \<open>\<open>strcmp\<close>: the difference of the first bytes that differ, the terminators included.\<close>

fun strcmp :: "string \<Rightarrow> string \<Rightarrow> int" where
  "strcmp [] [] = 0"
| "strcmp [] (d # t) = - of_char d"
| "strcmp (c # s) [] = of_char c"
| "strcmp (c # s) (d # t) = (if c = d then strcmp s t else of_char c - of_char d)"

definition tolower :: "char \<Rightarrow> char" where
  "tolower c = (let n = of_char c :: nat in if 65 \<le> n \<and> n \<le> 90 then char_of (n + 32) else c)"

definition toupper :: "char \<Rightarrow> char" where
  "toupper c = (let n = of_char c :: nat in if 97 \<le> n \<and> n \<le> 122 then char_of (n - 32) else c)"

text \<open>Subtraction of \<open>unsigned int\<close>s.\<close>

definition usub :: "nat \<Rightarrow> nat \<Rightarrow> nat" where
  "usub a b = nat ((int a - int b) mod 2 ^ 32)"

section \<open>Memory management\<close>

record String =
  buf :: "char list option"
  capacity :: nat
  len :: nat

definition init :: String where
  "init = \<lparr>buf = None, capacity = 0, len = 0\<rparr>"

definition invalidate :: "String \<Rightarrow> String" where
  "invalidate s = init"

text \<open>\<open>realloc\<close> keeps what fits of the old block.\<close>

definition realloc_block :: "(nat \<Rightarrow> char) \<Rightarrow> char list option \<Rightarrow> nat \<Rightarrow> char list" where
  "realloc_block junk b n =
     (let old = (case b of None \<Rightarrow> [] | Some m \<Rightarrow> m) in take n old @ map junk [length old..<n])"

definition changeBuffer :: "(nat \<Rightarrow> bool) \<Rightarrow> (nat \<Rightarrow> char) \<Rightarrow> nat \<Rightarrow> String \<Rightarrow> (bool \<times> String) option" where
  "changeBuffer heap junk maxStrLen s =
     (let newSize = (maxStrLen + 16) div 16 * 16 - 1
      in if heap (newSize + 1) then
           let newbuffer = realloc_block junk (buf s) (newSize + 1)
           in if newSize > len s then
                do {
                  newbuffer \<leftarrow> (if newSize > capacity s
                    then mem_write newbuffer (capacity s) (replicate (newSize - capacity s) NUL) else Some newbuffer);
                  Some (True, s\<lparr>capacity := newSize, buf := Some newbuffer\<rparr>)
                }
              else
                do {
                  newbuffer \<leftarrow> wr newbuffer newSize NUL;
                  Some (True, s\<lparr>len := newSize, capacity := newSize, buf := Some newbuffer\<rparr>)
                }
         else Some (False, s))"

definition reserve :: "(nat \<Rightarrow> bool) \<Rightarrow> (nat \<Rightarrow> char) \<Rightarrow> nat \<Rightarrow> String \<Rightarrow> (bool \<times> String) option" where
  "reserve heap junk n s =
     (if buf s \<noteq> None \<and> capacity s \<ge> n then Some (True, s)
      else do {
        (ok, s) \<leftarrow> changeBuffer heap junk n s;
        if ok then
          (if len s = 0 then do { m \<leftarrow> buf s; m \<leftarrow> wr m 0 NUL; Some (True, s\<lparr>buf := Some m\<rparr>) } else Some (True, s))
        else Some (False, s)
      })"

section \<open>Copy and move\<close>

text \<open>\<open>cs\<close> is the string at a pointer into other memory, \<open>cp\<close> such a pointer, which may be null.\<close>

definition copy :: "(nat \<Rightarrow> bool) \<Rightarrow> (nat \<Rightarrow> char) \<Rightarrow> string \<Rightarrow> nat \<Rightarrow> String \<Rightarrow> String option" where
  "copy heap junk cs n s =
     do {
       (ok, s) \<leftarrow> reserve heap junk n s;
       if \<not> ok then Some (invalidate s)
       else do { m \<leftarrow> buf s; m \<leftarrow> strcpy m 0 cs; Some (s\<lparr>len := n, buf := Some m\<rparr>) }
     }"

definition new_String :: "(nat \<Rightarrow> bool) \<Rightarrow> (nat \<Rightarrow> char) \<Rightarrow> string option \<Rightarrow> String option" where
  "new_String heap junk cp = (case cp of None \<Rightarrow> Some init | Some cs \<Rightarrow> copy heap junk cs (length cs) init)"

text \<open>\<open>move\<close> copies into a buffer that is large enough; a null pointer there faults in \<open>strcpy\<close>.\<close>

definition move :: "String \<Rightarrow> String \<Rightarrow> (String \<times> String) option" where
  "move rhs s =
     (case buf s of
        Some m \<Rightarrow>
          if capacity s \<ge> len rhs then
            do {
              r \<leftarrow> buf rhs;
              cs \<leftarrow> c_string r 0;
              m \<leftarrow> strcpy m 0 cs;
              Some (s\<lparr>buf := Some m, len := len rhs\<rparr>, rhs\<lparr>len := 0\<rparr>)
            }
          else Some (rhs, init)
      | None \<Rightarrow> Some (rhs, init))"

definition assign :: "(nat \<Rightarrow> bool) \<Rightarrow> (nat \<Rightarrow> char) \<Rightarrow> String \<Rightarrow> String \<Rightarrow> String option" where
  "assign heap junk rhs s =
     (case buf rhs of
        Some r \<Rightarrow> do { cs \<leftarrow> c_string r 0; copy heap junk cs (len rhs) s }
      | None \<Rightarrow> Some (invalidate s))"

definition assign_cstr :: "(nat \<Rightarrow> bool) \<Rightarrow> (nat \<Rightarrow> char) \<Rightarrow> string option \<Rightarrow> String \<Rightarrow> String option" where
  "assign_cstr heap junk cp s =
     (case cp of Some cs \<Rightarrow> copy heap junk cs (length cs) s | None \<Rightarrow> Some (invalidate s))"

section \<open>Concatenation\<close>

text \<open>\<open>concat(cstr, length)\<close> with \<open>cstr\<close> in other memory.\<close>

definition concat_cstr :: "(nat \<Rightarrow> bool) \<Rightarrow> (nat \<Rightarrow> char) \<Rightarrow> string option \<Rightarrow> nat \<Rightarrow> String \<Rightarrow> (bool \<times> String) option" where
  "concat_cstr heap junk cp n s =
     (let newlen = len s + n
      in case cp of
           None \<Rightarrow> Some (False, s)
         | Some cs \<Rightarrow>
             if n = 0 then Some (True, s)
             else do {
               (ok, s) \<leftarrow> reserve heap junk newlen s;
               if \<not> ok then Some (False, s)
               else do { m \<leftarrow> buf s; m \<leftarrow> strcpy m (len s) cs; Some (True, s\<lparr>len := newlen, buf := Some m\<rparr>) }
             })"

definition concat_String :: "(nat \<Rightarrow> bool) \<Rightarrow> (nat \<Rightarrow> char) \<Rightarrow> String \<Rightarrow> String \<Rightarrow> (bool \<times> String) option" where
  "concat_String heap junk t s =
     (case buf t of
        None \<Rightarrow> concat_cstr heap junk None (len t) s
      | Some m \<Rightarrow> do { cs \<leftarrow> c_string m 0; concat_cstr heap junk (Some cs) (len t) s })"

text \<open>
  \<open>concat\<close> of a string to itself: the pointer is the own buffer.  If \<open>reserve\<close> has moved it, the
  pointer dangles; otherwise \<open>strcpy\<close> copies within the block.
\<close>

definition concat_self :: "(nat \<Rightarrow> bool) \<Rightarrow> (nat \<Rightarrow> char) \<Rightarrow> String \<Rightarrow> (bool \<times> String) option" where
  "concat_self heap junk s =
     (let newlen = len s + len s
      in case buf s of
           None \<Rightarrow> Some (False, s)
         | Some m \<Rightarrow>
             if len s = 0 then Some (True, s)
             else if capacity s \<ge> newlen then
               do { m \<leftarrow> strcpy_within m (len s) 0; Some (True, s\<lparr>len := newlen, buf := Some m\<rparr>) }
             else do {
               (ok, s) \<leftarrow> reserve heap junk newlen s;
               if \<not> ok then Some (False, s) else None
             })"

definition concat_char :: "(nat \<Rightarrow> bool) \<Rightarrow> (nat \<Rightarrow> char) \<Rightarrow> char \<Rightarrow> String \<Rightarrow> (bool \<times> String) option" where
  "concat_char heap junk c s = concat_cstr heap junk (Some (cstr [c, NUL])) 1 s"

definition concat_unsigned :: "(nat \<Rightarrow> bool) \<Rightarrow> (nat \<Rightarrow> char) \<Rightarrow> u32 \<Rightarrow> String \<Rightarrow> (bool \<times> String) option" where
  "concat_unsigned heap junk num s =
     (let b = dec (unat num) in concat_cstr heap junk (Some b) (length b) s)"

definition concat_int :: "(nat \<Rightarrow> bool) \<Rightarrow> (nat \<Rightarrow> char) \<Rightarrow> u32 \<Rightarrow> String \<Rightarrow> (bool \<times> String) option" where
  "concat_int heap junk num s =
     (let b = dec_int (sint num) in concat_cstr heap junk (Some b) (length b) s)"

text \<open>The operators \<open>+\<close>: a failure invalidates the sum.\<close>

definition plus_String :: "(nat \<Rightarrow> bool) \<Rightarrow> (nat \<Rightarrow> char) \<Rightarrow> String \<Rightarrow> String \<Rightarrow> String option" where
  "plus_String heap junk lhs rhs =
     do { (ok, a) \<leftarrow> concat_String heap junk rhs lhs; Some (if \<not> ok then invalidate a else a) }"

definition plus_cstr :: "(nat \<Rightarrow> bool) \<Rightarrow> (nat \<Rightarrow> char) \<Rightarrow> String \<Rightarrow> string option \<Rightarrow> String option" where
  "plus_cstr heap junk lhs cs =
     (case cs of None \<Rightarrow> Some (invalidate lhs)
      | Some c \<Rightarrow> do { (ok, a) \<leftarrow> concat_cstr heap junk cs (length c) lhs; Some (if \<not> ok then invalidate a else a) })"

definition plus_char :: "(nat \<Rightarrow> bool) \<Rightarrow> (nat \<Rightarrow> char) \<Rightarrow> String \<Rightarrow> char \<Rightarrow> String option" where
  "plus_char heap junk lhs c =
     do { (ok, a) \<leftarrow> concat_char heap junk c lhs; Some (if \<not> ok then invalidate a else a) }"

section \<open>Comparison\<close>

text \<open>The string of a buffer, and its first byte.\<close>

definition text_of :: "String \<Rightarrow> string option" where
  "text_of s = Option.bind (buf s) (\<lambda>m. c_string m 0)"

definition first_byte :: "String \<Rightarrow> int option" where
  "first_byte s = Option.bind (buf s) (\<lambda>m. map_option of_char (rd m 0))"

definition compareTo :: "String \<Rightarrow> String \<Rightarrow> int option" where
  "compareTo s t =
     (if buf s = None \<or> buf t = None then
        if buf t \<noteq> None \<and> len t > 0 then map_option (\<lambda>c. - c) (first_byte t)
        else if buf s \<noteq> None \<and> len s > 0 then first_byte s
        else Some 0
      else do { x \<leftarrow> text_of s; y \<leftarrow> text_of t; Some (strcmp x y) })"

definition equals :: "String \<Rightarrow> String \<Rightarrow> bool option" where
  "equals s t = (if len s = len t then map_option (\<lambda>c. c = 0) (compareTo s t) else Some False)"

definition equals_cstr :: "String \<Rightarrow> string option \<Rightarrow> bool option" where
  "equals_cstr s cp =
     (if len s = 0 then Some (case cp of None \<Rightarrow> True | Some cs \<Rightarrow> cs = [])
      else case cp of
        None \<Rightarrow> map_option (\<lambda>c. c = 0) (first_byte s)
      | Some cs \<Rightarrow> do { x \<leftarrow> text_of s; Some (strcmp x cs = 0) })"

definition less_String :: "String \<Rightarrow> String \<Rightarrow> bool option" where
  "less_String s t = map_option (\<lambda>c. c < 0) (compareTo s t)"

definition greater_String :: "String \<Rightarrow> String \<Rightarrow> bool option" where
  "greater_String s t = map_option (\<lambda>c. c > 0) (compareTo s t)"

definition less_eq_String :: "String \<Rightarrow> String \<Rightarrow> bool option" where
  "less_eq_String s t = map_option (\<lambda>c. c \<le> 0) (compareTo s t)"

definition greater_eq_String :: "String \<Rightarrow> String \<Rightarrow> bool option" where
  "greater_eq_String s t = map_option (\<lambda>c. c \<ge> 0) (compareTo s t)"

text \<open>The loop of \<open>equalsIgnoreCase\<close> stops at the terminator of the first string.\<close>

fun same_letters :: "string \<Rightarrow> char list \<Rightarrow> bool option" where
  "same_letters [] m = Some True"
| "same_letters (c # cs) [] = None"
| "same_letters (c # cs) (d # m) = (if tolower c \<noteq> tolower d then Some False else same_letters cs m)"

definition equalsIgnoreCase :: "String \<Rightarrow> String \<Rightarrow> bool option" where
  "equalsIgnoreCase s t =
     (if len s \<noteq> len t then Some False
      else if len s = 0 then Some True
      else do { x \<leftarrow> text_of s; m \<leftarrow> buf t; same_letters x m })"

text \<open>\<open>strncmp\<close> of a string in a block with the first \<open>n\<close> bytes of another, for equality.\<close>

definition startsWith_at :: "String \<Rightarrow> String \<Rightarrow> nat \<Rightarrow> bool option" where
  "startsWith_at s t offset =
     (if offset > usub (len s) (len t) \<or> buf s = None \<or> buf t = None then Some False
      else do {
        m \<leftarrow> buf s;
        x \<leftarrow> c_string m offset;
        y \<leftarrow> text_of t;
        Some (take (len t) x = take (len t) y)
      })"

definition startsWith :: "String \<Rightarrow> String \<Rightarrow> bool option" where
  "startsWith s t = (if len s < len t then Some False else startsWith_at s t 0)"

definition endsWith :: "String \<Rightarrow> String \<Rightarrow> bool option" where
  "endsWith s t =
     (if len s < len t \<or> buf s = None \<or> buf t = None then Some False
      else do { m \<leftarrow> buf s; x \<leftarrow> c_string m (len s - len t); y \<leftarrow> text_of t; Some (strcmp x y = 0) })"

section \<open>Character access\<close>

definition charAt :: "String \<Rightarrow> nat \<Rightarrow> char option" where
  "charAt s loc = (case buf s of None \<Rightarrow> Some NUL | Some m \<Rightarrow> if loc \<ge> len s then Some NUL else rd m loc)"

definition setCharAt :: "nat \<Rightarrow> char \<Rightarrow> String \<Rightarrow> String option" where
  "setCharAt loc c s =
     (if loc < len s then do { m \<leftarrow> buf s; m \<leftarrow> wr m loc c; Some (s\<lparr>buf := Some m\<rparr>) } else Some s)"

text \<open>\<open>getBytes\<close> into a block; \<open>strncpy\<close> pads with null bytes.\<close>

definition getBytes :: "String \<Rightarrow> char list \<Rightarrow> nat \<Rightarrow> nat \<Rightarrow> char list option" where
  "getBytes s out bufsize index =
     (if bufsize = 0 then Some out
      else if index \<ge> len s then wr out 0 NUL
      else
        let n = bufsize - 1;
            n = (if n > len s - index then len s - index else n)
        in do {
          m \<leftarrow> buf s;
          x \<leftarrow> c_string m index;
          out \<leftarrow> mem_write out 0 (take n x @ replicate (n - length x) NUL);
          wr out n NUL
        })"

section \<open>Search\<close>

definition indexOf_char :: "String \<Rightarrow> char \<Rightarrow> nat \<Rightarrow> int option" where
  "indexOf_char s ch fromIndex =
     (if fromIndex \<ge> len s then Some (-1)
      else do {
        m \<leftarrow> buf s;
        x \<leftarrow> c_string m fromIndex;
        Some (case strchr x ch of None \<Rightarrow> -1 | Some i \<Rightarrow> int (fromIndex + i))
      })"

definition indexOf :: "String \<Rightarrow> String \<Rightarrow> nat \<Rightarrow> int option" where
  "indexOf s t fromIndex =
     (if fromIndex \<ge> len s then Some (-1)
      else do {
        m \<leftarrow> buf s;
        x \<leftarrow> c_string m fromIndex;
        y \<leftarrow> text_of t;
        Some (case strstr x y of None \<Rightarrow> -1 | Some i \<Rightarrow> int (fromIndex + i))
      })"

text \<open>The buffer is cut behind \<open>fromIndex\<close> for the search and restored.\<close>

definition lastIndexOf_char :: "String \<Rightarrow> char \<Rightarrow> nat \<Rightarrow> (int \<times> String) option" where
  "lastIndexOf_char s ch fromIndex =
     (if fromIndex \<ge> len s then Some (-1, s)
      else do {
        m \<leftarrow> buf s;
        tempchar \<leftarrow> rd m (fromIndex + 1);
        m \<leftarrow> wr m (fromIndex + 1) NUL;
        x \<leftarrow> c_string m 0;
        m \<leftarrow> wr m (fromIndex + 1) tempchar;
        Some (case strrchr x ch of None \<Rightarrow> -1 | Some i \<Rightarrow> int i, s\<lparr>buf := Some m\<rparr>)
      })"

text \<open>The loop over the occurrences: \<open>p\<close> is the pointer, \<open>found\<close> the last one not after \<open>fromIndex\<close>.\<close>

function last_loop :: "char list \<Rightarrow> string \<Rightarrow> nat \<Rightarrow> nat \<Rightarrow> int \<Rightarrow> int option" where
  "last_loop m y fromIndex p found =
     (if p \<le> fromIndex then
        Option.bind (c_string m p) (\<lambda>x.
        case strstr x y of
          None \<Rightarrow> Some found
        | Some i \<Rightarrow> last_loop m y fromIndex (p + i + 1) (if p + i \<le> fromIndex then int (p + i) else found))
      else Some found)"
  by pat_completeness auto
termination by (relation "measure (\<lambda>(_, _, f, p, _). f + 1 - p)") auto

declare last_loop.simps [simp del]

definition lastIndexOf :: "String \<Rightarrow> String \<Rightarrow> nat \<Rightarrow> int option" where
  "lastIndexOf s t fromIndex =
     (if len t = 0 \<or> len s = 0 \<or> len t > len s then Some (-1)
      else
        let fromIndex = (if fromIndex \<ge> len s then len s - 1 else fromIndex)
        in do { m \<leftarrow> buf s; y \<leftarrow> text_of t; last_loop m y fromIndex 0 (-1) })"

text \<open>\<open>substring\<close> cuts the buffer for the copy and restores it: the string itself is unchanged.\<close>

definition substring :: "(nat \<Rightarrow> bool) \<Rightarrow> (nat \<Rightarrow> char) \<Rightarrow> String \<Rightarrow> nat \<Rightarrow> nat \<Rightarrow> String option" where
  "substring heap junk s l r =
     (let (l, r) = (if l > r then (r, l) else (l, r))
      in do {
        out \<leftarrow> new_String heap junk (Some []);
        if l \<ge> len s then Some out
        else
          let r = (if r > len s then len s else r)
          in do {
            m \<leftarrow> buf s;
            m \<leftarrow> wr m r NUL;
            x \<leftarrow> c_string m l;
            assign_cstr heap junk (Some x) out
          }
      })"

section \<open>Modification\<close>

definition map_text :: "(char \<Rightarrow> char) \<Rightarrow> String \<Rightarrow> String option" where
  "map_text f s =
     (case buf s of None \<Rightarrow> Some s
      | Some m \<Rightarrow> do { x \<leftarrow> c_string m 0; m \<leftarrow> mem_write m 0 (map f x); Some (s\<lparr>buf := Some m\<rparr>) })"

definition toLowerCase :: "String \<Rightarrow> String option" where
  "toLowerCase s = map_text tolower s"

definition toUpperCase :: "String \<Rightarrow> String option" where
  "toUpperCase s = map_text toupper s"

text \<open>
  \<open>for(p = buffer; *p; p++) if(*p == find) *p = replace\<close>; a replacement by the null character is written
  and then ends the loop.
\<close>

fun replace_chars :: "char \<Rightarrow> char \<Rightarrow> char list \<Rightarrow> char list option" where
  "replace_chars a b [] = None"
| "replace_chars a b (c # m) =
     (if c = NUL then Some (c # m)
      else map_option ((#) (if c = a then b else c)) (replace_chars a b m))"

definition replace_char :: "char \<Rightarrow> char \<Rightarrow> String \<Rightarrow> String option" where
  "replace_char a b s =
     (case buf s of None \<Rightarrow> Some s | Some m \<Rightarrow> do { m \<leftarrow> replace_chars a b m; Some (s\<lparr>buf := Some m\<rparr>) })"

text \<open>The three loops of \<open>replace\<close>, for a replacement of the same length, a shorter and a longer one.\<close>

partial_function (option) replace_same :: "string \<Rightarrow> string \<Rightarrow> char list \<Rightarrow> nat \<Rightarrow> char list option" where
  "replace_same y z m readFrom =
     Option.bind (c_string m readFrom) (\<lambda>x.
     case strstr x y of
       None \<Rightarrow> Some m
     | Some n \<Rightarrow>
         Option.bind (mem_write m (readFrom + n) z) (\<lambda>m.
         replace_same y z m (readFrom + n + length z)))"

partial_function (option) replace_shorter :: "string \<Rightarrow> string \<Rightarrow> nat \<Rightarrow> char list \<Rightarrow> nat \<Rightarrow> nat \<Rightarrow> nat \<Rightarrow>
    (char list \<times> nat) option" where
  "replace_shorter y z find_len m readFrom writeTo l =
     Option.bind (c_string m readFrom) (\<lambda>x.
     case strstr x y of
       None \<Rightarrow> Option.bind (strcpy m writeTo x) (\<lambda>m. Some (m, l))
     | Some n \<Rightarrow>
         Option.bind (mem_read m readFrom n) (\<lambda>chunk.
         Option.bind (mem_write m writeTo chunk) (\<lambda>m.
         Option.bind (mem_write m (writeTo + n) z) (\<lambda>m.
         replace_shorter y z find_len m (readFrom + n + find_len) (writeTo + n + length z) (l + length z - find_len)))))"

partial_function (option) count_size :: "string \<Rightarrow> nat \<Rightarrow> nat \<Rightarrow> char list \<Rightarrow> nat \<Rightarrow> nat \<Rightarrow> nat option" where
  "count_size y find_len diff m readFrom size' =
     Option.bind (c_string m readFrom) (\<lambda>x.
     case strstr x y of
       None \<Rightarrow> Some size'
     | Some n \<Rightarrow> count_size y find_len diff m (readFrom + n + find_len) (size' + diff))"

partial_function (option) replace_longer :: "String \<Rightarrow> string \<Rightarrow> nat \<Rightarrow> int \<Rightarrow> String \<Rightarrow> String option" where
  "replace_longer t z diff index s =
     (if index \<ge> 0 then
        Option.bind (lastIndexOf s t (nat index)) (\<lambda>index.
        if index \<ge> 0 then
          let readFrom = nat index + len t
          in Option.bind (buf s) (\<lambda>m.
             Option.bind (mem_read m readFrom (len s - readFrom)) (\<lambda>rest.
             Option.bind (mem_write m (readFrom + diff) rest) (\<lambda>m.
             Option.bind (wr m (len s + diff) NUL) (\<lambda>m.
             Option.bind (mem_write m (nat index) z) (\<lambda>m.
             replace_longer t z diff (index - 1) (s\<lparr>len := len s + diff, buf := Some m\<rparr>))))))
        else Some s)
      else Some s)"

declare replace_same.simps [code] replace_shorter.simps [code] count_size.simps [code] replace_longer.simps [code]

definition replace_String :: "(nat \<Rightarrow> bool) \<Rightarrow> (nat \<Rightarrow> char) \<Rightarrow> String \<Rightarrow> String \<Rightarrow> String \<Rightarrow> String option" where
  "replace_String heap junk t u s =
     (if len s = 0 \<or> len t = 0 then Some s
      else
        do {
          m \<leftarrow> buf s;
          y \<leftarrow> text_of t;
          z \<leftarrow> (case buf u of None \<Rightarrow> (if len u = 0 then Some [] else None) | Some b \<Rightarrow> mem_read b 0 (len u));
          if len u = len t then
            do { m \<leftarrow> replace_same y z m 0; Some (s\<lparr>buf := Some m\<rparr>) }
          else if len u < len t then
            do { (m, l) \<leftarrow> replace_shorter y z (len t) m 0 0 (len s); Some (s\<lparr>buf := Some m, len := l\<rparr>) }
          else
            do {
              n \<leftarrow> count_size y (len t) (len u - len t) m 0 (len s);
              if n = len s then Some s
              else do {
                (ok, s) \<leftarrow> (if n > capacity s then changeBuffer heap junk n s else Some (True, s));
                if \<not> ok then Some s
                else replace_longer t z (len u - len t) (int (len s) - 1) s
              }
            }
        })"

definition remove :: "nat \<Rightarrow> nat \<Rightarrow> String \<Rightarrow> String option" where
  "remove index count s =
     (if index \<ge> len s then Some s
      else if count = 0 then Some s
      else
        let count = (if count > len s - index then len s - index else count);
            l = len s - count
        in do {
          m \<leftarrow> buf s;
          x \<leftarrow> c_string m (index + count);
          m \<leftarrow> mem_write m index (take (l - index) x @ replicate (l - index - length x) NUL);
          m \<leftarrow> wr m l NUL;
          Some (s\<lparr>len := l, buf := Some m\<rparr>)
        })"

definition remove_from :: "nat \<Rightarrow> String \<Rightarrow> String option" where
  "remove_from index s = remove index (2 ^ 32 - 1) s"

text \<open>The two loops of \<open>trim\<close>; \<open>fin\<close> is the pointer \<open>end\<close>.\<close>

function trim_begin :: "char list \<Rightarrow> nat \<Rightarrow> nat option" where
  "trim_begin m p = Option.bind (rd m p) (\<lambda>c. if isspace c then trim_begin m (p + 1) else Some p)"
  by pat_completeness auto
termination by (relation "measure (\<lambda>(m, p). length m - p)") (auto simp: rd_def split: if_splits)

function trim_end :: "char list \<Rightarrow> int \<Rightarrow> int \<Rightarrow> int option" where
  "trim_end m begin fin =
     (if fin < 0 then None
      else Option.bind (rd m (nat fin)) (\<lambda>c. if isspace c \<and> fin \<ge> begin then trim_end m begin (fin - 1) else Some fin))"
  by pat_completeness auto
termination by (relation "measure (\<lambda>(m, _, fin). nat (fin + 1))") auto

declare trim_begin.simps [simp del] trim_end.simps [simp del]

definition trim :: "String \<Rightarrow> String option" where
  "trim s =
     (case buf s of None \<Rightarrow> Some s
      | Some m \<Rightarrow>
          if len s = 0 then Some s
          else do {
            b \<leftarrow> trim_begin m 0;
            e \<leftarrow> trim_end m (int b) (int (len s) - 1);
            let l = nat (e + 1 - int b);
            m \<leftarrow> (if b > 0 then do { x \<leftarrow> mem_read m b l; mem_write m 0 x } else Some m);
            m \<leftarrow> wr m l NUL;
            Some (s\<lparr>len := l, buf := Some m\<rparr>)
          })"

end
