(* ===== verification/WStringText.thy ===== *)
theory WStringText
  imports WString
begin

text \<open>
  What the operations of \<open>WString\<close> promise.  \<open>represents s x\<close> relates an object to the text it holds:
  its buffer has one byte more than the capacity and starts with the text and its terminator.  Each
  operation is related to the operation on lists of characters it stands for; an allocation that fails
  is a branch of the result.
\<close>

section \<open>The text of a string object\<close>

definition represents :: "String \<Rightarrow> string \<Rightarrow> bool" where
  "represents s x \<longleftrightarrow> is_cstr x \<and> len s = length x \<and>
     (case buf s of None \<Rightarrow> x = [] \<and> capacity s = 0
      | Some m \<Rightarrow> length m = capacity s + 1 \<and> take (length x + 1) m = x @ [NUL])"

lemma represents_cstr: "represents s x \<Longrightarrow> is_cstr x"
  and represents_len: "represents s x \<Longrightarrow> len s = length x"
  by (simp_all add: represents_def)

lemma represents_None: "represents s x \<Longrightarrow> buf s = None \<Longrightarrow> x = [] \<and> s = init"
  by (auto simp: represents_def init_def intro: String.equality)

lemma represents_Some:
  assumes "represents s x" "buf s = Some m"
  obtains rest where "m = x @ NUL # rest" "capacity s = length x + length rest"
proof (rule that)
  have t: "take (length x + 1) m = x @ [NUL]" and l: "length m = capacity s + 1"
    using assms by (auto simp: represents_def)
  have "take (length x + 1) m @ drop (length x + 1) m = m" by (rule append_take_drop_id)
  with t show m: "m = x @ NUL # drop (length x + 1) m" by (metis append.assoc append_Cons append_Nil)
  show "capacity s = length x + length (drop (length x + 1) m)"
    using l arg_cong [OF t, of length] by simp
qed

lemma representsI:
  "is_cstr x \<Longrightarrow> len s = length x \<Longrightarrow> buf s = Some (x @ NUL # rest) \<Longrightarrow> capacity s = length x + length rest \<Longrightarrow>
     represents s x"
  by (simp add: represents_def)

lemma represents_init [simp]: "represents init x \<longleftrightarrow> x = []"
  by (auto simp: represents_def init_def)

lemma represents_buf: "represents s x \<Longrightarrow> x \<noteq> [] \<Longrightarrow> buf s \<noteq> None"
  by (auto simp: represents_def split: option.splits)

text \<open>A string of the given text with \<open>n\<close> spare bytes.\<close>

definition sample :: "string \<Rightarrow> nat \<Rightarrow> String" where
  "sample x n = \<lparr>buf = Some (x @ NUL # replicate n NUL), capacity = length x + n, len = length x\<rparr>"

lemma represents_sample: "is_cstr x \<Longrightarrow> represents (sample x n) x"
  by (rule representsI [where rest = "replicate n NUL"]) (simp_all add: sample_def)

text \<open>The pointer into a buffer that holds a terminated text.\<close>

lemma c_string_at: "is_cstr x \<Longrightarrow> i \<le> length x \<Longrightarrow> c_string (x @ NUL # rest) i = Some (drop i x)"
proof -
  assume x: "is_cstr x" and i: "i \<le> length x"
  have "drop i (x @ NUL # rest) = drop i x @ NUL # rest" using i by simp
  moreover have "is_cstr (drop i x)" using x by (auto simp: is_cstr_def dest: in_set_dropD)
  ultimately show ?thesis
    using cstr_append_NUL [of "drop i x" rest] by (simp add: c_string_def cstr_def)
qed

lemma c_string_0: "is_cstr x \<Longrightarrow> c_string (x @ NUL # rest) 0 = Some x"
  using c_string_at [of x 0 rest] by simp

lemma text_of_represents: "represents s x \<Longrightarrow> buf s \<noteq> None \<Longrightarrow> text_of s = Some x"
  using c_string_0 [of x] represents_cstr [of s x] by (auto simp: text_of_def elim!: represents_Some)

lemma strcpy_at:
  "length x + length y \<le> length m + length r \<Longrightarrow> length r = length x \<Longrightarrow> length m > length y \<Longrightarrow>
     strcpy (r @ m) (length x) y = Some (r @ y @ NUL # drop (length y + 1) m)"
  by (simp add: strcpy_def cmem)

section \<open>Memory management\<close>

lemma buffer_size: "n \<le> (n + 16) div 16 * 16 - (1::nat)"
  by presburger

definition block_size :: "nat \<Rightarrow> nat" where
  "block_size n = (n + 16) div 16 * 16"

lemma block_size: "n < block_size n" "0 < block_size n"
  unfolding block_size_def by presburger+

text \<open>A buffer that grows keeps its text.\<close>

lemma changeBuffer_grows:
  assumes s: "represents s x" "buf s = Some m" and n: "capacity s < n" and h: "heap (block_size n)"
  shows "\<exists>s'. changeBuffer heap junk n s = Some (True, s') \<and> represents s' x \<and> buf s' \<noteq> None \<and> n \<le> capacity s'"
proof -
  obtain k where k: "block_size n = Suc k" "n \<le> k"
    using block_size [of n] by (cases "block_size n") auto
  obtain rest where m: "m = x @ NUL # rest" and c: "capacity s = length x + length rest"
    using represents_Some [OF s] by blast
  let ?new = "realloc_block junk (buf s) (k + 1)"
  let ?m = "take (capacity s) ?new @ replicate (k - capacity s) NUL @ drop k ?new"
  have l: "length ?new = k + 1" and t: "take (capacity s) ?new = take (capacity s) m"
    using n k(2) s by (simp_all add: realloc_block_def represents_def)
  have "take (length x + 1) ?m = x @ [NUL]"
  proof (cases rest)
    case Nil
    then show ?thesis unfolding t using m c n k(2) by (cases "k - length x") auto
  next
    case (Cons r rs)
    then show ?thesis unfolding t using m c by simp
  qed
  then have "represents (s\<lparr>capacity := k, buf := Some ?m\<rparr>) x"
    using l n k(2) represents_cstr [OF s(1)] represents_len [OF s(1)] by (simp add: represents_def)
  moreover have "mem_write ?new (capacity s) (replicate (k - capacity s) NUL) = Some ?m"
    using l n k(2) by (simp add: cmem)
  then have "changeBuffer heap junk n s = Some (True, s\<lparr>capacity := k, buf := Some ?m\<rparr>)"
    using h k n c represents_len [OF s(1)]
    by (simp add: changeBuffer_def block_size_def [symmetric] Let_def)
  ultimately show ?thesis using k(2) by auto
qed

lemma changeBuffer_fails:
  "\<not> heap (block_size n) \<Longrightarrow> changeBuffer heap junk n s = Some (False, s)"
  by (simp add: changeBuffer_def block_size_def [symmetric] Let_def) (use block_size [of n] in simp)

lemma changeBuffer_fresh:
  assumes "heap (block_size n)"
  shows "\<exists>k m. changeBuffer heap junk n init = Some (True, \<lparr>buf = Some m, capacity = k, len = 0\<rparr>) \<and>
    n \<le> k \<and> length m = k + 1"
proof -
  obtain k where k: "block_size n = Suc k" "n \<le> k"
    using block_size [of n] by (cases "block_size n") auto
  then show ?thesis
    using assms by (auto simp: changeBuffer_def init_def block_size_def [symmetric] realloc_block_def Let_def cmem)
qed

text \<open>A request for more room leaves the text alone, whether it is met or not.\<close>

lemma reserve_meets:
  assumes s: "represents s x"
  shows "\<exists>r s'. reserve heap junk n s = Some (r, s') \<and> represents s' x \<and>
     (r \<longleftrightarrow> (buf s \<noteq> None \<and> n \<le> capacity s) \<or> heap (block_size n)) \<and>
     (r \<longrightarrow> buf s' \<noteq> None \<and> n \<le> capacity s') \<and> (\<not> r \<longrightarrow> s' = s)"
proof (cases "buf s \<noteq> None \<and> n \<le> capacity s")
  case True
  then show ?thesis using s by (auto simp: reserve_def)
next
  case no: False
  show ?thesis
  proof (cases "heap (block_size n)")
    case False
    then show ?thesis using no s by (auto simp: reserve_def changeBuffer_fails)
  next
    case h: True
    show ?thesis
    proof (cases "buf s")
      case None
      then have e: "x = []" "s = init" using represents_None [OF s] by auto
      obtain k m where "changeBuffer heap junk n init = Some (True, \<lparr>buf = Some m, capacity = k, len = 0\<rparr>)"
        "n \<le> k" "length m = k + 1"
        using changeBuffer_fresh [of heap n junk] h by blast
      then show ?thesis
        using e no h by (cases m) (auto simp: reserve_def represents_def init_def cmem)
    next
      case (Some m)
      then obtain s' where s': "changeBuffer heap junk n s = Some (True, s')" "represents s' x" "buf s' \<noteq> None" "n \<le> capacity s'"
        using changeBuffer_grows [of s x m n heap junk] s h no by auto
      then obtain m' where m': "buf s' = Some m'" by auto
      then obtain rest where rest: "m' = x @ NUL # rest" using represents_Some [OF s'(2)] by blast
      have "reserve heap junk n s = Some (True, s')"
      proof (cases "x = []")
        case True
        then have "wr m' 0 NUL = Some m'" "len s' = 0"
          using rest represents_len [OF s'(2)] by (simp_all add: cmem)
        moreover have "s'\<lparr>buf := Some m'\<rparr> = s'" using m' by simp
        ultimately show ?thesis using s'(1) m' no Some by (simp add: reserve_def)
      next
        case False
        then show ?thesis using s'(1) no Some represents_len [OF s'(2)] by (simp add: reserve_def)
      qed
      with s' h show ?thesis by blast
    qed
  qed
qed

section \<open>Copy and concatenation\<close>

lemma copy_copies:
  assumes "represents s x" "is_cstr y"
  shows "\<exists>s'. copy heap junk y (length y) s = Some s' \<and>
    represents s' (if (buf s \<noteq> None \<and> length y \<le> capacity s) \<or> heap (block_size (length y)) then y else [])"
proof -
  obtain r s' where r: "reserve heap junk (length y) s = Some (r, s')" "represents s' x"
     "r \<longleftrightarrow> (buf s \<noteq> None \<and> length y \<le> capacity s) \<or> heap (block_size (length y))"
     "r \<longrightarrow> buf s' \<noteq> None \<and> length y \<le> capacity s'"
    using reserve_meets [OF assms(1)] by blast
  show ?thesis
  proof (cases r)
    case True
    with r(4) obtain m where m: "buf s' = Some m" by auto
    then have "length m = capacity s' + 1" using r(2) by (simp add: represents_def)
    then have "strcpy m 0 y = Some (y @ NUL # drop (length y + 1) m)" "length y < length m"
      using r(4) True by (simp_all add: strcpy_def cmem)
    then show ?thesis
      using True r m assms(2) \<open>length m = _\<close>
      by (auto simp: copy_def intro!: representsI [where rest = "drop (length y + 1) m"])
  next
    case False
    then show ?thesis using r by (auto simp: copy_def invalidate_def)
  qed
qed

text \<open>\<open>concat\<close> on the text a string represents.\<close>

lemma concat_adds:
  assumes s: "represents s x" and y: "is_cstr y"
  shows "\<exists>r s'. concat_cstr heap junk (Some y) (length y) s = Some (r, s') \<and>
    (r \<longleftrightarrow> y = [] \<or> (buf s \<noteq> None \<and> length (x @ y) \<le> capacity s) \<or> heap (block_size (length (x @ y)))) \<and>
    (if r then represents s' (x @ y) else s' = s)"
proof (cases "y = []")
  case False
  obtain r s' where r: "reserve heap junk (length (x @ y)) s = Some (r, s')" "represents s' x"
     "r \<longleftrightarrow> (buf s \<noteq> None \<and> length (x @ y) \<le> capacity s) \<or> heap (block_size (length (x @ y)))"
     "r \<longrightarrow> buf s' \<noteq> None \<and> length (x @ y) \<le> capacity s'" "\<not> r \<longrightarrow> s' = s"
    using reserve_meets [OF s] by blast
  show ?thesis
  proof (cases r)
    case True
    with r(4) obtain m where m: "buf s' = Some m" by auto
    obtain rest where rest: "m = x @ NUL # rest" "capacity s' = length x + length rest"
      using represents_Some [OF r(2) m] by blast
    have "strcpy m (length x) y = Some (x @ y @ NUL # drop (length y) rest)"
      using rest r(4) True by (simp add: strcpy_def cmem)
    then have "concat_cstr heap junk (Some y) (length y) s =
        Some (True, s'\<lparr>len := length (x @ y), buf := Some (x @ y @ NUL # drop (length y) rest)\<rparr>)" (is "_ = Some (True, ?s)")
      using False True r(1) m represents_len [OF s] represents_len [OF r(2)] by (simp add: concat_cstr_def Let_def)
    moreover have "represents ?s (x @ y)"
      using rest r(4) True y represents_cstr [OF s]
      by (intro representsI [where rest = "drop (length y) rest"]) auto
    ultimately show ?thesis using True r(3) by auto
  next
    case False
    then show ?thesis using r \<open>y \<noteq> []\<close> represents_len [OF s] by (auto simp: concat_cstr_def Let_def)
  qed
qed (use s in \<open>auto simp: concat_cstr_def Let_def\<close>)

text \<open>
  C21.  \<open>concat\<close> appends, or returns false and leaves the string alone; it fails only if the text is too long for
  the buffer and there is no memory for a larger one.
\<close>
theorem concat_appends:
  assumes s: "represents s x" and y: "is_cstr y"
  shows "\<exists>r s'. concat_cstr heap junk (Some y) (length y) s = Some (r, s') \<and>
    (r \<longleftrightarrow> y = [] \<or> (buf s \<noteq> None \<and> length (x @ y) \<le> capacity s) \<or> heap (block_size (length (x @ y)))) \<and>
    (if r then represents s' (x @ y) else s' = s)"
  using assms by (rule concat_adds)

lemma concat_appends_witness:
  "\<exists>s'. concat_cstr (\<lambda>_. True) (\<lambda>_. NUL) (Some ''bc'') (length ''bc'') (sample ''a'' 1) = Some (True, s') \<and> represents s' ''abc''"
  using concat_appends [OF represents_sample [of "''a''" 1], of "''bc''" "\<lambda>_. True" "\<lambda>_. NUL"] by (auto split: if_splits)

section \<open>Cutting texts\<close>

text \<open>\<open>remove(i, n)\<close> takes \<open>n\<close> characters out, or what there is of them.\<close>

lemma is_cstr_takeI: "is_cstr x \<Longrightarrow> is_cstr (take n x)"
  by (auto simp: is_cstr_def dest: in_set_takeD)

lemma is_cstr_dropI: "is_cstr x \<Longrightarrow> is_cstr (drop n x)"
  by (auto simp: is_cstr_def dest: in_set_dropD)

text \<open>Writing the terminator behind a text that is in the buffer.\<close>

lemma terminate_text:
  assumes "is_cstr y" "length m = capacity s + 1" "take (length y) m = y" "length y \<le> capacity s"
  shows "\<exists>m'. wr m (length y) NUL = Some m' \<and> represents (s\<lparr>len := length y, buf := Some m'\<rparr>) y"
proof -
  have "take (length y + 1) (m[length y := NUL]) = y @ [NUL]"
    using assms by (simp add: take_Suc_conv_app_nth)
  then show ?thesis using assms by (simp add: cmem represents_def)
qed

lemma remove_removes:
  assumes s: "represents s x"
  shows "\<exists>s'. remove i n s = Some s' \<and> represents s' (take i x @ drop (i + n) x)"
proof (cases "i < length x \<and> 0 < n")
  case True
  then obtain m where m: "buf s = Some m" using represents_buf [OF s] by fastforce
  obtain rest where rest: "m = x @ NUL # rest" "capacity s = length x + length rest"
    using represents_Some [OF s m] by blast
  define c where "c = min n (length x - i)"
  have c: "(if n > length x - i then length x - i else n) = c" by (simp add: c_def)
  have ic: "i + c \<le> length x" "0 < c" using True by (auto simp: c_def)
  have dr: "drop (i + c) x = drop (i + n) x" by (simp add: c_def min_def)
  let ?y = "take i x @ drop (i + c) x" and ?m = "take i m @ drop (i + c) x @ drop (length x - c) m"
  have ly: "length ?y = length x - c" using ic by simp
  have x: "c_string m (i + c) = Some (drop (i + c) x)"
    unfolding rest using represents_cstr [OF s] ic by (simp add: c_string_at)
  have w: "mem_write m i (drop (i + c) x) = Some ?m" using ic rest by (simp add: cmem)
  obtain m' where m': "wr ?m (length ?y) NUL = Some m'" "represents (s\<lparr>len := length ?y, buf := Some m'\<rparr>) ?y"
  proof -
    have "length x - c \<le> capacity s" using rest by simp
    then show thesis
      using terminate_text [of ?y ?m s] represents_cstr [OF s] ic rest ly that
      by (auto simp: is_cstr_takeI is_cstr_dropI)
  qed
  have "remove i n s = Some (s\<lparr>len := length ?y, buf := Some m'\<rparr>)"
    using True m x w m'(1) ic ly unfolding remove_def represents_len [OF s] c Let_def by simp
  with m'(2) show ?thesis unfolding dr by auto
next
  case False
  then show ?thesis using s represents_len [OF s] by (auto simp: remove_def)
qed

text \<open>\<open>substring\<close> is what lies between the two indices, in either order.\<close>

lemma new_String_empty:
  "\<exists>out. new_String heap junk (Some []) = Some out \<and> represents out []"
  using copy_copies [of init "[]" "[]" heap junk] by (auto simp: new_String_def)

lemma substring_cuts:
  assumes s: "represents s x"
  shows "\<exists>out. substring heap junk s l r = Some out \<and>
    (represents out (drop (min l r) (take (max l r) x)) \<or>
     \<not> heap (block_size (length (drop (min l r) (take (max l r) x)))) \<and> represents out [])"
proof -
  define a b where "a = min l r" and "b = max l r"
  have ab: "(if l > r then (r, l) else (l, r)) = (a, b)" by (auto simp: a_def b_def)
  obtain out where out: "new_String heap junk (Some []) = Some out" "represents out []"
    using new_String_empty by blast
  show ?thesis unfolding a_def [symmetric] b_def [symmetric]
  proof (cases "a < length x")
    case True
    then obtain m where m: "buf s = Some m" using represents_buf [OF s] by fastforce
    obtain rest where rest: "m = x @ NUL # rest" using represents_Some [OF s m] by blast
    define e where "e = min b (length x)"
    have e: "(if b > length x then length x else b) = e" "e \<le> length x" "a \<le> e" "take e x = take b x"
      using True by (auto simp: e_def a_def b_def min_def)
    have w: "wr m e NUL = Some (take e x @ NUL # drop (e + 1) m)"
      using e(2) rest by (auto simp: wr_def upd_conv_take_nth_drop)
    have "a \<le> b" by (simp add: a_def b_def)
    then have c: "c_string (take e x @ NUL # drop (e + 1) m) a = Some (drop a (take b x))"
      using c_string_at [of "take e x" a] represents_cstr [OF s] e by (simp add: is_cstr_takeI)
    obtain out' where out': "copy heap junk (drop a (take b x)) (length (drop a (take b x))) out = Some out'"
       "represents out' (if (buf out \<noteq> None \<and> length (drop a (take b x)) \<le> capacity out) \<or>
          heap (block_size (length (drop a (take b x)))) then drop a (take b x) else [])"
      using copy_copies [OF out(2), of "drop a (take b x)" heap junk] represents_cstr [OF s]
      by (auto simp: is_cstr_takeI is_cstr_dropI)
    have "substring heap junk s l r = Some out'"
      using True m out(1) w c out'(1)
      unfolding substring_def represents_len [OF s] ab e(1) Let_def prod.case by (simp add: assign_cstr_def)
    with out'(2) show "\<exists>out. substring heap junk s l r = Some out \<and> (represents out (drop a (take b x)) \<or>
        \<not> heap (block_size (length (drop a (take b x)))) \<and> represents out [])"
      by (auto split: if_splits)
  next
    case False
    then show "\<exists>out. substring heap junk s l r = Some out \<and> (represents out (drop a (take b x)) \<or>
        \<not> heap (block_size (length (drop a (take b x)))) \<and> represents out [])"
      using out ab represents_len [OF s] by (simp add: substring_def)
  qed
qed

text \<open>\<open>trim\<close> takes the white space off both ends.\<close>

definition strip_end :: "string \<Rightarrow> string" where
  "strip_end x = rev (dropWhile isspace (rev x))"

definition strip :: "string \<Rightarrow> string" where
  "strip x = strip_end (dropWhile isspace x)"

lemma strip_end_snoc: "strip_end (x @ [c]) = (if isspace c then strip_end x else x @ [c])"
  by (simp add: strip_end_def)

lemma strip_end_prefix: "\<exists>ws. x = strip_end x @ ws"
  unfolding strip_end_def by (metis rev_append rev_rev_ident takeWhile_dropWhile_id)

lemma trim_begin_skips:
  "p \<le> length x \<Longrightarrow> trim_begin (x @ NUL # rest) p = Some (p + length (takeWhile isspace (drop p x)))"
proof (induction "length x - p" arbitrary: p)
  case 0
  then have "(x @ NUL # rest) ! p = NUL" by (simp add: nth_append)
  then show ?case using 0 by (subst trim_begin.simps) (simp add: cmem)
next
  case (Suc n)
  then have "drop p x = x ! p # drop (Suc p) x" and "(x @ NUL # rest) ! p = x ! p"
    by (auto simp: Cons_nth_drop_Suc nth_append)
  then show ?case using Suc by (subst trim_begin.simps) (simp add: cmem)
qed

lemma trim_end_skips:
  assumes "b < k" "k \<le> length x" "\<not> isspace (x ! b)"
  shows "trim_end (x @ NUL # rest) (int b) (int k - 1) = Some (int (b + length (strip_end (drop b (take k x)))) - 1)"
  using assms(1,2)
proof (induction k)
  case (Suc k)
  have r: "rd (x @ NUL # rest) k = Some (x ! k)" using Suc.prems by (simp add: cmem nth_append)
  have t: "drop b (take (Suc k) x) = drop b (take k x) @ [x ! k]"
    using Suc.prems by (simp add: take_Suc_conv_app_nth)
  show ?case
  proof (cases "isspace (x ! k)")
    case True
    then have "b < k" using Suc.prems(1) assms(3) by (cases "b = k") auto
    then show ?thesis
      using True Suc r t by (subst trim_end.simps) (simp add: strip_end_snoc)
  next
    case False
    then show ?thesis using Suc r t by (subst trim_end.simps) (simp add: strip_end_snoc)
  qed
qed simp

lemma trim_trims:
  assumes s: "represents s x"
  shows "\<exists>s'. trim s = Some s' \<and> represents s' (strip x)"
proof (cases "x = []")
  case True
  then show ?thesis using s represents_len [OF s] by (auto simp: trim_def strip_def strip_end_def split: option.split)
next
  case x: False
  then obtain m where m: "buf s = Some m" using represents_buf [OF s] by fastforce
  obtain rest where rest: "m = x @ NUL # rest" "capacity s = length x + length rest"
    using represents_Some [OF s m] by blast
  define b where "b = length (takeWhile isspace x)"
  have d: "dropWhile isspace x = drop b x" by (simp add: b_def dropWhile_eq_drop)
  have b: "trim_begin m 0 = Some b" using trim_begin_skips [of 0 x rest] rest by (simp add: b_def)
  have e: "trim_end m (int b) (int (length x) - 1) = Some (int (b + length (strip x)) - 1)"
  proof (cases "b < length x")
    case True
    then have "\<not> isspace (x ! b)" unfolding b_def by (rule nth_length_takeWhile)
    then show ?thesis using trim_end_skips [of b "length x" x rest] True rest d by (simp add: strip_def)
  next
    case False
    then have "b = length x" unfolding b_def using length_takeWhile_le [of isspace x] by linarith
    moreover from this d have "strip x = []" by (simp add: strip_def strip_end_def del: dropWhile_eq_Nil_conv)
    ultimately show ?thesis using rest x by (subst trim_end.simps) (simp add: cmem nth_append)
  qed
  obtain ws where ws: "drop b x = strip x @ ws" using strip_end_prefix [of "drop b x"] by (auto simp: strip_def d)
  have lb: "b + length (strip x) \<le> length x"
    using arg_cong [OF ws, of length] length_takeWhile_le [of isspace x] by (simp add: b_def)
  have tk: "take (length (strip x)) (drop b x) = strip x" using ws by (metis append_eq_conv_conj)
  define m' where "m' = strip x @ drop (length (strip x)) m"
  have cut: "(if b > 0 then Option.bind (mem_read m b (length (strip x))) (mem_write m 0) else Some m) = Some m'"
  proof (cases "b > 0")
    case True
    have "take (length (strip x)) (drop b m) = strip x" using rest ws lb by simp
    then show ?thesis using True lb rest by (simp add: cmem m'_def)
  next
    case False
    have "take (length (strip x)) m = strip x" using rest tk lb False by simp
    then show ?thesis using False by (metis append_take_drop_id m'_def)
  qed
  have "is_cstr (strip x)"
    using represents_cstr [OF s] is_cstr_append [of "strip x" ws] is_cstr_dropI [of x b] unfolding ws by blast
  then obtain m'' where m'': "wr m' (length (strip x)) NUL = Some m''"
      "represents (s\<lparr>len := length (strip x), buf := Some m''\<rparr>) (strip x)"
    using terminate_text [of "strip x" m' s] lb rest by (auto simp: m'_def)
  have "trim s = Some (s\<lparr>len := length (strip x), buf := Some m''\<rparr>)"
    using x m b e cut m''(1) represents_len [OF s]
    by (auto simp: trim_def Let_def split: if_splits Option.bind_splits)
  with m''(2) show ?thesis by blast
qed

section \<open>Searching\<close>

text \<open>\<open>strstr\<close> is the first position where the text occurs, as in any specification of string search.\<close>

definition occurs_at :: "string \<Rightarrow> string \<Rightarrow> nat \<Rightarrow> bool" where
  "occurs_at y x i \<longleftrightarrow> i \<le> length x \<and> prefix y (drop i x)"

lemma find_upt_eq_Some: "find P [a..<b] = Some i \<longleftrightarrow> a \<le> i \<and> i < b \<and> P i \<and> (\<forall>j. a \<le> j \<longrightarrow> j < i \<longrightarrow> \<not> P j)"
proof (induction "b - a" arbitrary: a)
  case (Suc n)
  then have "[a..<b] = a # [Suc a..<b]" by (simp add: upt_conv_Cons)
  then show ?case
    using Suc.hyps(1) [of "Suc a"] Suc.hyps(2) by (auto simp: Suc_le_eq le_less_Suc_eq dest: le_neq_implies_less)
qed simp

lemma strstr_Some: "strstr x y = Some i \<longleftrightarrow> occurs_at y x i \<and> (\<forall>j<i. \<not> occurs_at y x j)"
  unfolding strstr_def find_upt_eq_Some occurs_at_def by (auto simp: less_Suc_eq_le)

lemma strstr_None: "strstr x y = None \<longleftrightarrow> (\<forall>i. \<not> occurs_at y x i)"
  unfolding strstr_def find_None_iff occurs_at_def set_upt by (auto simp: less_Suc_eq_le simp del: upt_Suc)

lemma occurs_at_drop: "a \<le> length x \<Longrightarrow> occurs_at y (drop a x) i \<longleftrightarrow> occurs_at y x (a + i)"
  by (auto simp: occurs_at_def add.commute)

lemma strchr_Some:
  assumes "is_cstr x" "c \<noteq> NUL"
  shows "strchr x c = Some i \<longleftrightarrow> i < length x \<and> x ! i = c \<and> (\<forall>j<i. x ! j \<noteq> c)"
proof -
  have "(x @ [NUL]) ! j = x ! j" if "j < length x" for j using that by (simp add: nth_append)
  moreover have "(x @ [NUL]) ! length x = NUL" by simp
  ultimately show ?thesis
    unfolding strchr_def find_upt_eq_Some using assms(2) by (auto simp: less_Suc_eq)
qed

text \<open>\<open>indexOf\<close> is the first occurrence from an index on.\<close>

lemma indexOf_first:
  assumes s: "represents s x" and t: "represents t y" "buf t \<noteq> None"
  shows "\<exists>r. indexOf s t i = Some r \<and>
    (if i < length x \<and> (\<exists>j\<ge>i. occurs_at y x j)
     then \<exists>k. r = int k \<and> i \<le> k \<and> occurs_at y x k \<and> (\<forall>j. i \<le> j \<and> j < k \<longrightarrow> \<not> occurs_at y x j)
     else r = - 1)"
proof (cases "i < length x")
  case True
  then obtain m where m: "buf s = Some m" using represents_buf [OF s] by fastforce
  then obtain rest where "m = x @ NUL # rest" using represents_Some [OF s] by blast
  then have c: "c_string m i = Some (drop i x)"
    using c_string_at [OF represents_cstr [OF s], of i] True by simp
  have o: "occurs_at y x (i + k) \<longleftrightarrow> occurs_at y (drop i x) k" for k
    using True by (simp add: occurs_at_drop)
  have idx: "indexOf s t i = Some (case strstr (drop i x) y of None \<Rightarrow> -1 | Some k \<Rightarrow> int (i + k))"
    using True m c text_of_represents [OF t] represents_len [OF s] by (simp add: indexOf_def)
  show ?thesis
  proof (cases "strstr (drop i x) y")
    case None
    then have "\<not> occurs_at y x j" if "i \<le> j" for j
      using o [of "j - i"] that unfolding strstr_None by simp
    then show ?thesis using idx None by auto
  next
    case (Some k)
    then have k: "occurs_at y x (i + k)" "\<And>j. j < k \<Longrightarrow> \<not> occurs_at y x (i + j)"
      unfolding strstr_Some o by auto
    have "\<not> occurs_at y x j" if "i \<le> j" "j < i + k" for j
      using k(2) [of "j - i"] that by simp
    moreover have "i < length x \<and> (\<exists>j\<ge>i. occurs_at y x j)" using True k(1) le_add1 by blast
    ultimately show ?thesis
      unfolding idx Some using k(1) by (auto intro!: exI [of _ "i + k"])
  qed
qed (use represents_len [OF s] in \<open>simp add: indexOf_def\<close>)

text \<open>\<open>lastIndexOf\<close> is the last occurrence up to an index.\<close>

lemma last_loop_last:
  assumes x: "is_cstr x" and f: "f < length x"
  shows "\<exists>r. last_loop (x @ NUL # rest) y f p found = Some r \<and>
    (if \<exists>k. p \<le> k \<and> k \<le> f \<and> occurs_at y x k
     then \<exists>k. r = int k \<and> p \<le> k \<and> k \<le> f \<and> occurs_at y x k \<and> (\<forall>j. k < j \<and> j \<le> f \<longrightarrow> \<not> occurs_at y x j)
     else r = found)"
proof (induction "f + 1 - p" arbitrary: p found rule: less_induct)
  case less
  show ?case
  proof (cases "p \<le> f")
    case True
    then have c: "c_string (x @ NUL # rest) p = Some (drop p x)" using c_string_at [OF x] f by simp
    have o: "occurs_at y x (p + k) \<longleftrightarrow> occurs_at y (drop p x) k" for k
      using True f by (simp add: occurs_at_drop)
    show ?thesis
    proof (cases "strstr (drop p x) y")
      case None
      then have "\<not> occurs_at y x j" if "p \<le> j" for j
        using o [of "j - p"] that unfolding strstr_None by simp
      then show ?thesis using True c None by (subst last_loop.simps) auto
    next
      case (Some i)
      then have k: "occurs_at y x (p + i)" "\<And>j. j < i \<Longrightarrow> \<not> occurs_at y x (p + j)"
        unfolding strstr_Some o by auto
      have n: "\<not> occurs_at y x j" if "p \<le> j" "j < p + i" for j
        using k(2) [of "j - p"] that by simp
      let ?found = "if p + i \<le> f then int (p + i) else found"
      obtain r where r: "last_loop (x @ NUL # rest) y f (p + i + 1) ?found = Some r"
        "if \<exists>k. p + i + 1 \<le> k \<and> k \<le> f \<and> occurs_at y x k
         then \<exists>k. r = int k \<and> p + i + 1 \<le> k \<and> k \<le> f \<and> occurs_at y x k \<and> (\<forall>j. k < j \<and> j \<le> f \<longrightarrow> \<not> occurs_at y x j)
         else r = ?found"
      proof -
        have "f + 1 - (p + i + 1) < f + 1 - p" using True by simp
        from less [OF this, of ?found] show thesis using that by blast
      qed
      have step: "last_loop (x @ NUL # rest) y f p found = Some r"
        using True c Some r(1) by (subst last_loop.simps) simp
      show ?thesis
      proof (cases "\<exists>k. p + i + 1 \<le> k \<and> k \<le> f \<and> occurs_at y x k")
        case later: True
        then obtain k where "r = int k" "p + i + 1 \<le> k" "k \<le> f" "occurs_at y x k"
          "\<forall>j. k < j \<and> j \<le> f \<longrightarrow> \<not> occurs_at y x j"
          using r(2) by auto
        then show ?thesis using step by (auto intro!: exI [of _ k])
      next
        case False
        then have rf: "r = ?found" using r(2) by presburger
        have "j = p + i" if "p \<le> j" "j \<le> f" "occurs_at y x j" for j
          using that False n [of j] by (cases "j < p + i") (auto simp: not_less Suc_le_eq)
        then have "(\<exists>k. p \<le> k \<and> k \<le> f \<and> occurs_at y x k) \<longleftrightarrow> p + i \<le> f" using k(1) le_add1 by blast
        then show ?thesis using step rf False k(1) by (cases "p + i \<le> f") (auto intro!: exI [of _ "p + i"])
      qed
    qed
  qed (subst last_loop.simps, auto)
qed

lemma lastIndexOf_last:
  assumes s: "represents s x" and t: "represents t y" "y \<noteq> []"
  shows "\<exists>r. lastIndexOf s t i = Some r \<and>
    (if \<exists>k\<le>i. occurs_at y x k
     then \<exists>k. r = int k \<and> k \<le> i \<and> occurs_at y x k \<and> (\<forall>j. k < j \<and> j \<le> i \<longrightarrow> \<not> occurs_at y x j)
     else r = - 1)"
proof (cases "length y \<le> length x")
  case True
  then have "x \<noteq> []" using t(2) by auto
  then obtain m where m: "buf s = Some m" using represents_buf [OF s] by fastforce
  then obtain rest where rest: "m = x @ NUL # rest" using represents_Some [OF s] by blast
  define f where "f = (if i \<ge> length x then length x - 1 else i)"
  have f: "f < length x" using \<open>x \<noteq> []\<close> by (simp add: f_def)
  have o: "j \<le> f" if "occurs_at y x j" "j \<le> i" for j
    using that t(2) prefix_length_le [of y "drop j x"] by (cases y) (auto simp: occurs_at_def f_def)
  have fi: "f \<le> i" by (auto simp: f_def)
  have l: "lastIndexOf s t i = last_loop (x @ NUL # rest) y f 0 (- 1)"
    using True t m rest \<open>x \<noteq> []\<close> represents_len [OF s] represents_len [OF t(1)] text_of_represents [OF t(1)]
      represents_buf [OF t] by (auto simp: lastIndexOf_def f_def)
  show ?thesis
    using last_loop_last [OF represents_cstr [OF s] f, of rest y 0 "- 1"] o fi unfolding l
    by (smt (verit) le0 order_trans)
next
  case False
  then have "\<not> occurs_at y x j" for j
    using prefix_length_le [of y "drop j x"] by (auto simp: occurs_at_def)
  then show ?thesis using False t(2) represents_len [OF s] represents_len [OF t(1)] by (simp add: lastIndexOf_def)
qed

section \<open>Properties of searching and cutting\<close>

text \<open>
  \<open>indexOf\<close> is the first occurrence from an index on and \<open>lastIndexOf\<close> the last one up to an index,
  overlapping occurrences included; both are \<open>-1\<close> exactly if there is none.
\<close>
theorem string_search:
  assumes "represents s x" "represents t y" "y \<noteq> []"
  shows "(\<exists>r. indexOf s t i = Some r \<and>
      (if \<exists>j\<ge>i. occurs_at y x j
       then \<exists>k. r = int k \<and> i \<le> k \<and> occurs_at y x k \<and> (\<forall>j. i \<le> j \<and> j < k \<longrightarrow> \<not> occurs_at y x j)
       else r = - 1)) \<and>
    (\<exists>r. lastIndexOf s t i = Some r \<and>
      (if \<exists>k\<le>i. occurs_at y x k
       then \<exists>k. r = int k \<and> k \<le> i \<and> occurs_at y x k \<and> (\<forall>j. k < j \<and> j \<le> i \<longrightarrow> \<not> occurs_at y x j)
       else r = - 1))"
proof
  have "i < length x" if "occurs_at y x j" "i \<le> j" for j
    using that assms(3) prefix_length_le [of y "drop j x"] by (cases y) (auto simp: occurs_at_def)
  then have e: "(\<exists>j\<ge>i. occurs_at y x j) \<longleftrightarrow> i < length x \<and> (\<exists>j\<ge>i. occurs_at y x j)" by blast
  show "\<exists>r. indexOf s t i = Some r \<and>
      (if \<exists>j\<ge>i. occurs_at y x j
       then \<exists>k. r = int k \<and> i \<le> k \<and> occurs_at y x k \<and> (\<forall>j. i \<le> j \<and> j < k \<longrightarrow> \<not> occurs_at y x j)
       else r = - 1)"
    using indexOf_first [OF assms(1,2) represents_buf [OF assms(2,3)], of i] by (simp only: e [symmetric])
qed (rule lastIndexOf_last [OF assms])

lemma string_search_witness:
  "indexOf (sample ''abab'' 0) (sample ''ab'' 0) 1 = Some 2 \<and> lastIndexOf (sample ''abab'' 0) (sample ''ab'' 0) 1 = Some 0"
proof -
  have o: "occurs_at ''ab'' ''abab'' k \<longleftrightarrow> k = 0 \<or> k = 2" for k
    by (cases "k \<le> 4") (auto simp: occurs_at_def le_Suc_eq numeral_eq_Suc)
  have r: "represents (sample ''abab'' 0) ''abab''" "represents (sample ''ab'' 0) ''ab''"
    by (simp_all add: represents_sample)
  show ?thesis using string_search [OF r, of 1] unfolding o by (auto split: if_splits)
qed

text \<open>
  Removing, trimming and taking a substring are the corresponding operations on the text, for all
  indices: counts and ends beyond the text are cut off and the ends of a substring may come in either order.  Only
  \<open>substring\<close> needs memory; without it the result is empty.
\<close>
theorem string_cuts:
  assumes "represents s x"
  shows "(\<exists>s'. remove i n s = Some s' \<and> represents s' (take i x @ drop (i + n) x)) \<and>
    (\<exists>s'. trim s = Some s' \<and> represents s' (strip x)) \<and>
    (\<exists>out. substring heap junk s l r = Some out \<and>
      (represents out (drop (min l r) (take (max l r) x)) \<or>
       \<not> heap (block_size (length (drop (min l r) (take (max l r) x)))) \<and> represents out []))"
  using remove_removes [OF assms] trim_trims [OF assms] substring_cuts [OF assms] by blast

lemma string_cuts_witness:
  "\<exists>out. substring (\<lambda>_. True) (\<lambda>_. NUL) (sample ''abcde'' 0) 9 3 = Some out \<and> represents out ''de''"
  using string_cuts [OF represents_sample, of "''abcde''" 0 0 0 "\<lambda>_. True" "\<lambda>_. NUL" 9 3] by simp

end
