(* ===== verification/WStringReplace.thy ===== *)
theory WStringReplace
  imports WStringText
begin

text \<open>
  Comparison and replacement of strings.  The reference for \<open>replace\<close> is \<open>replace_all\<close>, which replaces the
  occurrences from the left; the three loops of the code are related to it.
\<close>

section \<open>Comparison\<close>

definition codes :: "string \<Rightarrow> nat list" where
  "codes x = map of_char x"

lemma of_char_int_less: "(of_char c :: int) < of_char d \<longleftrightarrow> (of_char c :: nat) < of_char d"
  using of_nat_less_iff [where 'a = int, of "of_char c" "of_char d"] by (simp only: of_nat_of_char)

lemma of_char_pos: "c \<noteq> NUL \<Longrightarrow> 0 < (of_char c :: int)"
  using of_char_int_less [of NUL c] of_char_eq_iff [of c NUL, where 'a = nat] by (simp del: of_char_eq_iff)

lemma strcmp_order:
  assumes "is_cstr x" "is_cstr y"
  shows "strcmp x y = 0 \<longleftrightarrow> x = y" and "strcmp x y < 0 \<longleftrightarrow> ord_class.lexordp (codes x) (codes y)"
proof -
  have "(strcmp x y = 0 \<longleftrightarrow> x = y) \<and> (strcmp x y < 0 \<longleftrightarrow> ord_class.lexordp (codes x) (codes y))"
    using assms
  proof (induction x y rule: strcmp.induct)
    case (4 c s d t)
    have "c = d \<or> (of_char c :: nat) < of_char d \<or> (of_char d :: nat) < of_char c"
      by (metis linorder_neqE_nat of_char_eq_iff)
    then show ?case using 4 by (auto simp: codes_def of_char_int_less)
  qed (auto simp: codes_def dest: of_char_pos)
  then show "strcmp x y = 0 \<longleftrightarrow> x = y" "strcmp x y < 0 \<longleftrightarrow> ord_class.lexordp (codes x) (codes y)" by simp_all
qed

lemma compareTo_order:
  assumes s: "represents s x" and t: "represents t y"
  shows "\<exists>c. compareTo s t = Some c \<and> (c = 0 \<longleftrightarrow> x = y) \<and> (c < 0 \<longleftrightarrow> ord_class.lexordp (codes x) (codes y))"
proof (cases "buf s = None \<or> buf t = None")
  case False
  then show ?thesis
    using text_of_represents [OF s] text_of_represents [OF t] strcmp_order [of x y] represents_cstr [OF s] represents_cstr [OF t]
    by (auto simp: compareTo_def)
next
  case True
  have first: "\<exists>c>0. first_byte u = Some c" if u: "represents u z" "z \<noteq> []" for u z
  proof -
    obtain m where m: "buf u = Some m" using represents_buf [OF u] by auto
    then obtain rest where "m = z @ NUL # rest" using represents_Some [OF u(1)] by blast
    then show ?thesis using m u represents_cstr [OF u(1)] of_char_pos
      by (cases z) (auto simp: first_byte_def cmem)
  qed
  show ?thesis
  proof (cases "buf s")
    case None
    then have x: "x = []" using represents_None [OF s] by auto
    show ?thesis
    proof (cases "y = []")
      case True
      then show ?thesis using x None represents_len [OF s] represents_len [OF t] by (auto simp: compareTo_def codes_def)
    next
      case False
      then obtain c where "0 < c" "first_byte t = Some c" using first [OF t] by blast
      then show ?thesis using False x None represents_len [OF t] represents_buf [OF t False]
        by (cases y) (auto simp: compareTo_def codes_def)
    qed
  next
    case (Some m)
    then have n: "buf t = None" using True by simp
    then have y: "y = []" using represents_None [OF t] by auto
    show ?thesis
    proof (cases "x = []")
      case True
      then show ?thesis using y n represents_len [OF s] represents_len [OF t] by (auto simp: compareTo_def codes_def)
    next
      case False
      then obtain c where "0 < c" "first_byte s = Some c" using first [OF s] by blast
      then show ?thesis using False y n Some represents_len [OF s] by (cases x) (auto simp: compareTo_def codes_def)
    qed
  qed
qed

lemma equals_eq: "represents s x \<Longrightarrow> represents t y \<Longrightarrow> equals s t = Some (x = y)"
  using compareTo_order [of s x t y] represents_len [of s x] represents_len [of t y]
  by (auto simp: equals_def)

section \<open>Replacement from the left\<close>

function replace_all :: "string \<Rightarrow> string \<Rightarrow> string \<Rightarrow> string" where
  "replace_all y z x =
     (if y \<noteq> [] \<and> prefix y x then z @ replace_all y z (drop (length y) x)
      else case x of [] \<Rightarrow> [] | c # x' \<Rightarrow> c # replace_all y z x')"
  by pat_completeness auto
termination
  by (relation "measure (\<lambda>(_, _, x). length x)") (auto dest: prefix_length_le simp: neq_Nil_conv)

declare replace_all.simps [simp del]

lemma replace_all_here: "y \<noteq> [] \<Longrightarrow> prefix y x \<Longrightarrow> replace_all y z x = z @ replace_all y z (drop (length y) x)"
  by (subst replace_all.simps) simp

lemma replace_all_Cons: "\<not> prefix y (c # x) \<Longrightarrow> replace_all y z (c # x) = c # replace_all y z x"
  by (subst replace_all.simps) simp

lemma replace_all_Nil [simp]: "y \<noteq> [] \<Longrightarrow> replace_all y z [] = []"
  by (subst replace_all.simps) simp

lemma occurs_at_Suc: "occurs_at y (c # x) (Suc j) \<longleftrightarrow> occurs_at y x j"
  by (simp add: occurs_at_def)

lemma occurs_at_0: "occurs_at y x 0 \<longleftrightarrow> prefix y x"
  by (simp add: occurs_at_def)

text \<open>What comes before the first occurrence stays.\<close>

lemma replace_all_skip:
  "y \<noteq> [] \<Longrightarrow> n \<le> length x \<Longrightarrow> \<forall>j<n. \<not> occurs_at y x j \<Longrightarrow> replace_all y z x = take n x @ replace_all y z (drop n x)"
proof (induction n arbitrary: x)
  case (Suc n)
  then obtain c x' where x: "x = c # x'" by (cases x) auto
  have "\<not> prefix y x" using Suc.prems(3) occurs_at_0 [of y x] by auto
  moreover have "\<forall>j<n. \<not> occurs_at y x' j" using Suc.prems(3) using occurs_at_Suc [of y c x'] by (auto simp: x)
  ultimately show ?case using Suc by (simp add: x replace_all_Cons)
qed simp

lemma replace_all_none:
  assumes "y \<noteq> []" "\<forall>j. \<not> occurs_at y x j"
  shows "replace_all y z x = x"
  using replace_all_skip [of y "length x" x z] assms by simp

lemma replace_all_first:
  assumes "y \<noteq> []" "occurs_at y x n" "\<forall>j<n. \<not> occurs_at y x j"
  shows "replace_all y z x = take n x @ z @ replace_all y z (drop (n + length y) x)"
  using replace_all_skip [of y n x z] replace_all_here [of y "drop n x" z] assms
  by (simp add: occurs_at_def add.commute)

lemma occurs_at_split: "occurs_at y x n \<Longrightarrow> x = take n x @ y @ drop (n + length y) x"
  unfolding occurs_at_def prefix_def by (metis add.commute append_eq_conv_conj append_take_drop_id drop_drop)

lemma occurs_at_bound: "occurs_at y x n \<Longrightarrow> n + length y \<le> length x"
  unfolding occurs_at_def by (auto dest: prefix_length_le)

section \<open>The loops of replace\<close>

lemma c_string_mid: "is_cstr x \<Longrightarrow> c_string (a @ x @ NUL # rest) (length a) = Some x"
  using c_string_0 [of x rest] by (simp add: c_string_def)

lemma mem_write_mid: "length b = length y \<Longrightarrow> mem_write (a @ b @ c) (length a) y = Some (a @ y @ c)"
  by (simp add: cmem)

lemma replace_same_loop:
  assumes "y \<noteq> []" "length z = length y" "is_cstr x"
  shows "replace_same y z (a @ x @ NUL # rest) (length a) = Some (a @ replace_all y z x @ NUL # rest)"
  using assms(3)
proof (induction "length x" arbitrary: a x rule: less_induct)
  case less
  show ?case
  proof (cases "strstr x y")
    case None
    then have "replace_all y z x = x" unfolding strstr_None by (rule replace_all_none [OF assms(1)])
    then show ?thesis using None less.prems by (subst replace_same.simps) (simp add: c_string_mid)
  next
    case (Some n)
    then have n: "occurs_at y x n" "\<forall>j<n. \<not> occurs_at y x j" unfolding strstr_Some by auto
    let ?u = "take n x" and ?x = "drop (n + length y) x"
    have x: "x = ?u @ y @ ?x" by (rule occurs_at_split [OF n(1)])
    have l: "length ?u = n" "n + length y \<le> length x" using occurs_at_bound [OF n(1)] by simp_all
    have "mem_write (a @ x @ NUL # rest) (length a + n) z = Some ((a @ ?u @ z) @ ?x @ NUL # rest)"
      using mem_write_mid [of y z "a @ ?u" "?x @ NUL # rest"] l x assms(2) by (metis append.assoc length_append)
    moreover have "length (a @ ?u @ z) = length a + n + length z" using l by simp
    moreover have "replace_same y z ((a @ ?u @ z) @ ?x @ NUL # rest) (length (a @ ?u @ z))
        = Some ((a @ ?u @ z) @ replace_all y z ?x @ NUL # rest)"
    proof (rule less.hyps)
      show "length ?x < length x" using assms(1) l(2) by (cases y) simp_all
    qed (simp add: is_cstr_dropI less.prems)
    ultimately show ?thesis
      using Some less.prems replace_all_first [OF assms(1) n, of z]
      by (subst replace_same.simps) (simp add: c_string_mid add.assoc)
  qed
qed

lemma replace_shorter_loop:
  assumes "y \<noteq> []" "length z < length y" "is_cstr x" "length x \<le> l"
  shows "\<exists>rest'. replace_shorter y z (length y) (a @ gap @ x @ NUL # rest) (length a + length gap) (length a) l =
     Some (a @ replace_all y z x @ NUL # rest', l - (length x - length (replace_all y z x))) \<and>
     length (replace_all y z x) \<le> length x \<and>
     length (replace_all y z x) + length rest' = length gap + length x + length rest"
  using assms(3,4)
proof (induction "length x" arbitrary: a gap x l rule: less_induct)
  case less
  let ?m = "a @ gap @ x @ NUL # rest"
  have c: "c_string ?m (length a + length gap) = Some x"
    using c_string_mid [OF less.prems(1), of "a @ gap" rest] by simp
  show ?case
  proof (cases "strstr x y")
    case None
    then have "replace_all y z x = x" unfolding strstr_None by (rule replace_all_none [OF assms(1)])
    moreover have "strcpy ?m (length a) x = Some (a @ x @ NUL # drop (length x + 1) (gap @ x @ NUL # rest))"
      by (simp add: strcpy_def cmem)
    ultimately show ?thesis using None c
      by (subst replace_shorter.simps) (auto intro!: exI [of _ "drop (length x + 1) (gap @ x @ NUL # rest)"])
  next
    case (Some n)
    then have n: "occurs_at y x n" "\<forall>j<n. \<not> occurs_at y x j" unfolding strstr_Some by auto
    let ?u = "take n x" and ?x = "drop (n + length y) x"
    have x: "x = ?u @ y @ ?x" by (rule occurs_at_split [OF n(1)])
    have l: "length ?u = n" "n + length y \<le> length x" using occurs_at_bound [OF n(1)] by simp_all
    let ?gap = "drop (n + length z) (gap @ ?u @ y)" and ?a = "a @ ?u @ z"
    have rd: "mem_read ?m (length a + length gap) n = Some ?u" using l by (simp add: cmem)
    have "drop n (gap @ x @ NUL # rest) = drop n (gap @ ?u @ y) @ ?x @ NUL # rest"
      using l by (subst x) (simp add: drop_append)
    then have wr1: "mem_write ?m (length a) ?u = Some (a @ ?u @ drop n (gap @ ?u @ y) @ ?x @ NUL # rest)"
      using l by (simp add: cmem)
    define g where "g = drop n (gap @ ?u @ y)"
    have g: "length z \<le> length g" "?gap = drop (length z) g" using l assms(2) by (simp add: g_def, simp only: g_def drop_drop add.commute)
    have wr2: "mem_write (a @ ?u @ drop n (gap @ ?u @ y) @ ?x @ NUL # rest) (length a + n) z
        = Some (?a @ ?gap @ ?x @ NUL # rest)"
      unfolding g_def [symmetric] g(2) using l g(1) by (simp add: cmem)
    have p: "length a + length gap + n + length y = length ?a + length ?gap" "length a + n + length z = length ?a"
      using l assms(2) by simp_all
    obtain rest' where IH: "replace_shorter y z (length y) (?a @ ?gap @ ?x @ NUL # rest) (length ?a + length ?gap)
        (length ?a) (l + length z - length y) = Some (?a @ replace_all y z ?x @ NUL # rest',
          l + length z - length y - (length ?x - length (replace_all y z ?x)))"
      "length (replace_all y z ?x) \<le> length ?x"
      "length (replace_all y z ?x) + length rest' = length ?gap + length ?x + length rest"
    proof -
      have "length ?x < length x" using assms(1) l(2) by (cases y) simp_all
      moreover have "is_cstr ?x" "length ?x \<le> l + length z - length y" using less.prems l by (simp_all add: is_cstr_dropI)
      ultimately show thesis using less.hyps [of ?x "l + length z - length y" ?a ?gap] that by blast
    qed
    note r = replace_all_first [OF assms(1) n, of z]
    have step: "replace_shorter y z (length y) ?m (length a + length gap) (length a) l =
        replace_shorter y z (length y) (?a @ ?gap @ ?x @ NUL # rest) (length a + length gap + n + length y) (length a + n + length z)
          (l + length z - length y)"
      using Some c rd wr1 wr2 by (subst replace_shorter.simps) (simp only: bind.simps option.case)
    have "replace_shorter y z (length y) ?m (length a + length gap) (length a) l = Some (?a @ replace_all y z ?x @ NUL # rest',
          l + length z - length y - (length ?x - length (replace_all y z ?x)))"
      using step IH(1) unfolding p by (rule trans)
    moreover have "l + length z - length y - (length ?x - length (replace_all y z ?x)) = l - (length x - length (replace_all y z x))"
      using l IH(2) less.prems(2) assms(2) by (simp add: r)
    moreover have "length (replace_all y z x) \<le> length x"
      using IH(2) l assms(2) by (simp add: r)
    moreover have "length (replace_all y z x) + length rest' = length gap + length x + length rest"
      using IH(3) l assms(2) by (simp add: r)
    ultimately show ?thesis by (simp add: r)
  qed
qed

lemma replace_all_not:
  "\<not> (y \<noteq> [] \<and> prefix y x) \<Longrightarrow> replace_all y z x = (case x of [] \<Rightarrow> [] | c # x' \<Rightarrow> c # replace_all y z x')"
  by (subst replace_all.simps) (simp only: if_False)

lemma is_cstr_replace_all: "is_cstr x \<Longrightarrow> is_cstr z \<Longrightarrow> is_cstr (replace_all y z x)"
proof (induction y z x rule: replace_all.induct)
  case (1 y z x)
  show ?case
  proof (cases "y \<noteq> [] \<and> prefix y x")
    case True
    then show ?thesis using 1 by (simp add: replace_all_here is_cstr_dropI)
  next
    case False
    show ?thesis
    proof (cases x)
      case Nil
      with replace_all_not [OF False] show ?thesis by simp
    next
      case (Cons c x')
      have "is_cstr (replace_all y z x')" "c \<noteq> NUL" using "1.IH"(2) [OF False Cons] "1.prems" Cons by simp_all
      with replace_all_not [OF False, of z] show ?thesis unfolding Cons by simp
    qed
  qed
qed

lemma length_replace_all:
  assumes "y \<noteq> []" "length z = length y"
  shows "length (replace_all y z x) = length x"
proof (induction "length x" arbitrary: x rule: less_induct)
  case less
  show ?case
  proof (cases "strstr x y")
    case None
    then show ?thesis unfolding strstr_None using replace_all_none [OF assms(1)] by metis
  next
    case (Some n)
    then have n: "occurs_at y x n" "\<forall>j<n. \<not> occurs_at y x j" unfolding strstr_Some by auto
    have "length (drop (n + length y) x) < length x" "n + length y \<le> length x"
      using assms(1) occurs_at_bound [OF n(1)] by (cases y; simp)+
    then show ?thesis using less [of "drop (n + length y) x"] replace_all_first [OF assms(1) n, of z] assms(2) by simp
  qed
qed

text \<open>The bytes of the replacement, also of an object without a buffer.\<close>

lemma replacement_bytes:
  "represents u z \<Longrightarrow> (case buf u of None \<Rightarrow> if len u = 0 then Some [] else None | Some b \<Rightarrow> mem_read b 0 (len u)) = Some z"
  using represents_None [of u z] represents_len [of u z]
  by (cases "buf u") (auto simp: cmem elim!: represents_Some)

lemma replace_not_longer:
  assumes s: "represents s x" and t: "represents t y" and u: "represents u z" and l: "length z \<le> length y"
  shows "\<exists>s'. replace_String heap junk t u s = Some s' \<and> represents s' (if y = [] then x else replace_all y z x)"
proof (cases "x = [] \<or> y = []")
  case True
  then show ?thesis using s represents_len [OF s] represents_len [OF t] by (auto simp: replace_String_def)
next
  case False
  then obtain m where m: "buf s = Some m" using represents_buf [OF s] by auto
  then obtain rest where rest: "m = x @ NUL # rest" "capacity s = length x + length rest"
    using represents_Some [OF s] by blast
  have y: "y \<noteq> []" "text_of t = Some y" using False text_of_represents [OF t] represents_buf [OF t] by auto
  have c: "is_cstr x" "is_cstr (replace_all y z x)"
    using represents_cstr [OF s] represents_cstr [OF u] by (simp_all add: is_cstr_replace_all)
  note lens = represents_len [OF s] represents_len [OF t] represents_len [OF u]
  show ?thesis
  proof (cases "length z = length y")
    case True
    then have "replace_same y z m 0 = Some (replace_all y z x @ NUL # rest)"
      using replace_same_loop [of y z x "[]" rest] y c rest by simp
    then have "replace_String heap junk t u s = Some (s\<lparr>buf := Some (replace_all y z x @ NUL # rest)\<rparr>)"
      using False True m y lens replacement_bytes [OF u] by (simp add: replace_String_def)
    moreover have "represents (s\<lparr>buf := Some (replace_all y z x @ NUL # rest)\<rparr>) (replace_all y z x)"
      using c rest lens True y length_replace_all [of y z x] by (intro representsI) simp_all
    ultimately show ?thesis using y by simp
  next
    case False
    then have lt: "length z < length y" using l by simp
    obtain rest' where r: "replace_shorter y z (length y) m 0 0 (length x) =
        Some (replace_all y z x @ NUL # rest', length x - (length x - length (replace_all y z x)))"
      "length (replace_all y z x) \<le> length x" "length (replace_all y z x) + length rest' = length x + length rest"
      using replace_shorter_loop [of y z x "length x" "[]" "[]" rest] y c rest lt by auto
    have "replace_String heap junk t u s = Some (s\<lparr>buf := Some (replace_all y z x @ NUL # rest'), len := length (replace_all y z x)\<rparr>)"
      using \<open>\<not> (x = [] \<or> y = [])\<close> False lt m y lens r(1,2) replacement_bytes [OF u] by (simp add: replace_String_def)
    moreover have "represents (s\<lparr>buf := Some (replace_all y z x @ NUL # rest'), len := length (replace_all y z x)\<rparr>) (replace_all y z x)"
      using c rest r(3) by (intro representsI [where rest = rest']) simp_all
    ultimately show ?thesis using y by simp
  qed
qed

section \<open>A longer replacement\<close>

lemma count_size_loop:
  assumes "y \<noteq> []" "length y \<le> length z" "is_cstr x"
  shows "count_size y (length y) (length z - length y) (a @ x @ NUL # rest) (length a) n =
    Some (n + (length (replace_all y z x) - length x)) \<and> length x \<le> length (replace_all y z x)"
  using assms(3)
proof (induction "length x" arbitrary: a x n rule: less_induct)
  case less
  show ?case
  proof (cases "strstr x y")
    case None
    then have "replace_all y z x = x" unfolding strstr_None by (rule replace_all_none [OF assms(1)])
    then show ?thesis using None less.prems by (subst count_size.simps) (simp add: c_string_mid)
  next
    case (Some k)
    then have k: "occurs_at y x k" "\<forall>j<k. \<not> occurs_at y x j" unfolding strstr_Some by auto
    let ?a = "a @ take (k + length y) x" and ?x = "drop (k + length y) x"
    have l: "k + length y \<le> length x" "length ?x < length x"
      using assms(1) occurs_at_bound [OF k(1)] by (cases y; simp)+
    have a: "a @ x @ NUL # rest = ?a @ ?x @ NUL # rest" "length a + k + length y = length ?a" using l by simp_all
    have "count_size y (length y) (length z - length y) (a @ x @ NUL # rest) (length a) n =
        count_size y (length y) (length z - length y) (a @ x @ NUL # rest) (length a + k + length y) (n + (length z - length y))"
      using Some less.prems by (subst count_size.simps) (simp add: c_string_mid)
    moreover have "count_size y (length y) (length z - length y) (a @ x @ NUL # rest) (length a + k + length y) (n + (length z - length y)) =
        Some (n + (length z - length y) + (length (replace_all y z ?x) - length ?x)) \<and> length ?x \<le> length (replace_all y z ?x)"
      unfolding a using less.prems by (intro less.hyps [OF l(2)] is_cstr_dropI)
    ultimately show ?thesis using l(1) assms(2) replace_all_first [OF assms(1) k, of z] by auto
  qed
qed

text \<open>
  The loop for a longer replacement works from the right and searches the text it is changing.  It agrees
  with replacement from the left if occurrences can neither overlap nor run into a replacement.
\<close>

definition unmixed :: "string \<Rightarrow> string \<Rightarrow> bool" where
  "unmixed y z \<longleftrightarrow> list_all (\<lambda>p. \<not> prefix (drop p y) z \<and> \<not> prefix (drop p y) y) [1..<length y]"

lemma unmixedD: "unmixed y z \<Longrightarrow> 0 < p \<Longrightarrow> p < length y \<Longrightarrow> \<not> prefix (drop p y) z \<and> \<not> prefix (drop p y) y"
  by (auto simp: unmixed_def list_all_iff)

lemma prefix_take: "prefix y w \<longleftrightarrow> take (length y) w = y"
  by (metis append_eq_conv_conj append_take_drop_id prefix_def)

lemma occurs_at_iff: "occurs_at y x j \<longleftrightarrow> j + length y \<le> length x \<and> take (length y) (drop j x) = y"
  using prefix_length_le [of y "drop j x"] by (auto simp: occurs_at_def prefix_take)

lemma occurs_at_take: "p \<le> length x \<Longrightarrow> occurs_at y (take p x) j \<longleftrightarrow> j + length y \<le> p \<and> occurs_at y x j"
  by (auto simp: occurs_at_iff drop_take min_def)

lemma occurs_at_append: "j + length y \<le> length u \<Longrightarrow> occurs_at y (u @ v) j \<longleftrightarrow> occurs_at y u j"
  by (auto simp: occurs_at_iff)

lemma occurs_at_tail:
  assumes "occurs_at y x j" "j \<le> p" "p \<le> j + length y"
  shows "prefix (drop (p - j) y) (drop p x)"
proof -
  from assms(1) obtain w where "drop j x = y @ w" by (auto simp: occurs_at_def prefix_def)
  then have "drop (p - j) (drop j x) = drop (p - j) y @ w" using assms by simp
  then show ?thesis using assms(2) by (simp add: prefix_def)
qed

lemma occurrences_apart:
  assumes "unmixed y z" "occurs_at y x j" "j < p" "p = length x \<or> occurs_at y x p"
  shows "j + length y \<le> p"
proof (rule ccontr)
  assume n: "\<not> j + length y \<le> p"
  then have p: "occurs_at y x p" using assms(2,4) occurs_at_bound by blast
  have "prefix (drop (p - j) y) (drop p x)" using occurs_at_tail [OF assms(2), of p] assms(3) n by simp
  moreover have "prefix y (drop p x)" using p by (simp add: occurs_at_def)
  ultimately have "prefix (drop (p - j) y) y" by (rule prefix_length_prefix) simp
  then show False using unmixedD [OF assms(1), of "p - j"] assms(3) n by simp
qed

lemma replace_all_split:
  "y \<noteq> [] \<Longrightarrow> p \<le> length x \<Longrightarrow> \<forall>j<p. occurs_at y x j \<longrightarrow> j + length y \<le> p \<Longrightarrow>
     replace_all y z x = replace_all y z (take p x) @ replace_all y z (drop p x)"
proof (induction "length x" arbitrary: x p rule: less_induct)
  case less
  show ?case
  proof (cases "strstr (take p x) y")
    case None
    then have n: "\<not> occurs_at y (take p x) j" for j unfolding strstr_None by simp
    then have "\<forall>j<p. \<not> occurs_at y x j" using less.prems by (auto simp: occurs_at_take)
    then show ?thesis using replace_all_skip [of y p x z] replace_all_none [of y "take p x" z] n less.prems by simp
  next
    case (Some k)
    then have k: "occurs_at y (take p x) k" "\<forall>j<k. \<not> occurs_at y (take p x) j" unfolding strstr_Some by auto
    have kx: "occurs_at y x k" "k + length y \<le> p" using k(1) less.prems(2) by (auto simp: occurs_at_take)
    have first: "\<forall>j<k. \<not> occurs_at y x j" using k(2) kx(2) less.prems by (auto simp: occurs_at_take)
    let ?x = "drop (k + length y) x"
    have "replace_all y z ?x = replace_all y z (take (p - (k + length y)) ?x) @ replace_all y z (drop (p - (k + length y)) ?x)"
    proof (rule less.hyps)
      show "length ?x < length x" using less.prems(1,2) kx(2) by (cases y) auto
      show "\<forall>j<p - (k + length y). occurs_at y ?x j \<longrightarrow> j + length y \<le> p - (k + length y)"
      proof (intro allI impI)
        fix j assume "j < p - (k + length y)" "occurs_at y ?x j"
        then have "occurs_at y x (k + length y + j)" "k + length y + j < p"
          using less.prems(2) kx(2) occurs_at_drop [of "k + length y" x y j] by simp_all
        then have "k + length y + j + length y \<le> p" using less.prems(3) by blast
        then show "j + length y \<le> p - (k + length y)" by simp
      qed
    qed (use less.prems in simp_all)
    moreover have "take (p - (k + length y)) ?x = drop (k + length y) (take p x)" by (simp add: drop_take)
    ultimately show ?thesis
      using replace_all_first [OF less.prems(1) kx(1) first, of z] replace_all_first [OF less.prems(1) k, of z] kx(2)
      by simp
  qed
qed

text \<open>One replacement within the buffer.\<close>

lemma longer_step:
  assumes m: "m = a @ y @ b @ NUL # rest" and d: "length z = length y + d" "d \<le> length rest"
  shows "\<exists>m1 m2. mem_read m (length a + length y) (length b) = Some b \<and>
    mem_write m (length a + length y + d) b = Some m1 \<and> wr m1 (length a + length y + length b + d) NUL = Some m2 \<and>
    mem_write m2 (length a) z = Some (a @ z @ b @ NUL # drop d rest)"
proof (intro exI conjI)
  let ?t = "take (length z) (y @ b @ NUL # rest)" and ?n = "length a + length z + length b"
  have lm: "length m = length a + length y + length b + 1 + length rest" using m by simp
  have l: "length ?t = length z" using d by simp
  show "mem_read m (length a + length y) (length b) = Some b" using m by (simp add: cmem)
  have "take (length a + length z) m = a @ ?t" using m by simp
  then show "mem_write m (length a + length y + d) b = Some (a @ ?t @ b @ drop ?n m)"
    using lm d by (simp add: cmem add.assoc)
  have "drop ?n m = m ! ?n # drop (?n + 1) m" using lm d by (simp add: Cons_nth_drop_Suc)
  moreover have "drop (?n + 1) m = drop d rest" using m d by simp
  ultimately have "drop ?n m = m ! ?n # drop d rest" by simp
  moreover have "length (a @ ?t @ b) = length a + length y + length b + d" using l d by simp
  moreover have "wr ((a @ ?t @ b) @ c # r) (length (a @ ?t @ b)) NUL = Some ((a @ ?t @ b) @ NUL # r)" for c r
    by (simp only: wr_def list_update_length) simp
  ultimately show "wr (a @ ?t @ b @ drop ?n m) (length a + length y + length b + d) NUL = Some (a @ ?t @ b @ NUL # drop d rest)"
    by (metis append.assoc)
  show "mem_write (a @ ?t @ b @ NUL # drop d rest) (length a) z = Some (a @ z @ b @ NUL # drop d rest)"
    by (rule mem_write_mid [OF l])
qed

text \<open>The text during the loop: replaced from \<open>p\<close> on.\<close>

definition partly_replaced :: "string \<Rightarrow> string \<Rightarrow> string \<Rightarrow> nat \<Rightarrow> string" where
  "partly_replaced y z x p = take p x @ replace_all y z (drop p x)"

lemma partly_replaced_occurrences:
  assumes u: "unmixed y z" and l: "y \<noteq> []" "length y < length z"
    and p: "p \<le> length x" "p = length x \<or> occurs_at y x p" and k: "k < p"
  shows "occurs_at y (partly_replaced y z x p) k \<longleftrightarrow> occurs_at y x k"
proof (cases "k + length y \<le> p")
  case True
  then show ?thesis
    using occurs_at_append [of k y "take p x"] p(1) by (simp add: partly_replaced_def occurs_at_take)
next
  case False
  have "\<not> occurs_at y (partly_replaced y z x p) k"
  proof
    assume o: "occurs_at y (partly_replaced y z x p) k"
    show False
    proof (cases "p = length x")
      case True
      then show False using occurs_at_bound [OF o] False l(1) by (simp add: partly_replaced_def)
    next
      case False': False
      then have "prefix y (drop p x)" using p(2) by (simp add: occurs_at_def)
      then have "prefix z (replace_all y z (drop p x))" using l(1) by (simp add: replace_all_here)
      moreover have "prefix (drop (p - k) y) (replace_all y z (drop p x))"
        using occurs_at_tail [OF o, of p] k False p(1) by (simp add: partly_replaced_def)
      ultimately have "prefix (drop (p - k) y) z" using l(2) by (auto intro: prefix_length_prefix)
      then show False using unmixedD [OF u, of "p - k"] k False by simp
    qed
  qed
  moreover have "\<not> occurs_at y x k" using occurrences_apart [OF u _ k p(2)] False by blast
  ultimately show ?thesis by simp
qed

lemma partly_replaced_length:
  assumes "unmixed y z" "y \<noteq> []" "length y \<le> length z" "is_cstr x" "p \<le> length x" "p = length x \<or> occurs_at y x p"
  shows "length (partly_replaced y z x p) \<le> length (replace_all y z x)"
proof -
  have "replace_all y z x = replace_all y z (take p x) @ replace_all y z (drop p x)"
    using replace_all_split [of y p x z] occurrences_apart [of y z x _ p] assms by blast
  moreover have "length (take p x) \<le> length (replace_all y z (take p x))"
    using count_size_loop [of y z "take p x" "[]" "[]" 0] assms by (simp add: is_cstr_takeI)
  ultimately show ?thesis by (simp add: partly_replaced_def)
qed

text \<open>From the occurrence at \<open>p\<close> to the one before it.\<close>

lemma partly_replaced_step:
  assumes u: "unmixed y z" and l: "y \<noteq> []" "length y < length z"
    and p: "p \<le> length x" "p = length x \<or> occurs_at y x p"
    and k: "k < p" "occurs_at y x k" "\<forall>j. k < j \<and> j < p \<longrightarrow> \<not> occurs_at y x j"
  shows "\<exists>b. partly_replaced y z x p = take k x @ y @ b \<and> partly_replaced y z x k = take k x @ z @ b"
proof -
  have kp: "k + length y \<le> p" by (rule occurrences_apart [OF u k(2,1) p(2)])
  let ?b = "drop (k + length y) (take p x) @ replace_all y z (drop p x)"
  have "take p x = take k x @ y @ drop (k + length y) (take p x)"
    using occurs_at_split [of y "take p x" k] k(1,2) kp p(1) by (simp add: occurs_at_take min_def)
  then have 1: "partly_replaced y z x p = take k x @ y @ ?b"
    unfolding partly_replaced_def by (metis append.assoc)
  have "\<forall>j<p - (k + length y). \<not> occurs_at y (drop (k + length y) x) j"
  proof (intro allI impI)
    fix j assume "j < p - (k + length y)"
    moreover from this have "k < k + length y + j" using l(1) by (cases y) auto
    ultimately have "\<not> occurs_at y x (k + length y + j)" using k(3) by auto
    then show "\<not> occurs_at y (drop (k + length y) x) j" using kp p(1) by (simp add: occurs_at_drop)
  qed
  then have "replace_all y z (drop (k + length y) x) = ?b"
    using replace_all_skip [of y "p - (k + length y)" "drop (k + length y) x" z] l(1) kp p(1) by (simp add: drop_take)
  then have "replace_all y z (drop k x) = z @ ?b"
    using replace_all_here [of y "drop k x" z] l(1) k(2) by (simp add: occurs_at_def add.commute)
  then show ?thesis using 1 unfolding partly_replaced_def [of y z x k] by blast
qed

lemma replace_longer_loop:
  assumes u: "unmixed y z" and l: "y \<noteq> []" "length y < length z" and t: "represents t y" and x: "is_cstr x" and z: "is_cstr z"
  shows "p \<le> length x \<Longrightarrow> p = length x \<or> occurs_at y x p \<Longrightarrow> represents s (partly_replaced y z x p) \<Longrightarrow>
     length (replace_all y z x) \<le> capacity s \<Longrightarrow>
     \<exists>s'. replace_longer t z (length z - length y) (int p - 1) s = Some s' \<and> represents s' (replace_all y z x)"
proof (induction p arbitrary: s rule: less_induct)
  case (less p)
  note occ = partly_replaced_occurrences [OF u l less.prems(1,2)]
  have stop: ?case if "replace_longer t z (length z - length y) (int p - 1) s = Some s" "\<forall>k<p. \<not> occurs_at y x k"
  proof -
    have "partly_replaced y z x p = replace_all y z x"
      using replace_all_skip [OF l(1) less.prems(1) that(2), of z] by (simp add: partly_replaced_def)
    then show ?thesis using that(1) less.prems(3) by auto
  qed
  show ?case
  proof (cases "p = 0")
    case True
    then show ?thesis by (intro stop) (subst replace_longer.simps, simp_all)
  next
    case p: False
    have lt: "k \<le> p - 1 \<longleftrightarrow> k < p" for k using p by auto
    obtain r where r: "lastIndexOf s t (p - 1) = Some r"
      "if \<exists>k\<le>p - 1. occurs_at y (partly_replaced y z x p) k
       then \<exists>k. r = int k \<and> k \<le> p - 1 \<and> occurs_at y (partly_replaced y z x p) k \<and>
         (\<forall>j. k < j \<and> j \<le> p - 1 \<longrightarrow> \<not> occurs_at y (partly_replaced y z x p) j)
       else r = - 1"
      using lastIndexOf_last [OF less.prems(3) t l(1), of "p - 1"] by blast
    show ?thesis
    proof (cases "\<exists>k<p. occurs_at y x k")
      case False
      then have "r = - 1" using r(2) occ p by (auto split: if_splits)
      then show ?thesis using r(1) False p
        by (intro stop) (subst replace_longer.simps, auto simp: nat_diff_distrib)
    next
      case True
      then have "\<exists>k\<le>p - 1. occurs_at y (partly_replaced y z x p) k" using occ unfolding lt by blast
      then obtain k where k: "r = int k" "k \<le> p - 1" "occurs_at y (partly_replaced y z x p) k"
        "\<forall>j. k < j \<and> j \<le> p - 1 \<longrightarrow> \<not> occurs_at y (partly_replaced y z x p) j"
        using r(2) by auto
      have kx: "k < p" "occurs_at y x k" "\<forall>j. k < j \<and> j < p \<longrightarrow> \<not> occurs_at y x j"
        using k(2-4) occ unfolding lt by blast+
      obtain b where b: "partly_replaced y z x p = take k x @ y @ b" "partly_replaced y z x k = take k x @ z @ b"
        using partly_replaced_step [OF u l less.prems(1,2) kx] by blast
      have lk: "length (take k x) = k" using kx(1) less.prems(1) by simp
      have nn: "partly_replaced y z x p \<noteq> []" using b(1) l(1) by simp
      then obtain m where m: "buf s = Some m" using represents_buf [OF less.prems(3)] by auto
      obtain rest where rest: "m = take k x @ y @ b @ NUL # rest" "capacity s = k + length y + length b + length rest"
        using represents_Some [OF less.prems(3) m] b(1) lk by (auto simp: add.assoc)
      define d where "d = length z - length y"
      have d: "length z = length y + d" using l(2) by (simp add: d_def)
      have "length (partly_replaced y z x k) \<le> capacity s"
        using partly_replaced_length [of y z x k] u l x kx(2) less.prems(1,4) kx(1) by simp
      then have dr: "d \<le> length rest" using b(2) rest(2) d lk by simp
      obtain m1 m2 where st: "mem_read m (k + length y) (length b) = Some b"
        "mem_write m (k + length y + d) b = Some m1" "wr m1 (k + length y + length b + d) NUL = Some m2"
        "mem_write m2 k z = Some (take k x @ z @ b @ NUL # drop d rest)"
        using longer_step [OF rest(1) d dr] unfolding lk by blast
      let ?s = "s\<lparr>len := len s + d, buf := Some (take k x @ z @ b @ NUL # drop d rest)\<rparr>"
      have len: "len s = k + length y + length b" using represents_len [OF less.prems(3)] b(1) lk by simp
      have "represents ?s (partly_replaced y z x k)"
        unfolding b(2) using len lk d dr rest(2) represents_cstr [OF less.prems(3)] z b(1)
        by (intro representsI [where rest = "drop d rest"]) auto
      then have IH: "\<exists>s'. replace_longer t z (length z - length y) (int k - 1) ?s = Some s' \<and> represents s' (replace_all y z x)"
        using kx less.prems(1,4) by (intro less.IH) auto
      have "replace_longer t z (length z - length y) (int p - 1) s = replace_longer t z (length z - length y) (int k - 1) ?s"
        using r(1) k(1) m st p len represents_len [OF t] unfolding d_def [symmetric]
        by (subst replace_longer.simps) (simp add: nat_diff_distrib Let_def)
      then show ?thesis using IH by simp
    qed
  qed
qed

text \<open>
  The theorem for a longer replacement: the text is replaced from the left if the memory for it is there,
  and left alone if not.
\<close>

lemma replace_with_longer:
  assumes s: "represents s x" and t: "represents t y" and r: "represents v z"
    and u: "unmixed y z" and l: "y \<noteq> []" "length y < length z"
  shows "\<exists>s'. replace_String heap junk t v s = Some s' \<and>
    (represents s' (replace_all y z x) \<or> s' = s \<and> \<not> heap (block_size (length (replace_all y z x))))"
proof (cases "x = []")
  case True
  then show ?thesis using s l(1) represents_len [OF s] by (auto simp: replace_String_def)
next
  case False
  then obtain m where m: "buf s = Some m" using represents_buf [OF s] by auto
  then obtain rest where rest: "m = x @ NUL # rest" using represents_Some [OF s] by blast
  note lens = represents_len [OF s] represents_len [OF t] represents_len [OF r]
  have y: "text_of t = Some y" using text_of_represents [OF t] represents_buf [OF t l(1)] by simp
  have c: "is_cstr x" "is_cstr z" using represents_cstr [OF s] represents_cstr [OF r] by simp_all
  have n: "count_size y (length y) (length z - length y) m 0 (length x) = Some (length (replace_all y z x))"
    "length x \<le> length (replace_all y z x)"
    using count_size_loop [OF l(1) less_imp_le [OF l(2)] c(1), of "[]" rest "length x"] rest by auto
  have R: "replace_String heap junk t v s =
     (if length (replace_all y z x) = length x then Some s
      else Option.bind (if length (replace_all y z x) > capacity s
          then changeBuffer heap junk (length (replace_all y z x)) s else Some (True, s))
        (\<lambda>(ok, s). if \<not> ok then Some s else replace_longer t z (length z - length y) (int (len s) - 1) s))"
    using False l m y lens n(1) replacement_bytes [OF r] by (simp add: replace_String_def cong: if_cong)
  have loop: "\<exists>s''. replace_longer t z (length z - length y) (int (len s') - 1) s' = Some s'' \<and> represents s'' (replace_all y z x)"
    if "represents s' x" "length (replace_all y z x) \<le> capacity s'" for s'
    using replace_longer_loop [OF u l t c, of "length x" s'] that represents_len [of s' x] l(1)
    by (simp add: partly_replaced_def)
  show ?thesis
  proof (cases "length (replace_all y z x) = length x")
    case True
    have "\<not> occurs_at y x k" for k
    proof
      assume o: "occurs_at y x k"
      then have "strstr x y \<noteq> None" unfolding strstr_None by blast
      then obtain j where j: "occurs_at y x j" "\<forall>i<j. \<not> occurs_at y x i" by (auto simp: strstr_Some)
      have "length (drop (j + length y) x) \<le> length (replace_all y z (drop (j + length y) x))"
        using count_size_loop [OF l(1) less_imp_le [OF l(2)] is_cstr_dropI [OF c(1)]] by blast
      then show False
        using True replace_all_first [OF l(1) j, of z] l(2) occurs_at_bound [OF j(1)] by simp
    qed
    then have "replace_all y z x = x" by (intro replace_all_none [OF l(1)]) simp
    then show ?thesis using R True s by simp
  next
    case ne: False
    show ?thesis
    proof (cases "length (replace_all y z x) > capacity s")
      case True
      show ?thesis
      proof (cases "heap (block_size (length (replace_all y z x)))")
        case h: True
        obtain s' where "changeBuffer heap junk (length (replace_all y z x)) s = Some (True, s')" "represents s' x"
          "length (replace_all y z x) \<le> capacity s'"
          using changeBuffer_grows [OF s m True, of heap] h by blast
        then show ?thesis using R ne True loop [of s'] by auto
      next
        case False
        then show ?thesis using R ne True by (simp add: changeBuffer_fails)
      qed
    next
      case False
      then show ?thesis using R ne loop [OF s] by auto
    qed
  qed
qed

section \<open>Properties of strings\<close>

text \<open>
  C20.  \<open>replace\<close> replaces the occurrences from the left whenever the replacement is not longer, or is longer
  and no occurrence overlaps another or a replacement.  The only other outcome is that the memory for a
  longer text is not there; then the string is unchanged.
\<close>
theorem replace_from_the_left:
  assumes "represents s x" "represents t y" "represents v z" and "y \<noteq> []"
    and "length z \<le> length y \<or> unmixed y z"
  shows "\<exists>s'. replace_String heap junk t v s = Some s' \<and>
    (represents s' (replace_all y z x) \<or>
     s' = s \<and> length y < length z \<and> \<not> heap (block_size (length (replace_all y z x))))"
proof (cases "length z \<le> length y")
  case True
  then show ?thesis using replace_not_longer [OF assms(1-3) True, of heap junk] assms(4) by auto
next
  case False
  then show ?thesis using replace_with_longer [OF assms(1-3), of heap junk] assms(4,5) by auto
qed

lemma replace_from_the_left_witness:
  "\<exists>s'. replace_String (\<lambda>_. True) (\<lambda>_. NUL) (sample ''%'' 0) (sample ''%25'' 0) (sample ''5% of %'' 3) = Some s' \<and>
    represents s' ''5%25 of %25''"
proof -
  have "replace_all ''%'' ''%25'' ''5% of %'' = ''5%25 of %25''"
    by (simp add: replace_all.simps)
  moreover have "unmixed ''%'' ''%25''" by (simp add: unmixed_def)
  ultimately show ?thesis
    using replace_from_the_left [OF represents_sample represents_sample represents_sample,
        of "''5% of %''" "''%''" "''%25''" "\<lambda>_. True" "\<lambda>_. NUL" 0 0 3] by simp
qed

text \<open>
  The condition on longer replacements is needed: the loop finds occurrences that its own replacements
  have produced, which the size it has reserved does not count, and leaves the buffer.
\<close>
theorem replace_overflows:
  "replace_String heap junk (sample ''ab'' 0) (sample ''b0123456789abc'' 0) (sample ''aab'' 12) = None"
  by code_simp

text \<open>Copying a text onto its own terminator never finds it.\<close>

lemma strcpy_within_overruns:
  "src < dst \<Longrightarrow> dst \<le> length m \<Longrightarrow> \<forall>i. src \<le> i \<and> i < dst \<longrightarrow> m ! i \<noteq> NUL \<Longrightarrow> strcpy_within m dst src = None"
proof (induction m dst src rule: strcpy_within.induct)
  case (1 m dst src)
  show ?case
  proof (cases "dst < length m")
    case True
    have "strcpy_within (m[dst := m ! src]) (dst + 1) (src + 1) = None"
      using 1(2-) True by (intro "1.IH" [OF True _ ]) (auto simp: rd_def nth_list_update less_Suc_eq)
    then show ?thesis using True 1(2-) by (subst strcpy_within.simps) (simp add: cmem)
  qed (subst strcpy_within.simps, simp)
qed

text \<open>
  A string appended to itself leaves its memory: the pointer to its own text is either stale after the
  buffer has moved or the copy overwrites the terminator it is looking for.  Without memory it is unchanged.
\<close>
theorem concat_self_faults:
  assumes "represents s x" "x \<noteq> []"
  shows "concat_self heap junk s =
    (if length (x @ x) \<le> capacity s \<or> heap (block_size (length (x @ x))) then None else Some (False, s))"
proof -
  obtain m where m: "buf s = Some m" using represents_buf [OF assms] by auto
  then obtain rest where rest: "m = x @ NUL # rest" "capacity s = length x + length rest"
    using represents_Some [OF assms(1)] by blast
  have len: "len s = length x" by (rule represents_len [OF assms(1)])
  have "m ! i \<noteq> NUL" if "i < length x" for i
    using that represents_cstr [OF assms(1)] by (auto simp: rest nth_append is_cstr_def in_set_conv_nth)
  then have over: "strcpy_within m (length x) 0 = None"
    using assms(2) by (intro strcpy_within_overruns) (simp_all add: rest)
  obtain r s' where r: "reserve heap junk (length (x @ x)) s = Some (r, s')"
     "r \<longleftrightarrow> (buf s \<noteq> None \<and> length (x @ x) \<le> capacity s) \<or> heap (block_size (length (x @ x)))" "\<not> r \<longrightarrow> s' = s"
    using reserve_meets [OF assms(1)] by blast
  then show ?thesis using m len over assms(2) by (auto simp: concat_self_def Let_def)
qed

lemma concat_self_faults_witness: "concat_self (\<lambda>_. True) (\<lambda>_. NUL) (sample ''a'' 0) = None"
  using concat_self_faults [OF represents_sample, of "''a''" "\<lambda>_. True" "\<lambda>_. NUL" 0] by simp

text \<open>
  \<open>move\<close> hands the text over; a source without a buffer (an object invalidated by a failed allocation) makes
  it copy from a null pointer if the destination has a buffer.
\<close>

lemma move_moves:
  assumes r: "represents r y" and s: "represents s x"
  shows "if buf r = None \<and> buf s \<noteq> None then move r s = None
    else \<exists>s' r'. move r s = Some (s', r') \<and> represents s' y \<and> len r' = 0"
proof (cases "buf s")
  case None
  then show ?thesis using r by (simp add: move_def init_def)
next
  case (Some m)
  then obtain rest where rest: "m = x @ NUL # rest" "capacity s = length x + length rest"
    using represents_Some [OF s] by blast
  show ?thesis
  proof (cases "buf r")
    case None
    then show ?thesis using Some represents_None [OF r] by (simp add: move_def init_def)
  next
    case (Some b)
    then have c: "c_string b 0 = Some y" using text_of_represents [OF r] by (simp add: text_of_def)
    show ?thesis
    proof (cases "length y \<le> capacity s")
      case True
      then have "strcpy m 0 y = Some (y @ NUL # drop (length y + 1) m)" using rest by (simp add: strcpy_def cmem)
      then show ?thesis
        using True c rest Some \<open>buf s = Some m\<close> represents_len [OF r] represents_cstr [OF r]
        by (auto simp: move_def intro!: representsI [where rest = "drop (length y + 1) m"])
    next
      case False
      then show ?thesis using r Some \<open>buf s = Some m\<close> represents_len [OF r] by (simp add: move_def init_def)
    qed
  qed
qed

text \<open>The two prefix tests; the one with an offset subtracts the lengths without comparing them.\<close>

lemma startsWith_prefix:
  assumes s: "represents s x" "buf s \<noteq> None" and t: "represents t y" "buf t \<noteq> None" and l: "length x < 2 ^ 32"
  shows "startsWith s t = Some (prefix y x)" and "endsWith s t = Some (suffix y x)"
proof -
  obtain m where m: "buf s = Some m" using s(2) by auto
  then obtain rest where "m = x @ NUL # rest" using represents_Some [OF s(1)] by blast
  then have c: "c_string m i = Some (drop i x)" if "i \<le> length x" for i
    using that represents_cstr [OF s(1)] by (simp add: c_string_at)
  note f = text_of_represents [OF t] represents_len [OF s(1)] represents_len [OF t(1)]
  show "startsWith s t = Some (prefix y x)"
    using m c [of 0] f t(2) prefix_length_le [of y x]
    by (auto simp: startsWith_def startsWith_at_def prefix_take)
  show "endsWith s t = Some (suffix y x)"
  proof (cases "length y \<le> length x")
    case True
    have "strcmp (drop (length x - length y) x) y = 0 \<longleftrightarrow> drop (length x - length y) x = y"
      by (rule strcmp_order(1)) (simp_all add: is_cstr_dropI represents_cstr [OF s(1)] represents_cstr [OF t(1)])
    moreover have "drop (length x - length y) x = y \<longleftrightarrow> suffix y x"
      by (metis True suffix_drop suffix_take append_eq_conv_conj suffix_def diff_diff_cancel length_append add_diff_cancel_right')
    ultimately show ?thesis using True m c [of "length x - length y"] f t(2) by (auto simp: endsWith_def)
  next
    case False
    then show ?thesis using f suffix_length_le [of y x] by (auto simp: endsWith_def)
  qed
qed

lemma startsWith_at_faults:
  assumes "represents s x" "buf s \<noteq> None" "buf t \<noteq> None" "length x < len t" "len t < 2 ^ 31"
    "capacity s < offset" "offset < 2 ^ 31"
  shows "startsWith_at s t offset = None"
proof -
  let ?d = "int (length x) - int (len t)"
  obtain m where m: "buf s = Some m" using assms(2) by auto
  then have n: "c_string m offset = None" using assms(1,6) by (simp add: c_string_def represents_def)
  have "(?d + 2 ^ 32) mod 2 ^ 32 = ?d + 2 ^ 32"
    by (rule mod_pos_pos_trivial) (use assms(4,5) in simp_all)
  then have "?d mod 2 ^ 32 = ?d + 2 ^ 32" by (simp only: mod_add_self2)
  then have "\<not> usub (len s) (len t) < offset"
    using assms(4,5,7) represents_len [OF assms(1)] by (simp add: usub_def)
  then show ?thesis using m n assms(3) by (auto simp: startsWith_at_def)
qed

end
