(* ===== verification/Flatmap.thy ===== *)
theory Flatmap
  imports CString "HOL-Library.AList"
begin

text \<open>
  \<open>src/main/flatmap.c\<close>: the array map every other part of the application keeps its data in.
  A \<open>MapInfo\<close> owns a block of \<open>Entry\<close> structs; the model keeps the block as the list of the
  entries that fit in the memory behind the pointer (\<open>None\<close> for a null pointer), so its length
  is the allocated size in bytes divided by \<open>sizeof(Entry)\<close> and not \<open>entriesMax\<close>.  A pointer
  to an entry is its index.  Allocation itself succeeds (the asserts on an exhausted heap are not
  modelled); every other assert, null dereference and access outside a block is \<open>None\<close>.
\<close>

section \<open>Data\<close>

record 'c Entry =
  key :: "string option"
  content :: "'c option"

record 'c MapInfo =
  entries :: "'c Entry list option"
  entriesMax :: nat
  entriesLen :: nat

text \<open>Two 32-bit pointers.\<close>

definition sizeof_Entry :: nat where
  "sizeof_Entry = 8"

definition zero_entry :: "'c Entry" where
  "zero_entry = \<lparr>key = None, content = None\<rparr>"

text \<open>
  \<open>calloc(n, sizeof(Entry))\<close>, and \<open>realloc(p, bytes)\<close>, which keeps what fits.  The entries a
  growing \<open>realloc\<close> would add are never seen here: \<open>realloc_entries_shrinks\<close> below.
\<close>

definition calloc_entries :: "nat \<Rightarrow> 'c Entry list" where
  "calloc_entries n = replicate n zero_entry"

definition realloc_entries :: "'c Entry list \<Rightarrow> nat \<Rightarrow> 'c Entry list" where
  "realloc_entries es bytes =
     (let n = bytes div sizeof_Entry
      in take n es @ replicate (n - length es) zero_entry)"

section \<open>Operations\<close>

text \<open>
  \<open>trimWhitespace\<close> works on the buffer in place.  \<open>trim_lead\<close> is the first loop (from index
  \<open>i\<close>, writing at \<open>j\<close>), \<open>trim_tail\<close> the second: its argument is the index before the
  \<open>j--\<close>, so \<open>0\<close> is the \<open>size_t\<close> that wraps around and addresses memory before the buffer.
\<close>

function trim_lead :: "char list \<Rightarrow> nat \<Rightarrow> nat \<Rightarrow> nat \<Rightarrow> bool \<Rightarrow> (char list \<times> nat) option" where
  "trim_lead buf len i j leadingSpace =
     (if i < len then
        do {
          c \<leftarrow> rd buf i;
          if \<not> isspace c \<or> \<not> leadingSpace
          then do { buf' \<leftarrow> wr buf j c; trim_lead buf' len (Suc i) (Suc j) False }
          else trim_lead buf len (Suc i) j leadingSpace
        }
      else Some (buf, j))"
  by pat_completeness auto
termination
  by (relation "measure (\<lambda>(buf, len, i, j, l). len - i)") auto

declare trim_lead.simps [simp del]

fun trim_tail :: "char list \<Rightarrow> nat \<Rightarrow> char list option" where
  "trim_tail buf 0 = None"
| "trim_tail buf (Suc j) =
     do {
       c \<leftarrow> rd buf j;
       if isspace c then do { buf' \<leftarrow> wr buf j NUL; trim_tail buf' j } else Some buf
     }"

definition trimWhitespace :: "char list \<Rightarrow> char list option" where
  "trimWhitespace buf =
     do {
       (buf, j) \<leftarrow> trim_lead buf (length (cstr buf)) 0 0 True;
       buf \<leftarrow> wr buf j NUL;
       trim_tail buf j
     }"

text \<open>The key both \<open>flatmap_get\<close> and \<open>flatmap_put\<close> work with: a trimmed copy.\<close>

definition trim_key :: "string \<Rightarrow> string option" where
  "trim_key s = map_option cstr (trimWhitespace (strdup s))"

definition flatmap_init :: "'c MapInfo \<Rightarrow> 'c MapInfo option" where
  "flatmap_init m =
     (if entries m \<noteq> None then None
      else let mx = (if entriesMax m = 0 then 16 else entriesMax m)
           in Some (m\<lparr>entriesMax := mx, entriesLen := 0, entries := Some (calloc_entries mx)\<rparr>))"

definition flatmap_getByIndex :: "'c MapInfo \<Rightarrow> nat \<Rightarrow> nat option" where
  "flatmap_getByIndex m index = (if entriesLen m \<le> index then None else Some index)"

definition flatmap_getEntryCount :: "'c MapInfo \<Rightarrow> nat" where
  "flatmap_getEntryCount m = entriesLen m"

text \<open>Reading and writing the entry behind a pointer.\<close>

definition load_entry :: "'c MapInfo \<Rightarrow> nat \<Rightarrow> 'c Entry option" where
  "load_entry m i = do { es \<leftarrow> entries m; rd es i }"

definition store_entry :: "'c MapInfo \<Rightarrow> nat \<Rightarrow> 'c Entry \<Rightarrow> 'c MapInfo option" where
  "store_entry m i e =
     do { es \<leftarrow> entries m; es' \<leftarrow> wr es i e; Some (m\<lparr>entries := Some es'\<rparr>) }"

text \<open>\<open>Some None\<close> is the null pointer that \<open>flatmap_get\<close> returns for an absent key.\<close>

function flatmap_get_from :: "'c MapInfo \<Rightarrow> string \<Rightarrow> nat \<Rightarrow> nat option option" where
  "flatmap_get_from m k pos =
     (if pos < entriesLen m then
        do {
          tmpKey \<leftarrow> trim_key k;
          e \<leftarrow> load_entry m pos;
          ek \<leftarrow> key e;
          if ek = tmpKey then Some (Some pos) else flatmap_get_from m k (Suc pos)
        }
      else Some None)"
  by pat_completeness auto
termination
  by (relation "measure (\<lambda>(m, k, pos). entriesLen m - pos)") auto

declare flatmap_get_from.simps [simp del]

definition flatmap_get :: "'c MapInfo \<Rightarrow> string \<Rightarrow> nat option option" where
  "flatmap_get m k = flatmap_get_from m k 0"

text \<open>The branch of \<open>flatmap_put\<close> that takes an unused entry, growing the block when it is full.\<close>

definition flatmap_grow :: "'c MapInfo \<Rightarrow> 'c MapInfo option" where
  "flatmap_grow m =
     (if entriesMax m \<le> entriesLen m
      then let mx = entriesMax m * 2 in
        do {
          es \<leftarrow> entries m;
          Some (m\<lparr>entriesMax := mx, entries := Some (realloc_entries es mx)\<rparr>)
        }
      else Some m)"

definition flatmap_new_entry :: "'c MapInfo \<Rightarrow> string \<Rightarrow> ('c MapInfo \<times> nat) option" where
  "flatmap_new_entry m k =
     do {
       m \<leftarrow> flatmap_grow m;
       let candidate = entriesLen m;
       m \<leftarrow> Some (m\<lparr>entriesLen := entriesLen m + 1\<rparr>);
       e \<leftarrow> load_entry m candidate;
       m \<leftarrow> store_entry m candidate (e\<lparr>content := None\<rparr>);
       tmp \<leftarrow> trim_key k;
       e \<leftarrow> load_entry m candidate;
       m \<leftarrow> store_entry m candidate (e\<lparr>key := Some tmp\<rparr>);
       Some (m, candidate)
     }"

text \<open>
  \<open>assign\<close> is the \<open>assignContent\<close> callback of the map: it gets the new data and the content
  the entry has now, and yields the content to store.
\<close>

definition flatmap_put ::
    "('s \<Rightarrow> 'c option \<Rightarrow> 'c option) \<Rightarrow> 'c MapInfo \<Rightarrow> string \<Rightarrow> 's \<Rightarrow> 'c MapInfo option" where
  "flatmap_put assign m k src =
     do {
       found \<leftarrow> flatmap_get m k;
       (m, candidate) \<leftarrow>
         (case found of Some i \<Rightarrow> Some (m, i) | None \<Rightarrow> flatmap_new_entry m k);
       e \<leftarrow> load_entry m candidate;
       c \<leftarrow> assign src (content e);
       store_entry m candidate (e\<lparr>content := Some c\<rparr>)
     }"

text \<open>
  \<open>flatmap_free\<close> releases the entries from the last to the first and then the block.  What is
  released is recorded: the argument \<open>freed\<close> collects the keys and the contents handed to
  \<open>free\<close> and to the \<open>freeContent\<close> callback.
\<close>

function flatmap_free_entries ::
    "'c MapInfo \<Rightarrow> (string option \<times> 'c option) list \<Rightarrow>
     ('c MapInfo \<times> (string option \<times> 'c option) list) option" where
  "flatmap_free_entries m freed =
     (if 0 < entriesLen m then
        do {
          i \<leftarrow> flatmap_getByIndex m (entriesLen m - 1);
          e \<leftarrow> load_entry m i;
          m' \<leftarrow> store_entry m i (e\<lparr>key := None, content := None\<rparr>);
          flatmap_free_entries (m'\<lparr>entriesLen := entriesLen m - 1\<rparr>)
            (freed @ [(key e, content e)])
        }
      else Some (m, freed))"
  by pat_completeness auto
termination
  by (relation "measure (\<lambda>(m, freed). entriesLen m)") auto

declare flatmap_free_entries.simps [simp del]

definition flatmap_free ::
    "'c MapInfo \<Rightarrow> ('c MapInfo \<times> (string option \<times> 'c option) list) option" where
  "flatmap_free m =
     do {
       (m, freed) \<leftarrow> flatmap_free_entries m [];
       Some (m\<lparr>entries := None\<rparr>, freed)
     }"


section \<open>Trimming\<close>

definition blank :: "string \<Rightarrow> bool" where
  "blank s \<longleftrightarrow> (\<forall>c\<in>set s. isspace c)"

definition rtrim :: "string \<Rightarrow> string" where
  "rtrim s = rev (dropWhile isspace (rev s))"

definition trim :: "string \<Rightarrow> string" where
  "trim s = rtrim (dropWhile isspace s)"

lemma trim_lead_copy:
  "j \<le> i \<Longrightarrow> i \<le> len \<Longrightarrow> len < length buf \<Longrightarrow>
   trim_lead buf len i j False =
     Some (take j buf @ drop i (take len buf) @ drop (j + (len - i)) buf, j + (len - i))"
proof (induction "len - i" arbitrary: buf i j)
  case 0
  then show ?case by (subst trim_lead.simps) simp
next
  case (Suc d)
  let ?buf = "buf[j := buf ! i]"
  have IH: "trim_lead ?buf len (Suc i) (Suc j) False =
    Some (take (Suc j) ?buf @ drop (Suc i) (take len ?buf) @ drop (Suc j + (len - Suc i)) ?buf,
          Suc j + (len - Suc i))"
    using Suc.hyps(2) Suc.prems by (intro Suc.hyps(1)) auto
  have less: "i < len" and arith: "Suc (j + len - Suc i) = j + len - i"
    using Suc.hyps(2) by arith+
  have eqs: "take (Suc j) ?buf = take j buf @ [buf ! i]"
    "drop (Suc i) (take len ?buf) = drop (Suc i) (take len buf)"
    "drop (j + (len - i)) ?buf = drop (j + (len - i)) buf"
    using Suc.hyps(2) Suc.prems
    by (simp_all add: take_Suc_conv_app_nth take_update_swap drop_update_swap list_update_append)
  have "drop i (take len buf) = buf ! i # drop (Suc i) (take len buf)"
    using Suc.hyps(2) Suc.prems by (simp flip: Cons_nth_drop_Suc)
  then show ?case
    using IH Suc.hyps(2) Suc.prems by (subst trim_lead.simps) (simp add: cmem eqs arith less)
qed

lemma trim_lead_skip:
  "i \<le> len \<Longrightarrow> len < length buf \<Longrightarrow> t = dropWhile isspace (drop i (take len buf)) \<Longrightarrow>
   trim_lead buf len i 0 True = Some (t @ drop (length t) buf, length t)"
proof (induction "len - i" arbitrary: i)
  case 0
  then show ?case by (subst trim_lead.simps) simp
next
  case (Suc d)
  have split: "drop i (take len buf) = buf ! i # drop (Suc i) (take len buf)"
    using Suc.hyps(2) Suc.prems by (simp flip: Cons_nth_drop_Suc)
  show ?case
  proof (cases "isspace (buf ! i)")
    case True
    then show ?thesis
      using Suc.hyps(1) [of "Suc i"] Suc.hyps(2) Suc.prems split
      by (subst trim_lead.simps) (simp add: cmem)
  next
    case False
    with split Suc.prems(3) have t: "t = drop i (take len buf)" by simp
    have "trim_lead buf len i 0 True = trim_lead buf len i 0 False"
      using False Suc.hyps(2) Suc.prems by (subst (1 2) trim_lead.simps) (simp add: cmem)
    then show ?thesis
      using trim_lead_copy [of 0 i len buf] Suc.prems t by simp
  qed
qed

lemma trim_tail_blank: "blank t \<Longrightarrow> trim_tail (t @ r) (length t) = None"
  by (induction t arbitrary: r rule: rev_induct) (auto simp: blank_def cmem list_update_append)

lemma trim_tail_rtrim:
  "\<not> blank t \<Longrightarrow> \<exists>r'. trim_tail (t @ NUL # r) (length t) = Some (rtrim t @ NUL # r')"
proof (induction t arbitrary: r rule: rev_induct)
  case (snoc c t)
  then show ?case
    by (cases "isspace c") (auto simp: blank_def rtrim_def cmem list_update_append)
qed (simp add: blank_def)

lemma cstr_suffix: "is_cstr s \<Longrightarrow> is_cstr (dropWhile P s)"
  unfolding is_cstr_def using set_dropWhileD by fastforce

lemma rtrim_is_cstr: "is_cstr s \<Longrightarrow> is_cstr (rtrim s)"
  by (auto simp: is_cstr_def rtrim_def dest: set_dropWhileD)

lemma blank_dropWhile [simp]: "blank (dropWhile isspace s) = blank s"
  by (induction s) (auto simp: blank_def)

lemma dropWhile_blank: "blank s \<Longrightarrow> dropWhile isspace s = []"
  by (simp add: blank_def)

text \<open>The exact behaviour of the in-place code: it leaves the buffer when nothing would be left.\<close>

lemma trim_key_eq:
  assumes "is_cstr s"
  shows "trim_key s = (if blank s then None else Some (trim s))"
proof -
  let ?t = "dropWhile isspace s"
  have len: "length ?t \<le> length s" by (rule length_dropWhile_le)
  obtain x r where xr: "drop (length ?t) (s @ [NUL]) = x # r"
    using len by (cases "drop (length ?t) (s @ [NUL])") auto
  have lead: "trim_lead (s @ [NUL]) (length s) 0 0 True = Some (?t @ x # r, length ?t)"
    using trim_lead_skip [of 0 "length s" "s @ [NUL]" ?t] xr by simp
  have "trimWhitespace (strdup s) = trim_tail (?t @ NUL # r) (length ?t)"
    using assms by (simp add: trimWhitespace_def strdup_def lead cmem list_update_append)
  moreover have "is_cstr (rtrim ?t)" using assms by (simp add: cstr_suffix rtrim_is_cstr)
  ultimately show ?thesis
    using trim_tail_rtrim [of ?t r] trim_tail_blank [of ?t "NUL # r"]
    by (auto simp: trim_key_def trim_def dropWhile_blank)
qed

lemma dropWhile_rtrim:
  "s = [] \<or> \<not> isspace (hd s) \<Longrightarrow> dropWhile isspace (rtrim s) = rtrim s"
  by (cases s) (auto simp: rtrim_def dropWhile_append)

lemma rtrim_idem: "rtrim (rtrim s) = rtrim s"
  by (simp add: rtrim_def dropWhile_idem)

lemma trim_idem: "trim (trim s) = trim s"
  unfolding trim_def using hd_dropWhile [of isspace s] by (metis dropWhile_rtrim rtrim_idem)

lemma trim_blank: "blank (trim s) = blank s"
proof -
  have "blank (rtrim t) = blank t" for t
    using blank_dropWhile [of "rev t"] by (simp add: rtrim_def blank_def)
  then show ?thesis by (simp add: trim_def)
qed

lemma trim_is_cstr: "is_cstr s \<Longrightarrow> is_cstr (trim s)"
  by (simp add: trim_def cstr_suffix rtrim_is_cstr)

lemma trim_key_cstr: "trim_key s = trim_key (cstr s)"
  by (simp add: trim_key_def strdup_def)

lemma trim_key_Some: "trim_key s = Some k \<Longrightarrow> is_cstr k \<and> \<not> blank k \<and> trim k = k"
  by (subst (asm) trim_key_cstr)
    (auto simp: trim_key_eq trim_is_cstr trim_blank trim_idem split: if_splits)

lemma trim_key_idem: "trim_key s = Some k \<Longrightarrow> trim_key k = Some k"
  using trim_key_Some [of s k] by (simp add: trim_key_eq)

lemma trim_key_plain:
  assumes "is_cstr s" and "s \<noteq> []" and "\<forall>c\<in>set s. \<not> isspace c"
  shows "trim_key s = Some s"
proof -
  have "dropWhile isspace t = t" if "\<forall>c\<in>set t. \<not> isspace c" for t
    using that by (cases t) auto
  from this [of s] this [of "rev s"] have "trim s = s"
    using assms(3) by (simp add: trim_def rtrim_def)
  moreover have "\<not> blank s" using assms(2,3) by (cases s) (auto simp: blank_def)
  ultimately show ?thesis using assms(1) by (simp add: trim_key_eq)
qed

section \<open>The map an array of entries represents\<close>

text \<open>
  \<open>fm_repr n m l\<close>: the map \<open>m\<close> has its initial size of \<open>n\<close> entries, and the used ones hold the
  pairs \<open>l\<close>, whose keys are trimmed and distinct.
\<close>

definition used_entry :: "string \<times> 'c \<Rightarrow> 'c Entry" where
  "used_entry p = \<lparr>key = Some (fst p), content = Some (snd p)\<rparr>"

lemma used_entry_sel [simp]:
  "key (used_entry p) = Some (fst p)" "content (used_entry p) = Some (snd p)"
  "(used_entry p)\<lparr>key := None, content := None\<rparr> = \<lparr>key = None, content = None\<rparr>"
  by (simp_all add: used_entry_def)

definition fm_repr :: "nat \<Rightarrow> 'c MapInfo \<Rightarrow> (string \<times> 'c) list \<Rightarrow> bool" where
  "fm_repr n m l \<longleftrightarrow>
     (\<exists>rest. entries m = Some (map used_entry l @ rest) \<and> length l + length rest = n) \<and>
     entriesLen m = length l \<and> entriesMax m = n \<and> n > 0 \<and>
     distinct (map fst l) \<and> (\<forall>k\<in>set (map fst l). trim_key k = Some k)"

text \<open>What the callers do with the result of \<open>flatmap_get\<close>: read the content behind it.\<close>

definition flatmap_lookup :: "'c MapInfo \<Rightarrow> string \<Rightarrow> 'c option option" where
  "flatmap_lookup m k =
     do {
       r \<leftarrow> flatmap_get m k;
       case r of None \<Rightarrow> Some None | Some i \<Rightarrow> do { e \<leftarrow> load_entry m i; Some (content e) }
     }"

lemma fm_repr_length: "fm_repr n m l \<Longrightarrow> length l \<le> n"
  by (auto simp: fm_repr_def)

lemma fm_repr_count: "fm_repr n m l \<Longrightarrow> flatmap_getEntryCount m = length l"
  by (simp add: fm_repr_def flatmap_getEntryCount_def)

lemma flatmap_init_repr:
  "entries m = None \<Longrightarrow> n = (if entriesMax m = 0 then 16 else entriesMax m) \<Longrightarrow>
     \<exists>m'. flatmap_init m = Some m' \<and> fm_repr n m' []"
  by (auto simp: flatmap_init_def fm_repr_def calloc_entries_def)

lemma load_used: "fm_repr n m l \<Longrightarrow> i < length l \<Longrightarrow> load_entry m i = Some (used_entry (l ! i))"
  by (auto simp: fm_repr_def load_entry_def cmem nth_append)

lemma store_used:
  assumes "fm_repr n m l" and "i < length l" and "fst p = fst (l ! i)"
  shows "\<exists>m'. store_entry m i (used_entry p) = Some m' \<and> fm_repr n m' (l[i := p])"
proof -
  obtain rest where es: "entries m = Some (map used_entry l @ rest)"
    using assms(1) by (auto simp: fm_repr_def)
  have keys: "map fst (l[i := p]) = map fst l"
    using assms(2,3) by (simp add: map_update list_update_same_conv)
  obtain m' where m': "store_entry m i (used_entry p) = Some m'"
    "m' = m\<lparr>entries := Some (map used_entry (l[i := p]) @ rest)\<rparr>"
    using assms(2) es by (simp add: store_entry_def cmem list_update_append map_update)
  with assms(1) es have "fm_repr n m' (l[i := p])"
    unfolding fm_repr_def keys by (simp add: fm_repr_def)
  with m'(1) show ?thesis by blast
qed

section \<open>Looking up\<close>

lemma flatmap_get_from:
  assumes "fm_repr n m l" and "trim_key k = Some k'"
  shows "pos \<le> length l \<Longrightarrow> k' \<notin> set (map fst (take pos l)) \<Longrightarrow>
    (if k' \<in> set (map fst l)
     then \<exists>i<length l. fst (l ! i) = k' \<and> flatmap_get_from m k pos = Some (Some i)
     else flatmap_get_from m k pos = Some None)"
proof (induction "length l - pos" arbitrary: pos)
  case 0
  then show ?case using assms(1) by (subst (1 2) flatmap_get_from.simps) (auto simp: fm_repr_def)
next
  case (Suc d)
  then have less: "pos < length l" by simp
  then have step: "flatmap_get_from m k pos =
      (if fst (l ! pos) = k' then Some (Some pos) else flatmap_get_from m k (Suc pos))"
    using assms by (subst flatmap_get_from.simps) (simp add: load_used used_entry_def, simp add: fm_repr_def)
  show ?case
  proof (cases "fst (l ! pos) = k'")
    case True
    with less have "k' \<in> set (map fst l)" by auto
    with True less step show ?thesis by auto
  next
    case False
    then show ?thesis
      using Suc.hyps(1) [of "Suc pos"] Suc.hyps(2) Suc.prems less step
      by (simp add: take_Suc_conv_app_nth)
  qed
qed

lemma flatmap_get_absent:
  "fm_repr n m l \<Longrightarrow> trim_key k = Some k' \<Longrightarrow> k' \<notin> set (map fst l) \<Longrightarrow> flatmap_get m k = Some None"
  using flatmap_get_from [of n m l k k' 0] by (simp add: flatmap_get_def)

lemma flatmap_get_present:
  "fm_repr n m l \<Longrightarrow> trim_key k = Some k' \<Longrightarrow> k' \<in> set (map fst l) \<Longrightarrow>
     \<exists>i<length l. fst (l ! i) = k' \<and> flatmap_get m k = Some (Some i)"
  using flatmap_get_from [of n m l k k' 0] by (auto simp: flatmap_get_def)

lemma flatmap_get_empty: "entriesLen m = 0 \<Longrightarrow> flatmap_get m k = Some None"
  by (simp add: flatmap_get_def flatmap_get_from.simps)

lemma map_of_nth_fst:
  "distinct (map fst l) \<Longrightarrow> i < length l \<Longrightarrow> map_of l (fst (l ! i)) = Some (snd (l ! i))"
  by (simp add: map_of_eq_Some_iff)

lemma flatmap_lookup_repr:
  assumes "fm_repr n m l" and "trim_key k = Some k'"
  shows "flatmap_lookup m k = Some (map_of l k')"
proof (cases "k' \<in> set (map fst l)")
  case True
  then obtain i where "i < length l" "fst (l ! i) = k'" "flatmap_get m k = Some (Some i)"
    using flatmap_get_present [OF assms] by blast
  moreover from this have "map_of l k' = Some (snd (l ! i))"
    using assms(1) map_of_nth_fst by (auto simp: fm_repr_def)
  ultimately show ?thesis
    using assms(1) by (simp add: flatmap_lookup_def load_used used_entry_def)
next
  case False
  then have "map_of l k' = None" by (simp add: map_of_eq_None_iff)
  then show ?thesis
    using flatmap_get_absent [OF assms False] by (simp add: flatmap_lookup_def)
qed

section \<open>Storing\<close>

lemma AList_update_present:
  "distinct (map fst l) \<Longrightarrow> i < length l \<Longrightarrow> AList.update (fst (l ! i)) c l = l[i := (fst (l ! i), c)]"
proof (induction l arbitrary: i)
  case (Cons p l)
  then show ?case by (cases i) auto
qed simp

lemma AList_update_absent: "k \<notin> set (map fst l) \<Longrightarrow> AList.update k c l = l @ [(k, c)]"
  by (induction l) auto

lemma store_last:
  assumes "fm_repr n m l" and "length l + length rest + 1 = n"
    and "trim_key k = Some k" and "k \<notin> set (map fst l)"
  shows "\<exists>m'. store_entry (m\<lparr>entriesLen := Suc (length l), entries := Some (map used_entry l @ e # rest)\<rparr>)
       (length l) (used_entry (k, c)) = Some m' \<and> fm_repr n m' (l @ [(k, c)])"
  using assms by (auto simp: store_entry_def cmem fm_repr_def list_update_append)

lemma flatmap_new_entry_room:
  assumes repr: "fm_repr n m l" and room: "length l < n" and key: "trim_key k = Some k'"
  shows "\<exists>rest. flatmap_new_entry m k =
     Some (m\<lparr>entriesLen := Suc (length l),
             entries := Some (map used_entry l @ \<lparr>key = Some k', content = None\<rparr> # rest)\<rparr>, length l) \<and>
     length l + length rest + 1 = n"
proof -
  obtain rest0 where rest0: "entries m = Some (map used_entry l @ rest0)" "length l + length rest0 = n"
    using repr by (auto simp: fm_repr_def)
  with room obtain e rest where "rest0 = e # rest" by (cases rest0) auto
  with rest0 have es: "entries m = Some (map used_entry l @ e # rest)"
    and n: "length l + length rest + 1 = n" by simp_all
  have "entriesLen m = length l" "entriesMax m = n" using repr by (simp_all add: fm_repr_def)
  moreover have "e\<lparr>content := None, key := Some k'\<rparr> = \<lparr>key = Some k', content = None\<rparr>"
    by (cases e) simp
  ultimately show ?thesis
    using es n room key
    by (intro exI [of _ rest])
      (simp add: flatmap_new_entry_def flatmap_grow_def load_entry_def store_entry_def cmem
        list_update_append nth_append Let_def)
qed

lemma flatmap_put_repr:
  assumes repr: "fm_repr n m l" and key: "trim_key k = Some k'"
    and assign: "assign src (map_of l k') = Some c"
    and room: "k' \<in> set (map fst l) \<or> length l < n"
  shows "\<exists>m'. flatmap_put assign m k src = Some m' \<and> fm_repr n m' (AList.update k' c l)"
proof (cases "k' \<in> set (map fst l)")
  case True
  then obtain i where i: "i < length l" "fst (l ! i) = k'" "flatmap_get m k = Some (Some i)"
    using flatmap_get_present [OF repr key] by blast
  have d: "distinct (map fst l)" using repr by (simp add: fm_repr_def)
  have "flatmap_put assign m k src = store_entry m i (used_entry (k', c))"
    using i assign map_of_nth_fst [OF d i(1)] load_used [OF repr i(1)]
    by (simp add: flatmap_put_def used_entry_def)
  then show ?thesis
    using store_used [OF repr i(1), of "(k', c)"] AList_update_present [OF d i(1)] i(2) by simp
next
  case False
  with room have room: "length l < n" by simp
  have none: "map_of l k' = None" using False by (simp add: map_of_eq_None_iff)
  obtain rest where new: "flatmap_new_entry m k =
     Some (m\<lparr>entriesLen := Suc (length l),
             entries := Some (map used_entry l @ \<lparr>key = Some k', content = None\<rparr> # rest)\<rparr>, length l)"
    and n: "length l + length rest + 1 = n"
    using flatmap_new_entry_room [OF repr room key] by blast
  show ?thesis
    using store_last [OF repr n trim_key_idem [OF key] False, of "\<lparr>key = Some k', content = None\<rparr>" c]
      flatmap_get_absent [OF repr key False] new assign none AList_update_absent [OF False]
    by (simp add: flatmap_put_def load_entry_def cmem used_entry_def nth_append)
qed

lemma realloc_entries_shrinks:
  "length es = n \<Longrightarrow> length (realloc_entries es (n * 2)) = n div 4"
  by (simp add: realloc_entries_def sizeof_Entry_def Let_def)

text \<open>A full map cannot grow: the block it gets back is smaller than the one it had.\<close>

lemma flatmap_put_full:
  assumes repr: "fm_repr n m l" and full: "length l = n"
    and key: "trim_key k = Some k'" and new: "k' \<notin> set (map fst l)"
  shows "flatmap_put assign m k src = None"
proof -
  have es: "entries m = Some (map used_entry l)" "entriesLen m = n" "entriesMax m = n" "n > 0"
    using repr full by (auto simp: fm_repr_def)
  have "length (realloc_entries (map used_entry l) (n * 2)) \<le> n"
    using realloc_entries_shrinks [of "map used_entry l" n] full by simp
  then have "flatmap_new_entry m k = None"
    using es by (simp add: flatmap_new_entry_def flatmap_grow_def load_entry_def cmem Let_def)
  then show ?thesis
    using flatmap_get_absent [OF repr key new] by (simp add: flatmap_put_def)
qed

section \<open>Freeing\<close>

lemma flatmap_free_entries_used:
  "entries m = Some (map used_entry l @ rest) \<Longrightarrow> entriesLen m = length l \<Longrightarrow>
   \<exists>m'. flatmap_free_entries m freed =
       Some (m', freed @ rev (map (\<lambda>p. (Some (fst p), Some (snd p))) l)) \<and>
     entriesLen m' = 0 \<and> entriesMax m' = entriesMax m"
proof (induction l arbitrary: m rest freed rule: rev_induct)
  case Nil
  then show ?case by (simp add: flatmap_free_entries.simps)
next
  case (snoc p l)
  let ?m = "m\<lparr>entries := Some (map used_entry l @ \<lparr>key = None, content = None\<rparr> # rest), entriesLen := length l\<rparr>"
  have "flatmap_free_entries m freed =
      flatmap_free_entries ?m (freed @ [(Some (fst p), Some (snd p))])"
    using snoc.prems
    by (subst flatmap_free_entries.simps)
      (simp add: flatmap_getByIndex_def load_entry_def store_entry_def cmem
        nth_append list_update_append)
  then show ?case
    using snoc.IH [of ?m "\<lparr>key = None, content = None\<rparr> # rest" "freed @ [(Some (fst p), Some (snd p))]"]
    by simp
qed

lemma flatmap_free_repr:
  assumes "fm_repr n m l"
  shows "\<exists>m'. flatmap_free m = Some (m', rev (map (\<lambda>p. (Some (fst p), Some (snd p))) l)) \<and>
     entries m' = None \<and> entriesLen m' = 0 \<and> entriesMax m' = n"
proof -
  obtain rest where "entries m = Some (map used_entry l @ rest)" "entriesLen m = length l"
    using assms by (auto simp: fm_repr_def)
  from flatmap_free_entries_used [OF this, of "[]"] assms show ?thesis
    by (auto simp: flatmap_free_def fm_repr_def)
qed

section \<open>The interface its users rely on\<close>

text \<open>
  What the buffer of MQTT messages needs of a map: \<open>repr m l\<close> says that \<open>m\<close> holds the pairs
  \<open>l\<close>; storing under a key works while the key is known or fewer than \<open>cap\<close> keys are, and then
  updates the pairs; \<open>norm\<close> is what the map does to a key before it compares it.
\<close>

locale kv_store =
  fixes repr :: "'m \<Rightarrow> (string \<times> 'c) list \<Rightarrow> bool"
    and put :: "'m \<Rightarrow> string \<Rightarrow> 's \<Rightarrow> 'm option"
    and lookup :: "'m \<Rightarrow> string \<Rightarrow> 'c option option"
    and assign :: "'s \<Rightarrow> 'c option \<Rightarrow> 'c option"
    and norm :: "string \<Rightarrow> string option"
    and cap :: nat
  assumes repr_distinct: "repr m l \<Longrightarrow> distinct (map fst l)"
    and put_repr: "repr m l \<Longrightarrow> norm k = Some k' \<Longrightarrow> assign s (map_of l k') = Some c \<Longrightarrow>
       k' \<in> set (map fst l) \<or> length l < cap \<Longrightarrow>
       \<exists>m'. put m k s = Some m' \<and> repr m' (AList.update k' c l)"
    and lookup_repr: "repr m l \<Longrightarrow> norm k = Some k' \<Longrightarrow> lookup m k = Some (map_of l k')"
    and norm_idem: "norm k = Some k' \<Longrightarrow> norm k' = Some k'"
begin

lemma put_lookup:
  assumes "repr m l" and "norm k = Some k'" and "assign s (map_of l k') = Some c"
    and "k' \<in> set (map fst l) \<or> length l < cap" and "norm q = Some q'"
  shows "\<exists>m'. put m k s = Some m' \<and> lookup m' q = Some (if q' = k' then Some c else map_of l q')"
proof -
  obtain m' where m': "put m k s = Some m'" "repr m' (AList.update k' c l)"
    using put_repr [OF assms(1-4)] by blast
  then show ?thesis
    using lookup_repr [OF m'(2) assms(5)] by (auto simp: update_conv')
qed

text \<open>A loop of stores: as many new keys as there is room for.\<close>

lemma put_all:
  assumes "repr m l"
    and "\<forall>(k, s)\<in>set ks. \<exists>k'. norm k = Some k'"
    and "\<And>s old. assign s old = Some (new s)"
    and "card (set (map fst l) \<union> (the \<circ> norm) ` fst ` set ks) \<le> cap"
  shows "\<exists>m'. foldM (\<lambda>(k, s) m. put m k s) ks m = Some m' \<and>
     repr m' (fold (\<lambda>(k, s). AList.update (the (norm k)) (new s)) ks l)"
  using assms
proof (induction ks arbitrary: m l)
  case (Cons p ks)
  obtain k s where p: "p = (k, s)" by (cases p)
  with Cons.prems obtain k' where k': "norm k = Some k'" by auto
  let ?l = "AList.update k' (new s) l"
  have keys: "set (map fst ?l) = insert k' (set (map fst l))"
    by (simp add: dom_update image_set [symmetric] del: image_set)
  have "k' \<in> set (map fst l) \<or> length l < cap"
  proof (rule disjCI)
    assume "\<not> length l < cap"
    then have "cap \<le> card (set (map fst l))"
      using repr_distinct [OF Cons.prems(1)] distinct_card by fastforce
    moreover have "card (insert k' (set (map fst l))) \<le> cap"
      using Cons.prems(4) p k'
      by (intro order.trans [OF card_mono Cons.prems(4)]) auto
    ultimately show "k' \<in> set (map fst l)"
      by (cases "k' \<in> set (map fst l)") auto
  qed
  then obtain m' where "put m k s = Some m'" "repr m' ?l"
    using put_repr [OF Cons.prems(1) k' Cons.prems(3)] by blast
  moreover have "card (set (map fst ?l) \<union> (the \<circ> norm) ` fst ` set ks) \<le> cap"
    using Cons.prems(4) p k' unfolding keys by (simp add: Un_insert_left)
  ultimately show ?case
    using Cons.IH [of m' ?l] Cons.prems(2,3) p k' by auto
qed simp

end

interpretation fm: kv_store "fm_repr n" "flatmap_put assign" flatmap_lookup assign trim_key n
  for n :: nat and assign :: "'s \<Rightarrow> 'c option \<Rightarrow> 'c option"
proof (unfold_locales, goal_cases)
  case (1 m l)
  then show ?case by (simp add: fm_repr_def)
qed (rule flatmap_put_repr flatmap_lookup_repr trim_key_idem; assumption)+

section \<open>Properties\<close>

text \<open>
  C1. \<open>flatmap_put\<close> refines the update of a finite map: on a map that holds the pairs \<open>l\<close>, with
  the key known or an entry unused, it stores under the trimmed key what the \<open>assignContent\<close>
  callback makes of the old content; every later lookup, whatever white space surrounds its key,
  finds exactly the updated map.
\<close>

theorem flatmap_put_refines:
  assumes "fm_repr n m l" and "trim_key k = Some k'" and "assign src (map_of l k') = Some c"
    and "k' \<in> set (map fst l) \<or> length l < n"
  shows "\<exists>m'. flatmap_put assign m k src = Some m' \<and> fm_repr n m' (AList.update k' c l) \<and>
    (\<forall>q q'. trim_key q = Some q' \<longrightarrow> flatmap_lookup m' q = Some (((map_of l)(k' \<mapsto> c)) q'))"
proof -
  obtain m' where m': "flatmap_put assign m k src = Some m'" "fm_repr n m' (AList.update k' c l)"
    using fm.put_repr [of n m l k k' assign src c] assms by blast
  with fm.lookup_repr [OF m'(2)] show ?thesis by (auto simp: update_conv')
qed

definition one_key_map :: "nat MapInfo" where
  "one_key_map = \<lparr>entries = Some [used_entry (''a'', 1), zero_entry], entriesMax = 2, entriesLen = 1\<rparr>"

lemma one_key_map_repr: "fm_repr 2 one_key_map [(''a'', 1)]"
  by (simp add: one_key_map_def fm_repr_def trim_key_plain isspace_def)

lemma trim_key_b: "trim_key '' b '' = Some ''b''"
  by (simp add: trim_key_eq blank_def trim_def rtrim_def isspace_def)

theorem flatmap_put_refines_witness:
  "\<exists>m'. flatmap_put (\<lambda>s _. Some s) one_key_map '' b '' 7 = Some m' \<and>
     fm_repr 2 m' [(''a'', 1), (''b'', 7)]"
  using flatmap_put_refines [OF one_key_map_repr trim_key_b, of "\<lambda>s _. Some s" 7 7] by auto

text \<open>
  C28. The growth of a full map never works: \<open>flatmap_put\<close> passes \<open>entriesMax\<close>, a number of
  entries, to \<open>realloc\<close>, which takes bytes, so the block shrinks and storing a new key in a full
  map writes outside it, for every capacity and every callback.
\<close>

theorem flatmap_put_full_faults:
  assumes "fm_repr n m l" and "length l = n" and "trim_key k = Some k'" and "k' \<notin> set (map fst l)"
  shows "flatmap_put assign m k src = None"
  using assms by (rule flatmap_put_full)

theorem flatmap_put_full_faults_witness:
  "flatmap_put (\<lambda>s _. Some s) \<lparr>entries = Some [used_entry (''a'', 1::nat)], entriesMax = 1, entriesLen = 1\<rparr>
     '' b '' 7 = None"
  by (rule flatmap_put_full_faults [of 1 _ "[(''a'', 1)]", OF _ _ trim_key_b])
    (simp_all add: fm_repr_def trim_key_plain isspace_def)

text \<open>
  \<open>trimWhitespace\<close> on a copy of a string yields the string without its leading and trailing
  white space, and stays inside the copy exactly when some character is not white space: on an
  empty or blank key the second loop runs off the front of the buffer.
\<close>

theorem trimWhitespace_trims:
  "(\<forall>s. is_cstr s \<and> \<not> blank s \<longrightarrow> map_option cstr (trimWhitespace (strdup s)) = Some (trim s)) \<and>
   (\<forall>s. is_cstr s \<and> blank s \<longrightarrow> trimWhitespace (strdup s) = None)"
  using trim_key_eq unfolding trim_key_def by (metis map_option_is_None)

theorem trimWhitespace_trims_witness:
  "map_option cstr (trimWhitespace (strdup '' b '')) = Some (trim '' b '') \<and>
   trimWhitespace (strdup []) = None"
  using trimWhitespace_trims by (auto simp: blank_def isspace_def)

text \<open>
  \<open>flatmap_free\<close> releases every key and every content of the map exactly once, from the last
  entry to the first, and leaves a map that \<open>flatmap_init\<close> accepts again.
\<close>

theorem flatmap_free_releases_all:
  assumes "fm_repr n m l"
  shows "\<exists>m' m''. flatmap_free m = Some (m', rev (map (\<lambda>p. (Some (fst p), Some (snd p))) l)) \<and>
    flatmap_getEntryCount m' = 0 \<and> flatmap_init m' = Some m'' \<and> fm_repr n m'' []"
proof -
  obtain m' where m': "flatmap_free m = Some (m', rev (map (\<lambda>p. (Some (fst p), Some (snd p))) l))"
    "entries m' = None" "entriesLen m' = 0" "entriesMax m' = n"
    using flatmap_free_repr [OF assms] by blast
  have "n > 0" using assms by (simp add: fm_repr_def)
  with m' show ?thesis
    using flatmap_init_repr [of m' n] by (auto simp: flatmap_getEntryCount_def)
qed

theorem flatmap_free_releases_all_witness:
  "\<exists>m'. flatmap_free one_key_map = Some (m', [(Some ''a'', Some 1)])"
  using flatmap_free_releases_all [OF one_key_map_repr] by auto

end
