(* ===== verification/TopicMatch.thy ===== *)
theory TopicMatch
  imports CString
begin

text \<open>
  \<open>src/main/mqttHelpers.cpp\<close>: \<open>matchTopic\<close>, which decides whether an MQTT topic falls under a
  subscription.  The two \<open>strsep\<close> cursors of the C++ loop are the arguments of \<open>matchTopic_loop\<close>;
  the specification works on the lists of levels that the separators cut a topic into.
\<close>

definition topic_delim :: "char list" where
  "topic_delim = [CHR ''/'', CHR 0x0A]"

function matchTopic_loop :: "string option \<Rightarrow> string option \<Rightarrow> u8" where
  "matchTopic_loop matchCpy_p topicCpy_p =
     (let (tokenMatch, matchCpy_p') = strsep matchCpy_p topic_delim;
          (tokenTopic, topicCpy_p') = strsep topicCpy_p topic_delim
      in if tokenTopic = None \<and> tokenMatch = None then 1
         else if tokenTopic \<noteq> None \<and> tokenMatch = None then 0
         else if tokenTopic = None \<and> tokenMatch \<noteq> None then 0
         else if tokenMatch = Some ''#'' then 1
         else if tokenMatch \<noteq> tokenTopic \<and> tokenMatch \<noteq> Some ''+'' then 0
         else matchTopic_loop matchCpy_p' topicCpy_p')"
  by pat_completeness auto
termination
  by (relation "measure (\<lambda>(m, t). left m)")
    (auto dest: strsep_progress)

declare matchTopic_loop.simps [simp del]

definition matchTopic :: "string \<Rightarrow> string \<Rightarrow> u8" where
  "matchTopic match topic = matchTopic_loop (Some match) (Some topic)"

section \<open>Levels\<close>

fun levels :: "string \<Rightarrow> string list" where
  "levels [] = [[]]"
| "levels (c # s) =
     (if c \<in> set topic_delim then [] # levels s
      else case levels s of [] \<Rightarrow> [[c]] | l # ls \<Rightarrow> (c # l) # ls)"

lemma levels_nonempty [simp]: "levels s \<noteq> []"
  by (cases s) (auto split: list.splits)

lemma strsep_levels:
  "strsep (Some s) topic_delim = (Some t, p) \<Longrightarrow>
     hd (levels s) = t \<and> (case p of None \<Rightarrow> tl (levels s) = [] | Some r \<Rightarrow> tl (levels s) = levels r)"
  by (induction s arbitrary: t) (auto simp: strsep_def split: if_splits list.splits option.splits)

lemma strsep_Some: "\<exists>t p. strsep (Some s) delim = (Some t, p)"
  by (simp add: strsep_def)

text \<open>
  A filter covers a topic when it has as many levels and each is \<open>+\<close> or equal, or when the
  filter has a level \<open>#\<close> at which the topic still has a level and everything before agrees.
\<close>

definition level_ok :: "string \<Rightarrow> string \<Rightarrow> bool" where
  "level_ok f t \<longleftrightarrow> f = ''+'' \<or> f = t"

definition topic_covered :: "string list \<Rightarrow> string list \<Rightarrow> bool" where
  "topic_covered fs ts \<longleftrightarrow>
     length fs = length ts \<and> (\<forall>i < length fs. level_ok (fs ! i) (ts ! i)) \<or>
     (\<exists>k. k < length fs \<and> k < length ts \<and> fs ! k = ''#'' \<and> (\<forall>i < k. level_ok (fs ! i) (ts ! i)))"

lemma topic_covered_simps [simp]:
  "topic_covered [] ts \<longleftrightarrow> ts = []"
  "topic_covered fs [] \<longleftrightarrow> fs = []"
  by (auto simp: topic_covered_def)

lemma ex_nat_0_Suc: "(\<exists>k. P k) \<longleftrightarrow> P 0 \<or> (\<exists>k. P (Suc k))"
  by (metis not0_implies_Suc)

lemma topic_covered_Cons [simp]:
  "topic_covered (f # fs) (t # ts) \<longleftrightarrow> f = ''#'' \<or> level_ok f t \<and> topic_covered fs ts"
  unfolding topic_covered_def
  by (subst (1) ex_nat_0_Suc) (auto simp: All_less_Suc2)

lemma matchTopic_loop_None [simp]:
  "matchTopic_loop None None = 1"
  "matchTopic_loop None (Some t) = 0"
  "matchTopic_loop (Some m) None = 0"
  by (simp_all add: matchTopic_loop.simps strsep_def)

lemma matchTopic_loop_levels:
  "matchTopic_loop (Some m) (Some t) = (if topic_covered (levels m) (levels t) then 1 else 0)"
proof (induction "length m" arbitrary: m t rule: less_induct)
  case less
  obtain a p b q where m: "strsep (Some m) topic_delim = (Some a, p)"
    and t: "strsep (Some t) topic_delim = (Some b, q)"
    using strsep_Some by metis
  note ml = strsep_levels [OF m] and tl = strsep_levels [OF t]
  obtain as where lm: "levels m = a # as" using ml by (cases "levels m") auto
  obtain bs where lt: "levels t = b # bs" using tl by (cases "levels t") auto
  have rec: "matchTopic_loop p q = (if topic_covered as bs then 1 else 0)"
  proof (cases p)
    case None
    then show ?thesis using ml tl lm lt by (cases q) auto
  next
    case (Some m')
    then have "length m' < length m" using strsep_left [OF m] by simp
    then show ?thesis using less Some ml tl lm lt by (cases q) auto
  qed
  show ?case
    by (subst matchTopic_loop.simps) (auto simp: m t rec lm lt level_ok_def)
qed

section \<open>Properties\<close>

text \<open>
  C4. \<open>matchTopic\<close> returns 1 exactly when the filter covers the topic level by level: equal
  levels or \<open>+\<close>, with a level \<open>#\<close> taking all that is left of a topic, of which there must be
  at least one level.
\<close>

theorem matchTopic_covers:
  "matchTopic match topic = (if topic_covered (levels match) (levels topic) then 1 else 0)"
  by (simp add: matchTopic_def matchTopic_loop_levels)

lemma levels_append: "levels (s @ CHR ''/'' # t) = levels s @ levels t"
  by (induction s) (auto simp: topic_delim_def split: list.splits)

lemma topic_covered_plain:
  "\<forall>f\<in>set fs. f \<noteq> ''+'' \<and> f \<noteq> ''#'' \<Longrightarrow> topic_covered fs ts \<longleftrightarrow> fs = ts"
proof (induction fs arbitrary: ts)
  case (Cons f fs)
  then show ?case by (cases ts) (auto simp: level_ok_def)
qed auto

lemma topic_covered_hash:
  "\<forall>f\<in>set fs. f \<noteq> ''+'' \<and> f \<noteq> ''#'' \<Longrightarrow>
     topic_covered (fs @ [''#'']) ts \<longleftrightarrow> (\<exists>rest. ts = fs @ rest \<and> rest \<noteq> [])"
proof (induction fs arbitrary: ts)
  case Nil
  then show ?case by (cases ts) auto
next
  case (Cons f fs)
  then show ?case by (cases ts) (auto simp: level_ok_def)
qed

text \<open>
  The subscriptions the application makes: a filter without wildcards selects just the
  topic with the same levels, and with \<open>/#\<close> added it selects the topics that go on below it,
  which the topic of the filter itself does not.
\<close>

theorem matchTopic_subtree:
  assumes "\<forall>f\<in>set (levels base). f \<noteq> ''+'' \<and> f \<noteq> ''#''"
  shows "matchTopic base topic = (if levels topic = levels base then 1 else 0) \<and>
    matchTopic (base @ ''/#'') topic =
      (if \<exists>rest. levels topic = levels base @ rest \<and> rest \<noteq> [] then 1 else 0) \<and>
    matchTopic (base @ ''/#'') base = 0"
proof -
  have "levels (base @ ''/#'') = levels base @ [''#'']"
    using levels_append [of base "''#''"] by (simp add: topic_delim_def)
  then show ?thesis
    using topic_covered_plain [OF assms] topic_covered_hash [OF assms]
    by (auto simp: matchTopic_def matchTopic_loop_levels)
qed

theorem matchTopic_subtree_witness:
  "matchTopic ''7abr/sensor/#'' ''7abr/sensor/temperature'' = 1 \<and>
   matchTopic ''7abr/sensor'' ''7abr/sensor'' = 1 \<and> matchTopic ''7abr/sensor/#'' ''7abr/sensor'' = 0"
proof -
  have h: "\<forall>f\<in>set (levels ''7abr/sensor''). f \<noteq> ''+'' \<and> f \<noteq> ''#''"
    by (simp add: topic_delim_def)
  have l: "levels ''7abr/sensor/temperature'' = levels ''7abr/sensor'' @ [''temperature'']"
    by (simp add: topic_delim_def)
  show ?thesis
    using matchTopic_subtree [OF h, of "''7abr/sensor''"]
      matchTopic_subtree [OF h, of "''7abr/sensor/temperature''"] l
    by (simp del: levels.simps)
qed

end
