(* ===== verification/MqttBuffer.thy ===== *)
theory MqttBuffer
  imports Flatmap TopicMatch
begin

text \<open>
  \<open>src/main/buffer.cpp\<close>: the cache of the last message seen on every topic.  The outer map goes
  from topics to inner maps, the inner ones from the fields of a message to their values; the
  callbacks that parse a message into an inner map and that copy inner maps are \<open>assignContent\<close>
  and \<open>assignContentCopy\<close>.  The FreeRTOS mutex is a flag: taking a mutex that is already taken
  would block forever and is \<open>None\<close>.  \<open>millis()\<close> is an argument.
\<close>

type_synonym message = "string MapInfo"

record Buffer =
  mapInfo :: "message MapInfo"
  initialized :: bool
  mutex :: "bool option"

definition fresh_map :: "'c MapInfo" where
  "fresh_map = \<lparr>entries = None, entriesMax = 16, entriesLen = 0\<rparr>"

definition boot_buffer :: Buffer where
  "boot_buffer =
     \<lparr>mapInfo = \<lparr>entries = None, entriesMax = 0, entriesLen = 0\<rparr>, initialized = False, mutex = None\<rparr>"

section \<open>Callbacks of the maps\<close>

definition assignContentChild :: "string \<Rightarrow> string option \<Rightarrow> string option" where
  "assignContentChild source destination = Some source"

text \<open>A pointer that is null or points to the empty string.\<close>

definition no_text :: "string option \<Rightarrow> bool" where
  "no_text p \<longleftrightarrow> p = None \<or> p = Some []"

text \<open>
  The parser's loop: a field name up to a colon, its value up to a comma; a name without a value
  is stored under \<open>no_key\<close>, and a missing name ends the message.
\<close>

function assign_loop :: "string option \<Rightarrow> message \<Rightarrow> message option" where
  "assign_loop sourceCp_p m =
     (let (k, p1) = strsep sourceCp_p '':'';
          (v, p2) = (if \<not> no_text k then strsep p1 '','' else (None, p1))
      in if no_text k \<and> no_text v then Some m
         else if \<not> no_text k \<and> no_text v then
           do { m' \<leftarrow> flatmap_put assignContentChild m ''no_key'' (the k); assign_loop p2 m' }
         else if no_text k \<and> \<not> no_text v then
           do { m' \<leftarrow> flatmap_put assignContentChild m ''no_key'' (the v); assign_loop p2 m' }
         else
           do { m' \<leftarrow> flatmap_put assignContentChild m (the k) (the v); assign_loop p2 m' })"
  by pat_completeness auto

lemma assign_loop_progress:
  assumes "(k, p1) = strsep p a" and "\<not> no_text k" and "(v, p2) = strsep p1 b"
  shows "left p2 < left p"
proof -
  obtain t where "k = Some t" using assms(2) by (cases k) (auto simp: no_text_def)
  then have "left p1 < left p" using strsep_progress [of t p1 p a] assms(1) by simp
  moreover have "left p2 \<le> left p1" using strsep_left_le [of p1 b] assms(3) by (metis snd_conv)
  ultimately show ?thesis by simp
qed

termination assign_loop
  by (relation "measure (\<lambda>(p, m). left p)")
    (auto split: if_splits intro: assign_loop_progress simp: no_text_def)

declare assign_loop.simps [simp del]

definition assignContent :: "u32 \<Rightarrow> string \<Rightarrow> message option \<Rightarrow> message option" where
  "assignContent millis source destination =
     do {
       m \<leftarrow> (case destination of None \<Rightarrow> flatmap_init fresh_map | Some m \<Rightarrow> Some m);
       m \<leftarrow> assign_loop (Some source) m;
       flatmap_put assignContentChild m ''timestamp'' (dec (unat millis))
     }"

text \<open>Copying one inner map, entry by entry, into a map just made for it.\<close>

definition copy_entry :: "message \<Rightarrow> nat \<Rightarrow> message \<Rightarrow> message option" where
  "copy_entry source index m =
     do {
       i \<leftarrow> flatmap_getByIndex source index;
       e \<leftarrow> load_entry source i;
       k \<leftarrow> key e;
       v \<leftarrow> content e;
       flatmap_put assignContentChild m k v
     }"

definition assignContentCopy :: "message \<Rightarrow> message option \<Rightarrow> message option" where
  "assignContentCopy source destination =
     (if destination \<noteq> None then None
      else do {
        m \<leftarrow> flatmap_init fresh_map;
        foldM (copy_entry source) [0..<flatmap_getEntryCount source] m
      })"

text \<open>
  The callbacks that release an inner map.  They yield what \<open>flatmap_free\<close> released and the
  pointer they then hand to \<open>free\<close>: \<open>freeContent\<close> has set it to null before.
\<close>

definition freeContentChild :: "string \<Rightarrow> string option" where
  "freeContentChild p = Some p"

definition freeContent :: "message \<Rightarrow> ((string option \<times> string option) list \<times> message option) option" where
  "freeContent inner =
     do {
       (m, freed) \<leftarrow> flatmap_free inner;
       let inner = None;
       Some (freed, inner)
     }"

definition freeContentCopy :: "message \<Rightarrow> ((string option \<times> string option) list \<times> message option) option" where
  "freeContentCopy inner =
     do {
       (m, freed) \<leftarrow> flatmap_free inner;
       if entriesLen m = 0 \<and> entries m = None then Some (freed, Some m) else None
     }"

section \<open>The buffer's operations\<close>

definition initialize :: "Buffer \<Rightarrow> Buffer option" where
  "initialize b =
     (if initialized b then Some b
      else do {
        m \<leftarrow> flatmap_init fresh_map;
        Some (b\<lparr>initialized := True, mapInfo := m, mutex := Some False\<rparr>)
      })"

definition take_mutex :: "Buffer \<Rightarrow> Buffer option" where
  "take_mutex b =
     (case mutex b of
        None \<Rightarrow> None
      | Some locked \<Rightarrow> if locked then None else Some (b\<lparr>mutex := Some True\<rparr>))"

definition give_mutex :: "Buffer \<Rightarrow> Buffer" where
  "give_mutex b = b\<lparr>mutex := Some False\<rparr>"

text \<open>\<open>mqttBuffer_dispalyAll\<close>, with the lines it prints as the rows of a table.\<close>

definition display_message :: "message \<Rightarrow> nat \<Rightarrow> (string \<times> string) list \<Rightarrow> (string \<times> string) list option" where
  "display_message m index rows =
     do {
       i \<leftarrow> flatmap_getByIndex m index;
       e \<leftarrow> load_entry m i;
       k \<leftarrow> key e;
       v \<leftarrow> content e;
       Some (rows @ [(k, v)])
     }"

definition display_topic ::
    "message MapInfo \<Rightarrow> nat \<Rightarrow> (string \<times> (string \<times> string) list) list \<Rightarrow>
     (string \<times> (string \<times> string) list) list option" where
  "display_topic m index rows =
     do {
       i \<leftarrow> flatmap_getByIndex m index;
       e \<leftarrow> load_entry m i;
       k \<leftarrow> key e;
       inner \<leftarrow> content e;
       fields \<leftarrow> foldM (display_message inner) [0..<flatmap_getEntryCount inner] [];
       Some (rows @ [(k, fields)])
     }"

definition mqttBuffer_dispalyAll ::
    "message MapInfo \<Rightarrow> Buffer \<Rightarrow> (Buffer \<times> (string \<times> (string \<times> string) list) list) option" where
  "mqttBuffer_dispalyAll m b =
     do {
       b \<leftarrow> initialize b;
       b \<leftarrow> take_mutex b;
       rows \<leftarrow> foldM (display_topic m) [0..<flatmap_getEntryCount m] [];
       Some (give_mutex b, rows)
     }"

text \<open>
  \<open>mqttBuffer_put\<close> copies \<open>topicLen\<close> and \<open>dataLen\<close> bytes with \<open>strncpy\<close>, so each ends at its
  length or at an earlier terminator; the lengths passed in are those of the buffers.
\<close>

definition mqttBuffer_put :: "u32 \<Rightarrow> char list \<Rightarrow> char list \<Rightarrow> Buffer \<Rightarrow> Buffer option" where
  "mqttBuffer_put millis topic payload b =
     do {
       b \<leftarrow> initialize b;
       b \<leftarrow> take_mutex b;
       m \<leftarrow> flatmap_put (assignContent millis) (mapInfo b) (cstr topic) (cstr payload);
       let b = give_mutex (b\<lparr>mapInfo := m\<rparr>);
       (b, _) \<leftarrow> mqttBuffer_dispalyAll (mapInfo b) b;
       Some b
     }"

definition copy_matching ::
    "string \<Rightarrow> message MapInfo \<Rightarrow> nat \<Rightarrow> message MapInfo \<Rightarrow> message MapInfo option" where
  "copy_matching match m index mapCopy =
     do {
       i \<leftarrow> flatmap_getByIndex m index;
       e \<leftarrow> load_entry m i;
       k \<leftarrow> key e;
       if matchTopic match k > 0
       then do { c \<leftarrow> content e; flatmap_put assignContentCopy mapCopy k c }
       else Some mapCopy
     }"

definition mqttBuffer_getMatching :: "string \<Rightarrow> Buffer \<Rightarrow> (Buffer \<times> message MapInfo) option" where
  "mqttBuffer_getMatching match b =
     do {
       b \<leftarrow> initialize b;
       b \<leftarrow> take_mutex b;
       mapCopy \<leftarrow> flatmap_init fresh_map;
       mapCopy \<leftarrow> foldM (copy_matching match (mapInfo b)) [0..<flatmap_getEntryCount (mapInfo b)] mapCopy;
       Some (give_mutex b, mapCopy)
     }"


section \<open>Reading a field of a copied message\<close>

text \<open>Following the pointer that \<open>flatmap_get\<close> returns, without a test for null.\<close>

definition field :: "message \<Rightarrow> string \<Rightarrow> string option" where
  "field entry_content k =
     do {
       r \<leftarrow> flatmap_get entry_content k;
       i \<leftarrow> r;
       e \<leftarrow> load_entry entry_content i;
       content e
     }"

lemma field_lookup: "field m k = Option.bind (flatmap_lookup m k) id"
  by (simp add: field_def flatmap_lookup_def split: Option.bind_splits option.splits)

lemma field_repr: "fm_repr n m l \<Longrightarrow> trim_key k = Some k \<Longrightarrow> field m k = map_of l k"
  by (simp add: field_lookup flatmap_lookup_repr)

section \<open>What a message says\<close>

text \<open>
  The fields of a message, read off the string: the specification of the parser.  \<open>render\<close>
  writes fields the way the application's own messages do.
\<close>

function fields_of :: "string option \<Rightarrow> (string \<times> string) list" where
  "fields_of p =
     (let (k, p1) = strsep p '':'';
          (v, p2) = (if \<not> no_text k then strsep p1 '','' else (None, p1))
      in if no_text k then []
         else (if no_text v then (''no_key'', the k) else (the k, the v)) # fields_of p2)"
  by pat_completeness auto
termination
  by (relation "measure left") (auto split: if_splits intro: assign_loop_progress simp: no_text_def)

declare fields_of.simps [simp del]

definition put_field :: "string \<times> string \<Rightarrow> message \<Rightarrow> message option" where
  "put_field p m = flatmap_put assignContentChild m (fst p) (snd p)"

lemma assign_loop_fields: "assign_loop p m = foldM put_field (fields_of p) m"
proof (induction p m rule: assign_loop.induct)
  case (1 p m)
  obtain k p1 where k: "strsep p '':'' = (k, p1)" by (cases "strsep p '':''")
  obtain v p2 where v: "strsep p1 '','' = (v, p2)" by (cases "strsep p1 '',''")
  show ?case
  proof (cases "no_text k")
    case True
    then show ?thesis
      by (subst assign_loop.simps, subst fields_of.simps) (auto simp: k no_text_def)
  next
    case False
    have rec: "assign_loop p2 m' = foldM put_field (fields_of p2) m'"
      if "flatmap_put assignContentChild m (if no_text v then ''no_key'' else the k)
            (if no_text v then the k else the v) = Some m'" for m'
      using "1.IH"(1,3) k v False that by (cases "no_text v") auto
    then have "Option.bind (flatmap_put assignContentChild m (if no_text v then ''no_key'' else the k)
        (if no_text v then the k else the v)) (assign_loop p2) =
      Option.bind (flatmap_put assignContentChild m (if no_text v then ''no_key'' else the k)
        (if no_text v then the k else the v)) (foldM put_field (fields_of p2))"
      by (rule Option.bind_cong [OF refl])
    then show ?thesis using False
      by (subst assign_loop.simps, subst fields_of.simps)
        (simp add: k v put_field_def split: if_splits)
  qed
qed

fun render :: "(string \<times> string) list \<Rightarrow> string" where
  "render [] = []"
| "render [(k, v)] = k @ CHR '':'' # v"
| "render ((k, v) # ps) = k @ CHR '':'' # v @ CHR '','' # render ps"

definition plain_field :: "string \<times> string \<Rightarrow> bool" where
  "plain_field p \<longleftrightarrow> fst p \<noteq> [] \<and> CHR '':'' \<notin> set (fst p) \<and> snd p \<noteq> [] \<and> CHR '','' \<notin> set (snd p)"

lemma fields_of_None [simp]: "fields_of None = []"
  by (simp add: fields_of.simps no_text_def)

lemma fields_of_empty [simp]: "fields_of (Some []) = []"
  by (simp add: fields_of.simps no_text_def strsep_def)

lemma fields_of_step:
  assumes "plain_field (k, v)"
  shows "fields_of (Some (k @ CHR '':'' # v)) = [(k, v)]"
    and "fields_of (Some (k @ CHR '':'' # v @ CHR '','' # s)) = (k, v) # fields_of (Some s)"
proof -
  have k: "\<forall>c\<in>set k. c \<notin> set '':''" and v: "\<forall>c\<in>set v. c \<notin> set '',''" and "k \<noteq> []" "v \<noteq> []"
    using assms by (auto simp: plain_field_def)
  then show "fields_of (Some (k @ CHR '':'' # v)) = [(k, v)]"
    and "fields_of (Some (k @ CHR '':'' # v @ CHR '','' # s)) = (k, v) # fields_of (Some s)"
    using strsep_found [OF k, of "CHR '':''"] strsep_found [OF v, of "CHR '',''"] strsep_last [OF v]
    by (subst fields_of.simps, simp add: no_text_def)+
qed

lemma fields_of_render: "\<forall>p\<in>set ps. plain_field p \<Longrightarrow> fields_of (Some (render ps)) = ps"
  by (induction ps rule: render.induct) (simp_all add: fields_of_step)

section \<open>What the buffer holds\<close>

text \<open>
  \<open>buf_repr M a\<close>: the outer map \<open>M\<close> holds, for every topic of \<open>a\<close>, an inner map with that
  topic's fields.
\<close>

type_synonym cache = "(string \<times> (string \<times> string) list) list"

definition msg_rel :: "string \<times> message \<Rightarrow> string \<times> (string \<times> string) list \<Rightarrow> bool" where
  "msg_rel p q \<longleftrightarrow> fst p = fst q \<and> fm_repr 16 (snd p) (snd q)"

lemma msg_rel_pair [simp]: "msg_rel (k, m) (k', f) \<longleftrightarrow> k = k' \<and> fm_repr 16 m f"
  by (simp add: msg_rel_def)

definition buf_repr :: "message MapInfo \<Rightarrow> cache \<Rightarrow> bool" where
  "buf_repr M a \<longleftrightarrow> (\<exists>l. fm_repr 16 M l \<and> list_all2 msg_rel l a)"

text \<open>The fields of a topic after a message with the fields \<open>ps\<close> has come in.\<close>

definition merge_fields :: "u32 \<Rightarrow> (string \<times> string) list \<Rightarrow> (string \<times> string) list \<Rightarrow> (string \<times> string) list" where
  "merge_fields millis ps old =
     AList.update ''timestamp'' (dec (unat millis))
       (fold (\<lambda>(k, v). AList.update (the (trim_key k)) v) ps old)"

definition fields_fit :: "(string \<times> string) list \<Rightarrow> (string \<times> string) list \<Rightarrow> bool" where
  "fields_fit ps old \<longleftrightarrow>
     (\<forall>p\<in>set ps. trim_key (fst p) \<noteq> None) \<and>
     card (insert ''timestamp'' (set (map fst old) \<union> (\<lambda>p. the (trim_key (fst p))) ` set ps)) \<le> 16"

lemma trim_key_timestamp: "trim_key ''timestamp'' = Some ''timestamp''"
  by (rule trim_key_plain) (simp_all add: isspace_def)

lemma fresh_map_repr: "\<exists>m. flatmap_init fresh_map = Some m \<and> fm_repr 16 m []"
  by (rule flatmap_init_repr) (simp_all add: fresh_map_def)

lemma put_field_eq: "put_field = (\<lambda>(k, v) m. flatmap_put assignContentChild m k v)"
  by (simp add: put_field_def fun_eq_iff split_beta)

lemma keys_fold_update:
  "set (map fst (fold (\<lambda>(k, v). AList.update (f k) v) ps l)) = set (map fst l) \<union> (\<lambda>p. f (fst p)) ` set ps"
proof (induction ps arbitrary: l)
  case (Cons p ps)
  then show ?case by (cases p) (auto simp: dom_update)
qed simp

lemma room_of_card:
  assumes "distinct (map fst l)" and "card (insert k (set (map fst l))) \<le> n"
  shows "k \<in> set (map fst l) \<or> length l < n"
  using assms distinct_card [OF assms(1)] by (cases "k \<in> set (map fst l)") auto

lemma assignContent_repr:
  assumes dest: "case dest of None \<Rightarrow> old = [] | Some m \<Rightarrow> fm_repr 16 m old"
    and fit: "fields_fit (fields_of (Some source)) old"
  shows "\<exists>m'. assignContent millis source dest = Some m' \<and>
    fm_repr 16 m' (merge_fields millis (fields_of (Some source)) old)"
proof -
  let ?ps = "fields_of (Some source)"
  let ?new = "fold (\<lambda>(k, v). AList.update (the (trim_key k)) v) ?ps old"
  let ?keys = "set (map fst old) \<union> (\<lambda>p. the (trim_key (fst p))) ` set ?ps"
  obtain m where m: "(case dest of None \<Rightarrow> flatmap_init fresh_map | Some m \<Rightarrow> Some m) = Some m"
    "fm_repr 16 m old"
    using dest fresh_map_repr by (cases dest) auto
  have fits: "card (insert ''timestamp'' ?keys) \<le> 16" using fit by (simp add: fields_fit_def)
  have "card (set (map fst old) \<union> (the \<circ> trim_key) ` fst ` set ?ps) \<le> 16"
    using fits card_mono [of "insert ''timestamp'' ?keys" ?keys]
    by (simp add: image_image subset_insertI)
  moreover have "\<forall>(k, v)\<in>set ?ps. \<exists>k'. trim_key k = Some k'"
    using fit by (auto simp: fields_fit_def)
  ultimately obtain m1 where m1: "foldM put_field ?ps m = Some m1" "fm_repr 16 m1 ?new"
    using fm.put_all [of 16 m old ?ps assignContentChild id] m(2)
    by (auto simp: assignContentChild_def put_field_eq)
  have "set (map fst ?new) = ?keys" by (rule keys_fold_update)
  then have "''timestamp'' \<in> set (map fst ?new) \<or> length ?new < 16"
    using room_of_card [OF fm.repr_distinct [OF m1(2)], of "''timestamp''" 16] fits by simp
  then obtain m2 where "flatmap_put assignContentChild m1 ''timestamp'' (dec (unat millis)) = Some m2"
    "fm_repr 16 m2 (AList.update ''timestamp'' (dec (unat millis)) ?new)"
    using flatmap_put_repr [OF m1(2) trim_key_timestamp, of assignContentChild "dec (unat millis)"]
    by (auto simp: assignContentChild_def)
  then show ?thesis
    using m(1) m1(1) by (auto simp: assignContent_def assign_loop_fields merge_fields_def)
qed


lemma msg_rel_keys: "list_all2 msg_rel l a \<Longrightarrow> map fst l = map fst a"
  by (induction rule: list_all2_induct) (simp_all add: msg_rel_def)

lemma msg_rel_map_of: "list_all2 msg_rel l a \<Longrightarrow> rel_option (fm_repr 16) (map_of l k) (map_of a k)"
  by (induction rule: list_all2_induct) (auto simp: msg_rel_def)

lemma msg_rel_update:
  "list_all2 msg_rel l a \<Longrightarrow> fm_repr 16 m f \<Longrightarrow>
     list_all2 msg_rel (AList.update k m l) (AList.update k f a)"
  by (induction rule: list_all2_induct) (auto split: prod.splits)

lemma buf_repr_count: "buf_repr M a \<Longrightarrow> flatmap_getEntryCount M = length a"
  by (auto simp: buf_repr_def fm_repr_count dest: list_all2_lengthD)

lemma buf_repr_keys: "buf_repr M a \<Longrightarrow> distinct (map fst a) \<and> (\<forall>k\<in>set (map fst a). trim_key k = Some k)"
  unfolding buf_repr_def fm_repr_def using msg_rel_keys by metis

lemma buf_repr_empty: "fm_repr 16 M [] \<Longrightarrow> buf_repr M []"
  by (auto simp: buf_repr_def)

text \<open>Storing into the outer map, whatever callback makes the inner map.\<close>

lemma buf_put_repr:
  assumes repr: "buf_repr M a" and key: "trim_key k = Some k'"
    and room: "k' \<in> set (map fst a) \<or> length a < 16"
    and assign: "\<And>old. rel_option (fm_repr 16) old (map_of a k') \<Longrightarrow> \<exists>m. assign src old = Some m \<and> fm_repr 16 m f"
  shows "\<exists>M'. flatmap_put assign M k src = Some M' \<and> buf_repr M' (AList.update k' f a)"
proof -
  obtain l where l: "fm_repr 16 M l" "list_all2 msg_rel l a" using repr by (auto simp: buf_repr_def)
  obtain m where m: "assign src (map_of l k') = Some m" "fm_repr 16 m f"
    using assign msg_rel_map_of [OF l(2)] by blast
  have "k' \<in> set (map fst l) \<or> length l < 16"
    using room msg_rel_keys [OF l(2)] list_all2_lengthD [OF l(2)] by simp
  from flatmap_put_repr [where assign = assign, OF l(1) key m(1) this] obtain M'
    where "flatmap_put assign M k src = Some M'" "fm_repr 16 M' (AList.update k' m l)" by blast
  with msg_rel_update [OF l(2) m(2)] show ?thesis unfolding buf_repr_def by blast
qed

section \<open>Printing\<close>

lemma display_messages:
  assumes "fm_repr n m l"
  shows "foldM (display_message m) [0..<flatmap_getEntryCount m] rows = Some (rows @ l)"
proof -
  have "foldM (display_message m) [0..<length l] rows = foldM (\<lambda>p rows. Some (rows @ [p])) l rows"
    using assms
    by (intro foldM_nth)
      (simp add: display_message_def flatmap_getByIndex_def load_used used_entry_def, simp add: fm_repr_def)
  also have "\<dots> = Some (rows @ l)" by (induction l arbitrary: rows) auto
  finally show ?thesis using assms by (simp add: fm_repr_count)
qed

lemma display_topics:
  assumes "fm_repr n M l" and "list_all2 msg_rel l a"
  shows "foldM (display_topic M) [0..<flatmap_getEntryCount M] rows = Some (rows @ a)"
proof -
  have "foldM (display_topic M) [0..<length l] rows =
      foldM (\<lambda>p rows. do { fields \<leftarrow> foldM (display_message (snd p)) [0..<flatmap_getEntryCount (snd p)] [];
        Some (rows @ [(fst p, fields)]) }) l rows"
    using assms(1)
    by (intro foldM_nth)
      (simp add: display_topic_def flatmap_getByIndex_def load_used used_entry_def, simp add: fm_repr_def)
  also have "\<dots> = Some (rows @ a)"
    using assms(2)
    by (induction arbitrary: rows rule: list_all2_induct) (auto simp: msg_rel_def display_messages)
  finally show ?thesis using assms(1) by (simp add: fm_repr_count)
qed

lemma filter_update_only:
  "distinct (map fst a) \<Longrightarrow> P k \<Longrightarrow> \<forall>t\<in>set (map fst a). P t \<longrightarrow> t = k \<Longrightarrow>
     filter (\<lambda>q. P (fst q)) (AList.update k l a) = [(k, l)]"
proof (induction a)
  case (Cons p a)
  obtain t v where p: "p = (t, v)" by (cases p)
  show ?case
  proof (cases "t = k")
    case True
    then have "k \<notin> set (map fst a)" using Cons.prems(1) p by simp
    then have "\<forall>q\<in>set a. \<not> P (fst q)" using Cons.prems(3) by (metis image_eqI list.set_intros(2) list.simps(9) set_map)
    then have "filter (\<lambda>q. P (fst q)) a = []" by (simp add: filter_empty_conv)
    then show ?thesis using True p Cons.prems(2) by simp
  next
    case False
    then have "\<not> P t" using Cons.prems(3) p by auto
    then show ?thesis using False p Cons.IH Cons.prems by simp
  qed
qed simp

text \<open>The buffer between two calls: initialised, and its mutex free.\<close>

definition buffer_ok :: "Buffer \<Rightarrow> cache \<Rightarrow> bool" where
  "buffer_ok b a \<longleftrightarrow> initialized b \<and> mutex b = Some False \<and> buf_repr (mapInfo b) a"

lemma initialize_ok: "buffer_ok b a \<Longrightarrow> initialize b = Some b"
  by (simp add: buffer_ok_def initialize_def)

lemma initialize_boot: "\<exists>b. initialize boot_buffer = Some b \<and> buffer_ok b []"
proof -
  obtain m :: "message MapInfo" where "flatmap_init fresh_map = Some m" "fm_repr 16 m []"
    using fresh_map_repr by blast
  then show ?thesis
    by (auto simp: initialize_def boot_buffer_def buffer_ok_def intro: buf_repr_empty)
qed

lemma take_give:
  assumes "buffer_ok b a"
  shows "take_mutex b = Some (b\<lparr>mutex := Some True\<rparr>)" and "give_mutex (b\<lparr>mutex := Some True\<rparr>) = b"
  using assms by (simp_all add: take_mutex_def give_mutex_def buffer_ok_def)

lemma display_all:
  assumes "buffer_ok b a"
  shows "mqttBuffer_dispalyAll (mapInfo b) b = Some (b, a)"
proof -
  obtain l where "fm_repr 16 (mapInfo b) l" "list_all2 msg_rel l a"
    using assms by (auto simp: buffer_ok_def buf_repr_def)
  then show ?thesis
    by (simp add: mqttBuffer_dispalyAll_def initialize_ok [OF assms] take_give [OF assms] display_topics)
qed

section \<open>Copying\<close>

lemma fold_update_fresh:
  assumes "distinct (map fst l)" and "\<forall>k\<in>set (map fst l). f k = k"
  shows "fold (\<lambda>(k, v). AList.update (f k) v) l [] = l"
  using assms by (induction l rule: rev_induct) (auto simp: AList_update_absent)

lemma assignContentCopy_repr:
  assumes "fm_repr 16 m l"
  shows "\<exists>m'. assignContentCopy m None = Some m' \<and> fm_repr 16 m' l"
proof -
  obtain m0 :: message where m0: "flatmap_init fresh_map = Some m0" "fm_repr 16 m0 []"
    using fresh_map_repr by blast
  have keys: "distinct (map fst l)" "\<forall>k\<in>set (map fst l). trim_key k = Some k"
    using assms by (auto simp: fm_repr_def)
  then have "card ((the \<circ> trim_key) ` fst ` set l) \<le> length l"
    by (metis card_image_le card_length finite_imageI finite_set image_comp le_trans)
  moreover have "\<forall>(k, s)\<in>set l. \<exists>k'. trim_key k = Some k'" using keys(2) by auto
  ultimately have "\<exists>m'. foldM (\<lambda>(k, v) m. flatmap_put assignContentChild m k v) l m0 = Some m' \<and>
      fm_repr 16 m' (fold (\<lambda>(k, v). AList.update (the (trim_key k)) v) l [])"
    using fm.put_all [of 16 m0 "[]" l assignContentChild id] m0(2) keys(2) fm_repr_length [OF assms]
    by (auto simp: assignContentChild_def)
  then have copy: "\<exists>m'. foldM (\<lambda>(k, v) m. flatmap_put assignContentChild m k v) l m0 = Some m' \<and> fm_repr 16 m' l"
    using fold_update_fresh [OF keys(1), of "the \<circ> trim_key"] keys(2) by simp
  have "foldM (copy_entry m) [0..<length l] m0 =
      foldM (\<lambda>(k, v) m. flatmap_put assignContentChild m k v) l m0"
    using assms
    by (intro foldM_nth)
      (simp add: copy_entry_def flatmap_getByIndex_def load_used used_entry_def split_beta, simp add: fm_repr_def)
  with copy m0(1) assms show ?thesis by (auto simp: assignContentCopy_def fm_repr_count)
qed

lemma copy_matching_step:
  assumes repr: "fm_repr 16 M l" "list_all2 msg_rel l a" and i: "i < length l"
    and copied: "buf_repr C (filter (\<lambda>q. matchTopic match (fst q) > 0) (take i a))"
  shows "\<exists>C'. copy_matching match M i C = Some C' \<and>
    buf_repr C' (filter (\<lambda>q. matchTopic match (fst q) > 0) (take (Suc i) a))"
proof -
  have ia: "i < length a" using i repr(2) by (simp add: list_all2_lengthD)
  have rel: "msg_rel (l ! i) (a ! i)" using repr(2) i by (rule list_all2_nthD)
  have a: "distinct (map fst a)" "\<forall>k\<in>set (map fst a). trim_key k = Some k" "length a \<le> 16"
    using repr msg_rel_keys [OF repr(2)] list_all2_lengthD [OF repr(2)] fm_repr_length [OF repr(1)]
    by (auto simp: fm_repr_def)
  let ?P = "\<lambda>q. matchTopic match (fst q) > 0"
  have step: "copy_matching match M i C =
      (if ?P (a ! i) then flatmap_put assignContentCopy C (fst (a ! i)) (snd (l ! i)) else Some C)"
    using repr(1) i rel
    by (simp add: copy_matching_def flatmap_getByIndex_def load_used used_entry_def msg_rel_def,
        simp add: fm_repr_def)
  show ?thesis
  proof (cases "?P (a ! i)")
    case True
    have "fst (a ! i) \<noteq> fst (a ! j)" if "j < i" for j
      using that ia a(1) by (simp add: distinct_conv_nth)
    then have new: "fst (a ! i) \<notin> set (map fst (take i a))"
      using ia by (force simp: in_set_conv_nth)
    then have none: "map_of (filter ?P (take i a)) (fst (a ! i)) = None"
      by (auto simp: map_of_eq_None_iff)
    have "length (filter ?P (take i a)) < 16"
      using length_filter_le [of ?P "take i a"] ia a(3) by simp
    moreover have "trim_key (fst (a ! i)) = Some (fst (a ! i))" using a(2) ia by auto
    moreover have "\<exists>m. assignContentCopy (snd (l ! i)) old = Some m \<and> fm_repr 16 m (snd (a ! i))"
      if "rel_option (fm_repr 16) old (map_of (filter ?P (take i a)) (fst (a ! i)))" for old
      using that none rel assignContentCopy_repr by (simp add: msg_rel_def)
    ultimately obtain C' where "flatmap_put assignContentCopy C (fst (a ! i)) (snd (l ! i)) = Some C'"
      "buf_repr C' (AList.update (fst (a ! i)) (snd (a ! i)) (filter ?P (take i a)))"
      using buf_put_repr [OF copied, of "fst (a ! i)" "fst (a ! i)" assignContentCopy "snd (l ! i)" "snd (a ! i)"]
      by blast
    moreover have "AList.update (fst (a ! i)) (snd (a ! i)) (filter ?P (take i a)) =
        filter ?P (take (Suc i) a)"
      using True ia new AList_update_absent [of "fst (a ! i)" "filter ?P (take i a)" "snd (a ! i)"] none
      by (simp add: take_Suc_conv_app_nth map_of_eq_None_iff)
    ultimately show ?thesis using step True by simp
  next
    case False
    then show ?thesis using step copied ia by (simp add: take_Suc_conv_app_nth)
  qed
qed

lemma getMatching_repr:
  assumes "buffer_ok b a"
  shows "\<exists>C. mqttBuffer_getMatching match b = Some (b, C) \<and>
    buf_repr C (filter (\<lambda>q. matchTopic match (fst q) > 0) a)"
proof -
  obtain l where l: "fm_repr 16 (mapInfo b) l" "list_all2 msg_rel l a"
    using assms by (auto simp: buffer_ok_def buf_repr_def)
  obtain C0 :: "message MapInfo" where C0: "flatmap_init fresh_map = Some C0" "fm_repr 16 C0 []"
    using fresh_map_repr by blast
  have len: "length l = length a" using l(2) by (rule list_all2_lengthD)
  have "\<exists>C. foldM (copy_matching match (mapInfo b)) [0..<length l] C0 = Some C \<and>
      buf_repr C (filter (\<lambda>q. matchTopic match (fst q) > 0) (take (length l) a))"
    using copy_matching_step [OF l] buf_repr_empty [OF C0(2)]
    by (intro foldM_upt_invariant) auto
  then show ?thesis
    using C0(1) fm_repr_count [OF l(1)] len
    by (auto simp: mqttBuffer_getMatching_def initialize_ok [OF assms] take_give [OF assms])
qed


section \<open>Putting a message\<close>

definition old_fields :: "cache \<Rightarrow> string \<Rightarrow> (string \<times> string) list" where
  "old_fields a t = (case map_of a t of None \<Rightarrow> [] | Some l \<Rightarrow> l)"

lemma put_repr:
  assumes ok: "buffer_ok b a" and t: "trim_key topic = Some t"
    and room: "t \<in> set (map fst a) \<or> length a < 16"
    and fit: "fields_fit (fields_of (Some (cstr payload))) (old_fields a t)"
  shows "\<exists>b'. mqttBuffer_put millis topic payload b = Some b' \<and>
    buffer_ok b' (AList.update t
      (merge_fields millis (fields_of (Some (cstr payload))) (old_fields a t)) a)"
proof -
  let ?new = "merge_fields millis (fields_of (Some (cstr payload))) (old_fields a t)"
  have "\<exists>m. assignContent millis (cstr payload) old = Some m \<and> fm_repr 16 m ?new"
    if "rel_option (fm_repr 16) old (map_of a t)" for old
    using that fit
    by (intro assignContent_repr) (auto simp: old_fields_def split: option.splits)
  moreover have "trim_key (cstr topic) = Some t" using t by (simp add: trim_key_cstr [of topic])
  ultimately obtain M where M: "flatmap_put (assignContent millis) (mapInfo b) (cstr topic) (cstr payload) = Some M"
    "buf_repr M (AList.update t ?new a)"
    using buf_put_repr [of "mapInfo b" a "cstr topic" t "assignContent millis" "cstr payload" ?new] ok room
    by (auto simp: buffer_ok_def)
  let ?b = "b\<lparr>mutex := Some False, mapInfo := M\<rparr>"
  have ok': "buffer_ok ?b (AList.update t ?new a)" using M(2) ok by (simp add: buffer_ok_def)
  have "?b = give_mutex (b\<lparr>mutex := Some True, mapInfo := M\<rparr>)" by (simp add: give_mutex_def)
  then have "mqttBuffer_put millis topic payload b = Some ?b"
    using display_all [OF ok'] M(1)
    by (simp add: mqttBuffer_put_def initialize_ok [OF ok] take_give [OF ok])
  with ok' show ?thesis by blast
qed

lemma flatmap_put_blank: "trim_key k = None \<Longrightarrow> flatmap_put assign m k src = None"
proof (cases "entriesLen m = 0")
  case False
  assume "trim_key k = None"
  with False have "flatmap_get m k = None"
    by (simp add: flatmap_get_def flatmap_get_from.simps)
  then show ?thesis by (simp add: flatmap_put_def)
next
  case True
  assume "trim_key k = None"
  then have "flatmap_new_entry m k = None" by (simp add: flatmap_new_entry_def)
  with True show ?thesis by (simp add: flatmap_put_def flatmap_get_empty)
qed

lemma foldM_fails: "x \<in> set xs \<Longrightarrow> (\<And>s. f x s = None) \<Longrightarrow> foldM f xs s = None"
  by (induction xs arbitrary: s) (auto split: Option.bind_splits)

lemma assignContent_blank:
  assumes "p \<in> set (fields_of (Some source))" and "trim_key (fst p) = None"
  shows "assignContent millis source dest = None"
proof -
  have "foldM put_field (fields_of (Some source)) m = None" for m
    using assms by (intro foldM_fails [of p]) (simp_all add: put_field_def flatmap_put_blank)
  then show ?thesis by (simp add: assignContent_def assign_loop_fields split: Option.bind_splits)
qed

lemma flatmap_put_no_content: "(\<And>old. assign src old = None) \<Longrightarrow> flatmap_put assign m k src = None"
  by (simp add: flatmap_put_def case_prod_beta split: Option.bind_splits)

section \<open>Properties\<close>

text \<open>
  C27. The parser of messages undoes their rendering: from \<open>key:value\<close> pairs separated by
  commas, with non-empty names without a colon and non-empty values without a comma, it stores
  exactly these fields, in order.
\<close>

theorem assign_loop_render:
  assumes "\<forall>p\<in>set ps. plain_field p"
  shows "assign_loop (Some (render ps)) m = foldM put_field ps m"
  using assms by (simp add: assign_loop_fields fields_of_render)

theorem assign_loop_render_witness:
  "assign_loop (Some ''state:true,trueFor:10000'') fresh_map =
     foldM put_field [(''state'', ''true''), (''trueFor'', ''10000'')] fresh_map"
  using assign_loop_render [of "[(''state'', ''true''), (''trueFor'', ''10000'')]" fresh_map]
  by (simp add: plain_field_def)

text \<open>
  C2. \<open>mqttBuffer_put\<close> files a message: with room for the topic and for its fields, and no blank
  field name, the cached fields of the trimmed topic are updated with those of the message and
  with the time, every other topic is untouched, the mutex is free again and the buffer printable.
\<close>

theorem mqttBuffer_put_files:
  assumes "buffer_ok b a" and "trim_key topic = Some t"
    and "t \<in> set (map fst a) \<or> length a < 16"
    and "fields_fit (fields_of (Some (cstr payload))) (old_fields a t)"
  shows "\<exists>b'. mqttBuffer_put millis topic payload b = Some b' \<and>
    buffer_ok b' (AList.update t
      (merge_fields millis (fields_of (Some (cstr payload))) (old_fields a t)) a)"
  using assms by (rule put_repr)

lemma trim_key_t: "trim_key ''t'' = Some ''t''" and trim_key_k: "trim_key ''k'' = Some ''k''"
  by (rule trim_key_plain; simp add: isspace_def)+

lemma kv_fields: "fields_of (Some ''k:v'') = [(''k'', ''v'')]"
  using fields_of_render [of "[(''k'', ''v'')]"] by (simp add: plain_field_def)

theorem mqttBuffer_put_files_witness:
  "\<exists>b b'. initialize boot_buffer = Some b \<and> mqttBuffer_put 5 ''t'' ''k:v'' b = Some b' \<and>
     buffer_ok b' [(''t'', [(''k'', ''v''), (''timestamp'', ''5'')])]"
proof -
  obtain b where b: "initialize boot_buffer = Some b" "buffer_ok b []"
    using initialize_boot by blast
  have "fields_fit (fields_of (Some (cstr ''k:v''))) (old_fields [] ''t'')"
    by (simp add: kv_fields fields_fit_def old_fields_def trim_key_k)
  from mqttBuffer_put_files [OF b(2) trim_key_t _ this, of 5] obtain b'
    where "mqttBuffer_put 5 ''t'' ''k:v'' b = Some b'"
      "buffer_ok b' (AList.update ''t''
        (merge_fields 5 (fields_of (Some (cstr ''k:v''))) (old_fields [] ''t'')) [])" by auto
  moreover have "merge_fields 5 (fields_of (Some (cstr ''k:v''))) (old_fields [] ''t'') =
      [(''k'', ''v''), (''timestamp'', ''5'')]"
    by (simp add: kv_fields merge_fields_def old_fields_def trim_key_k dec.simps digit_chars)
  ultimately show ?thesis using b(1) by auto
qed

text \<open>
  C3. \<open>mqttBuffer_getMatching\<close> returns a snapshot of exactly the topics that the filter matches,
  in the order of the buffer and with all their fields, and leaves the buffer as it was.
\<close>

theorem mqttBuffer_getMatching_snapshot:
  assumes "buffer_ok b a"
  shows "\<exists>C. mqttBuffer_getMatching match b = Some (b, C) \<and>
    buf_repr C (filter (\<lambda>q. matchTopic match (fst q) > 0) a)"
  using assms by (rule getMatching_repr)

theorem mqttBuffer_getMatching_snapshot_witness:
  "\<exists>b C. initialize boot_buffer = Some b \<and> mqttBuffer_getMatching ''#'' b = Some (b, C) \<and> buf_repr C []"
proof -
  obtain b where b: "initialize boot_buffer = Some b" "buffer_ok b []"
    using initialize_boot by blast
  with mqttBuffer_getMatching_snapshot [OF b(2), of "''#''"] show ?thesis by auto
qed

text \<open>
  What a message can do to the device: a field whose name is blank, or the topic that is one
  too many for the sixteen entries of the buffer, makes \<open>mqttBuffer_put\<close> leave its memory.
\<close>

theorem mqttBuffer_put_faults:
  "(\<exists>p\<in>set (fields_of (Some (cstr payload))). trim_key (fst p) = None) \<or>
   (\<exists>a t. buffer_ok b a \<and> length a = 16 \<and> trim_key topic = Some t \<and> t \<notin> set (map fst a)) \<Longrightarrow>
   mqttBuffer_put millis topic payload b = None"
proof (elim disjE bexE exE conjE, goal_cases)
  case (1 p)
  then have "flatmap_put (assignContent millis) M (cstr topic) (cstr payload) = None" for M
    by (intro flatmap_put_no_content assignContent_blank)
  then show ?case by (simp add: mqttBuffer_put_def split: Option.bind_splits)
next
  case (2 a t)
  then obtain l where l: "fm_repr 16 (mapInfo b) l" "list_all2 msg_rel l a"
    by (auto simp: buffer_ok_def buf_repr_def)
  moreover have "trim_key (cstr topic) = Some t" using 2 by (simp add: trim_key_cstr [of topic])
  ultimately have "flatmap_put (assignContent millis) (mapInfo b) (cstr topic) (cstr payload) = None"
    using 2 msg_rel_keys [OF l(2)] list_all2_lengthD [OF l(2)]
    by (intro flatmap_put_full [OF l(1), where k' = t]) auto
  then show ?case using 2(1) by (simp add: mqttBuffer_put_def initialize_ok take_give)
qed

theorem mqttBuffer_put_faults_witness:
  "mqttBuffer_put 0 ''t'' '' :1'' boot_buffer = None"
proof (rule mqttBuffer_put_faults, rule disjI1)
  have "fields_of (Some '' :1'') = [('' '', ''1'')]"
    using fields_of_render [of "[('' '', ''1'')]"] by (simp add: plain_field_def)
  then show "\<exists>p\<in>set (fields_of (Some (cstr '' :1''))). trim_key (fst p) = None"
    by (simp add: trim_key_eq blank_def isspace_def)
qed

text \<open>
  Releasing inner maps: both callbacks release every key and every value; the one for the
  copies then frees the struct of the map, the one for the buffer passes \<open>free\<close> a null pointer,
  so the struct is never released.
\<close>

theorem freeContent_leaks:
  assumes "fm_repr 16 m l"
  shows "freeContent m = Some (rev (map (\<lambda>p. (Some (fst p), Some (snd p))) l), None) \<and>
    (\<exists>m'. freeContentCopy m = Some (rev (map (\<lambda>p. (Some (fst p), Some (snd p))) l), Some m') \<and>
       entries m' = None)"
proof -
  obtain m' where "flatmap_free m = Some (m', rev (map (\<lambda>p. (Some (fst p), Some (snd p))) l))"
    "entries m' = None" "entriesLen m' = 0"
    using flatmap_free_repr [OF assms] by blast
  then show ?thesis by (simp add: freeContent_def freeContentCopy_def)
qed

theorem freeContent_leaks_witness:
  "\<exists>m m'. assignContentCopy m None = Some m' \<and> freeContent m' = Some ([], None)"
proof -
  obtain m :: message where m: "fm_repr 16 m []" using fresh_map_repr by blast
  obtain m' where m': "assignContentCopy m None = Some m'" "fm_repr 16 m' []"
    using assignContentCopy_repr [OF m] by blast
  from freeContent_leaks [OF m'(2)] have "freeContent m' = Some ([], None)" by simp
  with m'(1) show ?thesis by blast
qed

end
