(* ===== verification/Mqtt.thy ===== *)
theory Mqtt
  imports MqttBuffer
begin

text \<open>
  \<open>src/main/mqtt.cpp\<close>: publishing, subscribing and the handlers of MQTT and WiFi events.  The
  static variables of the file and the buffer behind it are one record.  What the code asks of
  the MQTT client and of the WiFi driver is the list of calls an operation returns; the clients
  themselves, and the broker, are outside: they show up as the events they deliver.
\<close>

definition GLOBAL_ID :: string where
  "GLOBAL_ID = ''7abr''"

definition DEVICE_NAME :: string where
  "DEVICE_NAME = ''heatingControler''"

definition BROKER_CONNECT_TOPIC :: string where
  "BROKER_CONNECT_TOPIC = GLOBAL_ID @ ''/broker/connect/'' @ DEVICE_NAME"

record Mqtt =
  subscriptions :: "string list"
  setupComplete :: bool
  connected :: bool
  buffer :: Buffer

definition boot_mqtt :: Mqtt where
  "boot_mqtt = \<lparr>subscriptions = [], setupComplete = False, connected = False, buffer = boot_buffer\<rparr>"

datatype call =
    esp_mqtt_client_publish string string
  | esp_mqtt_client_subscribe string

datatype mqtt_event =
    MQTT_EVENT_CONNECTED
  | MQTT_EVENT_DISCONNECTED
  | MQTT_EVENT_SUBSCRIBED
  | MQTT_EVENT_UNSUBSCRIBED
  | MQTT_EVENT_PUBLISHED
  | MQTT_EVENT_DATA "char list" "char list"
  | MQTT_EVENT_ERROR
  | MQTT_EVENT_OTHER

section \<open>Operations\<close>

text \<open>Each yields its return value, the new state and the calls it made.\<close>

definition mqtt_publish :: "u32 \<Rightarrow> string \<Rightarrow> string \<Rightarrow> Mqtt \<Rightarrow> (u8 \<times> Mqtt \<times> call list) option" where
  "mqtt_publish millis topic message s =
     (if \<not> setupComplete s then Some (0, s, [])
      else do {
        let calls = (if connected s then [esp_mqtt_client_publish topic message] else []);
        b \<leftarrow> mqttBuffer_put millis topic message (buffer s);
        Some (1, s\<lparr>buffer := b\<rparr>, calls)
      })"

text \<open>
  \<open>mqtt_subscribe\<close> first saves the topic and then asks whether the client is connected; other
  tasks can run in between, so the two halves have names of their own.
\<close>

definition subscribe_save :: "string \<Rightarrow> Mqtt \<Rightarrow> Mqtt" where
  "subscribe_save topic s =
     (let persistentTopic = topic in s\<lparr>subscriptions := subscriptions s @ [persistentTopic]\<rparr>)"

definition subscribe_send :: "string \<Rightarrow> Mqtt \<Rightarrow> call list" where
  "subscribe_send topic s = (if connected s then [esp_mqtt_client_subscribe topic] else [])"

definition mqtt_subscribe :: "string \<Rightarrow> Mqtt \<Rightarrow> u8 \<times> Mqtt \<times> call list" where
  "mqtt_subscribe topic s =
     (if \<not> setupComplete s then (0, s, [])
      else
        let s = subscribe_save topic s;
            calls = subscribe_send topic s
        in (1, s, calls))"

text \<open>The handler as it runs when no other task runs during it.\<close>

definition mqtt_event_handler :: "u32 \<Rightarrow> mqtt_event \<Rightarrow> Mqtt \<Rightarrow> (Mqtt \<times> call list) option" where
  "mqtt_event_handler millis event s =
     (case event of
        MQTT_EVENT_CONNECTED \<Rightarrow>
          do {
            (_, s, published) \<leftarrow> mqtt_publish millis BROKER_CONNECT_TOPIC ''state:true'' s;
            let calls = published @ map esp_mqtt_client_subscribe (subscriptions s);
            Some (s\<lparr>connected := True\<rparr>, calls)
          }
      | MQTT_EVENT_DISCONNECTED \<Rightarrow>
          do {
            (_, s, published) \<leftarrow> mqtt_publish millis BROKER_CONNECT_TOPIC ''state:false'' s;
            Some (s\<lparr>connected := False\<rparr>, published)
          }
      | MQTT_EVENT_SUBSCRIBED \<Rightarrow> Some (s, [])
      | MQTT_EVENT_UNSUBSCRIBED \<Rightarrow> Some (s, [])
      | MQTT_EVENT_PUBLISHED \<Rightarrow> Some (s, [])
      | MQTT_EVENT_DATA topic payload \<Rightarrow>
          do { b \<leftarrow> mqttBuffer_put millis topic payload (buffer s); Some (s\<lparr>buffer := b\<rparr>, []) }
      | MQTT_EVENT_ERROR \<Rightarrow> Some (s, [])
      | MQTT_EVENT_OTHER \<Rightarrow> Some (s, []))"

text \<open>
  The last line of \<open>mqtt_app_start\<close>; the client has been started just before, so events can
  come in while this is still to happen.
\<close>

definition mqtt_app_start :: "Mqtt \<Rightarrow> Mqtt" where
  "mqtt_app_start s = s\<lparr>setupComplete := True\<rparr>"

datatype wifi_event =
    SYSTEM_EVENT_STA_START
  | SYSTEM_EVENT_STA_GOT_IP
  | SYSTEM_EVENT_STA_DISCONNECTED
  | SYSTEM_EVENT_OTHER

text \<open>The connected bit of the event group and the number of \<open>esp_wifi_connect\<close> calls.\<close>

record Wifi =
  connected_bit :: bool
  connects :: nat

definition wifi_event_handler :: "wifi_event \<Rightarrow> Wifi \<Rightarrow> Wifi" where
  "wifi_event_handler event w =
     (case event of
        SYSTEM_EVENT_STA_START \<Rightarrow> w\<lparr>connects := connects w + 1\<rparr>
      | SYSTEM_EVENT_STA_GOT_IP \<Rightarrow> w\<lparr>connected_bit := True\<rparr>
      | SYSTEM_EVENT_STA_DISCONNECTED \<Rightarrow> w\<lparr>connects := connects w + 1, connected_bit := False\<rparr>
      | SYSTEM_EVENT_OTHER \<Rightarrow> w)"

section \<open>Runs\<close>

text \<open>
  The client delivers its events in a task of its own, and nothing locks \<open>subscriptions\<close> or
  \<open>connected\<close> against the tasks that call \<open>mqtt_subscribe\<close>.  A run is therefore a sequence of small
  steps.  The event task is at one of these points:

  \<^item> \<open>Waiting\<close> for an event;
  \<^item> in the loop over the subscriptions, with the iterator at index \<open>i\<close> (\<open>Subscribing i\<close>);
  \<^item> in the loop with an iterator that a reallocation of the vector has left dangling (\<open>Stale\<close>):
    what the code does from there is undefined, and this point has no step;
  \<^item> past the loop, before \<open>connected = 1\<close> (\<open>Marking\<close>);
  \<^item> past the publication of \<open>state:false\<close>, before \<open>connected = 0\<close> (\<open>Leaving\<close>).
\<close>

datatype event_task = Waiting | Subscribing nat | Stale | Marking | Leaving

text \<open>
  \<open>room\<close> is the capacity of the vector and \<open>saving\<close> the topics of the calls of \<open>mqtt_subscribe\<close> that
  have saved their topic and not tested \<open>connected\<close> yet.  The rest records the history and is
  read by no step: the topics for which \<open>mqtt_subscribe\<close> has returned 1, those that were saved
  while the event task was at \<open>Marking\<close> on the current connection, and the calls made to the
  client since the broker last accepted a connection.
\<close>

record Link =
  shared :: Mqtt
  room :: nat
  event_task :: event_task
  saving :: "string list"
  accepted :: "string list"
  late :: "string list"
  sent :: "call list"

definition boot_link :: Link where
  "boot_link = \<lparr>shared = boot_mqtt, room = 0, event_task = Waiting, saving = [], accepted = [],
     late = [], sent = []\<rparr>"

text \<open>The saving half of \<open>mqtt_subscribe\<close> as the other task sees it: \<open>push_back\<close> reallocates when the
  vector is full, and its new capacity is up to the library.\<close>

definition save_step :: "string \<Rightarrow> nat \<Rightarrow> Link \<Rightarrow> Link" where
  "save_step topic grown l =
     (let full = (length (subscriptions (shared l)) = room l) in
      l\<lparr>shared := subscribe_save topic (shared l),
        room := (if full then grown else room l),
        event_task := (case event_task l of Subscribing i \<Rightarrow> (if full then Stale else Subscribing i)
           | at \<Rightarrow> at),
        saving := saving l @ [topic],
        late := late l @ (if event_task l = Marking then [topic] else [])\<rparr>)"

definition send_step :: "string \<Rightarrow> Link \<Rightarrow> Link" where
  "send_step topic l = l\<lparr>saving := remove1 topic (saving l), accepted := accepted l @ [topic],
     sent := sent l @ subscribe_send topic (shared l)\<rparr>"

inductive link_run :: "Link \<Rightarrow> bool" where
  boot: "link_run boot_link"
| start: "link_run l \<Longrightarrow> link_run (l\<lparr>shared := mqtt_app_start (shared l)\<rparr>)"
| publish: "link_run l \<Longrightarrow> mqtt_publish millis topic message (shared l) = Some (r, s, new) \<Longrightarrow>
    link_run (l\<lparr>shared := s, sent := sent l @ new\<rparr>)"
| save: "link_run l \<Longrightarrow> setupComplete (shared l) \<Longrightarrow> room l < grown \<Longrightarrow>
    link_run (save_step topic grown l)"
| send: "link_run l \<Longrightarrow> topic \<in> set (saving l) \<Longrightarrow> link_run (send_step topic l)"
| connect: "link_run l \<Longrightarrow> event_task l = Waiting \<Longrightarrow>
    mqtt_publish millis BROKER_CONNECT_TOPIC ''state:true'' (shared l) = Some (r, s, new) \<Longrightarrow>
    link_run (l\<lparr>shared := s, event_task := Subscribing 0, late := [], sent := new\<rparr>)"
| subscribe: "link_run l \<Longrightarrow> event_task l = Subscribing i \<Longrightarrow> i < length (subscriptions (shared l)) \<Longrightarrow>
    link_run (l\<lparr>event_task := Subscribing (i + 1),
      sent := sent l @ [esp_mqtt_client_subscribe (subscriptions (shared l) ! i)]\<rparr>)"
| subscribed: "link_run l \<Longrightarrow> event_task l = Subscribing i \<Longrightarrow> i = length (subscriptions (shared l)) \<Longrightarrow>
    link_run (l\<lparr>event_task := Marking\<rparr>)"
| mark: "link_run l \<Longrightarrow> event_task l = Marking \<Longrightarrow>
    link_run (l\<lparr>shared := (shared l)\<lparr>connected := True\<rparr>, event_task := Waiting\<rparr>)"
| disconnect: "link_run l \<Longrightarrow> event_task l = Waiting \<Longrightarrow>
    mqtt_publish millis BROKER_CONNECT_TOPIC ''state:false'' (shared l) = Some (r, s, new) \<Longrightarrow>
    link_run (l\<lparr>shared := s, event_task := Leaving, sent := sent l @ new\<rparr>)"
| leave: "link_run l \<Longrightarrow> event_task l = Leaving \<Longrightarrow>
    link_run (l\<lparr>shared := (shared l)\<lparr>connected := False\<rparr>, event_task := Waiting\<rparr>)"
| event: "link_run l \<Longrightarrow> event_task l = Waiting \<Longrightarrow> e \<noteq> MQTT_EVENT_CONNECTED \<Longrightarrow>
    e \<noteq> MQTT_EVENT_DISCONNECTED \<Longrightarrow> mqtt_event_handler millis e (shared l) = Some (s, new) \<Longrightarrow>
    link_run (l\<lparr>shared := s, sent := sent l @ new\<rparr>)"

text \<open>
  What one step of the other tasks can do to the shared state, for the components that hold it:
  every write of the operations above, in any order and whoever makes it.
\<close>

inductive shared_step :: "Mqtt \<Rightarrow> Mqtt \<Rightarrow> bool" where
  start: "shared_step s (mqtt_app_start s)"
| publish: "mqtt_publish millis topic message s = Some (r, s', calls) \<Longrightarrow> shared_step s s'"
| save: "setupComplete s \<Longrightarrow> shared_step s (subscribe_save topic s)"
| connected: "shared_step s (s\<lparr>connected := True\<rparr>)"
| disconnected: "shared_step s (s\<lparr>connected := False\<rparr>)"
| event: "mqtt_event_handler millis e s = Some (s', calls) \<Longrightarrow> shared_step s s'"
| read: "mqttBuffer_getMatching topic (buffer s) = Some (b, m) \<Longrightarrow> shared_step s (s\<lparr>buffer := b\<rparr>)"

lemma link_run_shared: "link_run l \<Longrightarrow> shared_step\<^sup>*\<^sup>* boot_mqtt (shared l)"
proof (induction rule: link_run.induct)
  case (save l grown topic)
  then show ?case
    using shared_step.save [of "shared l" topic] by (simp add: save_step_def Let_def)
qed (auto simp: boot_link_def send_step_def intro: shared_step.intros rtranclp.rtrancl_into_rtrancl)

section \<open>Lemmas\<close>

lemma mqtt_publish_state:
  "mqtt_publish millis topic message s = Some (r, s', new) \<Longrightarrow>
     subscriptions s' = subscriptions s \<and> connected s' = connected s \<and> setupComplete s' = setupComplete s \<and>
     r = (if setupComplete s then 1 else 0) \<and>
     new = (if setupComplete s \<and> connected s then [esp_mqtt_client_publish topic message] else [])"
  by (auto simp: mqtt_publish_def Let_def split: if_splits Option.bind_splits)

lemma mqtt_subscribe_state:
  "mqtt_subscribe topic s = (r, s', new) \<Longrightarrow>
     connected s' = connected s \<and> setupComplete s' = setupComplete s \<and> buffer s' = buffer s \<and>
     r = (if setupComplete s then 1 else 0) \<and>
     subscriptions s' = subscriptions s @ (if setupComplete s then [topic] else []) \<and>
     new = (if setupComplete s \<and> connected s then [esp_mqtt_client_subscribe topic] else [])"
  by (auto simp: mqtt_subscribe_def subscribe_save_def subscribe_send_def Let_def split: if_splits)

lemma connect_state:
  "mqtt_event_handler millis MQTT_EVENT_CONNECTED s = Some (s', new) \<Longrightarrow>
     connected s' \<and> subscriptions s' = subscriptions s \<and>
     new = (if setupComplete s \<and> connected s
        then [esp_mqtt_client_publish BROKER_CONNECT_TOPIC ''state:true''] else []) @
       map esp_mqtt_client_subscribe (subscriptions s)"
  by (auto simp: mqtt_event_handler_def dest!: mqtt_publish_state split: Option.bind_splits)

lemma event_state:
  "mqtt_event_handler millis e s = Some (s', new) \<Longrightarrow> e \<noteq> MQTT_EVENT_CONNECTED \<Longrightarrow>
     subscriptions s' = subscriptions s \<and> setupComplete s' = setupComplete s \<and>
     connected s' = (connected s \<and> e \<noteq> MQTT_EVENT_DISCONNECTED) \<and>
     new = (if e = MQTT_EVENT_DISCONNECTED \<and> setupComplete s \<and> connected s
        then [esp_mqtt_client_publish BROKER_CONNECT_TOPIC ''state:false''] else [])"
  by (cases e) (auto simp: mqtt_event_handler_def dest!: mqtt_publish_state split: Option.bind_splits)

lemmas mqtt_states = mqtt_publish_state mqtt_subscribe_state connect_state event_state

text \<open>
  Between events every topic saved before the handler left its loop has been sent, unless the
  call that saved it has not tested \<open>connected\<close> yet.
\<close>

abbreviation done_with :: "Link \<Rightarrow> string \<Rightarrow> bool" where
  "done_with l t \<equiv> esp_mqtt_client_subscribe t \<in> set (sent l) \<or> t \<in> set (late l)"

definition task_ok :: "Link \<Rightarrow> bool" where
  "task_ok l \<longleftrightarrow>
     (case event_task l of
        Waiting \<Rightarrow> connected (shared l) \<longrightarrow> (\<forall>t \<in> set (subscriptions (shared l)).
          t \<in> set (saving l) \<and> t \<notin> set (accepted l) \<or> done_with l t)
      | Subscribing i \<Rightarrow> i \<le> length (subscriptions (shared l)) \<and>
          (\<forall>t \<in> set (take i (subscriptions (shared l))). done_with l t)
      | Marking \<Rightarrow> (\<forall>t \<in> set (subscriptions (shared l)). done_with l t)
      | _ \<Rightarrow> True)"

definition saved_ok :: "Link \<Rightarrow> bool" where
  "saved_ok l \<longleftrightarrow> (\<forall>t. t \<in> set (accepted l) \<or> t \<in> set (saving l) \<longrightarrow> t \<in> set (subscriptions (shared l)))"

lemma task_ok_calls:
  assumes "task_ok l" and "subscriptions s = subscriptions (shared l)" and "connected s = connected (shared l)"
  shows "task_ok (l\<lparr>shared := s, sent := sent l @ new\<rparr>)"
  using assms by (cases "event_task l") (auto simp: task_ok_def)

lemma task_ok_save: "task_ok l \<Longrightarrow> saved_ok l \<Longrightarrow> task_ok (save_step topic grown l)"
proof (cases "event_task l")
  case Waiting
  assume "task_ok l" and "saved_ok l"
  with Waiting show ?thesis
    by (simp add: task_ok_def saved_ok_def save_step_def subscribe_save_def Let_def) metis
qed (auto simp: task_ok_def save_step_def subscribe_save_def Let_def)

lemma in_remove1: "x \<in> set xs \<Longrightarrow> x \<noteq> y \<Longrightarrow> x \<in> set (remove1 y xs)"
  by simp

lemma task_ok_send: "task_ok l \<Longrightarrow> saved_ok l \<Longrightarrow> task_ok (send_step topic l)"
proof (cases "event_task l")
  case Waiting
  assume "task_ok l" and "saved_ok l"
  with Waiting show ?thesis
    by (simp add: task_ok_def saved_ok_def send_step_def subscribe_send_def) (metis in_remove1)
qed (auto simp: task_ok_def send_step_def)

lemma saved_ok_send: "saved_ok l \<Longrightarrow> topic \<in> set (saving l) \<Longrightarrow> saved_ok (send_step topic l)"
  using set_remove1_subset [of topic "saving l"] by (auto simp: saved_ok_def send_step_def)

lemma link_run_saved: "link_run l \<Longrightarrow> saved_ok l"
proof (induction rule: link_run.induct)
  case (save l grown topic)
  then show ?case by (auto simp: saved_ok_def save_step_def subscribe_save_def Let_def)
qed (auto simp: saved_ok_send, auto simp: saved_ok_def boot_link_def mqtt_app_start_def
    dest!: mqtt_publish_state event_state)

lemma link_run_task: "link_run l \<Longrightarrow> task_ok l"
proof (induction rule: link_run.induct)
  case (publish l millis topic message r s new)
  then show ?case using mqtt_publish_state [OF publish.hyps(2)] by (simp add: task_ok_calls)
next
  case (event l e millis s new)
  then show ?case using event_state [OF event.hyps(5)] task_ok_calls [OF event.IH, of s new] by simp
next
  case (subscribe l i)
  then show ?case by (auto simp: task_ok_def take_Suc_conv_app_nth)
next
  case (start l)
  then show ?case by (cases "event_task l") (auto simp: task_ok_def mqtt_app_start_def)
qed (simp_all add: task_ok_save task_ok_send link_run_saved, auto simp: task_ok_def boot_link_def boot_mqtt_def)

section \<open>Properties\<close>

text \<open>
  C5. No accepted subscription is lost: in every interleaving of the tasks, a topic for which
  \<open>mqtt_subscribe\<close> has returned 1 is in the list that every later connect goes through, and while
  the client is connected and no event is being handled it has been sent to the broker on the
  current connection, except for a topic saved between the end of the loop of the handler and its
  \<open>connected = 1\<close>.
\<close>

theorem subscriptions_survive_reconnect:
  assumes "link_run l" and "t \<in> set (accepted l)"
  shows "t \<in> set (subscriptions (shared l)) \<and>
    (event_task l = Waiting \<and> connected (shared l) \<longrightarrow>
      esp_mqtt_client_subscribe t \<in> set (sent l) \<or> t \<in> set (late l))"
proof -
  have "t \<in> set (subscriptions (shared l))"
    using link_run_saved [OF assms(1)] assms(2) by (simp add: saved_ok_def)
  with link_run_task [OF assms(1)] assms(2) show ?thesis by (auto simp: task_ok_def)
qed

lemma put_short:
  assumes "buffer_ok b []" and "trim_key topic = Some t"
    and "fields_fit (fields_of (Some (cstr payload))) []"
  shows "\<exists>b'. mqttBuffer_put millis topic payload b = Some b' \<and>
    buffer_ok b' [(t, merge_fields millis (fields_of (Some (cstr payload))) [])]"
  using put_repr [OF assms(1,2)] assms(3) by (simp add: old_fields_def)

lemma state_field: "is_cstr v \<Longrightarrow> v \<noteq> [] \<Longrightarrow> CHR '','' \<notin> set v \<Longrightarrow>
    fields_of (Some (cstr (''state:'' @ v))) = [(''state'', v)]"
  using fields_of_render [of "[(''state'', v)]"] by (simp add: plain_field_def)

lemma trim_key_state: "trim_key ''state'' = Some ''state''"
  by (rule trim_key_plain) (simp_all add: isspace_def)

lemma birth_topic: "trim_key BROKER_CONNECT_TOPIC = Some BROKER_CONNECT_TOPIC"
  by (rule trim_key_plain)
    (simp_all add: isspace_def BROKER_CONNECT_TOPIC_def GLOBAL_ID_def DEVICE_NAME_def)

lemma state_fit:
  "old = [] \<or> map fst old = [''state'', ''timestamp''] \<Longrightarrow> fields_fit [(''state'', v)] old"
  by (auto simp: fields_fit_def trim_key_state card_insert_if)

lemma birth_cached:
  assumes "buffer_ok b []"
  shows "\<exists>b'. mqttBuffer_put millis BROKER_CONNECT_TOPIC ''state:true'' b = Some b' \<and>
    buffer_ok b' [(BROKER_CONNECT_TOPIC, [(''state'', ''true''), (''timestamp'', dec (unat millis))])]"
  using put_short [OF assms birth_topic, of "''state:true''"] state_field [of "''true''"]
  by (simp add: state_fit merge_fields_def trim_key_state)

lemma initialize_boot_put:
  assumes "initialize boot_buffer = Some b" and "buffer_ok b a"
  shows "mqttBuffer_put millis topic payload boot_buffer = mqttBuffer_put millis topic payload b"
  using assms initialize_ok by (simp add: mqttBuffer_put_def)

text \<open>The application has been set up and nothing has been stored yet.\<close>

abbreviation started :: Mqtt where
  "started \<equiv> mqtt_app_start boot_mqtt"

lemma birth_published:
  "\<exists>b. mqtt_publish millis BROKER_CONNECT_TOPIC ''state:true'' (started\<lparr>subscriptions := ts\<rparr>) =
     Some (1, started\<lparr>subscriptions := ts, buffer := b\<rparr>, [])"
proof -
  obtain b where b: "initialize boot_buffer = Some b" "buffer_ok b []"
    using initialize_boot by blast
  then obtain b' where "mqttBuffer_put millis BROKER_CONNECT_TOPIC ''state:true'' boot_buffer = Some b'"
    using birth_cached [OF b(2), of millis] by (auto simp: initialize_boot_put)
  then show ?thesis by (simp add: mqtt_publish_def mqtt_app_start_def boot_mqtt_def)
qed

lemmas link_steps = save_step_def send_step_def subscribe_save_def subscribe_send_def boot_link_def
  mqtt_app_start_def boot_mqtt_def

text \<open>A subscription before the broker accepts: the handler sends it.\<close>

lemma early_run:
  "\<exists>l. link_run l \<and> event_task l = Waiting \<and> connected (shared l) \<and> accepted l = [''t/#''] \<and> late l = []"
proof -
  have "link_run (send_step ''t/#'' (save_step ''t/#'' 1 (boot_link\<lparr>shared := started\<rparr>)))"
    using link_run.start [OF link_run.boot] by (intro link_run.send link_run.save) (simp_all add: link_steps)
  moreover obtain b where "mqtt_publish 7 BROKER_CONNECT_TOPIC ''state:true'' (started\<lparr>subscriptions := [''t/#'']\<rparr>) =
      Some (1, started\<lparr>subscriptions := [''t/#''], buffer := b\<rparr>, [])"
    using birth_published by blast
  ultimately have "link_run \<lparr>shared = started\<lparr>subscriptions := [''t/#''], buffer := b\<rparr>, room = 1,
      event_task = Subscribing 0, saving = [], accepted = [''t/#''], late = [], sent = []\<rparr>"
    using link_run.connect by (fastforce simp: link_steps)
  from link_run.subscribe [OF this] have "link_run \<lparr>shared = started\<lparr>subscriptions := [''t/#''], buffer := b\<rparr>,
      room = 1, event_task = Subscribing 1, saving = [], accepted = [''t/#''], late = [],
      sent = [esp_mqtt_client_subscribe ''t/#'']\<rparr>"
    by simp
  from link_run.mark [OF link_run.subscribed [OF this]] show ?thesis by (intro exI) auto
qed

theorem subscriptions_survive_reconnect_witness:
  "\<exists>l. link_run l \<and> connected (shared l) \<and> ''t/#'' \<in> set (accepted l) \<and>
     esp_mqtt_client_subscribe ''t/#'' \<in> set (sent l)"
proof -
  obtain l where l: "link_run l" "event_task l = Waiting" "connected (shared l)" "accepted l = [''t/#'']"
      "late l = []"
    using early_run by blast
  from subscriptions_survive_reconnect [OF l(1), of "''t/#''"] l
  have "esp_mqtt_client_subscribe ''t/#'' \<in> set (sent l)" by simp
  with l show ?thesis by auto
qed

text \<open>
  The exception is real: \<open>mqtt_subscribe\<close> can save a topic and find \<open>connected\<close> still 0 after the
  handler has left its loop, and return 1; the handler then sets \<open>connected\<close>, and the topic has not
  been sent to the broker, nor does any call under way send it.
\<close>

theorem late_subscription_missed:
  "\<exists>l. link_run l \<and> event_task l = Waiting \<and> connected (shared l) \<and> saving l = [] \<and>
     t \<in> set (accepted l) \<and> esp_mqtt_client_subscribe t \<notin> set (sent l)"
proof -
  obtain b where "mqtt_publish 7 BROKER_CONNECT_TOPIC ''state:true'' started =
      Some (1, started\<lparr>buffer := b\<rparr>, [])"
    using birth_published [of 7 "[]"] by (auto simp: mqtt_app_start_def boot_mqtt_def)
  with link_run.start [OF link_run.boot] have "link_run (boot_link\<lparr>shared := started\<lparr>buffer := b\<rparr>,
      event_task := Subscribing 0\<rparr>)"
    using link_run.connect by (fastforce simp: boot_link_def)
  from link_run.subscribed [OF this]
  have "link_run (boot_link\<lparr>shared := started\<lparr>buffer := b\<rparr>, event_task := Marking\<rparr>)"
    by (simp add: link_steps)
  then have "link_run (send_step t (save_step t 1 (boot_link\<lparr>shared := started\<lparr>buffer := b\<rparr>,
      event_task := Marking\<rparr>)))"
    by (intro link_run.send link_run.save) (simp_all add: link_steps)
  from link_run.mark [OF this] show ?thesis by (intro exI) (auto simp: link_steps)
qed

text \<open>Without interleaving the steps of a connect are what \<open>mqtt_event_handler\<close> does.\<close>

lemma subscribing_run:
  assumes "link_run l" and "event_task l = Subscribing i" and "i \<le> length (subscriptions (shared l))"
  shows "link_run (l\<lparr>shared := (shared l)\<lparr>connected := True\<rparr>, event_task := Waiting,
    sent := sent l @ map esp_mqtt_client_subscribe (drop i (subscriptions (shared l)))\<rparr>)"
  using assms
proof (induction "length (subscriptions (shared l)) - i" arbitrary: l i)
  case 0
  then have "i = length (subscriptions (shared l))" by simp
  from link_run.mark [OF link_run.subscribed [OF 0(2,3) this]] this show ?case by simp
next
  case (Suc n)
  let ?l = "l\<lparr>event_task := Subscribing (i + 1),
      sent := sent l @ [esp_mqtt_client_subscribe (subscriptions (shared l) ! i)]\<rparr>"
  from Suc.prems Suc.hyps(2) have "link_run ?l" by (intro link_run.subscribe) simp_all
  with Suc.hyps(2) have "link_run (?l\<lparr>shared := (shared ?l)\<lparr>connected := True\<rparr>, event_task := Waiting,
    sent := sent ?l @ map esp_mqtt_client_subscribe (drop (i + 1) (subscriptions (shared ?l)))\<rparr>)"
    by (intro Suc.hyps(1)) simp_all
  moreover have "drop i (subscriptions (shared l)) =
      subscriptions (shared l) ! i # drop (i + 1) (subscriptions (shared l))"
    using Suc.hyps(2) by (simp add: Cons_nth_drop_Suc)
  ultimately show ?case by simp
qed

lemma handler_run:
  assumes "link_run l" and "event_task l = Waiting"
    and "mqtt_event_handler millis MQTT_EVENT_CONNECTED (shared l) = Some (s, calls)"
  shows "link_run (l\<lparr>shared := s, late := [], sent := calls\<rparr>)"
proof -
  obtain r s' new where pub: "mqtt_publish millis BROKER_CONNECT_TOPIC ''state:true'' (shared l) = Some (r, s', new)"
      and s: "s = s'\<lparr>connected := True\<rparr>" and calls: "calls = new @ map esp_mqtt_client_subscribe (subscriptions s')"
    using assms(3) by (auto simp: mqtt_event_handler_def split: Option.bind_splits)
  from subscribing_run [OF link_run.connect [OF assms(1,2) pub]] assms(2) s calls show ?thesis
    by (cases l) simp
qed

definition demo_offline :: Mqtt where
  "demo_offline = started\<lparr>subscriptions := [''t/#'']\<rparr>"

text \<open>
  C29. The birth message never reaches the broker: \<open>mqtt_event_handler\<close> publishes
  \<open>state:true\<close> while \<open>connected\<close> is still 0, so from an offline state with room in its buffer it
  sends only the subscriptions, while the device's own cache says that the message was published.
\<close>

theorem birth_message_not_sent:
  assumes "setupComplete s" and "\<not> connected s" and "buffer_ok (buffer s) a"
    and "BROKER_CONNECT_TOPIC \<in> set (map fst a) \<or> length a < 16"
    and "fields_fit [(''state'', ''true'')] (old_fields a BROKER_CONNECT_TOPIC)"
  shows "\<exists>s'. mqtt_event_handler millis MQTT_EVENT_CONNECTED s =
      Some (s', map esp_mqtt_client_subscribe (subscriptions s)) \<and> connected s' \<and>
    buffer_ok (buffer s') (AList.update BROKER_CONNECT_TOPIC
      (merge_fields millis [(''state'', ''true'')] (old_fields a BROKER_CONNECT_TOPIC)) a)"
proof -
  have payload: "fields_of (Some (cstr ''state:true'')) = [(''state'', ''true'')]"
    using state_field [of "''true''"] by simp
  have "\<exists>b'. mqttBuffer_put millis BROKER_CONNECT_TOPIC ''state:true'' (buffer s) = Some b' \<and>
      buffer_ok b' (AList.update BROKER_CONNECT_TOPIC
        (merge_fields millis [(''state'', ''true'')] (old_fields a BROKER_CONNECT_TOPIC)) a)"
    using put_repr [OF assms(3) birth_topic assms(4), of "''state:true''" millis] assms(5)
    unfolding payload by blast
  with assms(1,2) show ?thesis by (auto simp: mqtt_event_handler_def mqtt_publish_def)
qed

theorem birth_message_not_sent_witness:
  "\<exists>b s'. initialize boot_buffer = Some b \<and>
     mqtt_event_handler 7 MQTT_EVENT_CONNECTED (demo_offline\<lparr>buffer := b\<rparr>) =
       Some (s', [esp_mqtt_client_subscribe ''t/#''])"
proof -
  obtain b where b: "initialize boot_buffer = Some b" "buffer_ok b []"
    using initialize_boot by blast
  let ?s = "demo_offline\<lparr>buffer := b\<rparr>"
  have "setupComplete ?s" "\<not> connected ?s" "subscriptions ?s = [''t/#'']"
    by (simp_all add: demo_offline_def mqtt_app_start_def boot_mqtt_def)
  with birth_message_not_sent [of ?s "[]" 7] b show ?thesis
    by (auto simp: old_fields_def state_fit)
qed

end
