(* ===== verification/Menu.thy ===== *)
theory Menu
  imports Mqtt
begin

text \<open>
  \<open>src/main/menu.cpp\<close>: the display.  The widget library is outside; a call into it is a value: the
  title and the text of \<open>button1\<close>, the status of the top bar, the events handed to the widget that
  has the focus.  Signed 32-bit arithmetic that overflows is undefined and is \<open>None\<close>.
\<close>

definition HEATING_CONTROL :: string where
  "HEATING_CONTROL = GLOBAL_ID @ ''/heating/switch/override''"

datatype WifiStatuses = No_signal | Weak | Medium | Full

record Menu =
  editButton1Value :: int
  editOldButton1Value :: int
  editingButton1Value :: bool
  longPush :: bool
  mqttSubscriptions :: u8
  title1 :: string
  text1 :: string
  wifi_status :: WifiStatuses
  uptimeHours :: u32
  mqtt :: Mqtt

section \<open>Showing the override\<close>

definition duration :: "int \<Rightarrow> string option" where
  "duration v =
     do {
       v \<leftarrow> (if v > 0 then Some (v div 1000) else do { n \<leftarrow> s32 (- v); Some (n div 1000) });
       let value = nat v;
       if value < 60 then Some (dec value @ ''sec'')
       else if value < 60 * 60 then
         Some (snprintf 10 (dec (value div 60) @ '':'' @ dec02 (value mod 60) @ ''min''))
       else if value < 24 * 60 * 60 then
         let hours = value div (60 * 60);
             mins = value mod (60 * 60) div 60;
             secs = value mod 60
         in Some (snprintf 10 (dec hours @ '':'' @ dec02 mins @ '':'' @ dec02 secs @ ''hour''))
       else if value < 7 * 24 * 60 * 60 then Some (dec (value div (24 * 60 * 60)) @ ''day'')
       else if value < 4 * 7 * 24 * 60 * 60 then Some (dec (value div (7 * 24 * 60 * 60)) @ ''week'')
       else Some (dec (value div (4 * 7 * 24 * 60 * 60)) @ ''month'')
     }"

text \<open>The overload of \<open>updateButton1\<close> with a value.\<close>

definition updateButton1_value :: "int \<Rightarrow> Menu \<Rightarrow> Menu option" where
  "updateButton1_value v m =
     do {
       message \<leftarrow>
         (if v < 0 then do { d \<leftarrow> duration v; Some (''Force off for '' @ d) }
          else if v > 0 then do { d \<leftarrow> duration v; Some (''Force on for '' @ d) }
          else Some ''auto'');
       Some (m\<lparr>title1 := message\<rparr>)
     }"

definition updateButton1 :: "u32 \<Rightarrow> Menu \<Rightarrow> Menu option" where
  "updateButton1 millis m =
     (if editingButton1Value m then Some m
      else do {
        (b, mapCopy) \<leftarrow> mqttBuffer_getMatching HEATING_CONTROL (buffer (mqtt m));
        m \<leftarrow> Some (m\<lparr>mqtt := (mqtt m)\<lparr>buffer := b\<rparr>\<rparr>);
        let buttonCount = flatmap_getEntryCount mapCopy;
        if buttonCount = 0 then do { _ \<leftarrow> flatmap_free mapCopy; Some m }
        else do {
          i \<leftarrow> flatmap_getByIndex mapCopy 0;
          entry \<leftarrow> load_entry mapCopy i;
          inner \<leftarrow> content entry;
          result \<leftarrow> field inner ''forMs'';
          forMs \<leftarrow> strtod_u32 result;
          result2 \<leftarrow> field inner ''timestamp'';
          timestamp \<leftarrow> strtod_u32 result2;
          let timeRemaining = forMs - (millis - timestamp);
          m \<leftarrow> updateButton1_value (sint timeRemaining) m;
          _ \<leftarrow> flatmap_free mapCopy;
          Some m
        }
      })"

definition publishButton1 :: "u32 \<Rightarrow> int \<Rightarrow> Menu \<Rightarrow> (Menu \<times> call list) option" where
  "publishButton1 millis v m =
     do {
       n \<leftarrow> (if v > 0 then Some v else s32 (- v));
       let payload = ''state:'' @ (if v > 0 then ''on'' else ''off'') @ '',forMs:'' @ dec_int n;
       (_, q, calls) \<leftarrow> mqtt_publish millis HEATING_CONTROL payload (mqtt m);
       Some (m\<lparr>mqtt := q\<rparr>, calls)
     }"

section \<open>Editing the override\<close>

text \<open>The four callbacks that \<open>setupMenu\<close> gives to \<open>button1\<close>, with the boolean they return.\<close>

definition UpCallback :: "Menu \<Rightarrow> (bool \<times> Menu) option" where
  "UpCallback m =
     do {
       m \<leftarrow> Some (m\<lparr>editingButton1Value := True\<rparr>);
       m \<leftarrow> (if editButton1Value m < 0 then Some (m\<lparr>editButton1Value := 0\<rparr>)
             else if editButton1Value m < 120 * 60 * 1000 then
               do { v \<leftarrow> s32 (editButton1Value m + 30 * 60 * 1000); Some (m\<lparr>editButton1Value := v\<rparr>) }
             else Some m);
       m \<leftarrow> updateButton1_value (editButton1Value m) m;
       Some (True, m)
     }"

definition DownCallback :: "Menu \<Rightarrow> (bool \<times> Menu) option" where
  "DownCallback m =
     do {
       m \<leftarrow> Some (m\<lparr>editingButton1Value := True\<rparr>);
       m \<leftarrow> (if editButton1Value m > 0 then Some (m\<lparr>editButton1Value := 0\<rparr>)
             else if editButton1Value m = 0 then
               do { v \<leftarrow> s32 (editButton1Value m - 30 * 60 * 1000); Some (m\<lparr>editButton1Value := v\<rparr>) }
             else if editButton1Value m \<ge> - (2 ^ 30) then
               do { v \<leftarrow> s32 (editButton1Value m * 2); Some (m\<lparr>editButton1Value := v\<rparr>) }
             else Some m);
       m \<leftarrow> updateButton1_value (editButton1Value m) m;
       Some (True, m)
     }"

definition ApplyCallback :: "u32 \<Rightarrow> Menu \<Rightarrow> (bool \<times> Menu \<times> call list) option" where
  "ApplyCallback millis m =
     do {
       m \<leftarrow> Some (m\<lparr>editingButton1Value := False\<rparr>);
       m \<leftarrow> Some (m\<lparr>editOldButton1Value := editButton1Value m\<rparr>);
       (m, calls) \<leftarrow> publishButton1 millis (editOldButton1Value m) m;
       Some (False, m, calls)
     }"

definition CancelCallback :: "u32 \<Rightarrow> Menu \<Rightarrow> (bool \<times> Menu) option" where
  "CancelCallback millis m =
     do {
       m \<leftarrow> Some (m\<lparr>editingButton1Value := False\<rparr>);
       m \<leftarrow> Some (m\<lparr>editButton1Value := editOldButton1Value m\<rparr>);
       m \<leftarrow> updateButton1 millis m;
       Some (True, m)
     }"

definition setButton1 :: "u32 \<Rightarrow> u8 \<Rightarrow> Menu \<Rightarrow> Menu option" where
  "setButton1 millis state m =
     updateButton1 millis (m\<lparr>text1 := (if state > 0 then ''Heating on'' else ''Heating off'')\<rparr>)"

section \<open>The loop\<close>

datatype focus_event = OnButtonAPressed | OnButtonBPressed | OnButtonBLongPush | OnButtonCPressed

text \<open>What \<open>updateMenu\<close> samples: the signal strength and the three buttons.\<close>

record Sample =
  RSSI :: int
  btnA_wasPressed :: bool
  btnB_pressedFor_1000 :: bool
  btnB_wasReleased :: bool
  btnC_wasPressed :: bool

definition wifi_level :: "int \<Rightarrow> WifiStatuses" where
  "wifi_level rssi =
     (if rssi \<ge> -55 then Full else if rssi \<ge> -75 then Medium else if rssi \<ge> -85 then Weak else No_signal)"

text \<open>The middle button: the new \<open>longPush\<close> and the events for the focused widget.\<close>

definition button_B :: "bool \<Rightarrow> bool \<Rightarrow> bool \<Rightarrow> bool \<times> focus_event list" where
  "button_B pressedFor wasReleased lp =
     (if pressedFor then (if \<not> lp then (True, [OnButtonBLongPush]) else (lp, []))
      else if wasReleased then (if \<not> lp then (lp, [OnButtonBPressed]) else (False, []))
      else (lp, []))"

definition updateMenu :: "u32 \<Rightarrow> Sample \<Rightarrow> Menu \<Rightarrow> Menu \<times> focus_event list \<times> call list" where
  "updateMenu millis i m =
     (let (r, q, calls) = (if mqttSubscriptions m = 0 then mqtt_subscribe HEATING_CONTROL (mqtt m)
            else (mqttSubscriptions m, mqtt m, []));
          m = m\<lparr>mqtt := q, mqttSubscriptions := r\<rparr>;
          m = m\<lparr>wifi_status := wifi_level (RSSI i)\<rparr>;
          evA = (if btnA_wasPressed i then [OnButtonAPressed] else []);
          (lp, evB) = button_B (btnB_pressedFor_1000 i) (btnB_wasReleased i) (longPush m);
          evC = (if btnC_wasPressed i then [OnButtonCPressed] else []);
          m = m\<lparr>longPush := lp\<rparr>;
          m = m\<lparr>uptimeHours := millis div (60 * 60000)\<rparr>
      in (m, evA @ evB @ evC, calls))"

definition boot_menu :: Menu where
  "boot_menu =
     \<lparr>editButton1Value = 0, editOldButton1Value = 0, editingButton1Value = False, longPush = False,
      mqttSubscriptions = 0, title1 = ''auto'', text1 = ''0'', wifi_status = No_signal,
      uptimeHours = 0, mqtt = boot_mqtt\<rparr>"


text \<open>
  \<open>menu_run\<close>: the states the display can be in from \<open>setupMenu\<close> on, with the callbacks, the loop
  and the steps of the other tasks on the state of \<open>mqtt.cpp\<close>, \<open>mqtt_app_start\<close> among them, in any
  order.
\<close>

inductive menu_run :: "Menu \<Rightarrow> bool" where
  boot: "menu_run boot_menu"
| up: "menu_run m \<Longrightarrow> UpCallback m = Some (r, m') \<Longrightarrow> menu_run m'"
| down: "menu_run m \<Longrightarrow> DownCallback m = Some (r, m') \<Longrightarrow> menu_run m'"
| apply_: "menu_run m \<Longrightarrow> ApplyCallback millis m = Some (r, m', calls) \<Longrightarrow> menu_run m'"
| cancel: "menu_run m \<Longrightarrow> CancelCallback millis m = Some (r, m') \<Longrightarrow> menu_run m'"
| show_state: "menu_run m \<Longrightarrow> setButton1 millis state m = Some m' \<Longrightarrow> menu_run m'"
| loop: "menu_run m \<Longrightarrow> updateMenu millis i m = (m', events, calls) \<Longrightarrow> menu_run m'"
| others: "menu_run m \<Longrightarrow> shared_step (mqtt m) q \<Longrightarrow> menu_run (m\<lparr>mqtt := q\<rparr>)"

section \<open>The levels of the WiFi signal\<close>

fun level_nat :: "WifiStatuses \<Rightarrow> nat" where
  "level_nat No_signal = 0"
| "level_nat Weak = 1"
| "level_nat Medium = 2"
| "level_nat Full = 3"

instantiation WifiStatuses :: linorder
begin

definition less_eq_WifiStatuses :: "WifiStatuses \<Rightarrow> WifiStatuses \<Rightarrow> bool" where
  "less_eq_WifiStatuses a b \<longleftrightarrow> level_nat a \<le> level_nat b"

definition less_WifiStatuses :: "WifiStatuses \<Rightarrow> WifiStatuses \<Rightarrow> bool" where
  "less_WifiStatuses a b \<longleftrightarrow> level_nat a < level_nat b"

instance
proof
  fix a b :: WifiStatuses
  assume "a \<le> b" "b \<le> a"
  then show "a = b" by (cases a; cases b) (simp_all add: less_eq_WifiStatuses_def)
qed (auto simp: less_eq_WifiStatuses_def less_WifiStatuses_def)

end

section \<open>The override stays in range\<close>

text \<open>Half hours up to two hours on, or a half hour off doubled up to ten times.\<close>

definition override_value :: "int \<Rightarrow> bool" where
  "override_value v \<longleftrightarrow>
     v \<in> {0, 1800000, 3600000, 5400000, 7200000} \<or> (\<exists>k \<le> 10. v = - 1800000 * 2 ^ k)"

lemma override_off_range:
  assumes "k \<le> (10 :: nat)"
  shows "- (2 ^ 31) < - 1800000 * (2::int) ^ k \<and> - 1800000 * (2::int) ^ k < 2 ^ 31"
proof -
  have "(2::int) ^ k \<le> 1024" using power_increasing [OF assms, of "2 :: int"] by simp
  moreover have "(0::int) < 2 ^ k" by simp
  ultimately have "- 1843200000 \<le> - 1800000 * (2::int) ^ k" and "- 1800000 * (2::int) ^ k < 0"
    by linarith+
  moreover have "(2::int) ^ 31 = 2147483648" by simp
  ultimately show ?thesis by linarith
qed

lemma override_value_range: "override_value v \<Longrightarrow> - (2 ^ 31) < v \<and> v < 2 ^ 31"
  unfolding override_value_def using override_off_range by (elim disjE exE conjE) (auto simp only:, simp_all)

lemma override_value_up:
  "override_value v \<Longrightarrow> v \<ge> 0 \<Longrightarrow> v < 7200000 \<Longrightarrow> override_value (v + 1800000)"
  by (auto simp: override_value_def)

lemma override_value_down:
  assumes "override_value v" and "v < 0" and "v \<ge> - (2 ^ 30)"
  shows "override_value (v * 2)"
proof -
  obtain k where k: "k \<le> 10" "v = - 1800000 * 2 ^ k"
    using assms(1,2) by (auto simp: override_value_def)
  have "k \<noteq> 10" using k(2) assms(3) by auto
  with k show ?thesis by (auto simp: override_value_def intro!: exI [of _ "Suc k"])
qed

lemma override_value_base: "override_value 0" "override_value (- 1800000)"
  by (auto simp: override_value_def intro: exI [of _ 0])

lemma duration_total: "- (2 ^ 31) < v \<Longrightarrow> \<exists>d. duration v = Some d"
  by (auto simp: duration_def s32_def Let_def)

lemma updateButton1_value_total:
  "- (2 ^ 31) < v \<Longrightarrow> \<exists>t. updateButton1_value v m = Some (m\<lparr>title1 := t\<rparr>)"
  using duration_total by (fastforce simp: updateButton1_value_def)

lemma updateButton1_value_same:
  "updateButton1_value v m = Some m' \<Longrightarrow>
     editButton1Value m' = editButton1Value m \<and> editOldButton1Value m' = editOldButton1Value m"
  by (auto simp: updateButton1_value_def split: if_splits Option.bind_splits)

lemma updateButton1_same:
  "updateButton1 millis m = Some m' \<Longrightarrow>
     editButton1Value m' = editButton1Value m \<and> editOldButton1Value m' = editOldButton1Value m"
  by (auto simp: updateButton1_def Let_def split: if_splits Option.bind_splits dest!: updateButton1_value_same)

definition overrides_ok :: "Menu \<Rightarrow> bool" where
  "overrides_ok m \<longleftrightarrow> override_value (editButton1Value m) \<and> override_value (editOldButton1Value m)"

lemma UpCallback_step:
  assumes "override_value (editButton1Value m)"
  shows "\<exists>m'. UpCallback m = Some (True, m') \<and> override_value (editButton1Value m') \<and>
    editOldButton1Value m' = editOldButton1Value m"
proof -
  let ?v = "editButton1Value m"
  define v where "v = (if ?v < 0 then 0 else if ?v < 7200000 then ?v + 1800000 else ?v)"
  have v: "override_value v" using assms override_value_up override_value_base(1) by (simp add: v_def)
  then have "- (2 ^ 31) < v" "v < 2 ^ 31" using override_value_range by blast+
  then obtain t where
    "updateButton1_value v (m\<lparr>editingButton1Value := True, editButton1Value := v\<rparr>) =
      Some (m\<lparr>editingButton1Value := True, editButton1Value := v, title1 := t\<rparr>)"
    using updateButton1_value_total [of v "m\<lparr>editingButton1Value := True, editButton1Value := v\<rparr>"] by auto
  moreover have "UpCallback m = do {
      m \<leftarrow> updateButton1_value v (m\<lparr>editingButton1Value := True, editButton1Value := v\<rparr>); Some (True, m)}"
    using \<open>- (2 ^ 31) < v\<close> \<open>v < 2 ^ 31\<close> by (auto simp: UpCallback_def v_def s32_def)
  ultimately show ?thesis using v by simp
qed

lemma DownCallback_step:
  assumes "override_value (editButton1Value m)"
  shows "\<exists>m'. DownCallback m = Some (True, m') \<and> override_value (editButton1Value m') \<and>
    editOldButton1Value m' = editOldButton1Value m"
proof -
  let ?v = "editButton1Value m"
  define v where "v = (if ?v > 0 then 0 else if ?v = 0 then ?v - 1800000
    else if ?v \<ge> - (2 ^ 30) then ?v * 2 else ?v)"
  have v: "override_value v"
    using assms override_value_down [OF assms] override_value_base by (simp add: v_def)
  then have "- (2 ^ 31) < v" "v < 2 ^ 31" using override_value_range by blast+
  then obtain t where
    "updateButton1_value v (m\<lparr>editingButton1Value := True, editButton1Value := v\<rparr>) =
      Some (m\<lparr>editingButton1Value := True, editButton1Value := v, title1 := t\<rparr>)"
    using updateButton1_value_total [of v "m\<lparr>editingButton1Value := True, editButton1Value := v\<rparr>"] by auto
  moreover have "DownCallback m = do {
      m \<leftarrow> updateButton1_value v (m\<lparr>editingButton1Value := True, editButton1Value := v\<rparr>); Some (True, m)}"
    using \<open>- (2 ^ 31) < v\<close> \<open>v < 2 ^ 31\<close> by (auto simp: DownCallback_def v_def s32_def)
  ultimately show ?thesis using v by simp
qed

lemma menu_run_ok: "menu_run m \<Longrightarrow> overrides_ok m"
proof (induction rule: menu_run.induct)
  case boot
  then show ?case by (simp add: boot_menu_def overrides_ok_def override_value_base)
next
  case (up m r m')
  then show ?case using UpCallback_step [of m] by (auto simp: overrides_ok_def)
next
  case (down m r m')
  then show ?case using DownCallback_step [of m] by (auto simp: overrides_ok_def)
next
  case (apply_ m millis r m' calls)
  then show ?case
    by (auto simp: ApplyCallback_def publishButton1_def overrides_ok_def Let_def split: Option.bind_splits)
next
  case (cancel m millis r m')
  then show ?case
    by (auto simp: CancelCallback_def overrides_ok_def dest!: updateButton1_same split: Option.bind_splits)
next
  case (show_state m millis state m')
  then show ?case by (auto simp: setButton1_def overrides_ok_def dest!: updateButton1_same)
next
  case (loop m millis i m' events calls)
  then show ?case by (auto simp: updateMenu_def overrides_ok_def Let_def case_prod_beta)
next
  case (others m q)
  then show ?case by (simp add: overrides_ok_def)
qed


section \<open>What a published override looks like\<close>

lemma trim_key_forMs: "trim_key ''forMs'' = Some ''forMs''"
  by (rule trim_key_plain) (simp_all add: isspace_def)

lemma trim_key_heating: "trim_key HEATING_CONTROL = Some HEATING_CONTROL"
  by (rule trim_key_plain) (simp_all add: isspace_def HEATING_CONTROL_def GLOBAL_ID_def)

lemma heating_plain: "\<forall>f\<in>set (levels HEATING_CONTROL). f \<noteq> ''+'' \<and> f \<noteq> ''#''"
  by (simp add: HEATING_CONTROL_def GLOBAL_ID_def topic_delim_def)

lemma match_heating: "matchTopic HEATING_CONTROL t > 0 \<longleftrightarrow> levels t = levels HEATING_CONTROL"
  using topic_covered_plain [OF heating_plain]
  by (auto simp: matchTopic_def matchTopic_loop_levels)

lemma word_of_nat_nat_abs: "(word_of_nat (nat \<bar>v\<bar>) :: 'a::len word) = word_of_int \<bar>v\<bar>"
  by simp

definition override_fields :: "int \<Rightarrow> (string \<times> string) list" where
  "override_fields v = [(''state'', if v > 0 then ''on'' else ''off''), (''forMs'', dec (nat \<bar>v\<bar>))]"

definition override_payload :: "int \<Rightarrow> string" where
  "override_payload v =
     ''state:'' @ (if v > 0 then ''on'' else ''off'') @ '',forMs:'' @ dec (nat \<bar>v\<bar>)"

lemma not_digit: "c \<in> set (dec n) \<Longrightarrow> c \<in> set ''0123456789''"
  using dec_digits by blast

lemma override_payload_fields: "fields_of (Some (cstr (override_payload v))) = override_fields v"
proof -
  have "CHR '','' \<notin> set (dec n)" for n using not_digit [of "CHR '',''" n] by auto
  then have "\<forall>p\<in>set (override_fields v). plain_field p"
    by (simp add: override_fields_def plain_field_def)
  moreover have "render (override_fields v) = override_payload v"
    by (simp add: override_fields_def override_payload_def)
  moreover have "is_cstr (override_payload v)" by (simp add: override_payload_def)
  ultimately show ?thesis using fields_of_render [of "override_fields v"] by simp
qed

lemma publishButton1_payload:
  assumes "- (2 ^ 31) < v" and "v < 2 ^ 31" and "mqtt_publish millis HEATING_CONTROL (override_payload v) (mqtt m) = Some (r, q, calls)"
  shows "publishButton1 millis v m = Some (m\<lparr>mqtt := q\<rparr>, calls)"
  using assms by (auto simp: publishButton1_def override_payload_def s32_def dec_int_def Let_def)

lemma merged_override:
  "map_of (merge_fields now (override_fields v) old) ''forMs'' = Some (dec (nat \<bar>v\<bar>))"
  "map_of (merge_fields now (override_fields v) old) ''timestamp'' = Some (dec (unat now))"
  by (simp_all add: merge_fields_def override_fields_def trim_key_state trim_key_forMs update_conv')

lemma updateButton1_shows:
  assumes "buffer_ok (buffer (mqtt m)) a" and "\<not> editingButton1Value m"
    and "filter (\<lambda>q. matchTopic HEATING_CONTROL (fst q) > 0) a = (t, l) # rest"
    and "map_of l ''forMs'' = Some (dec n)" and "map_of l ''timestamp'' = Some (dec (unat now))"
    and "n < 2 ^ 32"
  shows "updateButton1 later m = updateButton1_value (sint (word_of_nat n - (later - now) :: u32)) m"
proof -
  obtain C where C: "mqttBuffer_getMatching HEATING_CONTROL (buffer (mqtt m)) = Some (buffer (mqtt m), C)"
    "buf_repr C ((t, l) # rest)"
    using getMatching_repr [OF assms(1), of HEATING_CONTROL] assms(3) by auto
  then obtain k inner ls where ls: "fm_repr 16 C ((k, inner) # ls)" "fm_repr 16 inner l"
    by (auto simp: buf_repr_def list_all2_Cons2)
  obtain C' freed where "flatmap_free C = Some (C', freed)" using flatmap_free_repr [OF ls(1)] by blast
  moreover have "field inner ''forMs'' = Some (dec n)" "field inner ''timestamp'' = Some (dec (unat now))"
    using field_repr [OF ls(2)] trim_key_forMs trim_key_timestamp assms(4,5) by simp_all
  moreover have "strtod_u32 (dec n) = Some (word_of_nat n)" using assms(6) by (rule strtod_u32_dec)
  moreover have "strtod_u32 (dec (unat now)) = Some now"
    using strtod_u32_dec [of "unat now"] unsigned_less [of now] by simp
  moreover have "flatmap_getByIndex C 0 = Some 0" "load_entry C 0 = Some (used_entry (k, inner))"
    using ls(1) by (simp_all add: flatmap_getByIndex_def fm_repr_def load_used [OF ls(1)])
  ultimately show ?thesis
    using C(1) fm_repr_count [OF ls(1)] assms(2)
    by (simp add: updateButton1_def used_entry_def)
qed

section \<open>The buttons\<close>

text \<open>The middle button over a sequence of samples \<open>(pressedFor, wasReleased)\<close>.\<close>

fun run_button_B :: "(bool \<times> bool) list \<Rightarrow> bool \<Rightarrow> bool \<times> focus_event list" where
  "run_button_B [] lp = (lp, [])"
| "run_button_B ((p, r) # samples) lp =
     (let (lp, ev) = button_B p r lp; (lp, evs) = run_button_B samples lp in (lp, ev @ evs))"

lemma run_button_B_append:
  "run_button_B (xs @ ys) lp =
     (let (lp, e1) = run_button_B xs lp; (lp, e2) = run_button_B ys lp in (lp, e1 @ e2))"
  by (induction xs arbitrary: lp) (auto simp: case_prod_beta Let_def)

lemma run_button_B_idle: "run_button_B (replicate n (False, False)) lp = (lp, [])"
  by (induction n) (simp_all add: button_B_def)

lemma run_button_B_held: "run_button_B (replicate n (True, False)) True = (True, [])"
  by (induction n) (simp_all add: button_B_def)

section \<open>Properties\<close>

text \<open>
  C6. Editing the override is safe: in every state the display can reach, before and after
  \<open>mqtt_app_start\<close>, connected or not, both edited values are half hours up to two hours on or a half
  hour off doubled up to ten times, so the up and down callbacks never overflow a 32-bit integer, and
  their new values are again of this form.
\<close>

theorem override_editing_safe:
  assumes "menu_run m"
  shows "override_value (editButton1Value m) \<and> override_value (editOldButton1Value m) \<and>
    (\<exists>m'. UpCallback m = Some (True, m')) \<and> (\<exists>m'. DownCallback m = Some (True, m'))"
  using menu_run_ok [OF assms] UpCallback_step [of m] DownCallback_step [of m]
  by (auto simp: overrides_ok_def)

text \<open>The state after \<open>setup\<close> and the first connect, and two presses there.\<close>

definition online_menu :: Menu where
  "online_menu = boot_menu\<lparr>mqtt := (mqtt_app_start boot_mqtt)\<lparr>connected := True\<rparr>\<rparr>"

lemma online_menu_run: "menu_run online_menu"
proof -
  have "menu_run (boot_menu\<lparr>mqtt := mqtt_app_start boot_mqtt\<rparr>)"
    using menu_run.others [OF menu_run.boot shared_step.start] by (simp add: boot_menu_def)
  from menu_run.others [OF this shared_step.connected] show ?thesis by (simp add: online_menu_def)
qed

theorem override_editing_safe_witness:
  "setupComplete (mqtt online_menu) \<and> connected (mqtt online_menu) \<and>
   (\<exists>m. DownCallback online_menu = Some (True, m) \<and> (\<exists>m'. DownCallback m = Some (True, m')))"
proof -
  obtain m where m: "DownCallback online_menu = Some (True, m)"
    using override_editing_safe [OF online_menu_run] by blast
  from override_editing_safe [OF menu_run.down [OF online_menu_run m]] m show ?thesis
    by (simp add: online_menu_def mqtt_app_start_def)
qed

text \<open>
  An override reads back without its sign: whatever \<open>v\<close> is published, for on or for off, the
  title that \<open>updateButton1\<close> computes from the cached message is the one for \<open>|v|\<close> less the time
  since, so a device that has been forced off shows ``Force on''.
\<close>

theorem override_sign_lost:
  assumes "buffer_ok (buffer (mqtt m)) a" and "setupComplete (mqtt m)" and "\<not> editingButton1Value m"
    and "HEATING_CONTROL \<in> set (map fst a) \<or> length a < 16"
    and "fields_fit (override_fields v) (old_fields a HEATING_CONTROL)"
    and "\<forall>t\<in>set (map fst a). levels t = levels HEATING_CONTROL \<longrightarrow> t = HEATING_CONTROL"
    and "- (2 ^ 31) < v" and "v < 2 ^ 31"
  shows "\<exists>m' calls. publishButton1 now v m = Some (m', calls) \<and>
    updateButton1 later m' = updateButton1_value (sint (word_of_int \<bar>v\<bar> - (later - now) :: u32)) m'"
proof -
  let ?l = "merge_fields now (override_fields v) (old_fields a HEATING_CONTROL)"
  let ?a = "AList.update HEATING_CONTROL ?l a"
  obtain b where b: "mqttBuffer_put now HEATING_CONTROL (override_payload v) (buffer (mqtt m)) = Some b"
    "buffer_ok b ?a"
    using put_repr [OF assms(1) trim_key_heating assms(4), of "override_payload v" now] assms(5)
    unfolding override_payload_fields by blast
  then obtain calls where "mqtt_publish now HEATING_CONTROL (override_payload v) (mqtt m) =
      Some (1, (mqtt m)\<lparr>buffer := b\<rparr>, calls)"
    using assms(2) by (simp add: mqtt_publish_def)
  from publishButton1_payload [OF assms(7,8) this]
  have pub: "publishButton1 now v m = Some (m\<lparr>mqtt := (mqtt m)\<lparr>buffer := b\<rparr>\<rparr>, calls)" .
  have "distinct (map fst a)" using assms(1) buf_repr_keys by (auto simp: buffer_ok_def)
  then have "filter (\<lambda>q. matchTopic HEATING_CONTROL (fst q) > 0) ?a = [(HEATING_CONTROL, ?l)]"
    using assms(6) by (intro filter_update_only) (simp_all add: match_heating)
  then have "updateButton1 later (m\<lparr>mqtt := (mqtt m)\<lparr>buffer := b\<rparr>\<rparr>) =
      updateButton1_value (sint (word_of_nat (nat \<bar>v\<bar>) - (later - now) :: u32))
        (m\<lparr>mqtt := (mqtt m)\<lparr>buffer := b\<rparr>\<rparr>)"
    using merged_override [of now v] b(2) assms(3,7,8)
    by (intro updateButton1_shows [where a = ?a]) auto
  with pub show ?thesis by (simp add: word_of_nat_nat_abs)
qed


lemma override_fields_fit: "fields_fit (override_fields v) []"
  by (simp add: fields_fit_def override_fields_def trim_key_state trim_key_forMs card_insert_if)

definition demo_menu :: "Buffer \<Rightarrow> Menu" where
  "demo_menu b = boot_menu\<lparr>mqtt := boot_mqtt\<lparr>setupComplete := True, buffer := b\<rparr>\<rparr>"

theorem override_sign_lost_witness:
  "\<exists>b m' m'' calls. initialize boot_buffer = Some b \<and>
     publishButton1 0 (-1800000) (demo_menu b) = Some (m', calls) \<and>
     updateButton1 0 m' = Some m'' \<and> title1 m'' = ''Force on for 30:00min''"
proof -
  obtain b where b: "initialize boot_buffer = Some b" "buffer_ok b []"
    using initialize_boot by blast
  have ok: "buffer_ok (buffer (mqtt (demo_menu b))) []" "setupComplete (mqtt (demo_menu b))"
    "\<not> editingButton1Value (demo_menu b)"
    using b(2) by (simp_all add: demo_menu_def boot_menu_def)
  have fit: "fields_fit (override_fields (-1800000)) (old_fields [] HEATING_CONTROL)"
    by (simp add: old_fields_def override_fields_fit)
  from override_sign_lost [OF ok _ fit, of 0 0] obtain m' calls where m':
    "publishButton1 0 (-1800000) (demo_menu b) = Some (m', calls)"
    "updateButton1 0 m' = updateButton1_value (sint (word_of_int \<bar>-1800000\<bar> - (0 - 0) :: u32)) m'"
    by auto
  have "duration 1800000 = Some ''30:00min''"
    by (simp add: duration_def Let_def dec.simps dec02_def snprintf_def digit_chars)
  then have "\<exists>m''. updateButton1 0 m' = Some m'' \<and> title1 m'' = ''Force on for 30:00min''"
    by (simp add: m'(2) updateButton1_value_def)
  with b(1) m'(1) show ?thesis by blast
qed

text \<open>
  One event per press of the middle button: however long it is held, a press that stays below
  the threshold yields one short press when it is released, a longer one yields one long push when
  it crosses the threshold and nothing when it is released, and the button is ready for the next.
\<close>

theorem one_event_per_press:
  "run_button_B (replicate i (False, False) @ replicate n (True, False) @ [(False, True)]) False =
     (False, if n = 0 then [OnButtonBPressed] else [OnButtonBLongPush])"
proof (cases n)
  case (Suc k)
  then show ?thesis
    by (simp add: run_button_B_append run_button_B_idle run_button_B_held button_B_def)
qed (simp add: run_button_B_append run_button_B_idle button_B_def)

text \<open>
  The status icon never shows more bars for a weaker signal: \<open>updateMenu\<close> sets a level that
  is monotone in the signal strength, and every level is shown for some strength of an \<open>int8_t\<close>.
\<close>

theorem wifi_status_monotone:
  "(\<forall>i j. RSSI i \<le> RSSI j \<longrightarrow>
      wifi_status (fst (updateMenu t i m)) \<le> wifi_status (fst (updateMenu t j m))) \<and>
   (\<forall>level. \<exists>r. - 128 \<le> r \<and> r < 128 \<and> wifi_status (fst (updateMenu t (i\<lparr>RSSI := r\<rparr>) m)) = level)"
proof -
  have status: "wifi_status (fst (updateMenu t i m)) = wifi_level (RSSI i)" for i
    by (simp add: updateMenu_def Let_def case_prod_beta)
  have "\<exists>r. - 128 \<le> r \<and> r < 128 \<and> wifi_level r = level" for level
    by (cases level)
      (rule exI [of _ "-128"] exI [of _ "-85"] exI [of _ "-75"] exI [of _ "-55"], simp add: wifi_level_def)+
  then show ?thesis
    by (auto simp: status wifi_level_def less_eq_WifiStatuses_def)
qed

theorem wifi_status_monotone_witness:
  "wifi_status (fst (updateMenu 0 \<lparr>RSSI = -80, btnA_wasPressed = False, btnB_pressedFor_1000 = False,
      btnB_wasReleased = False, btnC_wasPressed = False\<rparr> boot_menu)) \<le>
   wifi_status (fst (updateMenu 0 \<lparr>RSSI = -60, btnA_wasPressed = False, btnB_pressedFor_1000 = False,
      btnB_wasReleased = False, btnC_wasPressed = False\<rparr> boot_menu))"
  using wifi_status_monotone [of 0 boot_menu] by simp

end
