(* ===== verification/Occupancy.thy ===== *)
theory Occupancy
  imports Mqtt
begin

text \<open>
  \<open>src/main/occupancy.cpp\<close>: a button press marks the house as occupied for a while.  The static
  variables are signed 32-bit integers, so their sum is undefined (\<open>None\<close>) when it overflows;
  the comparison with \<open>millis()\<close> converts it to \<open>unsigned long\<close>.
\<close>

definition VALID_TIME_BUTTON_PRESS :: int where
  "VALID_TIME_BUTTON_PRESS = 10000"

definition OCCUPANCY_VIA_BUTTON :: string where
  "OCCUPANCY_VIA_BUTTON = GLOBAL_ID @ ''/occupancy/switchChange/'' @ DEVICE_NAME"

record Occupancy =
  timeout :: int
  timeoutLastSet :: int
  currentOccupancy :: u8
  mqtt :: Mqtt

definition boot_occupancy :: Occupancy where
  "boot_occupancy =
     \<lparr>timeout = VALID_TIME_BUTTON_PRESS, timeoutLastSet = - VALID_TIME_BUTTON_PRESS,
      currentOccupancy = 1, mqtt = boot_mqtt\<rparr>"

definition occupancy_set :: "u32 \<Rightarrow> Occupancy \<Rightarrow> (Occupancy \<times> call list) option" where
  "occupancy_set millis s =
     do {
       s \<leftarrow> Some (s\<lparr>timeoutLastSet := sint millis\<rparr>);
       s \<leftarrow> Some (s\<lparr>currentOccupancy := 1\<rparr>);
       let text = snprintf 50 (''state:true,trueFor:'' @ dec_int VALID_TIME_BUTTON_PRESS);
       (_, q, calls) \<leftarrow> mqtt_publish millis OCCUPANCY_VIA_BUTTON text (mqtt s);
       Some (s\<lparr>mqtt := q\<rparr>, calls)
     }"

text \<open>The deadline, as the code computes it.\<close>

definition deadline :: "Occupancy \<Rightarrow> u32 option" where
  "deadline s = map_option word_of_int (s32 (timeoutLastSet s + timeout s))"

definition occupancy_update :: "u32 \<Rightarrow> bool \<Rightarrow> Occupancy \<Rightarrow> (Occupancy \<times> call list) option" where
  "occupancy_update millis anyPressed s =
     do {
       (s, calls) \<leftarrow> (if anyPressed then occupancy_set millis s else Some (s, []));
       d \<leftarrow> deadline s;
       if d < millis \<and> currentOccupancy s \<noteq> 0 then
         do {
           s \<leftarrow> Some (s\<lparr>currentOccupancy := 0\<rparr>);
           (_, q, calls') \<leftarrow> mqtt_publish millis OCCUPANCY_VIA_BUTTON ''state:false,trueFor:undefined'' (mqtt s);
           Some (s\<lparr>mqtt := q\<rparr>, calls @ calls')
         }
       else Some (s, calls)
     }"

section \<open>The deadline\<close>

lemma sint_low: "uint t < 2 ^ 31 \<Longrightarrow> sint (t :: u32) = uint t"
  using sint_sbintrunc' [of "uint t", where 'a = 32] signed_take_bit_int_eq_self [of 31 "uint t"]
    uint_ge_0 [of t] by simp

lemma sint_high:
  assumes "\<not> uint t < 2 ^ 31"
  shows "sint (t :: u32) = uint t - 2 ^ 32"
proof -
  have "(word_of_int (uint t - 2 ^ 32) :: u32) = t" by simp
  then have "sint t = signed_take_bit 31 (uint t - 2 ^ 32)"
    using sint_sbintrunc' [of "uint t - 2 ^ 32", where 'a = 32] by (simp del: of_int_diff)
  moreover have "uint t < 2 ^ 32" using uint_lt2p [of t] by simp
  ultimately show ?thesis
    using assms signed_take_bit_int_eq_self [of 31 "uint t - 2 ^ 32"] by simp
qed

lemma deadline_pressed:
  assumes "timeout s = VALID_TIME_BUTTON_PRESS" and "timeoutLastSet s = sint t"
  shows "deadline s =
    (if 2 ^ 31 \<le> uint t + 10000 \<and> uint t < 2 ^ 31 then None else Some (t + 10000))"
proof (cases "uint t < 2 ^ 31")
  case True
  have "(word_of_int (uint t + 10000) :: u32) = t + 10000" by simp
  with True assms uint_ge_0 [of t] show ?thesis
    by (simp add: deadline_def VALID_TIME_BUTTON_PRESS_def sint_low s32_def)
next
  case False
  have "(word_of_int (uint t - 2 ^ 32 + 10000) :: u32) = t + 10000" by simp
  moreover have "uint t < 2 ^ 32" using uint_lt2p [of t] by simp
  ultimately show ?thesis
    using False assms by (simp add: deadline_def VALID_TIME_BUTTON_PRESS_def sint_high s32_def)
qed

lemma uint_deadline: "uint (t + 10000 :: u32) = (uint t + 10000) mod 2 ^ 32"
  by (simp add: uint_word_ariths)

lemma uint_deadline_plain: "uint t + 10000 < 2 ^ 32 \<Longrightarrow> uint (t + 10000 :: u32) = uint t + 10000"
  using uint_ge_0 [of t] by (simp add: uint_deadline)

lemma uint_deadline_wrapped:
  assumes "2 ^ 32 \<le> uint t + 10000"
  shows "uint (t + 10000 :: u32) < uint t"
proof -
  have "uint t < 2 ^ 32" using uint_lt2p [of t] by simp
  then have "(uint t + 10000) mod 2 ^ 32 = uint t + 10000 - 2 ^ 32"
    using assms by (intro int_mod_pos_eq [where q = 1]) simp_all
  then show ?thesis by (simp add: uint_deadline)
qed

section \<open>The messages\<close>

abbreviation pressed_message :: string where
  "pressed_message \<equiv> ''state:true,trueFor:10000''"

abbreviation expired_message :: string where
  "expired_message \<equiv> ''state:false,trueFor:undefined''"

text \<open>What the client is told, and that the cache has room for the topic and its fields.\<close>

definition told :: "string \<Rightarrow> Mqtt \<Rightarrow> call list" where
  "told message q =
     (if setupComplete q \<and> connected q then [esp_mqtt_client_publish OCCUPANCY_VIA_BUTTON message] else [])"

definition occupancy_room :: "Mqtt \<Rightarrow> bool" where
  "occupancy_room q \<longleftrightarrow> (\<exists>a. buffer_ok (buffer q) a \<and>
     (OCCUPANCY_VIA_BUTTON \<in> set (map fst a) \<or> length a < 16) \<and>
     card ({''timestamp'', ''state'', ''trueFor''} \<union> set (map fst (old_fields a OCCUPANCY_VIA_BUTTON))) \<le> 16)"

lemma trim_key_trueFor: "trim_key ''trueFor'' = Some ''trueFor''"
  by (rule trim_key_plain) (simp_all add: isspace_def)

lemma trim_key_occupancy: "trim_key OCCUPANCY_VIA_BUTTON = Some OCCUPANCY_VIA_BUTTON"
  by (rule trim_key_plain)
    (simp_all add: isspace_def OCCUPANCY_VIA_BUTTON_def GLOBAL_ID_def DEVICE_NAME_def)

lemma message_fields:
  "fields_of (Some (cstr pressed_message)) = [(''state'', ''true''), (''trueFor'', ''10000'')]"
  "fields_of (Some (cstr expired_message)) = [(''state'', ''false''), (''trueFor'', ''undefined'')]"
  using fields_of_render [of "[(''state'', ''true''), (''trueFor'', ''10000'')]"]
    fields_of_render [of "[(''state'', ''false''), (''trueFor'', ''undefined'')]"]
  by (simp_all add: plain_field_def)

lemma occupancy_put:
  assumes "occupancy_room q" and "fields_of (Some (cstr message)) = [(''state'', v), (''trueFor'', w)]"
  shows "\<exists>b. mqttBuffer_put millis OCCUPANCY_VIA_BUTTON message (buffer q) = Some b \<and>
    occupancy_room (q\<lparr>buffer := b\<rparr>)"
proof -
  let ?fs = "[(''state'', v), (''trueFor'', w)]"
  obtain a where a: "buffer_ok (buffer q) a" "OCCUPANCY_VIA_BUTTON \<in> set (map fst a) \<or> length a < 16"
      "card ({''timestamp'', ''state'', ''trueFor''} \<union> set (map fst (old_fields a OCCUPANCY_VIA_BUTTON))) \<le> 16"
    using assms(1) by (auto simp: occupancy_room_def)
  let ?old = "old_fields a OCCUPANCY_VIA_BUTTON"
  let ?a = "AList.update OCCUPANCY_VIA_BUTTON (merge_fields millis ?fs ?old) a"
  have "insert ''timestamp'' (set (map fst ?old) \<union> (\<lambda>p. the (trim_key (fst p))) ` set ?fs) =
      {''timestamp'', ''state'', ''trueFor''} \<union> set (map fst ?old)"
    by (auto simp: trim_key_state trim_key_trueFor)
  then have "fields_fit ?fs ?old" using a(3) by (simp add: fields_fit_def trim_key_state trim_key_trueFor)
  then have "\<exists>b. mqttBuffer_put millis OCCUPANCY_VIA_BUTTON message (buffer q) = Some b \<and> buffer_ok b ?a"
    using put_repr [OF a(1) trim_key_occupancy a(2), of message millis] unfolding assms(2) by blast
  then obtain b where b: "mqttBuffer_put millis OCCUPANCY_VIA_BUTTON message (buffer q) = Some b" "buffer_ok b ?a"
    by blast
  have "set (map fst (merge_fields millis ?fs ?old)) =
      {''timestamp'', ''state'', ''trueFor''} \<union> set (map fst ?old)"
    by (auto simp: merge_fields_def trim_key_state trim_key_trueFor dom_update)
  moreover have "old_fields ?a OCCUPANCY_VIA_BUTTON = merge_fields millis ?fs ?old"
    by (simp add: old_fields_def update_conv')
  ultimately have "card ({''timestamp'', ''state'', ''trueFor''} \<union>
      set (map fst (old_fields ?a OCCUPANCY_VIA_BUTTON))) \<le> 16"
    using a(3) by (simp only: Un_left_absorb)
  moreover have "OCCUPANCY_VIA_BUTTON \<in> set (map fst ?a)" by (simp add: dom_update)
  moreover have "buffer_ok (buffer (q\<lparr>buffer := b\<rparr>)) ?a" using b(2) by simp
  ultimately have "occupancy_room (q\<lparr>buffer := b\<rparr>)" unfolding occupancy_room_def by blast
  with b(1) show ?thesis by blast
qed

lemma occupancy_publish:
  assumes "occupancy_room q" and "message = pressed_message \<or> message = expired_message"
  shows "\<exists>r b. mqtt_publish millis OCCUPANCY_VIA_BUTTON message q = Some (r, q\<lparr>buffer := b\<rparr>, told message q) \<and>
    occupancy_room (q\<lparr>buffer := b\<rparr>)"
proof -
  obtain b where b: "mqttBuffer_put millis OCCUPANCY_VIA_BUTTON message (buffer q) = Some b"
      "occupancy_room (q\<lparr>buffer := b\<rparr>)"
    using occupancy_put [OF assms(1)] assms(2) message_fields by metis
  show ?thesis
  proof (cases "setupComplete q")
    case True
    with b show ?thesis by (intro exI [of _ 1] exI [of _ b]) (simp add: mqtt_publish_def told_def)
  next
    case False
    then have "mqtt_publish millis OCCUPANCY_VIA_BUTTON message q = Some (0, q\<lparr>buffer := buffer q\<rparr>, told message q)"
      by (simp add: mqtt_publish_def told_def)
    with assms(1) show ?thesis by (intro exI [of _ 0] exI [of _ "buffer q"]) simp
  qed
qed

lemma pressed_text: "snprintf 50 (''state:true,trueFor:'' @ dec_int VALID_TIME_BUTTON_PRESS) = pressed_message"
  by (simp add: snprintf_def VALID_TIME_BUTTON_PRESS_def dec_int_def dec.simps digit_chars)

lemma press:
  assumes "occupancy_room (mqtt s)"
  shows "\<exists>b. occupancy_set t s = Some (s\<lparr>timeoutLastSet := sint t, currentOccupancy := 1,
      mqtt := (mqtt s)\<lparr>buffer := b\<rparr>\<rparr>, told pressed_message (mqtt s)) \<and>
    occupancy_room ((mqtt s)\<lparr>buffer := b\<rparr>)"
proof -
  obtain r b where "mqtt_publish t OCCUPANCY_VIA_BUTTON pressed_message (mqtt s) =
      Some (r, (mqtt s)\<lparr>buffer := b\<rparr>, told pressed_message (mqtt s))" "occupancy_room ((mqtt s)\<lparr>buffer := b\<rparr>)"
    using occupancy_publish [OF assms] by blast
  then show ?thesis
    unfolding occupancy_set_def Let_def pressed_text by (intro exI [of _ b]) simp
qed

lemma update_waits:
  "deadline s = Some d \<Longrightarrow> now \<le> d \<Longrightarrow> occupancy_update now False s = Some (s, [])"
  by (auto simp: occupancy_update_def)

lemma update_expires:
  assumes "deadline s = Some d" and "d < now" and "currentOccupancy s = 1" and "occupancy_room (mqtt s)"
  shows "\<exists>s'. occupancy_update now False s = Some (s', told expired_message (mqtt s)) \<and> currentOccupancy s' = 0"
  using assms occupancy_publish [OF assms(4), of expired_message now] by (auto simp: occupancy_update_def)

lemma update_pressed:
  assumes "occupancy_set now s = Some (s', calls)"
  shows "occupancy_update now True s =
    map_option (\<lambda>(r, new). (r, calls @ new)) (occupancy_update now False s')"
  using assms by (auto simp: occupancy_update_def split: Option.bind_splits)

section \<open>Properties\<close>

text \<open>
  C26.  A button press keeps the house occupied for exactly ten seconds, while the cache has room
  for the message: \<open>occupancy_update\<close> with a button pressed at time \<open>t\<close> sets \<open>currentOccupancy\<close> and
  publishes that it is set; up to ten seconds later an update without a press changes nothing and
  publishes nothing; at any later time it clears \<open>currentOccupancy\<close> and publishes that.  Other tasks
  may use MQTT in between.  This holds for every \<open>t\<close> of the millisecond counter that is not within
  ten seconds of a signed or an unsigned wrap-around; within ten seconds of the unsigned one the
  press is published and forgotten at once, and within ten seconds of the signed one the sum of the
  deadline overflows.
\<close>

theorem button_press_window:
  assumes "timeout s = VALID_TIME_BUTTON_PRESS" and "occupancy_room (mqtt s)"
  shows "(uint t + 10000 < 2 ^ 31 \<or> 2 ^ 31 \<le> uint t \<and> uint t + 10000 < 2 ^ 32 \<longrightarrow>
      (\<exists>s'. occupancy_update t True s = Some (s', told pressed_message (mqtt s)) \<and>
        currentOccupancy s' = 1 \<and> occupancy_room (mqtt s') \<and>
        (\<forall>now q. uint now \<le> uint t + 10000 \<longrightarrow>
           occupancy_update now False (s'\<lparr>mqtt := q\<rparr>) = Some (s'\<lparr>mqtt := q\<rparr>, [])) \<and>
        (\<forall>now q. uint t + 10000 < uint now \<and> occupancy_room q \<longrightarrow>
           (\<exists>s''. occupancy_update now False (s'\<lparr>mqtt := q\<rparr>) = Some (s'', told expired_message q) \<and>
             currentOccupancy s'' = 0)))) \<and>
    (2 ^ 32 \<le> uint t + 10000 \<longrightarrow>
      (\<exists>s'. occupancy_update t True s =
          Some (s', told pressed_message (mqtt s) @ told expired_message (mqtt s)) \<and>
        currentOccupancy s' = 0)) \<and>
    (2 ^ 31 \<le> uint t + 10000 \<and> uint t < 2 ^ 31 \<longrightarrow> occupancy_update t True s = None)"
proof -
  obtain b where set_: "occupancy_set t s = Some (s\<lparr>timeoutLastSet := sint t, currentOccupancy := 1,
      mqtt := (mqtt s)\<lparr>buffer := b\<rparr>\<rparr>, told pressed_message (mqtt s))"
      and room: "occupancy_room ((mqtt s)\<lparr>buffer := b\<rparr>)"
    using press [OF assms(2)] by blast
  let ?s = "s\<lparr>timeoutLastSet := sint t, currentOccupancy := 1, mqtt := (mqtt s)\<lparr>buffer := b\<rparr>\<rparr>"
  have d: "deadline (?s\<lparr>mqtt := q\<rparr>) =
      (if 2 ^ 31 \<le> uint t + 10000 \<and> uint t < 2 ^ 31 then None else Some (t + 10000))" for q
    using assms(1) by (intro deadline_pressed) simp_all
  note pressed = update_pressed [OF set_]
  show ?thesis
  proof (intro conjI impI, goal_cases)
    case 1
    have u: "uint (t + 10000) = uint t + 10000" using 1 by (intro uint_deadline_plain) auto
    from 1 d have dl: "deadline (?s\<lparr>mqtt := q\<rparr>) = Some (t + 10000)" for q by auto
    have waits: "occupancy_update now False (?s\<lparr>mqtt := q\<rparr>) = Some (?s\<lparr>mqtt := q\<rparr>, [])"
      if "uint now \<le> uint t + 10000" for now q
      using that u by (intro update_waits [OF dl]) (simp add: word_le_def)
    have expires: "\<exists>s''. occupancy_update now False (?s\<lparr>mqtt := q\<rparr>) = Some (s'', told expired_message q) \<and>
        currentOccupancy s'' = 0" if "uint t + 10000 < uint now" "occupancy_room q" for now q
      using that u update_expires [OF dl [of q], of now] by (simp add: word_less_def)
    have "occupancy_update t True s = Some (?s, told pressed_message (mqtt s))"
      using waits [of t "mqtt ?s"] by (simp add: pressed)
    with room waits expires show ?case by (intro exI [of _ ?s]) auto
  next
    case 2
    then have "deadline ?s = Some (t + 10000)" using d [of "mqtt ?s"] by auto
    moreover have "t + 10000 < t" using uint_deadline_wrapped [OF 2] by (simp add: word_less_def)
    ultimately have "\<exists>s'. occupancy_update t False ?s = Some (s', told expired_message (mqtt ?s)) \<and>
        currentOccupancy s' = 0"
      using room by (intro update_expires) simp_all
    then show ?case by (auto simp: pressed told_def)
  next
    case 3
    then have "deadline ?s = None" using d [of "mqtt ?s"] by auto
    then show ?case by (simp add: set_ occupancy_update_def)
  qed
qed

text \<open>A press half a second after the start, on a device that is not connected yet.\<close>

theorem button_press_window_witness:
  "\<exists>b s'. initialize boot_buffer = Some b \<and>
     occupancy_update 500 True (boot_occupancy\<lparr>mqtt := (mqtt_app_start boot_mqtt)\<lparr>buffer := b\<rparr>\<rparr>) =
       Some (s', []) \<and>
     currentOccupancy s' = 1 \<and> occupancy_update 10500 False s' = Some (s', []) \<and>
     (\<exists>s'' calls. occupancy_update 10501 False s' = Some (s'', calls) \<and> currentOccupancy s'' = 0)"
proof -
  obtain b where b: "initialize boot_buffer = Some b" "buffer_ok b []"
    using initialize_boot by blast
  let ?s = "boot_occupancy\<lparr>mqtt := (mqtt_app_start boot_mqtt)\<lparr>buffer := b\<rparr>\<rparr>"
  have off: "timeout ?s = VALID_TIME_BUTTON_PRESS" "\<not> connected (mqtt ?s)" "occupancy_room (mqtt ?s)"
    using b(2) by (auto simp: boot_occupancy_def mqtt_app_start_def boot_mqtt_def occupancy_room_def
        old_fields_def card_insert_if intro!: exI [of _ "[]"])
  then have quiet: "told m (mqtt ?s) = []" for m by (simp add: told_def)
  from button_press_window [OF off(1,3), of 500] obtain s' where
    s': "occupancy_update 500 True ?s = Some (s', told pressed_message (mqtt ?s))"
      "currentOccupancy s' = 1" "occupancy_room (mqtt s')"
      "\<forall>now q. uint now \<le> 10500 \<longrightarrow>
        occupancy_update now False (s'\<lparr>mqtt := q\<rparr>) = Some (s'\<lparr>mqtt := q\<rparr>, [])"
      "\<forall>now q. 10500 < uint now \<and> occupancy_room q \<longrightarrow> (\<exists>s''. occupancy_update now False (s'\<lparr>mqtt := q\<rparr>) =
        Some (s'', told expired_message q) \<and> currentOccupancy s'' = 0)"
    by auto
  from s'(4) have "occupancy_update 10500 False (s'\<lparr>mqtt := mqtt s'\<rparr>) = Some (s'\<lparr>mqtt := mqtt s'\<rparr>, [])"
    by (elim allE [of _ 10500] allE [of _ "mqtt s'"]) simp
  moreover from s'(5) [rule_format, of 10501 "mqtt s'"] s'(3) obtain s'' calls where
    "occupancy_update 10501 False (s'\<lparr>mqtt := mqtt s'\<rparr>) = Some (s'', calls)" "currentOccupancy s'' = 0"
    by auto
  ultimately show ?thesis using b(1) s'(1,2) unfolding quiet by auto
qed

end
