(* ===== verification/Outlet.thy ===== *)
theory Outlet
  imports Mqtt
begin

text \<open>
  \<open>src/main/outlet.cpp\<close>: the outlet of the boiler, its rate-limited state messages and its control
  topics.  What the outlet answers over HTTP is an argument.
\<close>

definition MAX_PRIORITY :: nat where
  "MAX_PRIORITY = 10"

definition PUBLISH_INTERVAL :: u32 where
  "PUBLISH_INTERVAL = 10 * 60 * 1000"

record Outlet =
  topicBase :: string
  defaultState :: bool
  topicsAtPriority :: "string list list"
  lastPublishTime :: u32
  lastPublishState :: bool
  mutex :: bool
  mqtt :: Mqtt

text \<open>The constructor leaves \<open>lastPublishState\<close> as it finds it: \<open>garbage\<close>.\<close>

definition new_outlet :: "string \<Rightarrow> bool \<Rightarrow> bool \<Rightarrow> Mqtt \<Rightarrow> Outlet" where
  "new_outlet base dflt garbage q =
     \<lparr>topicBase = base, defaultState = dflt, topicsAtPriority = replicate MAX_PRIORITY [],
      lastPublishTime = 0, lastPublishState = garbage, mutex = False, mqtt = q\<rparr>"

text \<open>The assertion on the result of \<open>mqtt_subscribe\<close> fails as \<open>None\<close>.\<close>

definition addControlSubscription :: "string \<Rightarrow> u8 \<Rightarrow> Outlet \<Rightarrow> (Outlet \<times> call list) option" where
  "addControlSubscription topic priority s =
     (if unat priority \<ge> MAX_PRIORITY then Some (s, [])
      else if topic \<in> set (topicsAtPriority s ! unat priority) then Some (s, [])
      else
        let s = s\<lparr>topicsAtPriority := (topicsAtPriority s)
              [unat priority := topicsAtPriority s ! unat priority @ [topic]]\<rparr>;
            (r, q, calls) = mqtt_subscribe topic (mqtt s)
        in if r \<noteq> 0 then Some (s\<lparr>mqtt := q\<rparr>, calls) else None)"

definition publish :: "u32 \<Rightarrow> bool \<Rightarrow> Outlet \<Rightarrow> (Outlet \<times> call list) option" where
  "publish millis state s =
     (if lastPublishState s \<noteq> state \<or> lastPublishTime s = 0 \<or>
         lastPublishTime s + PUBLISH_INTERVAL < millis
      then do {
        s \<leftarrow> Some (s\<lparr>lastPublishState := state\<rparr>);
        s \<leftarrow> Some (s\<lparr>lastPublishTime := millis\<rparr>);
        let text = snprintf 30 (''state:'' @ dec (of_bool state));
        (_, q, calls) \<leftarrow> mqtt_publish millis (topicBase s) text (mqtt s);
        Some (s\<lparr>mqtt := q\<rparr>, calls)
      }
      else Some (s, []))"

definition update_kankun :: "u32 \<Rightarrow> bool \<Rightarrow> Outlet \<Rightarrow> (Outlet \<times> call list) option" where
  "update_kankun millis http_match s = publish millis http_match s"

definition getState :: "u32 \<Rightarrow> bool \<Rightarrow> Outlet \<Rightarrow> (bool \<times> Outlet \<times> call list) option" where
  "getState millis http_match s =
     do {
       s \<leftarrow> (if mutex s then None else Some (s\<lparr>mutex := True\<rparr>));
       (s, calls) \<leftarrow>
         (if lastPublishTime s = 0 \<or> lastPublishTime s + 5000 < millis
          then update_kankun millis http_match s else Some (s, []));
       s \<leftarrow> Some (s\<lparr>mutex := False\<rparr>);
       (b, mapCopy) \<leftarrow> mqttBuffer_getMatching (topicBase s) (buffer (mqtt s));
       s \<leftarrow> Some (s\<lparr>mqtt := (mqtt s)\<lparr>buffer := b\<rparr>\<rparr>);
       let switchCount = flatmap_getEntryCount mapCopy;
       if switchCount = 0 then do { _ \<leftarrow> flatmap_free mapCopy; Some (False, s, calls) }
       else do {
         i \<leftarrow> flatmap_getByIndex mapCopy 0;
         entry \<leftarrow> load_entry mapCopy i;
         inner \<leftarrow> content entry;
         result \<leftarrow> field inner ''state'';
         state \<leftarrow> strtod_u32 result;
         _ \<leftarrow> flatmap_free mapCopy;
         Some (state \<noteq> 0, s, calls)
       }
     }"


section \<open>What a published state looks like\<close>

definition state_payload :: "bool \<Rightarrow> string" where
  "state_payload st = snprintf 30 (''state:'' @ dec (of_bool st))"

lemma state_payload_fields:
  "fields_of (Some (cstr (state_payload st))) = [(''state'', dec (of_bool st))]"
proof -
  have "dec (of_bool st) = (if st then ''1'' else ''0'')"
    by (cases st) (simp_all add: dec.simps digit_chars)
  then show ?thesis
    using fields_of_render [of "[(''state'', dec (of_bool st))]"]
    by (cases st) (simp_all add: state_payload_def snprintf_def plain_field_def)
qed

lemma publish_due:
  assumes "lastPublishState s \<noteq> st \<or> lastPublishTime s = 0 \<or> lastPublishTime s + PUBLISH_INTERVAL < now"
    and "buffer_ok (buffer (mqtt s)) a" and "setupComplete (mqtt s)"
    and "trim_key (topicBase s) = Some t" and "t \<in> set (map fst a) \<or> length a < 16"
    and "fields_fit [(''state'', dec (of_bool st))] (old_fields a t)"
  shows "\<exists>b calls. publish now st s = Some (s\<lparr>lastPublishState := st, lastPublishTime := now,
      mqtt := (mqtt s)\<lparr>buffer := b\<rparr>\<rparr>, calls) \<and>
    buffer_ok b (AList.update t (merge_fields now [(''state'', dec (of_bool st))] (old_fields a t)) a)"
proof -
  obtain b where b: "mqttBuffer_put now (topicBase s) (state_payload st) (buffer (mqtt s)) = Some b"
    "buffer_ok b (AList.update t (merge_fields now [(''state'', dec (of_bool st))] (old_fields a t)) a)"
    using put_repr [OF assms(2,4,5), of "state_payload st" now] assms(6)
    unfolding state_payload_fields by blast
  from this(1) assms(3) obtain calls where
    "mqtt_publish now (topicBase s) (state_payload st) (mqtt s) = Some (1, (mqtt s)\<lparr>buffer := b\<rparr>, calls)"
    by (simp add: mqtt_publish_def)
  moreover have "publish now st s = do {
      (_, q, calls) \<leftarrow> mqtt_publish now (topicBase s) (state_payload st) (mqtt s);
      Some (s\<lparr>lastPublishState := st, lastPublishTime := now, mqtt := q\<rparr>, calls) }"
    using assms(1) by (simp add: publish_def state_payload_def)
  ultimately have "publish now st s = Some (s\<lparr>lastPublishState := st, lastPublishTime := now,
      mqtt := (mqtt s)\<lparr>buffer := b\<rparr>\<rparr>, calls)" by simp
  with b(2) show ?thesis by blast
qed

lemma merged_state: "map_of (merge_fields now [(''state'', v)] old) ''state'' = Some v"
  by (simp add: merge_fields_def trim_key_state update_conv')

lemma strtod_bool: "strtod_u32 (dec (of_bool st)) = Some (of_bool st)"
  using strtod_u32_dec [of "of_bool st"] by (cases st) simp_all

lemma publish_again:
  "lastPublishTime s + PUBLISH_INTERVAL < now \<Longrightarrow>
     publish now st s = publish now st (s\<lparr>lastPublishTime := 0\<rparr>)"
  by (simp add: publish_def)

lemma uint_interval: "uint (t + PUBLISH_INTERVAL) = (uint t + 600000) mod 2 ^ 32"
  by (simp add: PUBLISH_INTERVAL_def uint_word_ariths)

lemma interval_plain: "uint t + 600000 < 2 ^ 32 \<Longrightarrow> uint (t + PUBLISH_INTERVAL) = uint t + 600000"
  using uint_ge_0 [of t] by (simp add: uint_interval)

lemma interval_wrapped:
  assumes "2 ^ 32 \<le> uint t + 600000"
  shows "uint (t + PUBLISH_INTERVAL) < uint t"
proof -
  have "uint t < 2 ^ 32" using uint_lt2p [of t] by simp
  then have "(uint t + 600000) mod 2 ^ 32 = uint t + 600000 - 2 ^ 32"
    using assms by (intro int_mod_pos_eq [where q = 1]) simp_all
  then show ?thesis by (simp add: uint_interval)
qed

section \<open>Properties\<close>

text \<open>
  Rate limit: an unchanged state is published again exactly when more than ten minutes have
  passed, as long as the deadline does not wrap around; when it does, every call publishes.
  A skipped call changes nothing.
\<close>

theorem publish_rate_limit:
  assumes "lastPublishTime s \<noteq> 0" and "lastPublishState s = st"
  shows "(uint (lastPublishTime s) + 600000 < 2 ^ 32 \<longrightarrow>
      (uint now \<le> uint (lastPublishTime s) + 600000 \<longrightarrow> publish now st s = Some (s, [])) \<and>
      (uint (lastPublishTime s) + 600000 < uint now \<longrightarrow>
        publish now st s = publish now st (s\<lparr>lastPublishTime := 0\<rparr>))) \<and>
    (2 ^ 32 \<le> uint (lastPublishTime s) + 600000 \<longrightarrow> lastPublishTime s \<le> now \<longrightarrow>
      publish now st s = publish now st (s\<lparr>lastPublishTime := 0\<rparr>))"
proof (intro conjI impI)
  assume "uint (lastPublishTime s) + 600000 < 2 ^ 32"
  then have u: "uint (lastPublishTime s + PUBLISH_INTERVAL) = uint (lastPublishTime s) + 600000"
    using interval_plain by simp
  show "publish now st s = Some (s, [])" if "uint now \<le> uint (lastPublishTime s) + 600000"
    using that assms by (auto simp: publish_def word_less_def u)
  show "publish now st s = publish now st (s\<lparr>lastPublishTime := 0\<rparr>)"
    if "uint (lastPublishTime s) + 600000 < uint now"
    using that by (intro publish_again) (simp add: word_less_def u)
next
  assume "2 ^ 32 \<le> uint (lastPublishTime s) + 600000" and now: "lastPublishTime s \<le> now"
  then have "uint (lastPublishTime s + PUBLISH_INTERVAL) < uint (lastPublishTime s)"
    using interval_wrapped by simp
  then show "publish now st s = publish now st (s\<lparr>lastPublishTime := 0\<rparr>)"
    using now by (intro publish_again) (simp add: word_less_def word_le_def)
qed

theorem publish_rate_limit_witness:
  "publish 700 True (new_outlet ''t'' False True boot_mqtt\<lparr>lastPublishTime := 100\<rparr>) =
     Some (new_outlet ''t'' False True boot_mqtt\<lparr>lastPublishTime := 100\<rparr>, [])"
  using publish_rate_limit [of "new_outlet ''t'' False True boot_mqtt\<lparr>lastPublishTime := 100\<rparr>" True 700]
  by (simp add: new_outlet_def)

text \<open>
  \<open>getState\<close> reports what the outlet has just answered: when an update is due and publishes,
  the state it then reads back through the buffer of messages is the HTTP result, and its mutex is
  free again.
\<close>

theorem getState_reports:
  assumes "lastPublishTime s = 0" and "\<not> mutex s"
    and "buffer_ok (buffer (mqtt s)) a" and "setupComplete (mqtt s)"
    and "trim_key (topicBase s) = Some (topicBase s)"
    and "topicBase s \<in> set (map fst a) \<or> length a < 16"
    and "fields_fit [(''state'', dec (of_bool st))] (old_fields a (topicBase s))"
    and "\<forall>f\<in>set (levels (topicBase s)). f \<noteq> ''+'' \<and> f \<noteq> ''#''"
    and "\<forall>t\<in>set (map fst a). levels t = levels (topicBase s) \<longrightarrow> t = topicBase s"
  shows "\<exists>s' calls. getState now st s = Some (st, s', calls) \<and> \<not> mutex s' \<and>
    lastPublishTime s' = now \<and> lastPublishState s' = st"
proof -
  let ?t = "topicBase s"
  let ?l = "merge_fields now [(''state'', dec (of_bool st))] (old_fields a ?t)"
  let ?a = "AList.update ?t ?l a"
  let ?s = "s\<lparr>mutex := True\<rparr>"
  have "\<exists>b calls. publish now st ?s = Some (?s\<lparr>lastPublishState := st, lastPublishTime := now,
      mqtt := (mqtt ?s)\<lparr>buffer := b\<rparr>\<rparr>, calls) \<and> buffer_ok b ?a"
    by (rule publish_due) (use assms in simp_all)
  then obtain b calls where pub: "publish now st ?s = Some (s\<lparr>mutex := True, lastPublishState := st,
      lastPublishTime := now, mqtt := (mqtt s)\<lparr>buffer := b\<rparr>\<rparr>, calls)"
    and b: "buffer_ok b ?a" by auto
  have match: "matchTopic ?t t > 0 \<longleftrightarrow> levels t = levels ?t" for t
    using topic_covered_plain [OF assms(8)] by (auto simp: matchTopic_def matchTopic_loop_levels)
  have "distinct (map fst a)" using assms(3) buf_repr_keys by (auto simp: buffer_ok_def)
  then have "filter (\<lambda>q. matchTopic ?t (fst q) > 0) ?a = [(?t, ?l)]"
    using assms(9) by (intro filter_update_only) (simp_all add: match)
  then obtain C where C: "mqttBuffer_getMatching ?t b = Some (b, C)" "buf_repr C [(?t, ?l)]"
    using getMatching_repr [OF b, of ?t] by auto
  then obtain inner where inner: "fm_repr 16 C [(?t, inner)]" "fm_repr 16 inner ?l"
    by (auto simp: buf_repr_def list_all2_Cons2)
  obtain C' freed where "flatmap_free C = Some (C', freed)" using flatmap_free_repr [OF inner(1)] by blast
  moreover have "field inner ''state'' = Some (dec (of_bool st))"
    using field_repr [OF inner(2) trim_key_state] merged_state by simp
  moreover have "flatmap_getByIndex C 0 = Some 0" "load_entry C 0 = Some (used_entry (?t, inner))"
    using inner(1) by (simp_all add: flatmap_getByIndex_def fm_repr_def load_used [OF inner(1)])
  ultimately show ?thesis
    using pub C(1) fm_repr_count [OF inner(1)] assms(1,2) strtod_bool [of st]
    by (simp add: getState_def update_kankun_def used_entry_def)
qed

theorem getState_reports_witness:
  "\<exists>b s' calls. initialize boot_buffer = Some b \<and>
     getState 42 True (new_outlet ''t'' False False (boot_mqtt\<lparr>setupComplete := True, buffer := b\<rparr>)) =
       Some (True, s', calls)"
proof -
  obtain b where b: "initialize boot_buffer = Some b" "buffer_ok b []"
    using initialize_boot by blast
  let ?s = "new_outlet ''t'' False False (boot_mqtt\<lparr>setupComplete := True, buffer := b\<rparr>)"
  have "\<exists>s' calls. getState 42 True ?s = Some (True, s', calls) \<and> \<not> mutex s' \<and>
      lastPublishTime s' = 42 \<and> lastPublishState s' = True"
    by (rule getState_reports [where a = "[]"])
      (use b(2) in \<open>simp_all add: new_outlet_def trim_key_t old_fields_def state_fit topic_delim_def\<close>)
  with b(1) show ?thesis by blast
qed

end
