(* ===== verification/SdCrc.thy ===== *)
theory SdCrc
  imports Prelude "HOL-Library.Numeral_Type"
begin

text \<open>
  \<open>components/arduino/libraries/SD/src/sd_diskio_crc.c\<close>: the table-driven checksums of the SD card
  protocol, against the shift registers they speed up.  \<open>char\<close> is unsigned on this target; the
  index expressions are computed in \<open>int\<close>, here a 32-bit word.
\<close>

section \<open>The code\<close>

definition m_CRC7Table :: "u8 list" where
  "m_CRC7Table =
    [0x00, 0x09, 0x12, 0x1B, 0x24, 0x2D, 0x36, 0x3F,
     0x48, 0x41, 0x5A, 0x53, 0x6C, 0x65, 0x7E, 0x77,
     0x19, 0x10, 0x0B, 0x02, 0x3D, 0x34, 0x2F, 0x26,
     0x51, 0x58, 0x43, 0x4A, 0x75, 0x7C, 0x67, 0x6E,
     0x32, 0x3B, 0x20, 0x29, 0x16, 0x1F, 0x04, 0x0D,
     0x7A, 0x73, 0x68, 0x61, 0x5E, 0x57, 0x4C, 0x45,
     0x2B, 0x22, 0x39, 0x30, 0x0F, 0x06, 0x1D, 0x14,
     0x63, 0x6A, 0x71, 0x78, 0x47, 0x4E, 0x55, 0x5C,
     0x64, 0x6D, 0x76, 0x7F, 0x40, 0x49, 0x52, 0x5B,
     0x2C, 0x25, 0x3E, 0x37, 0x08, 0x01, 0x1A, 0x13,
     0x7D, 0x74, 0x6F, 0x66, 0x59, 0x50, 0x4B, 0x42,
     0x35, 0x3C, 0x27, 0x2E, 0x11, 0x18, 0x03, 0x0A,
     0x56, 0x5F, 0x44, 0x4D, 0x72, 0x7B, 0x60, 0x69,
     0x1E, 0x17, 0x0C, 0x05, 0x3A, 0x33, 0x28, 0x21,
     0x4F, 0x46, 0x5D, 0x54, 0x6B, 0x62, 0x79, 0x70,
     0x07, 0x0E, 0x15, 0x1C, 0x23, 0x2A, 0x31, 0x38,
     0x41, 0x48, 0x53, 0x5A, 0x65, 0x6C, 0x77, 0x7E,
     0x09, 0x00, 0x1B, 0x12, 0x2D, 0x24, 0x3F, 0x36,
     0x58, 0x51, 0x4A, 0x43, 0x7C, 0x75, 0x6E, 0x67,
     0x10, 0x19, 0x02, 0x0B, 0x34, 0x3D, 0x26, 0x2F,
     0x73, 0x7A, 0x61, 0x68, 0x57, 0x5E, 0x45, 0x4C,
     0x3B, 0x32, 0x29, 0x20, 0x1F, 0x16, 0x0D, 0x04,
     0x6A, 0x63, 0x78, 0x71, 0x4E, 0x47, 0x5C, 0x55,
     0x22, 0x2B, 0x30, 0x39, 0x06, 0x0F, 0x14, 0x1D,
     0x25, 0x2C, 0x37, 0x3E, 0x01, 0x08, 0x13, 0x1A,
     0x6D, 0x64, 0x7F, 0x76, 0x49, 0x40, 0x5B, 0x52,
     0x3C, 0x35, 0x2E, 0x27, 0x18, 0x11, 0x0A, 0x03,
     0x74, 0x7D, 0x66, 0x6F, 0x50, 0x59, 0x42, 0x4B,
     0x17, 0x1E, 0x05, 0x0C, 0x33, 0x3A, 0x21, 0x28,
     0x5F, 0x56, 0x4D, 0x44, 0x7B, 0x72, 0x69, 0x60,
     0x0E, 0x07, 0x1C, 0x15, 0x2A, 0x23, 0x38, 0x31,
     0x46, 0x4F, 0x54, 0x5D, 0x62, 0x6B, 0x70, 0x79]"

definition CRC7 :: "u8 list \<Rightarrow> u8 option" where
  "CRC7 data =
     foldM (\<lambda>d crc. rd m_CRC7Table (unat (push_bit 1 (ucast crc :: u32) XOR ucast d))) data 0"

definition m_CRC16Table :: "u16 list" where
  "m_CRC16Table =
    [0x0000, 0x1021, 0x2042, 0x3063, 0x4084, 0x50A5, 0x60C6, 0x70E7,
     0x8108, 0x9129, 0xA14A, 0xB16B, 0xC18C, 0xD1AD, 0xE1CE, 0xF1EF,
     0x1231, 0x0210, 0x3273, 0x2252, 0x52B5, 0x4294, 0x72F7, 0x62D6,
     0x9339, 0x8318, 0xB37B, 0xA35A, 0xD3BD, 0xC39C, 0xF3FF, 0xE3DE,
     0x2462, 0x3443, 0x0420, 0x1401, 0x64E6, 0x74C7, 0x44A4, 0x5485,
     0xA56A, 0xB54B, 0x8528, 0x9509, 0xE5EE, 0xF5CF, 0xC5AC, 0xD58D,
     0x3653, 0x2672, 0x1611, 0x0630, 0x76D7, 0x66F6, 0x5695, 0x46B4,
     0xB75B, 0xA77A, 0x9719, 0x8738, 0xF7DF, 0xE7FE, 0xD79D, 0xC7BC,
     0x48C4, 0x58E5, 0x6886, 0x78A7, 0x0840, 0x1861, 0x2802, 0x3823,
     0xC9CC, 0xD9ED, 0xE98E, 0xF9AF, 0x8948, 0x9969, 0xA90A, 0xB92B,
     0x5AF5, 0x4AD4, 0x7AB7, 0x6A96, 0x1A71, 0x0A50, 0x3A33, 0x2A12,
     0xDBFD, 0xCBDC, 0xFBBF, 0xEB9E, 0x9B79, 0x8B58, 0xBB3B, 0xAB1A,
     0x6CA6, 0x7C87, 0x4CE4, 0x5CC5, 0x2C22, 0x3C03, 0x0C60, 0x1C41,
     0xEDAE, 0xFD8F, 0xCDEC, 0xDDCD, 0xAD2A, 0xBD0B, 0x8D68, 0x9D49,
     0x7E97, 0x6EB6, 0x5ED5, 0x4EF4, 0x3E13, 0x2E32, 0x1E51, 0x0E70,
     0xFF9F, 0xEFBE, 0xDFDD, 0xCFFC, 0xBF1B, 0xAF3A, 0x9F59, 0x8F78,
     0x9188, 0x81A9, 0xB1CA, 0xA1EB, 0xD10C, 0xC12D, 0xF14E, 0xE16F,
     0x1080, 0x00A1, 0x30C2, 0x20E3, 0x5004, 0x4025, 0x7046, 0x6067,
     0x83B9, 0x9398, 0xA3FB, 0xB3DA, 0xC33D, 0xD31C, 0xE37F, 0xF35E,
     0x02B1, 0x1290, 0x22F3, 0x32D2, 0x4235, 0x5214, 0x6277, 0x7256,
     0xB5EA, 0xA5CB, 0x95A8, 0x8589, 0xF56E, 0xE54F, 0xD52C, 0xC50D,
     0x34E2, 0x24C3, 0x14A0, 0x0481, 0x7466, 0x6447, 0x5424, 0x4405,
     0xA7DB, 0xB7FA, 0x8799, 0x97B8, 0xE75F, 0xF77E, 0xC71D, 0xD73C,
     0x26D3, 0x36F2, 0x0691, 0x16B0, 0x6657, 0x7676, 0x4615, 0x5634,
     0xD94C, 0xC96D, 0xF90E, 0xE92F, 0x99C8, 0x89E9, 0xB98A, 0xA9AB,
     0x5844, 0x4865, 0x7806, 0x6827, 0x18C0, 0x08E1, 0x3882, 0x28A3,
     0xCB7D, 0xDB5C, 0xEB3F, 0xFB1E, 0x8BF9, 0x9BD8, 0xABBB, 0xBB9A,
     0x4A75, 0x5A54, 0x6A37, 0x7A16, 0x0AF1, 0x1AD0, 0x2AB3, 0x3A92,
     0xFD2E, 0xED0F, 0xDD6C, 0xCD4D, 0xBDAA, 0xAD8B, 0x9DE8, 0x8DC9,
     0x7C26, 0x6C07, 0x5C64, 0x4C45, 0x3CA2, 0x2C83, 0x1CE0, 0x0CC1,
     0xEF1F, 0xFF3E, 0xCF5D, 0xDF7C, 0xAF9B, 0xBFBA, 0x8FD9, 0x9FF8,
     0x6E17, 0x7E36, 0x4E55, 0x5E74, 0x2E93, 0x3EB2, 0x0ED1, 0x1EF0]"

definition CRC16 :: "u8 list \<Rightarrow> u16 option" where
  "CRC16 data =
     foldM (\<lambda>d crc.
       do {
         t \<leftarrow> rd m_CRC16Table (unat ((drop_bit 8 (ucast crc :: u32) XOR ucast d) AND 0x00FF));
         Some (ucast (push_bit 8 (ucast crc :: u32) XOR ucast t))
       }) data 0"

section \<open>Shift registers\<close>

text \<open>One bit into the register of the polynomial \<open>poly\<close>, most significant bit first.\<close>

definition lfsr :: "'a::len word \<Rightarrow> 'a word \<Rightarrow> bool \<Rightarrow> 'a word" where
  "lfsr poly c b = push_bit 1 c XOR (if bit c (LENGTH('a) - 1) \<noteq> b then poly else 0)"

definition lfsr_byte :: "'a::len word \<Rightarrow> 'a word \<Rightarrow> u8 \<Rightarrow> 'a word" where
  "lfsr_byte poly c b = foldl (lfsr poly) c (byte_bits b)"

definition bxor :: "bool \<Rightarrow> bool \<Rightarrow> bool" where
  "bxor a b \<longleftrightarrow> a \<noteq> b"

lemma lfsr_linear: "lfsr poly (c XOR d) (bxor a b) = lfsr poly c a XOR lfsr poly d b"
  by (auto simp: lfsr_def bxor_def bit_xor_iff push_bit_xor xor.assoc xor.left_commute xor.commute)

lemma lfsr_fold_linear:
  "length as = length bs \<Longrightarrow>
     foldl (lfsr poly) (c XOR d) (map2 bxor as bs) = foldl (lfsr poly) c as XOR foldl (lfsr poly) d bs"
proof (induction as bs arbitrary: c d rule: list_induct2)
  case (Cons a as b bs)
  then show ?case by (simp add: lfsr_linear)
qed simp

lemma byte_bits_xor: "byte_bits (a XOR b) = map2 bxor (byte_bits a) (byte_bits b)"
  by (simp add: byte_bits_def bxor_def bit_xor_iff)

lemma lfsr_byte_linear: "lfsr_byte poly (c XOR d) (a XOR b) = lfsr_byte poly c a XOR lfsr_byte poly d b"
  unfolding lfsr_byte_def byte_bits_xor by (rule lfsr_fold_linear) (simp add: byte_bits_def)

lemma lfsr_zero [simp]: "lfsr poly 0 False = 0"
  by (simp add: lfsr_def)

lemma byte_bits_zero: "byte_bits 0 = replicate 8 False"
  by (simp add: byte_bits_def numeral_eq_Suc)

lemma lfsr_byte_zero [simp]: "lfsr_byte poly 0 0 = 0"
  by (simp add: lfsr_byte_def byte_bits_def)

text \<open>Feeding zeros is injective when the polynomial has its constant term.\<close>

lemma lfsr_False_zero:
  assumes "bit poly 0" and "lfsr poly x False = 0"
  shows "x = (0 :: 'a::len word)"
proof (rule bit_word_eqI)
  fix n assume n: "n < LENGTH('a)"
  have *: "bit (push_bit 1 x XOR (if bit x (LENGTH('a) - 1) then poly else 0)) k = False" for k
    using assms(2) by (simp add: lfsr_def)
  have top: "\<not> bit x (LENGTH('a) - 1)" using * [of 0] assms(1) by (auto simp: bit_xor_iff bit_push_bit_iff simp del: push_bit_Suc)
  then have "bit (push_bit 1 x) k = False" for k using * [of k] by simp
  from this [of "Suc n"] top n show "bit x n = bit 0 n"
    by (cases "n = LENGTH('a) - 1") (auto simp: bit_push_bit_iff simp del: push_bit_Suc)
qed

lemma foldl_False_zero:
  "bit poly 0 \<Longrightarrow> foldl (lfsr poly) x (replicate n False) = 0 \<Longrightarrow> x = 0"
  by (induction n arbitrary: x) (auto dest: lfsr_False_zero)

section \<open>Checksums of byte strings\<close>

text \<open>
  A checksum that folds some byte step over the data: \<open>step\<close> agrees with the shift register on
  the register values that occur.
\<close>

locale byte_crc =
  fixes poly :: "'a::len word" and crc :: "u8 list \<Rightarrow> 'a word"
  assumes crc_lfsr: "crc data = foldl (lfsr_byte poly) 0 data"
    and poly_odd: "bit poly 0"
begin

lemma fold_linear:
  "length xs = length ys \<Longrightarrow>
     foldl (lfsr_byte poly) (c XOR d) (map2 (XOR) xs ys) =
     foldl (lfsr_byte poly) c xs XOR foldl (lfsr_byte poly) d ys"
proof (induction xs ys arbitrary: c d rule: list_induct2)
  case (Cons x xs y ys)
  then show ?case by (simp add: lfsr_byte_linear)
qed simp

lemma crc_linear: "length xs = length ys \<Longrightarrow> crc (map2 (XOR) xs ys) = crc xs XOR crc ys"
  using fold_linear [of xs ys 0 0] by (simp add: crc_lfsr)

lemma fold_zeros: "foldl (lfsr_byte poly) c (replicate n 0) = 0 \<Longrightarrow> c = 0"
proof (induction n arbitrary: c)
  case (Suc n)
  then have "foldl (lfsr poly) c (replicate 8 False) = 0" 
    by (simp add: lfsr_byte_def byte_bits_zero)
  then show ?case by (rule foldl_False_zero [OF poly_odd])
qed simp

lemma leading_zeros: "foldl (lfsr_byte poly) 0 (replicate n 0 @ xs) = foldl (lfsr_byte poly) 0 xs"
  by (induction n) simp_all

text \<open>An error pattern is seen wherever it stands when the register it leaves is not zero.\<close>

lemma error_detected:
  assumes "length xs = length ys" and "map2 (XOR) xs ys = replicate m 0 @ e @ replicate n 0"
    and "foldl (lfsr_byte poly) 0 e \<noteq> 0"
  shows "crc xs \<noteq> crc ys"
proof
  assume "crc xs = crc ys"
  then have "crc (map2 (XOR) xs ys) = 0" using crc_linear [OF assms(1)] by simp
  then have "foldl (lfsr_byte poly) (foldl (lfsr_byte poly) 0 e) (replicate n 0) = 0"
    using leading_zeros [of m "e @ replicate n 0"] by (simp add: assms(2) crc_lfsr)
  then have "foldl (lfsr_byte poly) 0 e = 0" by (rule fold_zeros)
  with assms(3) show False by simp
qed

end


section \<open>The tables\<close>

text \<open>A byte step from the empty register, one bit at a time from the top.\<close>

lemma lfsr_byte_double:
  assumes "\<not> bit b 7"
  shows "lfsr_byte poly 0 (2 * b) = lfsr poly (lfsr_byte poly 0 b) False"
    and "lfsr_byte poly 0 (2 * b + 1) = lfsr poly (lfsr_byte poly 0 b) True"
proof -
  have "byte_bits (2 * b) = tl (byte_bits b) @ [False]" "byte_bits (2 * b + 1) = tl (byte_bits b) @ [True]"
    using even_bit_succ_iff [of "2 * b"]
    by (simp_all add: byte_bits_def bit_double_iff add.commute [of "2 * b"] numeral_eq_Suc)
  moreover have "byte_bits b = False # tl (byte_bits b)" using assms by (simp add: byte_bits_def)
  then have "foldl (lfsr poly) 0 (byte_bits b) = foldl (lfsr poly) 0 (tl (byte_bits b))"
    by (metis foldl_Cons lfsr_zero)
  ultimately show "lfsr_byte poly 0 (2 * b) = lfsr poly (lfsr_byte poly 0 b) False"
    and "lfsr_byte poly 0 (2 * b + 1) = lfsr poly (lfsr_byte poly 0 b) True"
    by (simp_all add: lfsr_byte_def)
qed

text \<open>So the table of all byte steps is the list that doubles itself.\<close>

definition doubled :: "'a::len word \<Rightarrow> 'a word list \<Rightarrow> 'a word list" where
  "doubled poly t = concat (map (\<lambda>c. [lfsr poly c False, lfsr poly c True]) t)"

lemma doubled_nth:
  "i < length t \<Longrightarrow> doubled poly t ! (2 * i) = lfsr poly (t ! i) False \<and>
     doubled poly t ! (2 * i + 1) = lfsr poly (t ! i) True"
proof (induction t arbitrary: i)
  case (Cons c t)
  then show ?case by (cases i) (simp_all add: doubled_def)
qed simp

lemma doubled_table:
  assumes "doubled poly (take 128 t) = t" and "t ! 0 = 0" and "length t = 256"
  shows "n < 256 \<Longrightarrow> t ! n = lfsr_byte poly 0 (word_of_nat n)"
proof (induction n rule: less_induct)
  case (less n)
  show ?case
  proof (cases "n = 0")
    case False
    define i where "i = n div 2"
    have i: "i < 128" "i < n" "n = 2 * i \<or> n = 2 * i + 1" using less.prems False by (auto simp: i_def)
    then have "\<not> bit (word_of_nat i :: u8) 7"
      by (simp add: word_bit_of_nat bit_iff_odd [of i])
    note dbl = lfsr_byte_double [OF this, of poly]
    have "t ! i = lfsr_byte poly 0 (word_of_nat i)" using less.IH i by simp
    moreover have "t ! (2 * i) = lfsr poly (t ! i) False \<and> t ! (2 * i + 1) = lfsr poly (t ! i) True"
      using doubled_nth [of i "take 128 t" poly] i(1) assms(1,3) by simp
    ultimately show ?thesis using i(3) dbl by (auto simp: add.commute)
  qed (simp add: assms(2))
qed

lemma CRC16_doubled: "doubled 0x1021 (take 128 m_CRC16Table) = m_CRC16Table"
  by code_simp

lemma CRC7_doubled: "doubled (0x09 :: 7 word) (take 128 (map ucast m_CRC7Table)) = map ucast m_CRC7Table"
  by code_simp

lemma CRC7_small: "map (\<lambda>c. ucast (ucast c :: 7 word)) m_CRC7Table = m_CRC7Table"
  by code_simp

lemma table_lengths: "length m_CRC7Table = 256" "length m_CRC16Table = 256"
  by (simp_all add: m_CRC7Table_def m_CRC16Table_def)

lemma CRC16_table: "m_CRC16Table ! unat b = lfsr_byte 0x1021 0 b"
  using doubled_table [OF CRC16_doubled, of "unat b"] unat_less_u8 [of b]
  by (simp add: table_lengths m_CRC16Table_def)

lemma CRC7_table: "m_CRC7Table ! unat b = ucast (lfsr_byte (0x09 :: 7 word) 0 b)"
proof -
  have "(ucast (m_CRC7Table ! unat b) :: 7 word) = lfsr_byte 0x09 0 b"
    using doubled_table [OF CRC7_doubled, of "unat b"] unat_less_u8 [of b]
    by (simp add: table_lengths nth_map, simp add: m_CRC7Table_def)
  moreover have "m_CRC7Table ! unat b = ucast (ucast (m_CRC7Table ! unat b) :: 7 word)"
    using unat_less_u8 [of b] by (subst CRC7_small [symmetric]) (simp add: table_lengths nth_map)
  ultimately show ?thesis by simp
qed

section \<open>One table step is eight shifts\<close>

lemma lfsr_shift:
  "\<forall>i < length bs. bs ! i \<longleftrightarrow> i < LENGTH('a) \<and> bit c (LENGTH('a) - 1 - i) \<Longrightarrow>
     foldl (lfsr poly) (c :: 'a::len word) bs = push_bit (length bs) c"
proof (induction bs arbitrary: c)
  case (Cons b bs)
  have "lfsr poly c b = push_bit 1 c"
    using Cons.prems [rule_format, of 0] by (simp add: lfsr_def)
  moreover have "\<forall>i < length bs. bs ! i \<longleftrightarrow> i < LENGTH('a) \<and> bit (push_bit 1 c) (LENGTH('a) - 1 - i)"
  proof (intro allI impI)
    fix i assume "i < length bs"
    with Cons.prems [rule_format, of "Suc i"] show
      "bs ! i \<longleftrightarrow> i < LENGTH('a) \<and> bit (push_bit 1 c) (LENGTH('a) - 1 - i)"
      by (cases "Suc i < LENGTH('a)") (auto simp: bit_push_bit_iff simp del: push_bit_Suc)
  qed
  ultimately show ?case
    using Cons.IH [of "push_bit 1 c"] by (simp add: push_bit_push_bit)
qed simp

lemma CRC16_step:
  "lfsr_byte 0x1021 c b = push_bit 8 c XOR m_CRC16Table ! unat (ucast (drop_bit 8 c) XOR b)"
proof -
  let ?hi = "ucast (drop_bit 8 c) :: u8" and ?ch = "c AND push_bit 8 (mask 8)" and ?cl = "c AND mask 8"
  have shift: "lfsr_byte 0x1021 x h = push_bit 8 x"
    if "\<forall>i < 8. bit h (7 - i) \<longleftrightarrow> bit x (15 - i)" for x :: u16 and h
    unfolding lfsr_byte_def using that lfsr_shift [of "byte_bits h" x] by (simp add: byte_bits_nth)
  have "c = (?ch XOR ?cl) XOR 0" "b = (?hi XOR 0) XOR (?hi XOR b)"
    by (auto intro!: bit_word_eqI simp: bit_simps)
  then have "lfsr_byte 0x1021 c b = lfsr_byte 0x1021 ((?ch XOR ?cl) XOR 0) ((?hi XOR 0) XOR (?hi XOR b))"
    by (rule arg_cong2)
  also have "\<dots> = lfsr_byte 0x1021 ?ch ?hi XOR lfsr_byte 0x1021 ?cl 0 XOR lfsr_byte 0x1021 0 (?hi XOR b)"
    by (simp only: lfsr_byte_linear xor.assoc)
  finally have "lfsr_byte 0x1021 c b =
      lfsr_byte 0x1021 ?ch ?hi XOR lfsr_byte 0x1021 ?cl 0 XOR lfsr_byte 0x1021 0 (?hi XOR b)" .
  moreover have "lfsr_byte 0x1021 ?ch ?hi = push_bit 8 ?ch"
    by (rule shift) (auto simp: bit_simps)
  moreover have "lfsr_byte 0x1021 ?cl 0 = push_bit 8 ?cl"
    by (rule shift) (auto simp: bit_simps)
  moreover have "push_bit 8 ?ch XOR push_bit 8 ?cl = push_bit 8 c"
    by (rule bit_word_eqI) (auto simp: bit_simps)
  ultimately show ?thesis by (simp add: CRC16_table)
qed

lemma CRC7_step:
  "ucast (lfsr_byte (0x09 :: 7 word) c b) = m_CRC7Table ! unat (push_bit 1 (ucast c) XOR b)"
proof -
  let ?c = "push_bit 1 (ucast c) :: u8"
  have "lfsr_byte 0x09 c ?c = push_bit 8 c"
    unfolding lfsr_byte_def
    by (subst lfsr_shift) (auto simp: byte_bits_nth bit_simps simp del: push_bit_Suc)
  also have "\<dots> = 0" by (rule bit_word_eqI) (auto simp: bit_simps)
  finally have "lfsr_byte 0x09 (c XOR 0) (?c XOR (?c XOR b)) = lfsr_byte 0x09 0 (?c XOR b)"
    by (simp only: lfsr_byte_linear) simp
  then show ?thesis by (simp add: CRC7_table)
qed


section \<open>The code computes the shift registers\<close>

lemma CRC16_lfsr: "CRC16 data = Some (foldl (lfsr_byte 0x1021) 0 data)"
proof -
  have step: "do {
      t \<leftarrow> rd m_CRC16Table (unat ((drop_bit 8 (ucast c :: u32) XOR ucast d) AND 0x00FF));
      Some (ucast (push_bit 8 (ucast c :: u32) XOR ucast t) :: u16) } = Some (lfsr_byte 0x1021 c d)" for c d
  proof -
    let ?i = "(drop_bit 8 (ucast c :: u32) XOR ucast d) AND 0x00FF"
    have "?i = ucast (ucast (drop_bit 8 c) XOR d :: u8)"
    proof (rule bit_word_eqI)
      fix n
      have "bit (0x00FF :: u32) n \<longleftrightarrow> n < 8" using bit_mask_iff [of 8 n, where 'a = u32] by (auto simp: mask_eq_exp_minus_1)
      then show "bit ?i n = bit (ucast (ucast (drop_bit 8 c) XOR d :: u8) :: u32) n"
        by (auto simp: bit_simps bit_u8_high)
    qed
    then have i: "unat ?i = unat (ucast (drop_bit 8 c) XOR d)" by (simp add: unat_ucast_u8)
    have "ucast (push_bit 8 (ucast c :: u32) XOR ucast t) = push_bit 8 c XOR t" for t :: u16
      by (rule bit_word_eqI) (auto simp: bit_simps)
    then show ?thesis
      using unat_less_u8 [of "ucast (drop_bit 8 c) XOR d"]
      by (simp add: i cmem table_lengths CRC16_step)
  qed
  have "foldM (\<lambda>d c. Some (f c d)) xs s = Some (foldl f s xs)" for f :: "u16 \<Rightarrow> u8 \<Rightarrow> u16" and xs s
    by (induction xs arbitrary: s) simp_all
  then show ?thesis unfolding CRC16_def step .
qed

lemma CRC7_lfsr: "CRC7 data = Some (ucast (foldl (lfsr_byte (0x09 :: 7 word)) 0 data))"
proof -
  have step: "rd m_CRC7Table (unat (push_bit 1 (ucast (ucast c :: u8) :: u32) XOR ucast d)) =
      Some (ucast (lfsr_byte 0x09 c d))" for c :: "7 word" and d
  proof -
    let ?i = "push_bit 1 (ucast (ucast c :: u8) :: u32) XOR ucast d"
    have "?i = ucast (push_bit 1 (ucast c) XOR d :: u8)"
      by (rule bit_word_eqI) (auto simp: bit_simps simp del: push_bit_Suc dest: bit_imp_le_length)
    then have "unat ?i = unat (push_bit 1 (ucast c) XOR d)" by (simp add: unat_ucast_u8 del: push_bit_Suc)
    then show ?thesis
      using unat_less_u8 [of "push_bit 1 (ucast c) XOR d"]
      by (simp add: cmem table_lengths CRC7_step del: push_bit_Suc)
  qed
  have "foldM (\<lambda>d crc. rd m_CRC7Table (unat (push_bit 1 (ucast crc :: u32) XOR ucast d))) data (ucast c) =
      Some (ucast (foldl (lfsr_byte (0x09 :: 7 word)) c data))" for c :: "7 word"
    by (induction data arbitrary: c) (simp_all add: step del: push_bit_Suc One_nat_def)
  from this [of 0] show ?thesis by (simp add: CRC7_def)
qed

interpretation sd16: byte_crc "0x1021 :: u16" "\<lambda>data. the (CRC16 data)"
  by unfold_locales (simp_all add: CRC16_lfsr bit_numeral_rec)

lemma ucast_seven: "(ucast (ucast x :: u8) :: 7 word) = x"
  by (rule bit_word_eqI) (auto simp: bit_simps)

interpretation sd7: byte_crc "0x09 :: 7 word" "\<lambda>data. ucast (the (CRC7 data))"
  by unfold_locales (simp_all add: CRC7_lfsr ucast_seven bit_numeral_rec)

section \<open>Errors of sixteen bits\<close>

definition hi_byte :: "u16 \<Rightarrow> u8" where
  "hi_byte w = ucast (drop_bit 8 w)"

definition lo_byte :: "u16 \<Rightarrow> u8" where
  "lo_byte w = ucast w"

lemma bytes_eqI: "hi_byte v = hi_byte w \<Longrightarrow> lo_byte v = lo_byte w \<Longrightarrow> v = w"
proof (rule bit_word_eqI)
  fix n assume eq: "hi_byte v = hi_byte w" "lo_byte v = lo_byte w" and n: "n < LENGTH(16)"
  have "bit (hi_byte v) (n - 8) = bit (hi_byte w) (n - 8)" "bit (lo_byte v) n = bit (lo_byte w) n"
    using eq by simp_all
  with n show "bit v n = bit w n"
    by (cases "n < 8") (auto simp: hi_byte_def lo_byte_def bit_simps)
qed

lemma word_of_bytes: "\<exists>w. hi_byte w = h \<and> lo_byte w = l"
  by (rule exI [of _ "push_bit 8 (ucast h) XOR ucast l"])
    (auto intro!: bit_word_eqI simp: hi_byte_def lo_byte_def bit_simps bit_u8_high)

lemma own_bytes: "foldl (lfsr_byte poly) w [hi_byte w, lo_byte w] = 0"
proof -
  have bytes: "lfsr_byte poly w (hi_byte w) = push_bit 8 w" "lfsr_byte poly (push_bit 8 w) (lo_byte w) = push_bit 8 (push_bit 8 w)"
    unfolding lfsr_byte_def
    by (subst lfsr_shift; auto simp: byte_bits_nth hi_byte_def lo_byte_def bit_simps)+
  have "push_bit 8 (push_bit 8 w) = 0" by (rule bit_word_eqI) (auto simp: bit_simps)
  with bytes show ?thesis by simp
qed

lemma two_byte_error:
  assumes "foldl (lfsr_byte (0x1021 :: u16)) 0 [h, l] = 0"
  shows "h = 0 \<and> l = 0"
proof -
  obtain w where w: "hi_byte w = h" "lo_byte w = l" using word_of_bytes by blast
  have "foldl (lfsr_byte 0x1021) (w XOR 0) (map2 (XOR) [h, l] [h, l]) = 0"
    using sd16.fold_linear [where xs = "[h, l]" and ys = "[h, l]" and c = w and d = 0]
      own_bytes [where poly = "0x1021 :: u16" and w = w] w assms by simp
  then have "w = 0" using sd16.fold_zeros [where c = w and n = 2] by (simp add: numeral_eq_Suc)
  with w show ?thesis by (auto simp: hi_byte_def lo_byte_def)
qed


lemma CRC7_nonzero:
  "list_all (\<lambda>c. c \<noteq> 0) (take 136 (drop 1 m_CRC7Table)) \<and> list_all (\<lambda>c. c \<noteq> 0) (drop 138 m_CRC7Table) \<and>
   m_CRC7Table ! 0 = 0 \<and> m_CRC7Table ! 137 = 0"
  by (simp add: m_CRC7Table_def)

lemma CRC7_zero:
  assumes "i < 256"
  shows "m_CRC7Table ! i = 0 \<longleftrightarrow> i = 0 \<or> i = 137"
proof -
  have "m_CRC7Table ! i \<noteq> 0" if "1 \<le> i" "i < 137"
  proof -
    have "take 136 (drop 1 m_CRC7Table) ! (i - 1) \<noteq> 0"
      using CRC7_nonzero that by (intro list_all_length [THEN iffD1, rule_format, of "\<lambda>c. c \<noteq> 0"]) (auto simp: table_lengths)
    with that show ?thesis by (simp add: table_lengths)
  qed
  moreover have "m_CRC7Table ! i \<noteq> 0" if "138 \<le> i"
  proof -
    have "drop 138 m_CRC7Table ! (i - 138) \<noteq> 0"
      using CRC7_nonzero that assms
      by (intro list_all_length [THEN iffD1, rule_format, of "\<lambda>c. c \<noteq> 0"]) (auto simp: table_lengths)
    with that assms show ?thesis by (simp add: table_lengths)
  qed
  moreover have "i = 0 \<or> 1 \<le> i \<and> i < 137 \<or> i = 137 \<or> 138 \<le> i" by arith
  ultimately show ?thesis using CRC7_nonzero by auto
qed

lemma one_byte_error7: "lfsr_byte (0x09 :: 7 word) 0 e = 0 \<longleftrightarrow> e = 0 \<or> e = 0x89"
proof -
  have "m_CRC7Table ! unat e = 0 \<longleftrightarrow> lfsr_byte (0x09 :: 7 word) 0 e = 0"
    unfolding CRC7_table by (metis ucast_seven unsigned_0)
  moreover have "unat e = 0 \<longleftrightarrow> e = 0" "unat e = 137 \<longleftrightarrow> e = 0x89"
    by (simp_all add: word_unat_eq_iff)
  ultimately show ?thesis using CRC7_zero [OF unat_less_u8 [of e]] by simp
qed

lemma lfsr_bytes: "foldl (lfsr_byte poly) c data = foldl (lfsr poly) c (concat (map byte_bits data))"
  by (induction data arbitrary: c) (simp_all add: lfsr_byte_def)

section \<open>Properties\<close>

text \<open>
  C25. The table-driven checksums never leave their tables and compute the shift registers of the
  SD card specification, \<open>x^7 + x^3 + 1\<close> and \<open>x^16 + x^12 + x^5 + 1\<close>, bit by bit.
\<close>

theorem crc_tables_implement_lfsr:
  "CRC16 data = Some (foldl (lfsr 0x1021) 0 (concat (map byte_bits data))) \<and>
   CRC7 data = Some (ucast (foldl (lfsr (0x09 :: 7 word)) 0 (concat (map byte_bits data))))"
  by (simp add: CRC16_lfsr CRC7_lfsr lfsr_bytes)

text \<open>
  Every error burst of up to sixteen bits within two adjacent bytes of a data block changes
  \<open>CRC16\<close>, and a block followed by its own checksum, high byte first, has the checksum zero.
\<close>

theorem CRC16_detects_bursts:
  assumes "h \<noteq> h' \<or> l \<noteq> l'"
  shows "CRC16 (xs @ [h, l] @ ys) \<noteq> CRC16 (xs @ [h', l'] @ ys) \<and>
    CRC16 (xs @ [hi_byte (the (CRC16 xs)), lo_byte (the (CRC16 xs))]) = Some 0"
proof -
  have zeros: "map2 (XOR) zs zs = replicate (length zs) 0" for zs :: "u8 list"
    by (induction zs) simp_all
  have "foldl (lfsr_byte (0x1021 :: u16)) 0 [h XOR h', l XOR l'] \<noteq> 0"
    using two_byte_error [of "h XOR h'" "l XOR l'"] assms by (metis xor_cancel_left xor.right_neutral)
  then have "the (CRC16 (xs @ [h, l] @ ys)) \<noteq> the (CRC16 (xs @ [h', l'] @ ys))"
    by (intro sd16.error_detected [where m = "length xs" and n = "length ys" and e = "[h XOR h', l XOR l']"])
      (simp_all add: zeros)
  moreover have "CRC16 (xs @ [hi_byte (the (CRC16 xs)), lo_byte (the (CRC16 xs))]) = Some 0"
    using own_bytes [where poly = "0x1021 :: u16" and w = "the (CRC16 xs)"] by (simp add: CRC16_lfsr)
  ultimately show ?thesis by (metis option.sel)
qed

theorem CRC16_detects_bursts_witness:
  "CRC16 ([1, 2] @ [3, 4] @ [5]) \<noteq> CRC16 ([1, 2] @ [3, 5] @ [5])"
  using CRC16_detects_bursts [of 3 3 4 5 "[1, 2]" "[5]"] by simp

text \<open>
  \<open>CRC7\<close> detects a change of one byte of a command exactly when the change is not the
  polynomial itself: the two commands get the same checksum only for \<open>b XOR b' = 0x89\<close>.
\<close>

theorem CRC7_single_byte:
  assumes "b \<noteq> b'"
  shows "CRC7 (xs @ [b] @ ys) = CRC7 (xs @ [b'] @ ys) \<longleftrightarrow> b XOR b' = 0x89"
proof -
  have zeros: "map2 (XOR) zs zs = replicate (length zs) 0" for zs :: "u8 list"
    by (induction zs) simp_all
  have ne: "b XOR b' \<noteq> 0" using assms by (metis xor_cancel_left xor.right_neutral)
  let ?crc = "\<lambda>data. ucast (the (CRC7 data)) :: 7 word"
  have eq: "CRC7 u = CRC7 v \<longleftrightarrow> ?crc u = ?crc v" for u v
    by (simp add: CRC7_lfsr ucast_seven) (metis ucast_seven)
  have diff: "?crc (xs @ [b] @ ys) XOR ?crc (xs @ [b'] @ ys) =
      foldl (lfsr_byte 0x09) (lfsr_byte 0x09 0 (b XOR b')) (replicate (length ys) 0)"
    using sd7.crc_linear [of "xs @ [b] @ ys" "xs @ [b'] @ ys"]
      sd7.leading_zeros [of "length xs" "[b XOR b'] @ replicate (length ys) 0"]
    by (simp add: zeros CRC7_lfsr ucast_seven)
  show ?thesis
  proof
    assume "CRC7 (xs @ [b] @ ys) = CRC7 (xs @ [b'] @ ys)"
    then have "?crc (xs @ [b] @ ys) XOR ?crc (xs @ [b'] @ ys) = 0" by simp
    then have "lfsr_byte (0x09 :: 7 word) 0 (b XOR b') = 0" unfolding diff by (rule sd7.fold_zeros)
    with ne show "b XOR b' = 0x89" by (simp add: one_byte_error7)
  next
    assume "b XOR b' = 0x89"
    then have "lfsr_byte (0x09 :: 7 word) 0 (b XOR b') = 0" by (simp add: one_byte_error7)
    then have "?crc (xs @ [b] @ ys) XOR ?crc (xs @ [b'] @ ys) = 0"
      using sd7.leading_zeros [of "length ys" "[]"] unfolding diff by simp
    then show "CRC7 (xs @ [b] @ ys) = CRC7 (xs @ [b'] @ ys)" unfolding eq
      by (metis xor_cancel_left xor.right_neutral)
  qed
qed

theorem CRC7_single_byte_witness:
  "CRC7 ([0x40] @ [0] @ [0]) = CRC7 ([0x40] @ [0x89] @ [0]) \<and> CRC7 ([] @ [1] @ []) \<noteq> CRC7 ([] @ [2] @ [])"
  using CRC7_single_byte [of 0 "0x89" "[0x40]" "[0]"] CRC7_single_byte [of 1 2 "[]" "[]"] by simp

end
