(* ===== verification/Base64.thy ===== *)
theory Base64
  imports Prelude
begin

text \<open>
  \<open>components/arduino/cores/esp32/libb64\<close>: the streaming base64 encoder and decoder.  Characters are
  bytes.  The \<open>switch\<close> into the middle of the loop is a recursion over the input that carries the
  step; the output pointer is a position in a buffer of fixed size, and leaving the buffer, or the
  decoding table, is \<open>None\<close>.
\<close>

section \<open>The encoder, \<open>cencode.c\<close>\<close>

definition CHARS_PER_LINE :: nat where
  "CHARS_PER_LINE = 72"

datatype base64_encodestep = step_A | step_B | step_C

record base64_encodestate =
  step :: base64_encodestep
  result :: u8
  stepcount :: nat

definition base64_init_encodestate :: base64_encodestate where
  "base64_init_encodestate = \<lparr>step = step_A, result = 0, stepcount = 0\<rparr>"

text \<open>\<open>ABC...XYZabc...xyz0123456789+/\<close>\<close>

definition encoding :: "u8 list" where
  "encoding =
    [0x41, 0x42, 0x43, 0x44, 0x45, 0x46, 0x47, 0x48, 0x49, 0x4A, 0x4B, 0x4C, 0x4D,
     0x4E, 0x4F, 0x50, 0x51, 0x52, 0x53, 0x54, 0x55, 0x56, 0x57, 0x58, 0x59, 0x5A,
     0x61, 0x62, 0x63, 0x64, 0x65, 0x66, 0x67, 0x68, 0x69, 0x6A, 0x6B, 0x6C, 0x6D,
     0x6E, 0x6F, 0x70, 0x71, 0x72, 0x73, 0x74, 0x75, 0x76, 0x77, 0x78, 0x79, 0x7A,
     0x30, 0x31, 0x32, 0x33, 0x34, 0x35, 0x36, 0x37, 0x38, 0x39, 0x2B, 0x2F]"

definition base64_encode_value :: "u8 \<Rightarrow> u8" where
  "base64_encode_value value_in = (if value_in > 63 then 0x3D else encoding ! unat value_in)"

text \<open>The end of the third step: the line break after every 72 characters.\<close>

definition end_of_group :: "base64_encodestate \<Rightarrow> u8 list \<times> nat \<Rightarrow> (base64_encodestate \<times> u8 list \<times> nat) option" where
  "end_of_group st out =
     (let st = st\<lparr>stepcount := stepcount st + 1\<rparr>
      in if stepcount st = CHARS_PER_LINE div 4
         then do { out \<leftarrow> put_char 0x0A out; Some (st\<lparr>stepcount := 0\<rparr>, out) }
         else Some (st, out))"

fun base64_encode_block ::
    "u8 list \<Rightarrow> u8 list \<times> nat \<Rightarrow> base64_encodestate \<Rightarrow> ((u8 list \<times> nat) \<times> base64_encodestate) option" where
  "base64_encode_block [] out st = Some (out, st)"
| "base64_encode_block (fragment # plain) out st =
     (case step st of
        step_A \<Rightarrow>
          do {
            let r = drop_bit 2 (fragment AND 0x0fc);
            out \<leftarrow> put_char (base64_encode_value r) out;
            let r = push_bit 4 (fragment AND 0x003);
            base64_encode_block plain out (st\<lparr>step := step_B, result := r\<rparr>)
          }
      | step_B \<Rightarrow>
          do {
            let r = result st OR drop_bit 4 (fragment AND 0x0f0);
            out \<leftarrow> put_char (base64_encode_value r) out;
            let r = push_bit 2 (fragment AND 0x00f);
            base64_encode_block plain out (st\<lparr>step := step_C, result := r\<rparr>)
          }
      | step_C \<Rightarrow>
          do {
            let r = result st OR drop_bit 6 (fragment AND 0x0c0);
            out \<leftarrow> put_char (base64_encode_value r) out;
            let r = fragment AND 0x03f;
            out \<leftarrow> put_char (base64_encode_value r) out;
            (st, out) \<leftarrow> end_of_group (st\<lparr>step := step_A, result := r\<rparr>) out;
            base64_encode_block plain out st
          })"

definition base64_encode_blockend ::
    "u8 list \<times> nat \<Rightarrow> base64_encodestate \<Rightarrow> (u8 list \<times> nat) option" where
  "base64_encode_blockend out st =
     do {
       out \<leftarrow>
         (case step st of
            step_B \<Rightarrow> put_chars [base64_encode_value (result st), 0x3D, 0x3D] out
          | step_C \<Rightarrow> put_chars [base64_encode_value (result st), 0x3D] out
          | step_A \<Rightarrow> Some out);
       buf \<leftarrow> wr (fst out) (snd out) 0;
       Some (buf, snd out)
     }"

definition base64_encode_chars :: "u8 list \<Rightarrow> u8 list \<Rightarrow> (u8 list \<times> nat) option" where
  "base64_encode_chars plaintext_in code_out =
     do {
       (out, st) \<leftarrow> base64_encode_block plaintext_in (code_out, 0) base64_init_encodestate;
       base64_encode_blockend out st
     }"

text \<open>The macro \<open>base64_encode_expected_len\<close> of \<open>cencode.h\<close>.\<close>

definition base64_encode_expected_len :: "nat \<Rightarrow> nat" where
  "base64_encode_expected_len n = (4 * n div 3 + 3) div 4 * 4"

section \<open>The decoder, \<open>cdecode.c\<close>\<close>

definition decoding :: "int list" where
  "decoding =
    [62, -1, -1, -1, 63, 52, 53, 54, 55, 56, 57, 58, 59, 60, 61, -1,
     -1, -1, -2, -1, -1, -1, 0, 1, 2, 3, 4, 5, 6, 7, 8, 9,
     10, 11, 12, 13, 14, 15, 16, 17, 18, 19, 20, 21, 22, 23, 24, 25,
     -1, -1, -1, -1, -1, -1, 26, 27, 28, 29, 30, 31, 32, 33, 34, 35,
     36, 37, 38, 39, 40, 41, 42, 43, 44, 45, 46, 47, 48, 49, 50, 51]"

definition base64_decode_value_signed :: "u8 \<Rightarrow> int option" where
  "base64_decode_value_signed value_in =
     (let v = signed_take_bit 7 (sint value_in - 43)
      in if v < 0 \<or> v > int (length decoding) then Some (-1) else rd decoding (nat v))"

datatype base64_decodestep = step_a | step_b | step_c | step_d

record base64_decodestate =
  dstep :: base64_decodestep
  plainchar :: u8

definition base64_init_decodestate :: base64_decodestate where
  "base64_init_decodestate = \<lparr>dstep = step_a, plainchar = 0\<rparr>"

text \<open>\<open>*p |= x\<close> at the position of the output pointer.\<close>

definition or_char :: "u8 \<Rightarrow> u8 list \<times> nat \<Rightarrow> u8 list option" where
  "or_char x out = do { c \<leftarrow> rd (fst out) (snd out); wr (fst out) (snd out) (c OR x) }"

fun decode_loop ::
    "u8 list \<Rightarrow> base64_decodestep \<Rightarrow> u8 list \<times> nat \<Rightarrow> ((u8 list \<times> nat) \<times> base64_decodestate) option" where
  "decode_loop [] s out =
     do { c \<leftarrow> rd (fst out) (snd out); Some (out, \<lparr>dstep = s, plainchar = c\<rparr>) }"
| "decode_loop (codechar # code) s out =
     do {
       v \<leftarrow> base64_decode_value_signed codechar;
       let fragment = (word_of_int v :: u8);
       if v < 0 then decode_loop code s out
       else (case s of
         step_a \<Rightarrow>
           do {
             buf \<leftarrow> wr (fst out) (snd out) (push_bit 2 (fragment AND 0x03f));
             decode_loop code step_b (buf, snd out)
           }
       | step_b \<Rightarrow>
           do {
             buf \<leftarrow> or_char (drop_bit 4 (fragment AND 0x030)) out;
             let p = Suc (snd out);
             buf \<leftarrow> wr buf p (push_bit 4 (fragment AND 0x00f));
             decode_loop code step_c (buf, p)
           }
       | step_c \<Rightarrow>
           do {
             buf \<leftarrow> or_char (drop_bit 2 (fragment AND 0x03c)) out;
             let p = Suc (snd out);
             buf \<leftarrow> wr buf p (push_bit 6 (fragment AND 0x003));
             decode_loop code step_d (buf, p)
           }
       | step_d \<Rightarrow>
           do {
             buf \<leftarrow> or_char (fragment AND 0x03f) out;
             decode_loop code step_a (buf, Suc (snd out))
           })
     }"

definition base64_decode_block ::
    "u8 list \<Rightarrow> u8 list \<Rightarrow> base64_decodestate \<Rightarrow> ((u8 list \<times> nat) \<times> base64_decodestate) option" where
  "base64_decode_block code_in plaintext_out st =
     do {
       buf \<leftarrow> wr plaintext_out 0 (plainchar st);
       decode_loop code_in (dstep st) (buf, 0)
     }"

definition base64_decode_chars :: "u8 list \<Rightarrow> u8 list \<Rightarrow> (u8 list \<times> nat) option" where
  "base64_decode_chars code_in plaintext_out =
     do {
       ((buf, len), _) \<leftarrow> base64_decode_block code_in plaintext_out base64_init_decodestate;
       buf \<leftarrow> (if len > 0 then wr buf len 0 else Some buf);
       Some (buf, len)
     }"

definition base64_decode_expected_len :: "nat \<Rightarrow> nat" where
  "base64_decode_expected_len n = n * 3 div 4"


section \<open>What the encoder writes\<close>

abbreviation E64 :: "u8 \<Rightarrow> u8" where
  "E64 \<equiv> base64_encode_value"

fun b64 :: "nat \<Rightarrow> u8 list \<Rightarrow> u8 list" where
  "b64 k [] = []"
| "b64 k [a] = [E64 (drop_bit 2 (a AND 0x0fc)), E64 (push_bit 4 (a AND 0x003)), 0x3D, 0x3D]"
| "b64 k [a, b] =
     [E64 (drop_bit 2 (a AND 0x0fc)), E64 (push_bit 4 (a AND 0x003) OR drop_bit 4 (b AND 0x0f0)),
      E64 (push_bit 2 (b AND 0x00f)), 0x3D]"
| "b64 k (a # b # c # data) =
     [E64 (drop_bit 2 (a AND 0x0fc)), E64 (push_bit 4 (a AND 0x003) OR drop_bit 4 (b AND 0x0f0)),
      E64 (push_bit 2 (b AND 0x00f) OR drop_bit 6 (c AND 0x0c0)), E64 (c AND 0x03f)] @
     (if Suc k = 18 then 0x0A # b64 0 data else b64 (Suc k) data)"

definition finish :: "u8 list \<times> nat \<Rightarrow> (u8 list \<times> nat) option" where
  "finish out = do { buf \<leftarrow> wr (fst out) (snd out) 0; Some (buf, snd out) }"

lemma encode_writes:
  "step st = step_A \<Longrightarrow> stepcount st = k \<Longrightarrow>
     do { (out, st) \<leftarrow> base64_encode_block data out st; base64_encode_blockend out st } =
     do { out \<leftarrow> put_chars (b64 k data) out; finish out }"
proof (induction k data arbitrary: st out rule: b64.induct)
  case (4 k a b c data)
  have four: "do { (out, st) \<leftarrow> base64_encode_block (a # b # c # data) out st; base64_encode_blockend out st } =
      do {
        out \<leftarrow> put_chars [E64 (drop_bit 2 (a AND 0x0fc)), E64 (push_bit 4 (a AND 0x003) OR drop_bit 4 (b AND 0x0f0)),
          E64 (push_bit 2 (b AND 0x00f) OR drop_bit 6 (c AND 0x0c0)), E64 (c AND 0x03f)] out;
        (st, out) \<leftarrow> end_of_group (st\<lparr>step := step_A, result := c AND 0x03f\<rparr>) out;
        (out, st) \<leftarrow> base64_encode_block data out st; base64_encode_blockend out st }"
    using "4.prems" by (simp add: Let_def Option.bind_assoc case_prod_beta')
  show ?case unfolding four
    using "4.IH" "4.prems"
    by (auto simp: end_of_group_def CHARS_PER_LINE_def Let_def put_chars_append
        split: Option.bind_splits)
qed (simp_all add: base64_encode_blockend_def finish_def split: Option.bind_splits)


lemma b64_length:
  "k < 18 \<Longrightarrow> length (b64 k data) = (length data + 2) div 3 * 4 + (k + length data div 3) div 18"
proof (induction k data rule: b64.induct)
  case (4 k a b c data)
  have more: "(5 + length data) div 3 = Suc (Suc (Suc (length data)) div 3)" by presburger
  show ?case
  proof (cases "Suc k = 18")
    case True
    then have "(k + length (a # b # c # data) div 3) div 18 = Suc (length data div 3 div 18)" by simp
    then show ?thesis using "4.IH"(1) True more by simp
  next
    case False
    then show ?thesis using "4.IH"(2) "4.prems" more by simp
  qed
qed simp_all

lemma encode_chars_eq:
  "base64_encode_chars data buf =
     do { out \<leftarrow> put_chars (b64 0 data) (buf, 0); finish out }"
  using encode_writes [of base64_init_encodestate 0 data "(buf, 0)"]
  by (simp add: base64_encode_chars_def base64_init_encodestate_def)

section \<open>What the decoder reads\<close>

lemma decode_encoding: "map base64_decode_value_signed encoding = map Some [0..63]"
  by code_simp

lemma length_encoding [simp]: "length encoding = 64" and length_decoding [simp]: "length decoding = 80"
  by (simp_all add: encoding_def decoding_def)

lemma decode_E64:
  assumes "v \<le> 63"
  shows "base64_decode_value_signed (E64 v) = Some (uint v)"
proof -
  have "unat v < 64" using assms by (simp add: word_le_nat_alt)
  moreover have "uint v \<le> 63" using assms by (simp add: word_le_def)
  ultimately have v: "unat v < 64" "uint v \<le> 63" by simp_all
  then have "base64_decode_value_signed (encoding ! unat v) = map Some [0..63] ! unat v"
    unfolding decode_encoding [symmetric] by (simp add: nth_map)
  also have "\<dots> = Some (uint v)" using v by (simp add: nth_upto)
  finally show ?thesis using assms by (simp add: base64_encode_value_def not_less [symmetric])
qed

lemma decode_other: "base64_decode_value_signed 0x0A = Some (-1)" "base64_decode_value_signed 0x3D = Some (-2)"
  by code_simp+

lemma sextets:
  "drop_bit 2 (a AND 0x0fc) \<le> (63 :: u8)" "push_bit 4 (a AND 0x003) \<le> (63 :: u8)"
  "push_bit 4 (a AND 0x003) OR drop_bit 4 (b AND 0x0f0) \<le> (63 :: u8)"
  "push_bit 2 (b AND 0x00f) \<le> (63 :: u8)"
  "push_bit 2 (b AND 0x00f) OR drop_bit 6 (c AND 0x0c0) \<le> (63 :: u8)" "c AND 0x03f \<le> (63 :: u8)"
proof -
  have le: "x \<le> 63" if "\<not> bit x 6" "\<not> bit x 7" for x :: u8
  proof -
    have "x = x AND 63" by (rule u8_eqI) (use that in \<open>simp_all add: bit_simps bit_numeral_rec\<close>)
    also have "\<dots> \<le> 63" by (rule word_and_le1)
    finally show ?thesis .
  qed
  show "drop_bit 2 (a AND 0x0fc) \<le> (63 :: u8)" "push_bit 4 (a AND 0x003) \<le> (63 :: u8)"
    "push_bit 4 (a AND 0x003) OR drop_bit 4 (b AND 0x0f0) \<le> (63 :: u8)"
    "push_bit 2 (b AND 0x00f) \<le> (63 :: u8)"
    "push_bit 2 (b AND 0x00f) OR drop_bit 6 (c AND 0x0c0) \<le> (63 :: u8)" "c AND 0x03f \<le> (63 :: u8)"
    by (rule le; simp add: bit_simps bit_numeral_rec bit_u8_high)+
qed

lemma reassemble:
  fixes a b c :: u8
  defines "s1 \<equiv> drop_bit 2 (a AND 0x0fc)" and "s2 \<equiv> push_bit 4 (a AND 0x003) OR drop_bit 4 (b AND 0x0f0)"
    and "s3 \<equiv> push_bit 2 (b AND 0x00f) OR drop_bit 6 (c AND 0x0c0)" and "s4 \<equiv> c AND 0x03f"
  shows "push_bit 2 (s1 AND 0x03f) OR drop_bit 4 (s2 AND 0x030) = a"
    and "push_bit 4 (s2 AND 0x00f) OR drop_bit 2 (s3 AND 0x03c) = b"
    and "push_bit 6 (s3 AND 0x003) OR (s4 AND 0x03f) = c"
  by (rule u8_eqI; simp add: s1_def s2_def s3_def s4_def bit_simps bit_numeral_rec)+


lemma decode_loop_E64:
  assumes "v \<le> 63"
  shows "decode_loop (E64 v # code) step_a (buf, p) =
      do { buf \<leftarrow> wr buf p (push_bit 2 (v AND 0x03f)); decode_loop code step_b (buf, p) }"
    and "decode_loop (E64 v # code) step_b (buf, p) =
      do { buf \<leftarrow> or_char (drop_bit 4 (v AND 0x030)) (buf, p);
        buf \<leftarrow> wr buf (Suc p) (push_bit 4 (v AND 0x00f)); decode_loop code step_c (buf, Suc p) }"
    and "decode_loop (E64 v # code) step_c (buf, p) =
      do { buf \<leftarrow> or_char (drop_bit 2 (v AND 0x03c)) (buf, p);
        buf \<leftarrow> wr buf (Suc p) (push_bit 6 (v AND 0x003)); decode_loop code step_d (buf, Suc p) }"
    and "decode_loop (E64 v # code) step_d (buf, p) =
      do { buf \<leftarrow> or_char (v AND 0x03f) (buf, p); decode_loop code step_a (buf, Suc p) }"
  using decode_E64 [OF assms] by simp_all

lemma decode_skip:
  "base64_decode_value_signed c = Some v \<Longrightarrow> v < 0 \<Longrightarrow> decode_loop (c # code) s out = decode_loop code s out"
  by simp

lemmas decode_skips = decode_skip [OF decode_other(1)] decode_skip [OF decode_other(2)]

lemma or_char_in: "p < length buf \<Longrightarrow> or_char x (buf, p) = Some (buf[p := buf ! p OR x])"
  by (simp add: or_char_def cmem)

declare decode_loop.simps(2) [simp del] base64_encode_value_def [simp del]

text \<open>One group of each length.\<close>

lemmas decode_group_simps = decode_loop_E64 [OF sextets(1)] decode_loop_E64 [OF sextets(2)]
  decode_loop_E64 [OF sextets(3)] decode_loop_E64 [OF sextets(4)] decode_loop_E64 [OF sextets(5)]
  decode_loop_E64 [OF sextets(6)] decode_skips or_char_in cmem

lemma decode_group:
  assumes "p + 3 \<le> length buf"
  shows "decode_loop ([E64 (drop_bit 2 (a AND 0x0fc)), E64 (push_bit 4 (a AND 0x003) OR drop_bit 4 (b AND 0x0f0)),
      E64 (push_bit 2 (b AND 0x00f) OR drop_bit 6 (c AND 0x0c0)), E64 (c AND 0x03f)] @ code) step_a (buf, p) =
    decode_loop code step_a (buf[p := a, Suc p := b, Suc (Suc p) := c], p + 3)"
  using assms reassemble(1) [of a b] reassemble(2) [of a b c] reassemble(3) [of b c]
  by (simp only: append.simps decode_group_simps) (simp add: cmem or_char_in eval_nat_numeral)

lemma update_two:
  "p + 1 < length buf \<Longrightarrow> buf[p := a, Suc p := b] = take p buf @ a # b # drop (p + 2) buf"
  by (simp add: upd_conv_take_nth_drop)

lemma update_three:
  "p + 2 < length buf \<Longrightarrow>
     buf[p := a, Suc p := b, Suc (Suc p) := c] = take p buf @ a # b # c # drop (p + 3) buf"
  by (simp add: upd_conv_take_nth_drop eval_nat_numeral)

lemma decode_b64:
  "p + length data < length buf \<Longrightarrow>
     \<exists>rest st. decode_loop (b64 k data) step_a (buf, p) = Some ((take p buf @ data @ rest, p + length data), st) \<and>
       p + length data + length rest = length buf"
proof (induction k data arbitrary: buf p rule: b64.induct)
  case (1 k)
  then show ?case by (intro exI [of _ "drop p buf"]) (simp add: cmem)
next
  case (2 k a)
  then have "\<exists>x st. decode_loop (b64 k [a]) step_a (buf, p) = Some ((buf[p := a, Suc p := x], p + 1), st)"
    using reassemble(1) [of a 0]
    by (simp only: b64.simps decode_group_simps) (auto simp add: cmem or_char_in)
  then show ?case using 2 by (auto simp: update_two)
next
  case (3 k a b)
  then have "\<exists>x st. decode_loop (b64 k [a, b]) step_a (buf, p) =
      Some ((buf[p := a, Suc p := b, Suc (Suc p) := x], p + 2), st)"
    using reassemble(1) [of a b] reassemble(2) [of a b 0]
    by (simp only: b64.simps decode_group_simps) (auto simp add: cmem or_char_in)
  then show ?case using 3 by (auto simp: update_three)
next
  case (4 k a b c data)
  let ?buf = "buf[p := a, Suc p := b, Suc (Suc p) := c]" and ?k = "if Suc k = 18 then 0 else Suc k"
  have "\<exists>rest st. decode_loop (b64 ?k data) step_a (?buf, p + 3) =
      Some ((take (p + 3) ?buf @ data @ rest, p + 3 + length data), st) \<and>
      p + 3 + length data + length rest = length ?buf"
    using "4.IH"(1) [where buf = ?buf and p = "p + 3"] "4.IH"(2) [where buf = ?buf and p = "p + 3"] "4.prems"
    by (cases "Suc k = 18") simp_all
  moreover have "decode_loop (b64 k (a # b # c # data)) step_a (buf, p) = decode_loop (b64 ?k data) step_a (?buf, p + 3)"
    using decode_group [of p buf a b c] "4.prems" by (simp add: decode_skips del: append.simps)
  moreover have "take (p + 3) ?buf = take p buf @ [a, b, c]"
    using "4.prems" by (simp add: update_three)
  ultimately show ?case by (auto simp: add.assoc)
qed


section \<open>Properties\<close>

definition encoded_length :: "nat \<Rightarrow> nat" where
  "encoded_length n = (n + 2) div 3 * 4 + n div 3 div 18"

lemma b64_0_length: "length (b64 0 data) = encoded_length (length data)"
  by (simp add: b64_length encoded_length_def)

lemma encode_chars_spec:
  "base64_encode_chars data buf =
     (if encoded_length (length data) < length buf
      then Some (b64 0 data @ 0 # drop (encoded_length (length data) + 1) buf, encoded_length (length data))
      else None)"
proof -
  let ?n = "encoded_length (length data)"
  have "wr (b64 0 data @ drop ?n buf) ?n 0 =
      (if ?n < length buf then Some (b64 0 data @ 0 # drop (?n + 1) buf) else None)" if "?n \<le> length buf"
  proof (cases "?n < length buf")
    case True
    then have "drop ?n buf = buf ! ?n # drop (?n + 1) buf" by (simp add: Cons_nth_drop_Suc)
    with True show ?thesis using b64_0_length [of data] by (simp add: cmem list_update_append)
  qed (use that b64_0_length [of data] in \<open>simp add: cmem\<close>)
  then show ?thesis
    by (cases "?n \<le> length buf") (simp_all add: encode_chars_eq put_chars_eq b64_0_length finish_def)
qed

lemma expected_len: "base64_encode_expected_len n = (n + 2) div 3 * 4"
proof -
  define q where "q = n div 3"
  have "n = 3 * q \<or> n = 3 * q + 1 \<or> n = 3 * q + 2" unfolding q_def by presburger
  moreover have "4 * (3 * q) div 3 = 4 * q" "4 * (3 * q + 1) div 3 = 4 * q + 1" "4 * (3 * q + 2) div 3 = 4 * q + 2"
    "(4 * q + 3) div 4 = q" "(4 * q + 1 + 3) div 4 = q + 1" "(4 * q + 2 + 3) div 4 = q + 1"
    "(3 * q + 2) div 3 = q" "(3 * q + 1 + 2) div 3 = q + 1" "(3 * q + 2 + 2) div 3 = q + 1"
    by presburger+
  ultimately show ?thesis unfolding base64_encode_expected_len_def by metis
qed

text \<open>
  The memory \<open>base64_encode_chars\<close> needs: it succeeds exactly when its buffer has room for four
  characters per three bytes, a line break after every 72 and the terminator; then it returns the
  number of characters and writes nothing behind the terminator.
\<close>

theorem encode_chars_bounds:
  "base64_encode_chars data buf =
     (if encoded_length (length data) < length buf
      then Some (b64 0 data @ 0 # drop (encoded_length (length data) + 1) buf, encoded_length (length data))
      else None)"
  by (rule encode_chars_spec)

text \<open>
  \<open>base64_encode_expected_len\<close> forgets the line breaks: a buffer of the advertised length and
  one for the terminator suffices exactly for fewer than 54 bytes.
\<close>

theorem expected_len_too_short:
  assumes "length buf = base64_encode_expected_len (length data) + 1"
  shows "base64_encode_chars data buf = None \<longleftrightarrow> 54 \<le> length data"
proof -
  have "encoded_length (length data) < length buf \<longleftrightarrow> length data div 3 div 18 = 0"
    using assms by (simp add: encoded_length_def expected_len)
  also have "\<dots> \<longleftrightarrow> length data < 54" by (simp add: div_eq_0_iff flip: div_mult2_eq)
  finally show ?thesis by (auto simp: encode_chars_spec)
qed

theorem expected_len_too_short_witness:
  "base64_encode_chars (replicate 54 0) (replicate 73 0) = None"
  using expected_len_too_short [of "replicate 73 0" "replicate 54 0"]
  by (simp add: base64_encode_expected_len_def)

text \<open>
  C7. Round trip: decoding what \<open>base64_encode_chars\<close> wrote, line breaks and padding included,
  into any buffer longer than the data gives back the data, its length and a terminator.
\<close>

theorem base64_roundtrip:
  assumes "base64_encode_chars data ebuf = Some (code, n)" and "length data < length dbuf"
  shows "\<exists>rest. base64_decode_chars (take n code) dbuf = Some (data @ rest, length data) \<and>
    (data \<noteq> [] \<longrightarrow> rest ! 0 = 0) \<and> length (data @ rest) = length dbuf"
proof -
  have code: "take n code = b64 0 data"
    using assms(1) b64_0_length [of data] by (auto simp: encode_chars_spec split: if_splits)
  have "0 < length dbuf" using assms(2) by auto
  obtain rest st where dec: "decode_loop (b64 0 data) step_a (dbuf[0 := 0], 0) = Some ((data @ rest, length data), st)"
    "length data + length rest = length dbuf"
    using decode_b64 [of 0 data "dbuf[0 := 0]" 0] assms(2) by auto
  show ?thesis
  proof (cases "data = []")
    case True
    then show ?thesis
      using dec \<open>0 < length dbuf\<close> unfolding code
      by (auto simp: base64_decode_chars_def base64_decode_block_def base64_init_decodestate_def cmem)
  next
    case False
    then have "base64_decode_chars (take n code) dbuf = Some ((data @ rest)[length data := 0], length data)"
      using dec \<open>0 < length dbuf\<close> assms(2) unfolding code
      by (simp add: base64_decode_chars_def base64_decode_block_def base64_init_decodestate_def cmem)
    moreover have "rest \<noteq> []" using dec(2) assms(2) by auto
    ultimately show ?thesis using dec(2)
      by (intro exI [of _ "rest[0 := 0]"]) (auto simp: list_update_append)
  qed
qed

theorem base64_roundtrip_witness:
  "\<exists>code n rest. base64_encode_chars [1, 2, 3, 4] (replicate 9 0) = Some (code, n) \<and>
     base64_decode_chars (take n code) (replicate 5 0) = Some ([1, 2, 3, 4] @ rest, 4)"
proof -
  obtain code n where c: "base64_encode_chars [1, 2, 3, 4] (replicate 9 0) = Some (code, n)"
    by (simp add: encode_chars_spec encoded_length_def)
  from base64_roundtrip [OF c, of "replicate 5 0"] show ?thesis using c by force
qed

text \<open>
  The decoder faults on exactly one character: the bound check of the table admits its length
  as an index, which \<open>{\<close> hits; every other character gets its value, or is skipped.
\<close>

theorem decode_value_faults:
  "base64_decode_value_signed c = None \<longleftrightarrow> c = 0x7B"
proof -
  have "list_all (\<lambda>c. (base64_decode_value_signed c = None) = (c = 0x7B)) all_bytes"
    by code_simp
  then show ?thesis by (rule list_all_bytes)
qed

end
