(* ===== verification/Noniso.thy ===== *)
theory Noniso
  imports CString
begin

text \<open>
  \<open>components/arduino/cores/esp32/stdlib_noniso.c\<close>: integers to strings in a given base.  The
  result buffer is a list of characters of its size; pointers into it are indices, and leaving it is
  \<open>None\<close>.  \<open>long\<close> has 32 bits; the quotients never wrap around, so they are natural numbers.
\<close>

section \<open>The code\<close>

function reverse_loop :: "char list \<Rightarrow> nat \<Rightarrow> nat \<Rightarrow> char list option" where
  "reverse_loop buf is ie =
     (if is < ie then
        do {
          tmp \<leftarrow> rd buf ie;
          c \<leftarrow> rd buf is;
          buf \<leftarrow> wr buf ie c;
          buf \<leftarrow> wr buf is tmp;
          reverse_loop buf (Suc is) (ie - 1)
        }
      else Some buf)"
  by pat_completeness auto
termination by (relation "measure (\<lambda>(buf, is, ie). ie - is)") auto

declare reverse_loop.simps [simp del]

definition reverse :: "char list \<Rightarrow> nat \<Rightarrow> nat \<Rightarrow> char list option" where
  "reverse buf b e = reverse_loop buf b (e - 1)"

definition digit_table :: string where
  "digit_table = ''0123456789abcdef''"

text \<open>The \<open>do\<close> loop of both functions; a base below two does not reach it.\<close>

function digit_loop :: "char list \<Rightarrow> nat \<Rightarrow> nat \<Rightarrow> nat \<Rightarrow> (char list \<times> nat) option" where
  "digit_loop buf out quot base =
     (if base < 2 then None
      else
        let tmp = quot div base in
        do {
          c \<leftarrow> rd digit_table (quot - tmp * base);
          buf \<leftarrow> wr buf out c;
          let out = Suc out;
          if tmp \<noteq> 0 then digit_loop buf out tmp base else Some (buf, out)
        })"
  by pat_completeness auto
termination by (relation "measure (\<lambda>(buf, out, quot, base). quot)") (auto intro!: div_less_dividend gr0I)

declare digit_loop.simps [simp del]

definition ltoa :: "int \<Rightarrow> char list \<Rightarrow> int \<Rightarrow> char list option" where
  "ltoa value result base =
     (if base < 2 \<or> base > 16 then wr result 0 NUL
      else do {
        quot \<leftarrow> s32 \<bar>value\<bar>;
        (buf, out) \<leftarrow> digit_loop result 0 (nat quot) (nat base);
        (buf, out) \<leftarrow> (if value < 0 then do { buf \<leftarrow> wr buf out CHR ''-''; Some (buf, Suc out) } else Some (buf, out));
        buf \<leftarrow> reverse buf 0 out;
        wr buf out NUL
      })"

definition ultoa :: "u32 \<Rightarrow> char list \<Rightarrow> int \<Rightarrow> char list option" where
  "ultoa value result base =
     (if base < 2 \<or> base > 16 then wr result 0 NUL
      else do {
        (buf, out) \<leftarrow> digit_loop result 0 (unat value) (nat base);
        buf \<leftarrow> reverse buf 0 out;
        wr buf out NUL
      })"

section \<open>Reversing in place\<close>

lemma reverse_loop_rev:
  "length xs = n \<Longrightarrow> n > 0 \<Longrightarrow>
     reverse_loop (as @ xs @ bs) (length as) (length as + n - 1) = Some (as @ rev xs @ bs)"
proof (induction n arbitrary: xs as bs rule: less_induct)
  case (less n)
  show ?case
  proof (cases "n = 1")
    case True
    then obtain x where "xs = [x]" using less.prems by (auto simp: length_Suc_conv)
    with True show ?thesis by (subst reverse_loop.simps) simp
  next
    case False
    then obtain x ys y where xs: "xs = x # ys @ [y]"
      using less.prems by (cases xs; cases "tl xs" rule: rev_cases) auto
    then have n: "n = length ys + 2" using less.prems by simp
    have step: "reverse_loop (as @ xs @ bs) (length as) (length as + n - 1) =
        reverse_loop ((as @ [y]) @ ys @ (x # bs)) (length (as @ [y])) (length as + length ys)"
      unfolding xs n
      by (subst reverse_loop.simps) (simp add: cmem nth_append list_update_append)
    show ?thesis
    proof (cases "ys = []")
      case True
      then show ?thesis unfolding step by (subst reverse_loop.simps) (simp add: xs)
    next
      case False
      have "reverse_loop ((as @ [y]) @ ys @ (x # bs)) (length (as @ [y])) (length (as @ [y]) + length ys - 1) =
          Some ((as @ [y]) @ rev ys @ (x # bs))"
        using False n by (intro less.IH) auto
      then show ?thesis unfolding step by (simp add: xs)
    qed
  qed
qed

lemma reverse_prefix: "xs \<noteq> [] \<Longrightarrow> reverse (xs @ bs) 0 (length xs) = Some (rev xs @ bs)"
  using reverse_loop_rev [of xs "length xs" "[]" bs] by (simp add: reverse_def)

section \<open>Numerals\<close>

text \<open>The numeral of \<open>n\<close> in base \<open>b\<close>, and its value.\<close>

fun numeral_in :: "nat \<Rightarrow> nat \<Rightarrow> string" where
  "numeral_in b n =
     (if b < 2 \<or> n < b then [digit_table ! (n mod 16)]
      else numeral_in b (n div b) @ [digit_table ! (n mod b)])"

declare numeral_in.simps [simp del]

definition digit_value :: "char \<Rightarrow> nat" where
  "digit_value c = (if is_digit c then of_char c - 48 else of_char c - 87)"

definition value_in :: "nat \<Rightarrow> string \<Rightarrow> nat" where
  "value_in b s = foldl (\<lambda>n c. b * n + digit_value c) 0 s"

lemma digit_values: "map digit_value digit_table = [0..<16]"
  by code_simp

lemma length_digit_table [simp]: "length digit_table = 16"
  by (simp add: digit_table_def)

lemma digit_value_nth: "d < 16 \<Longrightarrow> digit_value (digit_table ! d) = d"
  using arg_cong [OF digit_values, of "\<lambda>l. l ! d"] by simp

lemma mod_digit: "2 \<le> b \<Longrightarrow> b \<le> 16 \<Longrightarrow> n mod b < (16 :: nat)"
  using mod_less_divisor [of b n] by linarith

lemma value_numeral: "2 \<le> b \<Longrightarrow> b \<le> 16 \<Longrightarrow> value_in b (numeral_in b n) = n"
proof (induction b n rule: numeral_in.induct)
  case (1 b n)
  show ?case
  proof (cases "n < b")
    case True
    then show ?thesis using "1.prems" by (subst numeral_in.simps) (simp add: value_in_def digit_value_nth)
  next
    case False
    then show ?thesis
      using 1 digit_value_nth [OF mod_digit [of b n]]
      by (subst numeral_in.simps) (simp add: value_in_def)
  qed
qed

lemma numeral_nonempty [simp]: "numeral_in b n \<noteq> []"
  by (subst numeral_in.simps) simp

lemma digit_loop_numeral:
  assumes "2 \<le> b" and "b \<le> 16"
  shows "out \<le> length buf \<Longrightarrow> digit_loop buf out q b =
     (if out + length (numeral_in b q) \<le> length buf
      then Some (take out buf @ rev (numeral_in b q) @ drop (out + length (numeral_in b q)) buf,
        out + length (numeral_in b q))
      else None)"
proof (induction q arbitrary: buf out rule: less_induct)
  case (less q)
  have digit: "q - q div b * b = q mod b" "q mod b < 16"
    using mod_digit assms by (simp_all add: minus_div_mult_eq_mod)
  show ?case
  proof (cases "q < b")
    case True
    then show ?thesis
      using less.prems assms digit
      by (subst digit_loop.simps, subst (1 2 3 4) numeral_in.simps)
        (auto simp: cmem Let_def upd_conv_take_nth_drop)
  next
    case False
    then have "q div b < q" using assms by (intro div_less_dividend) auto
    note IH = less.IH [OF this]
    let ?c = "digit_table ! (q mod b)"
    have num: "numeral_in b q = numeral_in b (q div b) @ [?c]"
      using False assms by (subst numeral_in.simps) simp
    show ?thesis
    proof (cases "out < length buf")
      case True
      then have "take (Suc out) (buf[out := ?c]) = take out buf @ [?c]"
        by (simp add: take_Suc_conv_app_nth)
      then show ?thesis
        using True IH [of "Suc out" "buf[out := ?c]"] assms digit False num
        by (subst digit_loop.simps) (simp add: cmem Let_def div_eq_0_iff)
    next
      case 2: False
      then show ?thesis
        using less.prems assms digit num by (subst digit_loop.simps) (simp add: cmem Let_def)
    qed
  qed
qed


section \<open>Both functions\<close>

lemma numeral_to_buffer:
  assumes "2 \<le> b" and "b \<le> 16" and "\<not> length (numeral_in b n) < length buf"
  shows "do { (buf, out) \<leftarrow> digit_loop buf 0 n b; buf \<leftarrow> reverse buf 0 out; wr buf out NUL } = None"
  using assms digit_loop_numeral [of b 0 buf n] reverse_prefix [of "rev (numeral_in b n)" "[]"]
  by (auto simp: cmem)

lemma wr_append: "length xs < length (xs @ ys) \<Longrightarrow> wr (xs @ ys) (length xs) c = Some (xs @ c # drop 1 ys)"
  by (cases ys) (simp_all add: cmem list_update_append)

lemma ultoa_eq:
  fixes base :: int and v :: u32
  assumes "2 \<le> base" and "base \<le> 16"
  defines "s \<equiv> numeral_in (nat base) (unat v)"
  shows "ultoa v buf base =
    (if length s < length buf then Some (s @ NUL # drop (length s + 1) buf) else None)"
proof -
  have b: "2 \<le> nat base" "nat base \<le> 16" using assms by auto
  show ?thesis
  proof (cases "length s < length buf")
    case True
    then have "digit_loop buf 0 (unat v) (nat base) = Some (rev s @ drop (length s) buf, length s)"
      using digit_loop_numeral [OF b, of 0 buf "unat v"] by (simp add: s_def)
    moreover have "reverse (rev s @ drop (length s) buf) 0 (length s) = Some (s @ drop (length s) buf)"
      using reverse_prefix [of "rev s" "drop (length s) buf"] by (simp add: s_def)
    ultimately show ?thesis
      using True wr_append [of s "drop (length s) buf" NUL] assms(1,2) by (simp add: ultoa_def)
  next
    case False
    then show ?thesis
      using numeral_to_buffer [OF b, of "unat v" buf] assms by (simp add: ultoa_def)
  qed
qed

text \<open>The text of a signed number.\<close>

definition signed_numeral :: "nat \<Rightarrow> int \<Rightarrow> string" where
  "signed_numeral b v = (if v < 0 then CHR ''-'' # numeral_in b (nat \<bar>v\<bar>) else numeral_in b (nat \<bar>v\<bar>))"

lemma ltoa_eq:
  assumes base: "2 \<le> base" "base \<le> 16" and v: "- (2 ^ 31) < v" "v < 2 ^ 31"
    and room: "length (signed_numeral (nat base) v) < length buf"
  shows "ltoa v buf base = Some (signed_numeral (nat base) v @ NUL # drop (length (signed_numeral (nat base) v) + 1) buf)"
proof -
  have b: "2 \<le> nat base" "nat base \<le> 16" using base by auto
  have q: "s32 \<bar>v\<bar> = Some \<bar>v\<bar>" using v by (auto simp: s32_def abs_if)
  let ?n = "numeral_in (nat base) (nat \<bar>v\<bar>)" and ?s = "signed_numeral (nat base) v"
  have loop: "digit_loop buf 0 (nat \<bar>v\<bar>) (nat base) = Some (rev ?n @ drop (length ?n) buf, length ?n)"
    using digit_loop_numeral [OF b, of 0 buf "nat \<bar>v\<bar>"] room by (auto simp: signed_numeral_def split: if_splits)
  have sign: "(if v < 0 then do { buf \<leftarrow> wr (rev ?n @ drop (length ?n) buf) (length ?n) CHR ''-''; Some (buf, Suc (length ?n)) }
      else Some (rev ?n @ drop (length ?n) buf, length ?n)) = Some (rev ?s @ drop (length ?s) buf, length ?s)"
    using wr_append [of "rev ?n" "drop (length ?n) buf" "CHR ''-''"] room
    by (auto simp: signed_numeral_def)
  have "?s \<noteq> []" by (simp add: signed_numeral_def)
  then have "reverse (rev ?s @ drop (length ?s) buf) 0 (length ?s) = Some (?s @ drop (length ?s) buf)"
    using reverse_prefix [of "rev ?s" "drop (length ?s) buf"] by simp
  then show ?thesis
    using base q loop sign room wr_append [of ?s "drop (length ?s) buf" NUL]
    by (simp add: ltoa_def split del: if_split)
qed

section \<open>Properties\<close>

text \<open>
  \<open>ultoa\<close> writes the numeral of its value in every base from 2 to 16, terminated, exactly when
  the buffer has room for it, touches nothing behind it, and the numeral has the value converted.
\<close>

theorem ultoa_correct:
  assumes "2 \<le> base" and "base \<le> 16"
  shows "\<exists>s. value_in (nat base) s = unat value \<and>
    ultoa value buf base = (if length s < length buf then Some (s @ NUL # drop (length s + 1) buf) else None)"
proof -
  have "2 \<le> nat base" "nat base \<le> 16" using assms by auto
  with value_numeral ultoa_eq [OF assms] show ?thesis by blast
qed

theorem ultoa_correct_witness:
  "\<exists>s. value_in 16 s = 255 \<and>
     ultoa 255 (replicate 9 NUL) 16 = (if length s < 9 then Some (s @ NUL # drop (length s + 1) (replicate 9 NUL)) else None)"
  using ultoa_correct [of 16 255 "replicate 9 NUL"] unfolding length_replicate by simp

text \<open>
  \<open>ltoa\<close> writes the signed numeral of every \<open>long\<close> but the most negative one, whose absolute
  value overflows; that value is the only one for which a large enough buffer does not suffice.
\<close>

theorem ltoa_correct:
  assumes "2 \<le> base" and "base \<le> 16" and "- (2 ^ 31) \<le> v" and "v < 2 ^ 31"
    and "length (signed_numeral (nat base) v) < length buf"
  shows "ltoa v buf base = (if v = - (2 ^ 31) then None
      else Some (signed_numeral (nat base) v @ NUL # drop (length (signed_numeral (nat base) v) + 1) buf)) \<and>
    value_in (nat base) (numeral_in (nat base) (nat \<bar>v\<bar>)) = nat \<bar>v\<bar>"
proof -
  have "2 \<le> nat base" "nat base \<le> 16" using assms by auto
  then show ?thesis
    using ltoa_eq [OF assms(1,2) _ assms(4,5)] assms(1-3) value_numeral
    by (auto simp: ltoa_def s32_def)
qed

theorem ltoa_correct_witness:
  "ltoa (-255) (replicate 5 (CHR ''x'')) 16 = Some (''-ff'' @ [NUL, CHR ''x''])"
proof -
  have n: "signed_numeral (nat 16) (-255) = ''-ff''"
    by (simp add: signed_numeral_def numeral_in.simps digit_table_def)
  show ?thesis using ltoa_correct [of 16 "-255" "replicate 5 (CHR ''x'')"] by (simp add: n[simplified])
qed

end
