(* ===== verification/QrBits.thy ===== *)
theory QrBits
  imports Prelude
begin

text \<open>
  \<open>components/m5stack/src/utility/qrcode.c\<close>, first part: the tables of the standard, the buckets of
  bits, and the data segment of a symbol.  \<open>LOCK_VERSION\<close> is 0, as the header sets it.  A bucket is
  the C struct with the bytes its pointer points to; writing outside them is \<open>None\<close>.
\<close>

section \<open>Tables\<close>

text \<open>Indexed by the format bits of the error correction level, then by version minus one.\<close>

definition NUM_ERROR_CORRECTION_CODEWORDS :: "nat list list" where
  "NUM_ERROR_CORRECTION_CODEWORDS =
    [[10, 16, 26, 36, 48, 64, 72, 88, 110, 130, 150, 176, 198, 216, 240, 280, 308, 338, 364, 416,
      442, 476, 504, 560, 588, 644, 700, 728, 784, 812, 868, 924, 980, 1036, 1064, 1120, 1204, 1260, 1316, 1372],
     [7, 10, 15, 20, 26, 36, 40, 48, 60, 72, 80, 96, 104, 120, 132, 144, 168, 180, 196, 224,
      224, 252, 270, 300, 312, 336, 360, 390, 420, 450, 480, 510, 540, 570, 570, 600, 630, 660, 720, 750],
     [17, 28, 44, 64, 88, 112, 130, 156, 192, 224, 264, 308, 352, 384, 432, 480, 532, 588, 650, 700,
      750, 816, 900, 960, 1050, 1110, 1200, 1260, 1350, 1440, 1530, 1620, 1710, 1800, 1890, 1980, 2100, 2220, 2310, 2430],
     [13, 22, 36, 52, 72, 96, 108, 132, 160, 192, 224, 260, 288, 320, 360, 408, 448, 504, 546, 600,
      644, 690, 750, 810, 870, 952, 1020, 1050, 1140, 1200, 1290, 1350, 1440, 1530, 1590, 1680, 1770, 1860, 1950, 2040]]"

definition NUM_ERROR_CORRECTION_BLOCKS :: "nat list list" where
  "NUM_ERROR_CORRECTION_BLOCKS =
    [[1, 1, 1, 2, 2, 4, 4, 4, 5, 5, 5, 8, 9, 9, 10, 10, 11, 13, 14, 16,
      17, 17, 18, 20, 21, 23, 25, 26, 28, 29, 31, 33, 35, 37, 38, 40, 43, 45, 47, 49],
     [1, 1, 1, 1, 1, 2, 2, 2, 2, 4, 4, 4, 4, 4, 6, 6, 6, 6, 7, 8,
      8, 9, 9, 10, 12, 12, 12, 13, 14, 15, 16, 17, 18, 19, 19, 20, 21, 22, 24, 25],
     [1, 1, 2, 4, 4, 4, 5, 6, 8, 8, 11, 11, 16, 16, 18, 16, 19, 21, 25, 25,
      25, 34, 30, 32, 35, 37, 40, 42, 45, 48, 51, 54, 57, 60, 63, 66, 70, 74, 77, 81],
     [1, 1, 2, 2, 4, 4, 6, 6, 8, 8, 8, 10, 12, 16, 12, 17, 16, 18, 21, 20,
      23, 23, 25, 27, 29, 34, 34, 35, 38, 40, 43, 45, 48, 51, 53, 56, 59, 62, 65, 68]]"

definition NUM_RAW_DATA_MODULES :: "nat list" where
  "NUM_RAW_DATA_MODULES =
    [208, 359, 567, 807, 1079, 1383, 1568, 1936, 2336, 2768, 3232, 3728, 4256, 4651, 5243, 5867, 6523, 7211, 7931, 8683,
     9252, 10068, 10916, 11796, 12708, 13652, 14628, 15371, 16411, 17483, 18587, 19723, 20891, 22091, 23008, 24272, 25568, 26896, 28256, 29648]"

section \<open>Modes\<close>

definition MODE_NUMERIC :: nat where "MODE_NUMERIC = 0"
definition MODE_ALPHANUMERIC :: nat where "MODE_ALPHANUMERIC = 1"
definition MODE_BYTE :: nat where "MODE_BYTE = 2"

definition getAlphanumeric :: "u8 \<Rightarrow> int" where
  "getAlphanumeric c =
     (if 48 \<le> c \<and> c \<le> 57 then uint c - 48
      else if 65 \<le> c \<and> c \<le> 90 then uint c - 65 + 10
      else if c = 32 then 36 else if c = 36 then 37 else if c = 37 then 38 else if c = 42 then 39
      else if c = 43 then 40 else if c = 45 then 41 else if c = 46 then 42 else if c = 47 then 43
      else if c = 58 then 44 else -1)"

text \<open>Both tests run from the end of the text.\<close>

fun isAlphanumeric :: "u8 list \<Rightarrow> nat \<Rightarrow> bool option" where
  "isAlphanumeric s 0 = Some True"
| "isAlphanumeric s (Suc n) =
     do { c \<leftarrow> rd s n; if getAlphanumeric c = -1 then Some False else isAlphanumeric s n }"

fun isNumeric :: "u8 list \<Rightarrow> nat \<Rightarrow> bool option" where
  "isNumeric s 0 = Some True"
| "isNumeric s (Suc n) =
     do { c \<leftarrow> rd s n; if c < 48 \<or> c > 57 then Some False else isNumeric s n }"

definition getModeBits :: "nat \<Rightarrow> nat \<Rightarrow> nat" where
  "getModeBits version mode =
     (let modeInfo = 0x7bbb80a :: u32;
          modeInfo = (if version > 9 then drop_bit 9 modeInfo else modeInfo);
          modeInfo = (if version > 26 then drop_bit 9 modeInfo else modeInfo);
          result = 8 + unat (drop_bit (3 * mode) modeInfo AND 0x07)
      in if result = 15 then 16 else result)"

section \<open>Buckets of bits\<close>

record BitBucket =
  bitOffsetOrWidth :: nat
  capacityBytes :: nat
  data :: "u8 list"

definition bb_getGridSizeBytes :: "nat \<Rightarrow> nat" where
  "bb_getGridSizeBytes sz = (sz * sz + 7) div 8"

definition bb_getBufferSizeBytes :: "nat \<Rightarrow> nat" where
  "bb_getBufferSizeBytes bits = (bits + 7) div 8"

definition bb_initBuffer :: "nat \<Rightarrow> BitBucket" where
  "bb_initBuffer capacity = \<lparr>bitOffsetOrWidth = 0, capacityBytes = capacity, data = replicate capacity 0\<rparr>"

definition bb_initGrid :: "nat \<Rightarrow> BitBucket" where
  "bb_initGrid sz =
     \<lparr>bitOffsetOrWidth = sz, capacityBytes = bb_getGridSizeBytes sz,
      data = replicate (bb_getGridSizeBytes sz) 0\<rparr>"

text \<open>One bit of a value, most significant first, or-ed into the byte it belongs to.\<close>

definition bb_append_bit :: "u32 \<Rightarrow> nat \<Rightarrow> BitBucket \<Rightarrow> BitBucket option" where
  "bb_append_bit val i b =
     (let offset = bitOffsetOrWidth b in
      do {
        c \<leftarrow> rd (data b) (offset div 8);
        d \<leftarrow> wr (data b) (offset div 8) (c OR push_bit (7 - offset mod 8) (ucast (drop_bit i val AND 1)));
        Some (b\<lparr>data := d, bitOffsetOrWidth := offset + 1\<rparr>)
      })"

definition bb_appendBits :: "u32 \<Rightarrow> nat \<Rightarrow> BitBucket \<Rightarrow> BitBucket option" where
  "bb_appendBits val len b = foldM (bb_append_bit val) (rev [0..<len]) b"

definition bb_mask :: "nat \<Rightarrow> u8" where
  "bb_mask offset = push_bit (7 - offset mod 8) 1"

definition bb_setBit :: "nat \<Rightarrow> nat \<Rightarrow> bool \<Rightarrow> BitBucket \<Rightarrow> BitBucket option" where
  "bb_setBit x y on b =
     (let offset = y * bitOffsetOrWidth b + x in
      do {
        c \<leftarrow> rd (data b) (offset div 8);
        d \<leftarrow> wr (data b) (offset div 8)
          (if on then c OR bb_mask offset else c AND NOT (bb_mask offset));
        Some (b\<lparr>data := d\<rparr>)
      })"

definition bb_getBit :: "nat \<Rightarrow> nat \<Rightarrow> BitBucket \<Rightarrow> bool option" where
  "bb_getBit x y b =
     (let offset = y * bitOffsetOrWidth b + x in
      do { c \<leftarrow> rd (data b) (offset div 8); Some (c AND bb_mask offset \<noteq> 0) })"

definition bb_invertBit :: "nat \<Rightarrow> nat \<Rightarrow> bool \<Rightarrow> BitBucket \<Rightarrow> BitBucket option" where
  "bb_invertBit x y invert b =
     (let offset = y * bitOffsetOrWidth b + x in
      do {
        c \<leftarrow> rd (data b) (offset div 8);
        let on = (c AND bb_mask offset \<noteq> 0);
        d \<leftarrow> wr (data b) (offset div 8)
          (if on \<noteq> invert then c OR bb_mask offset else c AND NOT (bb_mask offset));
        Some (b\<lparr>data := d\<rparr>)
      })"

section \<open>The data segment\<close>

text \<open>The accumulator of the two text loops: the value, how many characters it holds, the bucket.\<close>

definition numeric_char :: "u8 list \<Rightarrow> nat \<Rightarrow> nat \<times> nat \<times> BitBucket \<Rightarrow> (nat \<times> nat \<times> BitBucket) option" where
  "numeric_char text i = (\<lambda>(accumData, accumCount, b).
     do {
       c \<leftarrow> rd text i;
       let accumData = accumData * 10 + (unat c - 48);
       let accumCount = accumCount + 1;
       if accumCount = 3
       then do { b \<leftarrow> bb_appendBits (word_of_nat accumData) 10 b; Some (0, 0, b) }
       else Some (accumData, accumCount, b)
     })"

definition alphanumeric_char :: "u8 list \<Rightarrow> nat \<Rightarrow> nat \<times> nat \<times> BitBucket \<Rightarrow> (nat \<times> nat \<times> BitBucket) option" where
  "alphanumeric_char text i = (\<lambda>(accumData, accumCount, b).
     do {
       c \<leftarrow> rd text i;
       let accumData = accumData * 45 + nat (getAlphanumeric c);
       let accumCount = accumCount + 1;
       if accumCount = 2
       then do { b \<leftarrow> bb_appendBits (word_of_nat accumData) 11 b; Some (0, 0, b) }
       else Some (accumData, accumCount, b)
     })"

definition encodeDataCodewords :: "u8 list \<Rightarrow> nat \<Rightarrow> nat \<Rightarrow> BitBucket \<Rightarrow> (nat \<times> BitBucket) option" where
  "encodeDataCodewords text len version b =
     do {
       numeric \<leftarrow> isNumeric text len;
       alphanumeric \<leftarrow> isAlphanumeric text len;
       if numeric then do {
         b \<leftarrow> bb_appendBits (push_bit MODE_NUMERIC 1) 4 b;
         b \<leftarrow> bb_appendBits (word_of_nat len) (getModeBits version MODE_NUMERIC) b;
         (accumData, accumCount, b) \<leftarrow> foldM (numeric_char text) [0..<len] (0, 0, b);
         b \<leftarrow> (if accumCount > 0 then bb_appendBits (word_of_nat accumData) (accumCount * 3 + 1) b else Some b);
         Some (MODE_NUMERIC, b)
       }
       else if alphanumeric then do {
         b \<leftarrow> bb_appendBits (push_bit MODE_ALPHANUMERIC 1) 4 b;
         b \<leftarrow> bb_appendBits (word_of_nat len) (getModeBits version MODE_ALPHANUMERIC) b;
         (accumData, accumCount, b) \<leftarrow> foldM (alphanumeric_char text) [0..<len] (0, 0, b);
         b \<leftarrow> (if accumCount > 0 then bb_appendBits (word_of_nat accumData) 6 b else Some b);
         Some (MODE_ALPHANUMERIC, b)
       }
       else do {
         b \<leftarrow> bb_appendBits (push_bit MODE_BYTE 1) 4 b;
         b \<leftarrow> bb_appendBits (word_of_nat len) (getModeBits version MODE_BYTE) b;
         b \<leftarrow> foldM (\<lambda>i b. do { c \<leftarrow> rd text i; bb_appendBits (ucast c) 8 b }) [0..<len] b;
         Some (MODE_BYTE, b)
       }
     }"

text \<open>
  The start of \<open>qrcode_initBytes\<close>: the segment, the terminator, and the pad bytes.  \<open>dataCapacity\<close>
  is the number of data codewords; the subtraction is unsigned.
\<close>

definition pad_bits :: "nat \<Rightarrow> BitBucket \<Rightarrow> BitBucket option" where
  "pad_bits dataCapacity b =
     (let padding = word_of_nat (dataCapacity * 8) - word_of_nat (bitOffsetOrWidth b) :: u32;
          padding = (if padding > 4 then 4 else padding)
      in do {
        b \<leftarrow> bb_appendBits 0 (unat padding) b;
        bb_appendBits 0 ((8 - bitOffsetOrWidth b mod 8) mod 8) b
      })"


text \<open>Appending moves the offset by the number of bits: this makes the padding loop stop.\<close>

lemma bb_appendBits_offset:
  "bb_appendBits val len b = Some b' \<Longrightarrow> bitOffsetOrWidth b' = bitOffsetOrWidth b + len"
proof -
  have "foldM (bb_append_bit val) is b = Some b' \<Longrightarrow> bitOffsetOrWidth b' = bitOffsetOrWidth b + length is" for "is" b
    by (induction "is" arbitrary: b) (auto simp: bb_append_bit_def Let_def split: Option.bind_splits)
  from this [of "rev [0..<len]" b] show "bb_appendBits val len b = Some b' \<Longrightarrow> ?thesis"
    by (simp add: bb_appendBits_def)
qed

function pad_bytes :: "nat \<Rightarrow> u8 \<Rightarrow> BitBucket \<Rightarrow> BitBucket option" where
  "pad_bytes dataCapacity padByte b =
     (if bitOffsetOrWidth b < dataCapacity * 8 then
        do {
          b \<leftarrow> bb_appendBits (ucast padByte) 8 b;
          pad_bytes dataCapacity (padByte XOR (0xEC XOR 0x11)) b
        }
      else Some b)"
  by pat_completeness auto

termination
  by (relation "measure (\<lambda>(cap, p, b). cap * 8 - bitOffsetOrWidth b)")
    (auto dest: bb_appendBits_offset)

declare pad_bytes.simps [simp del]

section \<open>The bits in a bucket\<close>

definition to_bits :: "nat \<Rightarrow> u32 \<Rightarrow> bool list" where
  "to_bits len val = map (bit val) (rev [0..<len])"

lemma length_to_bits [simp]: "length (to_bits len val) = len"
  by (simp add: to_bits_def)

text \<open>
  \<open>bucket b cap bs\<close>: the bucket has \<open>cap\<close> bytes, its first bits are \<open>bs\<close>, up to its offset, and
  the others are zero.
\<close>

definition bucket :: "BitBucket \<Rightarrow> nat \<Rightarrow> bool list \<Rightarrow> bool" where
  "bucket b cap bs \<longleftrightarrow>
     capacityBytes b = cap \<and> length (data b) = cap \<and> bitOffsetOrWidth b = length bs \<and> length bs \<le> 8 * cap \<and>
     bits_of (data b) = bs @ replicate (8 * cap - length bs) False"

lemma bucket_init: "bucket (bb_initBuffer cap) cap []"
proof -
  have "bits_of (replicate n 0) = replicate (8 * n) False" for n
    by (induction n) (simp_all add: byte_bits_def eval_nat_numeral)
  then show ?thesis by (simp add: bucket_def bb_initBuffer_def)
qed

lemma bits_of_update:
  assumes "o1 < 8 * length d"
    and "\<forall>j<8. bit c j = (if j = 7 - o1 mod 8 then v else bit (d ! (o1 div 8)) j)"
  shows "bits_of (d[o1 div 8 := c]) = (bits_of d)[o1 := v]"
proof (rule nth_equalityI)
  fix k assume "k < length (bits_of (d[o1 div 8 := c]))"
  then have k: "k < 8 * length d" by simp
  then have kd: "k div 8 < length d" and od: "o1 div 8 < length d" using assms(1) by auto
  have same: "k = o1 \<longleftrightarrow> k div 8 = o1 div 8 \<and> 7 - k mod 8 = 7 - o1 mod 8"
  proof
    assume "k div 8 = o1 div 8 \<and> 7 - k mod 8 = 7 - o1 mod 8"
    moreover have "k mod 8 < 8" "o1 mod 8 < 8" by simp_all
    ultimately have "k div 8 = o1 div 8 \<and> k mod 8 = o1 mod 8" by linarith
    then show "k = o1" by (metis div_mult_mod_eq)
  qed simp
  show "bits_of (d[o1 div 8 := c]) ! k = (bits_of d)[o1 := v] ! k"
    using k kd od assms(2) same
    by (cases "k div 8 = o1 div 8") (auto simp: bits_of_nth nth_list_update)
qed simp

lemma bb_append_bit_bucket:
  assumes "bucket b cap bs" and "length bs < 8 * cap"
  shows "\<exists>b'. bb_append_bit val i b = Some b' \<and> bucket b' cap (bs @ [bit val i])"
proof -
  let ?o = "length bs"
  let ?c = "data b ! (?o div 8)"
  let ?v = "?c OR push_bit (7 - ?o mod 8) (ucast (drop_bit i val AND 1))"
  let ?d = "(data b)[?o div 8 := ?v]"
  have len: "length (data b) = cap" and o_in: "?o div 8 < cap" using assms by (auto simp: bucket_def)
  have old: "\<not> bit ?c (7 - ?o mod 8)"
    using assms bits_of_nth [of ?o "data b"] by (simp add: bucket_def nth_append)
  have "(ucast (drop_bit i val AND 1) :: u8) = (if bit val i then 1 else 0)"
    by (rule bit_word_eqI) (auto simp: bit_simps intro!: gr0I)
  then have "bits_of ?d = (bits_of (data b))[?o := bit val i]"
    using assms(2) len old by (intro bits_of_update) (auto simp: bit_simps)
  also have "\<dots> = (bs @ [bit val i]) @ replicate (8 * cap - length (bs @ [bit val i])) False"
    using assms by (simp add: bucket_def list_update_append Suc_diff_Suc [symmetric])
  finally have "bucket (b\<lparr>data := ?d, bitOffsetOrWidth := ?o + 1\<rparr>) cap (bs @ [bit val i])"
    using assms by (simp add: bucket_def)
  moreover have "bb_append_bit val i b = Some (b\<lparr>data := ?d, bitOffsetOrWidth := ?o + 1\<rparr>)"
    using assms(1) o_in len by (simp add: bb_append_bit_def bucket_def cmem Let_def)
  ultimately show ?thesis by blast
qed

lemma bb_append_bit_full:
  "bucket b cap bs \<Longrightarrow> length bs = 8 * cap \<Longrightarrow> bb_append_bit val i b = None"
  by (simp add: bb_append_bit_def bucket_def cmem Let_def)

lemma bb_append_loop:
  "bucket b cap bs \<Longrightarrow>
     (if length bs + length is \<le> 8 * cap
      then \<exists>b'. foldM (bb_append_bit val) is b = Some b' \<and> bucket b' cap (bs @ map (bit val) is)
      else foldM (bb_append_bit val) is b = None)"
proof (induction "is" arbitrary: b bs)
  case Nil
  then show ?case by (auto simp: bucket_def)
next
  case (Cons i "is")
  show ?case
  proof (cases "length bs < 8 * cap")
    case True
    then obtain b' where "bb_append_bit val i b = Some b'" "bucket b' cap (bs @ [bit val i])"
      using bb_append_bit_bucket [OF Cons.prems] by blast
    then show ?thesis using Cons.IH [of b' "bs @ [bit val i]"] by (simp split: if_splits)
  next
    case False
    then have "length bs = 8 * cap" using Cons.prems by (simp add: bucket_def)
    then show ?thesis using bb_append_bit_full [OF Cons.prems] by simp
  qed
qed

lemma bb_appendBits_bucket:
  "bucket b cap bs \<Longrightarrow> length bs + len \<le> 8 * cap \<Longrightarrow>
     \<exists>b'. bb_appendBits val len b = Some b' \<and> bucket b' cap (bs @ to_bits len val)"
  using bb_append_loop [of b cap bs "rev [0..<len]" val] by (simp add: bb_appendBits_def to_bits_def)

lemma bb_appendBits_full:
  "bucket b cap bs \<Longrightarrow> 8 * cap < length bs + len \<Longrightarrow> bb_appendBits val len b = None"
  using bb_append_loop [of b cap bs "rev [0..<len]" val] by (simp add: bb_appendBits_def)


text \<open>A sequence of appends: pairs of a width and a value.\<close>

definition appends :: "(nat \<times> u32) list \<Rightarrow> BitBucket \<Rightarrow> BitBucket option" where
  "appends = foldM (\<lambda>(len, val). bb_appendBits val len)"

definition chunk_bits :: "(nat \<times> u32) list \<Rightarrow> bool list" where
  "chunk_bits cs = concat (map (\<lambda>(len, val). to_bits len val) cs)"

lemma appends_simps [simp]:
  "appends [] = Some"
  "appends ((len, val) # cs) b = Option.bind (bb_appendBits val len b) (appends cs)"
  by (simp_all add: appends_def fun_eq_iff)

lemma appends_append: "appends (cs @ cs') b = Option.bind (appends cs b) (appends cs')"
  by (simp add: appends_def foldM_append)

lemma chunk_bits_simps [simp]:
  "chunk_bits [] = []" "chunk_bits ((len, val) # cs) = to_bits len val @ chunk_bits cs"
  "chunk_bits (cs @ cs') = chunk_bits cs @ chunk_bits cs'"
  by (simp_all add: chunk_bits_def)

lemma appends_bucket:
  "bucket b cap bs \<Longrightarrow>
     (if length bs + length (chunk_bits cs) \<le> 8 * cap
      then \<exists>b'. appends cs b = Some b' \<and> bucket b' cap (bs @ chunk_bits cs)
      else appends cs b = None)"
proof (induction cs arbitrary: b bs)
  case Nil
  then show ?case by (auto simp: bucket_def)
next
  case (Cons c cs)
  obtain len val where c: "c = (len, val)" by (cases c)
  show ?case
  proof (cases "length bs + len \<le> 8 * cap")
    case True
    then obtain b' where "bb_appendBits val len b = Some b'" "bucket b' cap (bs @ to_bits len val)"
      using bb_appendBits_bucket [OF Cons.prems] by blast
    then show ?thesis using Cons.IH [of b' "bs @ to_bits len val"] c by (simp add: add.assoc split: if_splits)
  next
    case False
    then show ?thesis using bb_appendBits_full [OF Cons.prems, of len val] c by simp
  qed
qed

section \<open>The segment as a sequence of appends\<close>

definition digit :: "u8 \<Rightarrow> nat" where
  "digit c = unat c - 48"

definition alnum :: "u8 \<Rightarrow> nat" where
  "alnum c = nat (getAlphanumeric c)"

fun numeric_chunks :: "u8 list \<Rightarrow> (nat \<times> u32) list" where
  "numeric_chunks [] = []"
| "numeric_chunks [a] = [(4, word_of_nat (digit a))]"
| "numeric_chunks [a, b] = [(7, word_of_nat (digit a * 10 + digit b))]"
| "numeric_chunks (a # b # c # s) =
     (10, word_of_nat ((digit a * 10 + digit b) * 10 + digit c)) # numeric_chunks s"

fun alphanumeric_chunks :: "u8 list \<Rightarrow> (nat \<times> u32) list" where
  "alphanumeric_chunks [] = []"
| "alphanumeric_chunks [a] = [(6, word_of_nat (alnum a))]"
| "alphanumeric_chunks (a # b # s) =
     (11, word_of_nat (alnum a * 45 + alnum b)) # alphanumeric_chunks s"

definition is_num :: "u8 \<Rightarrow> bool" where
  "is_num c \<longleftrightarrow> 48 \<le> c \<and> c \<le> 57"

definition is_alnum :: "u8 \<Rightarrow> bool" where
  "is_alnum c \<longleftrightarrow> getAlphanumeric c \<noteq> -1"

definition text_mode :: "u8 list \<Rightarrow> nat" where
  "text_mode s =
     (if list_all is_num s then MODE_NUMERIC
      else if list_all is_alnum s then MODE_ALPHANUMERIC else MODE_BYTE)"

definition segment_chunks :: "nat \<Rightarrow> u8 list \<Rightarrow> (nat \<times> u32) list" where
  "segment_chunks version s =
     [(4, push_bit (text_mode s) 1), (getModeBits version (text_mode s), word_of_nat (length s))] @
     (if text_mode s = MODE_NUMERIC then numeric_chunks s
      else if text_mode s = MODE_ALPHANUMERIC then alphanumeric_chunks s
      else map (\<lambda>c. (8, ucast c)) s)"

lemma isNumeric_eq: "n \<le> length s \<Longrightarrow> isNumeric s n = Some (list_all is_num (take n s))"
  by (induction n) (auto simp: cmem take_Suc_conv_app_nth is_num_def not_le)

lemma isAlphanumeric_eq: "n \<le> length s \<Longrightarrow> isAlphanumeric s n = Some (list_all is_alnum (take n s))"
  by (induction n) (auto simp: cmem take_Suc_conv_app_nth is_alnum_def)

text \<open>The text loops on the list of characters.\<close>

definition numeric_step :: "u8 \<Rightarrow> nat \<times> nat \<times> BitBucket \<Rightarrow> (nat \<times> nat \<times> BitBucket) option" where
  "numeric_step c = (\<lambda>(acc, n, b).
     if n = 2 then do { b \<leftarrow> bb_appendBits (word_of_nat (acc * 10 + digit c)) 10 b; Some (0, 0, b) }
     else Some (acc * 10 + digit c, n + 1, b))"

definition alphanumeric_step :: "u8 \<Rightarrow> nat \<times> nat \<times> BitBucket \<Rightarrow> (nat \<times> nat \<times> BitBucket) option" where
  "alphanumeric_step c = (\<lambda>(acc, n, b).
     if n = 1 then do { b \<leftarrow> bb_appendBits (word_of_nat (acc * 45 + alnum c)) 11 b; Some (0, 0, b) }
     else Some (acc * 45 + alnum c, n + 1, b))"

lemma text_loops:
  "foldM (numeric_char s) [0..<length s] st = foldM numeric_step s st"
  "foldM (alphanumeric_char s) [0..<length s] st = foldM alphanumeric_step s st"
  by (rule foldM_nth; simp add: numeric_char_def numeric_step_def alphanumeric_char_def alphanumeric_step_def
      cmem digit_def alnum_def Let_def split_beta eval_nat_numeral)+

lemma numeric_loop:
  "do { (acc, n, b) \<leftarrow> foldM numeric_step s (0, 0, b);
        if n > 0 then bb_appendBits (word_of_nat acc) (n * 3 + 1) b else Some b } = appends (numeric_chunks s) b"
  by (induction s arbitrary: b rule: numeric_chunks.induct) (simp_all add: numeric_step_def Option.bind_assoc)

lemma alphanumeric_loop:
  "do { (acc, n, b) \<leftarrow> foldM alphanumeric_step s (0, 0, b);
        if n > 0 then bb_appendBits (word_of_nat acc) 6 b else Some b } = appends (alphanumeric_chunks s) b"
  by (induction s arbitrary: b rule: alphanumeric_chunks.induct)
    (simp_all add: alphanumeric_step_def Option.bind_assoc)

lemma loop_then:
  "do { (acc, n, b) \<leftarrow> foldM numeric_step s (0, 0, b);
        b \<leftarrow> (if n > 0 then bb_appendBits (word_of_nat acc) (n * 3 + 1) b else Some b); k b } =
   do { b \<leftarrow> appends (numeric_chunks s) b; k b }"
  "do { (acc, n, b) \<leftarrow> foldM alphanumeric_step s (0, 0, b);
        b \<leftarrow> (if n > 0 then bb_appendBits (word_of_nat acc) 6 b else Some b); k b } =
   do { b \<leftarrow> appends (alphanumeric_chunks s) b; k b }"
  by (simp_all add: Option.bind_assoc case_prod_beta' flip: numeric_loop alphanumeric_loop)

lemma byte_loop:
  "foldM (\<lambda>i b. do { c \<leftarrow> rd s i; bb_appendBits (ucast c) 8 b }) [0..<length s] b =
     appends (map (\<lambda>c. (8, ucast c)) s) b"
proof -
  have "foldM (\<lambda>i b. do { c \<leftarrow> rd s i; bb_appendBits (ucast c) 8 b }) [0..<length s] b =
      foldM (\<lambda>c. bb_appendBits (ucast c) 8) s b"
    by (rule foldM_nth) (simp add: cmem)
  then show ?thesis by (simp add: appends_def foldM_map)
qed

lemma encode_appends:
  "encodeDataCodewords s (length s) version b =
     do { b \<leftarrow> appends (segment_chunks version s) b; Some (text_mode s, b) }"
proof -
  have m: "MODE_NUMERIC \<noteq> MODE_ALPHANUMERIC" "MODE_NUMERIC \<noteq> MODE_BYTE" "MODE_ALPHANUMERIC \<noteq> MODE_BYTE"
    by (simp_all add: MODE_NUMERIC_def MODE_ALPHANUMERIC_def MODE_BYTE_def)
  note m = m m [symmetric]
  show ?thesis
    unfolding encodeDataCodewords_def isNumeric_eq [OF order.refl] isAlphanumeric_eq [OF order.refl]
      text_loops byte_loop loop_then
    by (auto simp: segment_chunks_def text_mode_def m Option.bind_assoc)
qed


section \<open>Reading a segment back\<close>

definition from_bits :: "bool list \<Rightarrow> nat" where
  "from_bits bs = foldl (\<lambda>n b. 2 * n + of_bool b) 0 bs"

lemma from_bits_foldl: "foldl (\<lambda>n b. 2 * n + of_bool b) k bs = k * 2 ^ length bs + from_bits bs"
proof (induction bs arbitrary: k)
  case (Cons b bs)
  from Cons [of "2 * k + of_bool b"] Cons [of "of_bool b"] show ?case
    by (simp add: from_bits_def algebra_simps)
qed (simp add: from_bits_def)

lemma from_bits_Cons: "from_bits (b # bs) = of_bool b * 2 ^ length bs + from_bits bs"
  using from_bits_foldl [of "of_bool b" bs] by (simp add: from_bits_def)

lemma from_bits_to_bits: "n \<le> 32 \<Longrightarrow> from_bits (to_bits n v) = take_bit n (unat v)"
proof (induction n)
  case (Suc n)
  have "to_bits (Suc n) v = bit v n # to_bits n v" by (simp add: to_bits_def)
  then show ?case
    using Suc by (simp add: from_bits_Cons take_bit_Suc_from_most bit_unsigned_iff)
qed (simp add: to_bits_def from_bits_def)

lemma from_bits_value: "n \<le> 32 \<Longrightarrow> v < 2 ^ n \<Longrightarrow> from_bits (take n (to_bits n (word_of_nat v) @ rest)) = v"
proof -
  assume n: "n \<le> 32" and v: "v < 2 ^ n"
  have "(2 :: nat) ^ n \<le> 2 ^ 32" using n by (rule power_increasing) simp
  then have "unat (word_of_nat v :: u32) = v" using v by (simp add: unat_of_nat take_bit_nat_eq_self)
  then show ?thesis using n v by (simp add: from_bits_to_bits take_bit_nat_eq_self)
qed

definition num_char :: "nat \<Rightarrow> u8" where
  "num_char d = word_of_nat (48 + d)"

text \<open>The characters of the alphanumeric mode, by their codes.\<close>

definition alnum_chars :: "u8 list" where
  "alnum_chars =
    [48, 49, 50, 51, 52, 53, 54, 55, 56, 57, 65, 66, 67, 68, 69, 70, 71, 72, 73, 74, 75, 76, 77,
     78, 79, 80, 81, 82, 83, 84, 85, 86, 87, 88, 89, 90, 32, 36, 37, 42, 43, 45, 46, 47, 58]"

fun num_read :: "nat \<Rightarrow> bool list \<Rightarrow> u8 list" where
  "num_read 0 bs = []"
| "num_read (Suc 0) bs = [num_char (from_bits (take 4 bs))]"
| "num_read (Suc (Suc 0)) bs =
     (let v = from_bits (take 7 bs) in [num_char (v div 10), num_char (v mod 10)])"
| "num_read (Suc (Suc (Suc n))) bs =
     (let v = from_bits (take 10 bs)
      in num_char (v div 100) # num_char (v div 10 mod 10) # num_char (v mod 10) # num_read n (drop 10 bs))"

fun alnum_read :: "nat \<Rightarrow> bool list \<Rightarrow> u8 list" where
  "alnum_read 0 bs = []"
| "alnum_read (Suc 0) bs = [alnum_chars ! from_bits (take 6 bs)]"
| "alnum_read (Suc (Suc n)) bs =
     (let v = from_bits (take 11 bs)
      in alnum_chars ! (v div 45) # alnum_chars ! (v mod 45) # alnum_read n (drop 11 bs))"

fun byte_read :: "nat \<Rightarrow> bool list \<Rightarrow> u8 list" where
  "byte_read 0 bs = []"
| "byte_read (Suc n) bs = word_of_nat (from_bits (take 8 bs)) # byte_read n (drop 8 bs)"

text \<open>
  The reader follows the standard, not the code: the mode indicator is 1, 2 or 4, and the width of
  the character count depends on it and on the class of the version.
\<close>

definition count_width :: "nat \<Rightarrow> nat \<Rightarrow> nat" where
  "count_width version indicator =
     (if indicator = 1 then [10, 12, 14] else if indicator = 2 then [9, 11, 13] else [8, 16, 16]) !
     (if version \<le> 9 then 0 else if version \<le> 26 then 1 else 2)"

definition read_segment :: "nat \<Rightarrow> bool list \<Rightarrow> u8 list option" where
  "read_segment version bs =
     (let indicator = from_bits (take 4 bs);
          k = count_width version indicator;
          count = from_bits (take k (drop 4 bs));
          body = drop k (drop 4 bs)
      in if indicator = 1 then Some (num_read count body)
         else if indicator = 2 then Some (alnum_read count body)
         else if indicator = 4 then Some (byte_read count body) else None)"

text \<open>The mode a text asks for, and the number of bits of its segment.\<close>

definition segment_indicator :: "u8 list \<Rightarrow> nat" where
  "segment_indicator s =
     (if \<forall>c\<in>set s. c \<in> set (take 10 alnum_chars) then 1 else if \<forall>c\<in>set s. c \<in> set alnum_chars then 2 else 4)"

definition segment_length :: "nat \<Rightarrow> u8 list \<Rightarrow> nat" where
  "segment_length version s =
     4 + count_width version (segment_indicator s) +
     (if segment_indicator s = 1 then 10 * (length s div 3) + [0, 4, 7] ! (length s mod 3)
      else if segment_indicator s = 2 then 11 * (length s div 2) + 6 * (length s mod 2)
      else 8 * length s)"

lemma digit_less:
  assumes "is_num c"
  shows "digit c < 10 \<and> num_char (digit c) = c"
proof -
  have "48 \<le> unat c" "unat c \<le> 57" using assms by (simp_all add: is_num_def word_le_nat_alt)
  then show ?thesis by (simp add: digit_def num_char_def)
qed

lemma alnum_table:
  "k < 10 \<Longrightarrow> alnum_chars ! k = word_of_nat (48 + k)"
  "10 \<le> k \<Longrightarrow> k < 36 \<Longrightarrow> alnum_chars ! k = word_of_nat (55 + k)"
proof -
  have "list_all (\<lambda>k. alnum_chars ! k = word_of_nat (48 + k)) [0..<10]"
    "list_all (\<lambda>k. alnum_chars ! k = word_of_nat (55 + k)) [10..<36]" by code_simp+
  then show "k < 10 \<Longrightarrow> alnum_chars ! k = word_of_nat (48 + k)"
    "10 \<le> k \<Longrightarrow> k < 36 \<Longrightarrow> alnum_chars ! k = word_of_nat (55 + k)"
    by (simp_all only: list_all_iff set_upt atLeastLessThan_iff) auto
qed

lemma nat_uint_diff: "nat (uint (c :: u8) - int k) = unat c - k"
  by (simp add: nat_diff_distrib' flip: unat_eq_nat_uint)

lemma alnum_less:
  assumes "is_alnum c"
  shows "alnum c < 45 \<and> alnum_chars ! alnum c = c"
proof -
  have "48 \<le> c \<and> c \<le> 57 \<or> 65 \<le> c \<and> c \<le> 90 \<or> c \<in> {32, 36, 37, 42, 43, 45, 46, 47, 58}"
    using assms by (auto simp: is_alnum_def getAlphanumeric_def split: if_splits)
  then consider (digit) "48 \<le> c" "c \<le> 57" | (letter) "65 \<le> c" "c \<le> 90" | (other) "c \<in> {32, 36, 37, 42, 43, 45, 46, 47, 58}"
    by blast
  then show ?thesis
  proof cases
    case digit
    then have u: "48 \<le> unat c" "unat c \<le> 57" by (simp_all add: word_le_nat_alt)
    have "alnum c = unat c - 48"
      using digit nat_uint_diff [of c 48] by (simp add: alnum_def getAlphanumeric_def)
    with u show ?thesis by (simp add: alnum_table)
  next
    case letter
    then have u: "65 \<le> unat c" "unat c \<le> 90" by (simp_all add: word_le_nat_alt)
    have "\<not> c \<le> 57" using letter by (simp add: word_le_nat_alt)
    then have "alnum c = unat c - 55"
      using letter nat_uint_diff [of c 55] by (simp add: alnum_def getAlphanumeric_def)
    with u show ?thesis by (simp add: alnum_table)
  next
    case other
    then show ?thesis by (auto simp: alnum_def getAlphanumeric_def alnum_chars_def)
  qed
qed

lemma last_digit: "c < (10 :: nat) \<Longrightarrow> (x * 10 + c) div 10 = x \<and> (x * 10 + c) mod 10 = c"
  by simp

lemma three_digits:
  assumes "a < (10 :: nat)" "b < 10" "c < 10" "v = (a * 10 + b) * 10 + c"
  shows "v div 100 = a \<and> v div 10 mod 10 = b \<and> v mod 10 = c"
proof -
  have "v div 100 = v div 10 div 10" using div_mult2_eq [of v 10 10] by simp
  then show ?thesis
    using last_digit [OF assms(3), of "a * 10 + b"] last_digit [OF assms(2), of a] unfolding assms(4) by argo
qed

lemma num_read_chunks:
  "list_all is_num s \<Longrightarrow> num_read (length s) (chunk_bits (numeric_chunks s) @ rest) = s"
proof (induction s rule: numeric_chunks.induct)
  case (2 a)
  then have "digit a < 2 ^ 4" "num_char (digit a) = a" using digit_less [of a] by auto
  with from_bits_value [of 4 "digit a" rest] show ?case by simp
next
  case (3 a b)
  then have d: "digit a < 10" "digit b < 10" "num_char (digit a) = a" "num_char (digit b) = b"
    using digit_less by auto
  then have "digit a * 10 + digit b < 2 ^ 7" by simp
  from from_bits_value [OF _ this, of rest] d show ?case by (simp del: of_nat_add of_nat_mult)
next
  case (4 a b c s)
  then have d: "digit a < 10" "digit b < 10" "digit c < 10"
    "num_char (digit a) = a" "num_char (digit b) = b" "num_char (digit c) = c"
    using digit_less by auto
  let ?v = "(digit a * 10 + digit b) * 10 + digit c"
  have v: "?v < 2 ^ 10" "?v div 100 = digit a" "?v div 10 mod 10 = digit b" "?v mod 10 = digit c"
    using d three_digits [OF d(1-3) refl] by simp_all
  from from_bits_value [OF _ v(1), of "chunk_bits (numeric_chunks s) @ rest"] v(2-4) d 4
  show ?case by (simp add: Let_def del: of_nat_add of_nat_mult)
qed simp

lemma alnum_read_chunks:
  "list_all is_alnum s \<Longrightarrow> alnum_read (length s) (chunk_bits (alphanumeric_chunks s) @ rest) = s"
proof (induction s rule: alphanumeric_chunks.induct)
  case (2 a)
  then have "alnum a < 2 ^ 6" "alnum_chars ! alnum a = a" using alnum_less [of a] by auto
  with from_bits_value [of 6 "alnum a" rest] show ?case by simp
next
  case (3 a b s)
  then have d: "alnum a < 45" "alnum b < 45" "alnum_chars ! alnum a = a" "alnum_chars ! alnum b = b"
    using alnum_less by auto
  then have v: "alnum a * 45 + alnum b < 2 ^ 11" by simp
  from from_bits_value [OF _ v, of "chunk_bits (alphanumeric_chunks s) @ rest"] d 3
  show ?case by (simp add: Let_def del: of_nat_add of_nat_mult)
qed simp

lemma byte_read_chunks: "byte_read (length s) (chunk_bits (map (\<lambda>c. (8, ucast c)) s) @ rest) = s"
proof (induction s)
  case (Cons c s)
  have "from_bits (take 8 (to_bits 8 (ucast c) @ bs)) = unat c" for bs
    using from_bits_value [of 8 "unat c" bs] unat_less_u8 [of c] by simp
  with Cons show ?case by simp
qed simp

lemma mode_bits: "mode \<in> {MODE_NUMERIC, MODE_ALPHANUMERIC, MODE_BYTE} \<Longrightarrow> getModeBits version mode \<le> 16"
  by (auto simp: getModeBits_def MODE_NUMERIC_def MODE_ALPHANUMERIC_def MODE_BYTE_def Let_def)

section \<open>Properties\<close>

text \<open>
  C19. \<open>encodeDataCodewords\<close> appends exactly the bits of the segment to what its bucket holds, most
  significant bit first, and leaves the bucket's memory exactly when they do not fit.
\<close>

theorem encodeDataCodewords_appends:
  assumes "bucket b cap bs"
  shows "if length bs + length (chunk_bits (segment_chunks version s)) \<le> 8 * cap
    then \<exists>b'. encodeDataCodewords s (length s) version b = Some (text_mode s, b') \<and>
      bucket b' cap (bs @ chunk_bits (segment_chunks version s))
    else encodeDataCodewords s (length s) version b = None"
  using appends_bucket [OF assms, of "segment_chunks version s"]
  by (auto simp: encode_appends split: if_splits)

theorem encodeDataCodewords_appends_witness:
  "\<exists>b. encodeDataCodewords [49, 50] 2 1 (bb_initBuffer 3) = Some (0, b) \<and>
     bucket b 3 (chunk_bits (segment_chunks 1 [49, 50]))"
proof -
  have m: "text_mode [49, 50] = 0" by (simp add: text_mode_def is_num_def MODE_NUMERIC_def)
  have "length (chunk_bits (segment_chunks 1 [49, 50])) = 21"
    by (simp add: segment_chunks_def m MODE_NUMERIC_def getModeBits_def Let_def)
  then show ?thesis
    using encodeDataCodewords_appends [OF bucket_init [of 3], of 1 "[49, 50]"] by (simp add: m numeral_2_eq_2)
qed

section \<open>The segment of the standard\<close>

lemma is_num_chars: "is_num c \<longleftrightarrow> c \<in> set (take 10 alnum_chars)"
proof
  assume n: "is_num c"
  then have "unat c = 48 \<or> unat c = 49 \<or> unat c = 50 \<or> unat c = 51 \<or> unat c = 52 \<or> unat c = 53 \<or>
      unat c = 54 \<or> unat c = 55 \<or> unat c = 56 \<or> unat c = 57"
    by (simp add: is_num_def word_le_nat_alt) presburger
  moreover have "c = word_of_nat (unat c)" by simp
  ultimately show "c \<in> set (take 10 alnum_chars)" unfolding alnum_chars_def
    by (elim disjE) (simp_all only:, simp_all)
qed (auto simp: is_num_def alnum_chars_def)

lemma is_alnum_chars: "is_alnum c \<longleftrightarrow> c \<in> set alnum_chars"
proof
  assume "is_alnum c"
  then have "alnum c < 45" "alnum_chars ! alnum c = c" using alnum_less by blast+
  moreover have "length alnum_chars = 45" by (simp add: alnum_chars_def)
  ultimately show "c \<in> set alnum_chars" using nth_mem [of "alnum c" alnum_chars] by simp
next
  have "list_all is_alnum alnum_chars"
    by (simp add: alnum_chars_def is_alnum_def getAlphanumeric_def)
  then show "c \<in> set alnum_chars \<Longrightarrow> is_alnum c" by (simp add: list_all_iff)
qed

lemma indicator_mode: "segment_indicator s = 2 ^ text_mode s"
  by (simp add: segment_indicator_def text_mode_def list_all_iff is_num_chars is_alnum_chars
      MODE_NUMERIC_def MODE_ALPHANUMERIC_def MODE_BYTE_def)

lemma mode_width: "getModeBits version (text_mode s) = count_width version (segment_indicator s)"
  unfolding indicator_mode
  by (simp add: text_mode_def getModeBits_def count_width_def Let_def
      MODE_NUMERIC_def MODE_ALPHANUMERIC_def MODE_BYTE_def)

lemma length_numeric_chunks:
  "length (chunk_bits (numeric_chunks s)) = 10 * (length s div 3) + [0, 4, 7] ! (length s mod 3)"
proof (induction s rule: numeric_chunks.induct)
  case (4 a b c s)
  have "length (a # b # c # s) = length s + 3" by simp
  with 4 show ?case by (simp add: div_add_self2 del: list.size(4))
qed simp_all

lemma length_alphanumeric_chunks:
  "length (chunk_bits (alphanumeric_chunks s)) = 11 * (length s div 2) + 6 * (length s mod 2)"
  by (induction s rule: alphanumeric_chunks.induct) simp_all

lemma length_byte_chunks: "length (chunk_bits (map (\<lambda>c. (8, ucast c)) s)) = 8 * length s"
  by (induction s) simp_all

lemma segment_length_chunks: "length (chunk_bits (segment_chunks version s)) = segment_length version s"
proof -
  have "segment_indicator s = 1 \<longleftrightarrow> text_mode s = MODE_NUMERIC"
    "segment_indicator s = 2 \<longleftrightarrow> text_mode s = MODE_ALPHANUMERIC"
    by (simp_all add: indicator_mode text_mode_def MODE_NUMERIC_def MODE_ALPHANUMERIC_def MODE_BYTE_def)
  then show ?thesis
    by (simp add: segment_chunks_def segment_length_def mode_width length_numeric_chunks
        length_alphanumeric_chunks length_byte_chunks)
qed

lemma read_chunks:
  assumes fits: "length s < 2 ^ count_width version (segment_indicator s)"
  shows "read_segment version (chunk_bits (segment_chunks version s) @ rest) = Some s"
proof -
  let ?k = "count_width version (segment_indicator s)"
  have k: "?k \<le> 32" by (simp add: count_width_def nth_Cons')
  have ind: "from_bits (to_bits 4 (push_bit m 1)) = 2 ^ m" if "m < 4" for m
  proof -
    from that have "m = 0 \<or> m = 1 \<or> m = 2 \<or> m = 3" by auto
    then show ?thesis using from_bits_value [of 4 "2 ^ m" "[]"] by auto
  qed
  have count: "from_bits (to_bits ?k (word_of_nat (length s))) = length s"
    using from_bits_value [OF k fits, of "[]"] by simp
  have modes: "MODE_NUMERIC = 0" "MODE_ALPHANUMERIC = 1" "MODE_BYTE = 2"
    by (simp_all add: MODE_NUMERIC_def MODE_ALPHANUMERIC_def MODE_BYTE_def)
  have "text_mode s \<in> {0, 1, 2}" by (simp add: text_mode_def modes)
  then consider (n) "text_mode s = 0" | (a) "text_mode s = 1" | (b) "text_mode s = 2" by auto
  then show ?thesis
  proof cases
    case n
    then have "list_all is_num s" by (simp add: text_mode_def modes split: if_splits)
    with n count ind [of 0] num_read_chunks [of s rest] show ?thesis
      unfolding segment_chunks_def mode_width
      by (simp add: read_segment_def indicator_mode modes Let_def)
  next
    case a
    then have "list_all is_alnum s" by (simp add: text_mode_def modes split: if_splits)
    with a count ind [of 1] alnum_read_chunks [of s rest] show ?thesis
      unfolding segment_chunks_def mode_width
      by (simp add: read_segment_def indicator_mode modes Let_def)
  next
    case b
    with count ind [of 2] byte_read_chunks [of s rest] show ?thesis
      unfolding segment_chunks_def mode_width
      by (simp add: read_segment_def indicator_mode modes Let_def)
  qed
qed

text \<open>
  C18. Round trip of the data segment: with room in its bucket for the segment of the standard and a
  text whose length fits in the character count, \<open>encodeDataCodewords\<close> keeps the bits the bucket
  holds, and a reader of the standard, given the bytes of the bucket from there on, recovers the text
  in every mode and for every version.  The bucket has grown by exactly the length of the segment.
\<close>

theorem segment_roundtrip:
  assumes "bucket b cap bs" and "length bs + segment_length version s \<le> 8 * cap"
    and "length s < 2 ^ count_width version (segment_indicator s)"
  shows "\<exists>mode b'. encodeDataCodewords s (length s) version b = Some (mode, b') \<and>
    segment_indicator s = 2 ^ mode \<and> bitOffsetOrWidth b' = length bs + segment_length version s \<and>
    take (length bs) (bits_of (data b')) = bs \<and>
    read_segment version (drop (length bs) (bits_of (data b'))) = Some s"
proof -
  let ?seg = "chunk_bits (segment_chunks version s)"
  have len: "length ?seg = segment_length version s" by (rule segment_length_chunks)
  obtain b' where b': "appends (segment_chunks version s) b = Some b'" "bucket b' cap (bs @ ?seg)"
    using appends_bucket [OF assms(1), of "segment_chunks version s"] assms(2) by (auto simp: len)
  then have bits: "bits_of (data b') = bs @ ?seg @ replicate (8 * cap - length (bs @ ?seg)) False"
    and "bitOffsetOrWidth b' = length (bs @ ?seg)" by (simp_all add: bucket_def)
  moreover have "encodeDataCodewords s (length s) version b = Some (text_mode s, b')"
    using b'(1) by (simp add: encode_appends)
  moreover have "read_segment version (drop (length bs) (bits_of (data b'))) = Some s"
    unfolding bits using read_chunks [OF assms(3)] by simp
  ultimately show ?thesis by (simp add: len indicator_mode)
qed

text \<open>``Hi!'' in byte mode for version 1, into an empty bucket of 10 bytes.\<close>

theorem segment_roundtrip_witness:
  "\<exists>mode b'. encodeDataCodewords [72, 73, 33] 3 1 (bb_initBuffer 10) = Some (mode, b') \<and>
     read_segment 1 (bits_of (data b')) = Some [72, 73, 33]"
proof -
  have ind: "segment_indicator [72, 73, 33] = 4"
    by (simp add: segment_indicator_def alnum_chars_def)
  from segment_roundtrip [OF bucket_init [of 10], of 1 "[72, 73, 33]"] show ?thesis
    by (auto simp: segment_length_def ind count_width_def numeral_3_eq_3)
qed

end
