(* ===== verification/QrGrid.thy ===== *)
theory QrGrid
  imports QrBits
begin

text \<open>
  \<open>components/m5stack/src/utility/qrcode.c\<close>, second part: what is drawn on the grid of modules.  The
  two grids, the modules and the marks of the modules that are not data, are a pair.  Coordinates are
  naturals; where the code computes one in an \<open>uint8_t\<close> the reduction is written out.
\<close>

section \<open>Drawing\<close>

definition u8_of :: "int \<Rightarrow> nat" where
  "u8_of i = nat (i mod 256)"

definition mask_invert :: "nat \<Rightarrow> nat \<Rightarrow> nat \<Rightarrow> bool" where
  "mask_invert msk x y =
     (if msk = 0 then (x + y) mod 2 = 0
      else if msk = 1 then y mod 2 = 0
      else if msk = 2 then x mod 3 = 0
      else if msk = 3 then (x + y) mod 3 = 0
      else if msk = 4 then (x div 3 + y div 2) mod 2 = 0
      else if msk = 5 then x * y mod 2 + x * y mod 3 = 0
      else if msk = 6 then (x * y mod 2 + x * y mod 3) mod 2 = 0
      else if msk = 7 then ((x + y) mod 2 + x * y mod 3) mod 2 = 0
      else False)"

definition mask_module :: "BitBucket \<Rightarrow> nat \<Rightarrow> nat \<Rightarrow> nat \<Rightarrow> BitBucket \<Rightarrow> BitBucket option" where
  "mask_module isFunction msk y x modules =
     do {
       f \<leftarrow> bb_getBit x y isFunction;
       if f then Some modules else bb_invertBit x y (mask_invert msk x y) modules
     }"

definition applyMask :: "BitBucket \<Rightarrow> nat \<Rightarrow> BitBucket \<Rightarrow> BitBucket option" where
  "applyMask isFunction msk modules =
     (let sz = bitOffsetOrWidth modules mod 256
      in foldM (\<lambda>y. foldM (mask_module isFunction msk y) [0..<sz]) [0..<sz] modules)"

type_synonym grids = "BitBucket \<times> BitBucket"

definition setFunctionModule :: "nat \<Rightarrow> nat \<Rightarrow> bool \<Rightarrow> grids \<Rightarrow> grids option" where
  "setFunctionModule x y on g =
     do {
       modules \<leftarrow> bb_setBit x y on (fst g);
       isFunction \<leftarrow> bb_setBit x y True (snd g);
       Some (modules, isFunction)
     }"

definition grid_size :: "grids \<Rightarrow> nat" where
  "grid_size g = bitOffsetOrWidth (fst g) mod 256"

definition finder_module :: "nat \<Rightarrow> nat \<Rightarrow> int \<Rightarrow> int \<Rightarrow> grids \<Rightarrow> grids option" where
  "finder_module x y i j g =
     (let sz = grid_size g;
          dist = max \<bar>i\<bar> \<bar>j\<bar>;
          xx = int x + j; yy = int y + i
      in if 0 \<le> xx \<and> xx < int sz \<and> 0 \<le> yy \<and> yy < int sz
         then setFunctionModule (nat xx) (nat yy) (dist \<noteq> 2 \<and> dist \<noteq> 4) g
         else Some g)"

definition drawFinderPattern :: "nat \<Rightarrow> nat \<Rightarrow> grids \<Rightarrow> grids option" where
  "drawFinderPattern x y = foldM (\<lambda>i. foldM (finder_module x y i) [-4..4]) [-4..4]"

definition drawAlignmentPattern :: "nat \<Rightarrow> nat \<Rightarrow> grids \<Rightarrow> grids option" where
  "drawAlignmentPattern x y =
     foldM (\<lambda>i. foldM (\<lambda>j. setFunctionModule (u8_of (int x + j)) (u8_of (int y + i)) (max \<bar>i\<bar> \<bar>j\<bar> \<noteq> 1))
       [-2..2]) [-2..2]"

text \<open>The 15 bits of the format information and the 18 bits of the version information.\<close>

definition format_data :: "nat \<Rightarrow> nat \<Rightarrow> u32" where
  "format_data ecc msk =
     (let d = push_bit 3 (word_of_nat ecc) OR word_of_nat msk;
          rem = fold (\<lambda>i rem. push_bit 1 rem XOR drop_bit 9 rem * 0x537) [0..<10] d
      in (push_bit 10 d OR rem) XOR 0x5412)"

definition version_data :: "nat \<Rightarrow> u32" where
  "version_data version =
     (let rem = fold (\<lambda>i rem. push_bit 1 rem XOR drop_bit 11 rem * 0x1F25) [0..<12] (word_of_nat version)
      in push_bit 12 (word_of_nat version) OR rem)"

definition is_set :: "u32 \<Rightarrow> nat \<Rightarrow> bool" where
  "is_set d i \<longleftrightarrow> drop_bit i d AND 1 \<noteq> 0"

definition drawFormatBits :: "nat \<Rightarrow> nat \<Rightarrow> grids \<Rightarrow> grids option" where
  "drawFormatBits ecc msk g =
     (let sz = int (grid_size g);
          d = format_data ecc msk
      in do {
        g \<leftarrow> foldM (\<lambda>i. setFunctionModule 8 i (is_set d i)) [0..<6] g;
        g \<leftarrow> setFunctionModule 8 7 (is_set d 6) g;
        g \<leftarrow> setFunctionModule 8 8 (is_set d 7) g;
        g \<leftarrow> setFunctionModule 7 8 (is_set d 8) g;
        g \<leftarrow> foldM (\<lambda>i. setFunctionModule (14 - i) 8 (is_set d i)) [9..<15] g;
        g \<leftarrow> foldM (\<lambda>i. setFunctionModule (u8_of (sz - 1 - int i)) 8 (is_set d i)) [0..<8] g;
        g \<leftarrow> foldM (\<lambda>i. setFunctionModule 8 (u8_of (sz - 15 + int i)) (is_set d i)) [8..<15] g;
        setFunctionModule 8 (u8_of (sz - 8)) True g
      })"

definition drawVersion :: "nat \<Rightarrow> grids \<Rightarrow> grids option" where
  "drawVersion version g =
     (if version < 7 then Some g
      else
        let sz = int (grid_size g); d = version_data version
        in foldM (\<lambda>i g.
             let a = u8_of (sz - 11 + int (i mod 3)); b = i div 3
             in do { g \<leftarrow> setFunctionModule a b (is_set d i) g; setFunctionModule b a (is_set d i) g })
           [0..<18] g)"

text \<open>The positions of the alignment patterns, along either axis: the array the code fills from its end.\<close>

definition alignment_step :: "nat \<Rightarrow> nat" where
  "alignment_step version =
     (let alignCount = version div 7 + 2
      in if version \<noteq> 32 then (version * 4 + alignCount * 2 + 1) div (2 * alignCount - 2) * 2 else 26)"

definition alignPosition :: "nat \<Rightarrow> nat list" where
  "alignPosition version =
     (let alignCount = version div 7 + 2; sz = version * 4 + 17
      in 6 # rev (map (\<lambda>i. u8_of (int sz - 7 - int (i * alignment_step version))) [0..<alignCount - 1]))"

definition drawFunctionPatterns :: "nat \<Rightarrow> nat \<Rightarrow> grids \<Rightarrow> grids option" where
  "drawFunctionPatterns version ecc g =
     (let sz = grid_size g in do {
       g \<leftarrow> foldM (\<lambda>i g. do {
           g \<leftarrow> setFunctionModule 6 i (i mod 2 = 0) g;
           setFunctionModule i 6 (i mod 2 = 0) g }) [0..<sz] g;
       g \<leftarrow> drawFinderPattern 3 3 g;
       g \<leftarrow> drawFinderPattern (u8_of (int sz - 4)) 3 g;
       g \<leftarrow> drawFinderPattern 3 (u8_of (int sz - 4)) g;
       g \<leftarrow> (if version > 1 then
           let alignCount = version div 7 + 2
           in foldM (\<lambda>i. foldM (\<lambda>j g.
                if i = 0 \<and> j = 0 \<or> i = 0 \<and> j = alignCount - 1 \<or> i = alignCount - 1 \<and> j = 0 then Some g
                else drawAlignmentPattern (alignPosition version ! i) (alignPosition version ! j) g)
              [0..<alignCount]) [0..<alignCount] g
         else Some g);
       g \<leftarrow> drawFormatBits ecc 0 g;
       drawVersion version g
     })"

text \<open>
  The zigzag over pairs of columns.  The state is the index of the next bit and the modules; \<open>right\<close> is
  the right column of the pair.
\<close>

definition draw_codeword_module ::
    "BitBucket \<Rightarrow> BitBucket \<Rightarrow> int \<Rightarrow> nat \<Rightarrow> nat \<Rightarrow> nat \<times> BitBucket \<Rightarrow> (nat \<times> BitBucket) option" where
  "draw_codeword_module isFunction codewords right vert j = (\<lambda>(i, modules).
     (let sz = bitOffsetOrWidth modules mod 256;
          x = u8_of (right - int j);
          upwards = ((right AND 2 = 0) \<noteq> (x < 6));
          y = (if upwards then sz - 1 - vert else vert)
      in do {
        f \<leftarrow> bb_getBit x y isFunction;
        if \<not> f \<and> i < bitOffsetOrWidth codewords then do {
          c \<leftarrow> rd (data codewords) (i div 8);
          modules \<leftarrow> bb_setBit x y (drop_bit (7 - i mod 8) c AND 1 \<noteq> 0) modules;
          Some (i + 1, modules)
        }
        else Some (i, modules)
      }))"

function draw_columns ::
    "BitBucket \<Rightarrow> BitBucket \<Rightarrow> nat \<Rightarrow> int \<Rightarrow> nat \<times> BitBucket \<Rightarrow> (nat \<times> BitBucket) option" where
  "draw_columns isFunction codewords sz right st =
     (if right \<ge> 1 then
        let right = (if right = 6 then 5 else right)
        in do {
          st \<leftarrow> foldM (\<lambda>vert. foldM (draw_codeword_module isFunction codewords right vert) [0..<2]) [0..<sz] st;
          draw_columns isFunction codewords sz (right - 2) st
        }
      else Some st)"
  by pat_completeness auto

termination
  by (relation "measure (\<lambda>(f, c, sz, right, st). nat right)") auto

declare draw_columns.simps [simp del]

definition drawCodewords :: "BitBucket \<Rightarrow> BitBucket \<Rightarrow> BitBucket \<Rightarrow> BitBucket option" where
  "drawCodewords isFunction codewords modules =
     (let sz = bitOffsetOrWidth modules mod 256
      in map_option snd (draw_columns isFunction codewords sz (int sz - 1) (0, modules)))"

section \<open>The grid as a function of coordinates\<close>

definition grid :: "BitBucket \<Rightarrow> nat \<Rightarrow> bool" where
  "grid b n \<longleftrightarrow> bitOffsetOrWidth b = n \<and> length (data b) = bb_getGridSizeBytes n"

definition cell :: "BitBucket \<Rightarrow> nat \<Rightarrow> nat \<Rightarrow> bool" where
  "cell b x y = bits_of (data b) ! (y * bitOffsetOrWidth b + x)"

text \<open>One cell is set and the others are as they were.\<close>

definition set_cell :: "nat \<Rightarrow> nat \<Rightarrow> bool \<Rightarrow> BitBucket \<Rightarrow> BitBucket \<Rightarrow> bool" where
  "set_cell x y v b b' \<longleftrightarrow>
     bits_of (data b') = (bits_of (data b))[y * bitOffsetOrWidth b + x := v] \<and>
     bitOffsetOrWidth b' = bitOffsetOrWidth b \<and> capacityBytes b' = capacityBytes b \<and> length (data b') = length (data b)"

lemma grid_offset:
  assumes "grid b n" "x < n" "y < n"
  shows "(y * n + x) div 8 < length (data b)" and "y * n + x < 8 * length (data b)"
proof -
  have "y * n + x < n * n"
  proof -
    have "y * n + x < (y + 1) * n" using assms(2) by simp
    also have "\<dots> \<le> n * n" using assms(3) by (intro mult_le_mono1) simp
    finally show ?thesis .
  qed
  moreover have "n * n \<le> 8 * ((n * n + 7) div 8)" by linarith
  ultimately show "y * n + x < 8 * length (data b)"
    using assms(1) by (simp add: grid_def bb_getGridSizeBytes_def)
  then show "(y * n + x) div 8 < length (data b)" by (simp add: less_mult_imp_div_less mult.commute)
qed

lemma bb_mask_bit: "bit (bb_mask o1) j \<longleftrightarrow> j = 7 - o1 mod 8"
  by (auto simp: bb_mask_def bit_simps)

lemma and_bb_mask: "c AND bb_mask o1 \<noteq> 0 \<longleftrightarrow> bit c (7 - o1 mod 8)"
proof
  assume "c AND bb_mask o1 \<noteq> 0"
  then obtain j where "bit (c AND bb_mask o1) j" by (metis bit_0_eq bot_apply bit_eqI bot_bool_def)
  then show "bit c (7 - o1 mod 8)" by (auto simp: bit_and_iff bb_mask_bit)
next
  assume "bit c (7 - o1 mod 8)"
  then have "bit (c AND bb_mask o1) (7 - o1 mod 8)" by (simp add: bit_and_iff bb_mask_bit)
  then show "c AND bb_mask o1 \<noteq> 0" by auto
qed

lemma getBit:
  assumes "grid b n" "x < n" "y < n"
  shows "bb_getBit x y b = Some (cell b x y)"
  using grid_offset [OF assms] assms(1)
  by (simp add: bb_getBit_def Let_def grid_def cmem cell_def and_bb_mask bits_of_nth)

lemma set_mask_bits:
  "\<forall>j<8. bit (if v then c OR bb_mask o1 else c AND NOT (bb_mask o1)) j = (if j = 7 - o1 mod 8 then v else bit c j)"
  by (auto simp: bit_simps bb_mask_bit)

lemma setBit:
  assumes "grid b n" "x < n" "y < n"
  shows "\<exists>b'. bb_setBit x y v b = Some b' \<and> set_cell x y v b b'"
proof -
  have "bits_of ((data b)[(y * n + x) div 8 :=
      (if v then data b ! ((y * n + x) div 8) OR bb_mask (y * n + x)
       else data b ! ((y * n + x) div 8) AND NOT (bb_mask (y * n + x)))]) = (bits_of (data b))[y * n + x := v]"
    by (rule bits_of_update [OF grid_offset(2) [OF assms] set_mask_bits])
  then show ?thesis
    using grid_offset [OF assms] assms(1)
    by (simp add: bb_setBit_def Let_def grid_def cmem set_cell_def)
qed

lemma invertBit:
  assumes "grid b n" "x < n" "y < n"
  shows "\<exists>b'. bb_invertBit x y v b = Some b' \<and> set_cell x y (cell b x y \<noteq> v) b b'"
proof -
  have "bits_of ((data b)[(y * n + x) div 8 :=
      (if cell b x y \<noteq> v then data b ! ((y * n + x) div 8) OR bb_mask (y * n + x)
       else data b ! ((y * n + x) div 8) AND NOT (bb_mask (y * n + x)))]) = (bits_of (data b))[y * n + x := (cell b x y \<noteq> v)]"
    by (rule bits_of_update [OF grid_offset(2) [OF assms] set_mask_bits])
  then show ?thesis
    using grid_offset [OF assms] assms(1)
    by (simp add: bb_invertBit_def Let_def grid_def cmem set_cell_def and_bb_mask cell_def bits_of_nth)
qed

lemma offset_inj: "x < n \<Longrightarrow> x' < n \<Longrightarrow> y * n + x = y' * n + x' \<longleftrightarrow> x = x' \<and> y = (y' :: nat)"
proof
  assume b: "x < n" "x' < n" and e: "y * n + x = y' * n + x'"
  from b have "(y * n + x) div n = y" "(y' * n + x') div n = y'"
    "(y * n + x) mod n = x" "(y' * n + x') mod n = x'" by simp_all
  then show "x = x' \<and> y = y'" unfolding e by metis
qed simp

lemma set_cell_grid: "set_cell x y v b b' \<Longrightarrow> grid b' n = grid b n"
  by (simp add: set_cell_def grid_def)

lemma set_cell_cell:
  assumes "set_cell x y v b b'" "grid b n" "x < n" "y < n" "x' < n" "y' < n"
  shows "cell b' x' y' = (if x' = x \<and> y' = y then v else cell b x' y')"
proof -
  have "y * n + x < length (bits_of (data b))" using grid_offset(2) [OF assms(2-4)] by simp
  then show ?thesis
    using assms offset_inj [of x n x' y y']
    by (auto simp: set_cell_def cell_def grid_def nth_list_update)
qed

text \<open>The bits behind the last module, and the fields, of two grids agree.\<close>

definition same_frame :: "BitBucket \<Rightarrow> BitBucket \<Rightarrow> bool" where
  "same_frame b b' \<longleftrightarrow>
     bitOffsetOrWidth b' = bitOffsetOrWidth b \<and> capacityBytes b' = capacityBytes b \<and>
     length (data b') = length (data b) \<and>
     drop (bitOffsetOrWidth b * bitOffsetOrWidth b) (bits_of (data b')) =
     drop (bitOffsetOrWidth b * bitOffsetOrWidth b) (bits_of (data b))"

lemma same_frame_refl [simp]: "same_frame b b"
  by (simp add: same_frame_def)

lemma same_frame_trans: "same_frame a b \<Longrightarrow> same_frame b c \<Longrightarrow> same_frame a c"
  by (simp add: same_frame_def)

lemma same_frame_grid: "same_frame b b' \<Longrightarrow> grid b' n = grid b n"
  by (simp add: same_frame_def grid_def)

lemma module_index: "x < n \<Longrightarrow> y < n \<Longrightarrow> y * n + x < n * (n :: nat)"
proof -
  assume "x < n" "y < n"
  then have "y * n + x < (y + 1) * n" by simp
  also have "\<dots> \<le> n * n" using \<open>y < n\<close> by (intro mult_le_mono1) simp
  finally show ?thesis .
qed

lemma set_cell_frame: "set_cell x y v b b' \<Longrightarrow> grid b n \<Longrightarrow> x < n \<Longrightarrow> y < n \<Longrightarrow> same_frame b b'"
  using module_index [of x n y] by (simp add: set_cell_def same_frame_def grid_def drop_update_cancel)

lemma set_cell_same: "grid b n \<Longrightarrow> set_cell x y (cell b x y) b b"
  by (simp add: set_cell_def cell_def)

lemma grid_eqI:
  assumes "same_frame b b'" "grid b n" "\<And>x y. x < n \<Longrightarrow> y < n \<Longrightarrow> cell b' x y = cell b x y"
  shows "b' = b"
proof -
  have "bits_of (data b') ! k = bits_of (data b) ! k" if "k < n * n" for k
  proof -
    have "0 < n" using that by (cases n) simp_all
    then have "k mod n < n" "k div n < n" using that by (simp_all add: less_mult_imp_div_less)
    from assms(3) [OF this] show ?thesis
      using assms(1,2) by (simp add: cell_def same_frame_def grid_def)
  qed
  then have "take (n * n) (bits_of (data b')) = take (n * n) (bits_of (data b))"
    using assms(1) by (intro nth_take_lemma) (auto simp: same_frame_def grid_def bb_getGridSizeBytes_def assms(2) [unfolded grid_def bb_getGridSizeBytes_def])
  with assms(1,2) have "bits_of (data b') = bits_of (data b)"
    unfolding same_frame_def grid_def by (metis append_take_drop_id)
  with assms(1) have "data b' = data b" by (simp add: same_frame_def bits_of_inject)
  with assms(1) show ?thesis by (cases b, cases b') (simp add: same_frame_def)
qed

text \<open>A loop that writes one module in each step, every one at most once.\<close>

lemma grid_loop:
  assumes "grid b n" and "distinct (map pos L)" and "\<And>p. p \<in> set L \<Longrightarrow> fst (pos p) < n \<and> snd (pos p) < n"
    and body: "\<And>p c. p \<in> set L \<Longrightarrow> grid c n \<Longrightarrow>
      \<exists>c'. f p c = Some c' \<and> set_cell (fst (pos p)) (snd (pos p)) (w (pos p) (cell c (fst (pos p)) (snd (pos p)))) c c'"
  shows "\<exists>b'. foldM f L b = Some b' \<and> same_frame b b' \<and>
    (\<forall>x<n. \<forall>y<n. cell b' x y = (if (x, y) \<in> pos ` set L then w (x, y) (cell b x y) else cell b x y))"
  using assms
proof (induction L arbitrary: b)
  case (Cons p L)
  obtain x y where p: "pos p = (x, y)" by (cases "pos p")
  have xy: "x < n" "y < n" using Cons.prems(3) [of p] p by simp_all
  obtain c where c: "f p b = Some c" "set_cell x y (w (x, y) (cell b x y)) b c"
    using Cons.prems(4) [of p b] Cons.prems(1) p by auto
  have "grid c n" using c(2) Cons.prems(1) by (simp add: set_cell_grid)
  moreover have "distinct (map pos L)" using Cons.prems(2) by simp
  ultimately obtain b' where b': "foldM f L c = Some b'" "same_frame c b'"
    "\<forall>x<n. \<forall>y<n. cell b' x y = (if (x, y) \<in> pos ` set L then w (x, y) (cell c x y) else cell c x y)"
    using Cons.IH [of c] Cons.prems(3,4) by auto
  have "same_frame b b'"
    using set_cell_frame [OF c(2) Cons.prems(1) xy] b'(2) same_frame_trans by blast
  moreover have "(x, y) \<notin> pos ` set L" using Cons.prems(2) p by (auto simp: image_iff dest: sym)
  ultimately show ?case
    using c(1) b'(1,3) p set_cell_cell [OF c(2) Cons.prems(1) xy] by (auto simp: image_iff)
qed auto

section \<open>Masks\<close>

definition masked :: "BitBucket \<Rightarrow> nat \<Rightarrow> nat \<times> nat \<Rightarrow> bool \<Rightarrow> bool" where
  "masked isFunction msk = (\<lambda>(x, y) v. if cell isFunction x y then v else v \<noteq> mask_invert msk x y)"

lemma mask_module_cell:
  assumes "grid f n" "grid c n" "x < n" "y < n"
  shows "\<exists>c'. mask_module f msk y x c = Some c' \<and> set_cell x y (masked f msk (x, y) (cell c x y)) c c'"
proof (cases "cell f x y")
  case True
  then show ?thesis using assms set_cell_same [OF assms(2)] by (simp add: mask_module_def getBit masked_def)
next
  case False
  then show ?thesis
    using assms invertBit [OF assms(2-4), of "mask_invert msk x y"] by (simp add: mask_module_def getBit masked_def)
qed

lemma applyMask_cells:
  assumes "grid f n" "grid m n" "n < 256"
  shows "\<exists>m'. applyMask f msk m = Some m' \<and> same_frame m m' \<and>
    (\<forall>x<n. \<forall>y<n. cell m' x y = masked f msk (x, y) (cell m x y))"
proof -
  let ?L = "List.product [0..<n] [0..<n]"
  let ?pos = "\<lambda>(y, x). (x, y)" 
  have "\<exists>m'. foldM (\<lambda>(y, x). mask_module f msk y x) ?L m = Some m' \<and> same_frame m m' \<and>
      (\<forall>x<n. \<forall>y<n. cell m' x y = (if (x, y) \<in> ?pos ` set ?L then masked f msk (x, y) (cell m x y) else cell m x y))"
  proof (rule grid_loop [where pos = ?pos])
    show "distinct (map ?pos ?L)" by (auto simp: distinct_map distinct_product inj_on_def)
  next
    fix p c assume "p \<in> set ?L" and c: "grid c n"
    then obtain y x where p: "p = (y, x)" "x < n" "y < n" by auto
    then show "\<exists>c'. (\<lambda>(y, x). mask_module f msk y x) p c = Some c' \<and>
        set_cell (fst (?pos p)) (snd (?pos p)) (masked f msk (?pos p) (cell c (fst (?pos p)) (snd (?pos p)))) c c'"
      using mask_module_cell [OF assms(1) c p(2,3)] by simp
  qed (use assms in auto)
  then obtain m' where "foldM (\<lambda>(y, x). mask_module f msk y x) ?L m = Some m'" "same_frame m m'"
    and cells: "\<forall>x<n. \<forall>y<n. cell m' x y = (if (x, y) \<in> ?pos ` set ?L then masked f msk (x, y) (cell m x y) else cell m x y)"
    by blast
  moreover have "(x, y) \<in> ?pos ` set ?L" if "x < n" "y < n" for x y
    using that by (auto simp: image_iff)
  ultimately show ?thesis
    using assms(2,3) by (simp add: applyMask_def grid_def foldM_product)
qed

lemma applyMask_twice:
  assumes "grid f n" "grid m n" "n < 256"
  shows "\<exists>m'. applyMask f msk m = Some m' \<and> applyMask f msk m' = Some m"
proof -
  obtain m' where m': "applyMask f msk m = Some m'" "same_frame m m'"
    "\<forall>x<n. \<forall>y<n. cell m' x y = masked f msk (x, y) (cell m x y)"
    using applyMask_cells [OF assms] by blast
  then have "grid m' n" using assms(2) by (simp add: same_frame_grid)
  then obtain m'' where m'': "applyMask f msk m' = Some m''" "same_frame m' m''"
    "\<forall>x<n. \<forall>y<n. cell m'' x y = masked f msk (x, y) (cell m' x y)"
    using applyMask_cells [OF assms(1) _ assms(3)] by blast
  have "m'' = m"
    by (rule grid_eqI [OF same_frame_trans [OF m'(2) m''(2)] assms(2)]) (use m'(3) m''(3) in \<open>auto simp: masked_def\<close>)
  with m'(1) m''(1) show ?thesis by blast
qed

end
