(* ===== verification/QrFormat.thy ===== *)
theory QrFormat
  imports QrGrid
begin

text \<open>
  What the drawing of \<open>qrcode.c\<close> leaves on the grid: sequences of function modules, the two copies of
  the format information and that a decoder gets it back, and the marks of the function patterns.
\<close>

section \<open>Sequences of function modules\<close>

type_synonym ops = "((nat \<times> nat) \<times> bool) list"

definition draw :: "ops \<Rightarrow> grids \<Rightarrow> grids option" where
  "draw = foldM (\<lambda>((x, y), v). setFunctionModule x y v)"

definition grids_ok :: "grids \<Rightarrow> nat \<Rightarrow> bool" where
  "grids_ok g n \<longleftrightarrow> grid (fst g) n \<and> grid (snd g) n"

text \<open>\<open>drawn ops g g'\<close>: the last write to a module decides its value, and each write marks it.\<close>

definition drawn :: "nat \<Rightarrow> ops \<Rightarrow> grids \<Rightarrow> grids \<Rightarrow> bool" where
  "drawn n ops g g' \<longleftrightarrow>
     same_frame (fst g) (fst g') \<and> same_frame (snd g) (snd g') \<and>
     (\<forall>x<n. \<forall>y<n. cell (fst g') x y = (case map_of (rev ops) (x, y) of Some v \<Rightarrow> v | None \<Rightarrow> cell (fst g) x y) \<and>
       cell (snd g') x y = (cell (snd g) x y \<or> (x, y) \<in> fst ` set ops))"

lemma drawn_ok: "drawn n ops g g' \<Longrightarrow> grids_ok g' n = grids_ok g n"
  by (auto simp: drawn_def grids_ok_def dest: same_frame_grid [of _ _ n])

lemma draw_simps [simp]:
  "draw [] = Some"
  "draw (((x, y), v) # ops) g = Option.bind (setFunctionModule x y v g) (draw ops)"
  by (simp_all add: draw_def fun_eq_iff)

lemma draw_append: "draw (as @ bs) g = Option.bind (draw as g) (draw bs)"
  by (simp add: draw_def foldM_append)

lemma draw_seq:
  "draw (as @ bs) = (\<lambda>g. Option.bind (draw as g) (draw bs))"
  "draw (((x, y), v) # as) = (\<lambda>g. Option.bind (setFunctionModule x y v g) (draw as))"
  "draw [] = Some" "Option.bind o1 Some = o1"
  by (simp_all add: draw_append fun_eq_iff)

lemma foldM_draw: "foldM (\<lambda>i. setFunctionModule (x i) (y i) (v i)) is g = draw (map (\<lambda>i. ((x i, y i), v i)) is) g"
  by (simp add: draw_def foldM_map)

lemma draw_drawn:
  assumes "grids_ok g n" and "\<And>x y. (x, y) \<in> fst ` set ops \<Longrightarrow> x < n \<and> y < n"
  shows "\<exists>g'. draw ops g = Some g' \<and> drawn n ops g g'"
  using assms
proof (induction ops arbitrary: g)
  case Nil
  then show ?case by (simp add: drawn_def)
next
  case (Cons a ops)
  obtain x y v where a: "a = ((x, y), v)" by (metis prod.collapse)
  have xy: "x < n" "y < n" using Cons.prems(2) [of x y] a by simp_all
  have g: "grid (fst g) n" "grid (snd g) n" using Cons.prems(1) by (simp_all add: grids_ok_def)
  obtain m where m: "bb_setBit x y v (fst g) = Some m" "set_cell x y v (fst g) m"
    using setBit [OF g(1) xy] by blast
  obtain f where f: "bb_setBit x y True (snd g) = Some f" "set_cell x y True (snd g) f"
    using setBit [OF g(2) xy] by blast
  have "grids_ok (m, f) n" using g m(2) f(2) by (simp add: grids_ok_def set_cell_grid)
  moreover have "\<And>x y. (x, y) \<in> fst ` set ops \<Longrightarrow> x < n \<and> y < n" using Cons.prems(2) by auto
  ultimately obtain g' where g': "draw ops (m, f) = Some g'" "drawn n ops (m, f) g'"
    using Cons.IH [of "(m, f)"] by blast
  have "cell (fst g') x' y' = (case map_of (rev (a # ops)) (x', y') of Some v \<Rightarrow> v | None \<Rightarrow> cell (fst g) x' y') \<and>
      cell (snd g') x' y' = (cell (snd g) x' y' \<or> (x', y') \<in> fst ` set (a # ops))" if "x' < n" "y' < n" for x' y'
    using g'(2) that a set_cell_cell [OF m(2) g(1) xy that] set_cell_cell [OF f(2) g(2) xy that]
    by (auto simp: drawn_def map_add_def split: option.splits)
  moreover have "same_frame (fst g) (fst g')" "same_frame (snd g) (snd g')"
    using set_cell_frame [OF m(2) g(1) xy] set_cell_frame [OF f(2) g(2) xy] g'(2)
    by (auto simp: drawn_def intro: same_frame_trans)
  ultimately show ?case using a m f g' by (auto simp: drawn_def setFunctionModule_def)
qed

section \<open>Format information\<close>

text \<open>The order of the two copies: the module that holds bit \<open>i\<close>.\<close>

definition format_first :: "nat \<Rightarrow> nat \<times> nat" where
  "format_first i =
     (if i < 6 then (8, i) else if i = 6 then (8, 7) else if i = 7 then (8, 8) else if i = 8 then (7, 8) else (14 - i, 8))"

definition format_second :: "nat \<Rightarrow> nat \<Rightarrow> nat \<times> nat" where
  "format_second n i = (if i < 8 then (n - 1 - i, 8) else (8, n - 15 + i))"

definition format_ops :: "nat \<Rightarrow> nat \<Rightarrow> nat \<Rightarrow> ops" where
  "format_ops n ecc msk =
     map (\<lambda>i. (format_first i, bit (format_data ecc msk) i)) [0..<15] @
     map (\<lambda>i. (format_second n i, bit (format_data ecc msk) i)) [0..<15] @ [((8, n - 8), True)]"

lemma is_set_bit: "is_set d i \<longleftrightarrow> bit d i"
proof -
  have "drop_bit i d AND 1 = (if bit d i then 1 else 0)"
    by (rule bit_word_eqI) (auto simp: bit_simps intro!: gr0I)
  then show ?thesis by (simp add: is_set_def)
qed

lemma u8_of_small: "0 \<le> i \<Longrightarrow> i < 256 \<Longrightarrow> u8_of i = nat i"
  by (simp add: u8_of_def)

lemma grid_size_ok: "grids_ok g n \<Longrightarrow> n < 256 \<Longrightarrow> grid_size g = n"
  by (simp add: grid_size_def grids_ok_def grid_def)

lemma setFunctionModule_ok: "setFunctionModule x y v g = Some g' \<Longrightarrow> grid_size g' = grid_size g"
  by (auto simp: setFunctionModule_def grid_size_def bb_setBit_def Let_def split: Option.bind_splits)

lemma format_first_list:
  "map (\<lambda>i. (format_first i, v i)) [0..<15] =
     map (\<lambda>i. ((8, i), v i)) [0..<6] @ [((8, 7), v 6), ((8, 8), v 7), ((7, 8), v 8)] @ map (\<lambda>i. ((14 - i, 8), v i)) [9..<15]"
  by (simp add: upt_conv_Cons format_first_def eval_nat_numeral)

lemma format_second_list:
  assumes "15 \<le> n" "n < 256"
  shows "map (\<lambda>i. (format_second n i, v i)) [0..<15] =
     map (\<lambda>i. ((u8_of (int n - 1 - int i), 8), v i)) [0..<8] @ map (\<lambda>i. ((8, u8_of (int n - 15 + int i)), v i)) [8..<15]"
proof -
  have "[0..<15] = [0..<8] @ [8..<15 :: nat]" by (simp add: upt_conv_Cons)
  moreover have "(format_second n i, v i) = ((u8_of (int n - 1 - int i), 8), v i)" if "i \<in> set [0..<8]" for i
    using that assms by (simp add: format_second_def u8_of_small nat_diff_distrib')
  moreover have "(format_second n i, v i) = ((8, u8_of (int n - 15 + int i)), v i)" if "i \<in> set [8..<15]" for i
    using that assms by (auto simp: format_second_def u8_of_small nat_diff_distrib' nat_add_distrib)
  ultimately show ?thesis by simp
qed

lemma drawFormatBits_ops:
  assumes "grids_ok g n" "15 \<le> n" "n < 256"
  shows "drawFormatBits ecc msk g = draw (format_ops n ecc msk) g"
proof -
  have "u8_of (int n - 8) = n - 8" using assms by (simp add: u8_of_small nat_diff_distrib')
  then show ?thesis
    unfolding drawFormatBits_def Let_def format_ops_def format_first_list format_second_list [OF assms(2,3)]
      grid_size_ok [OF assms(1,3)]
    by (simp only: foldM_draw draw_seq is_set_bit append_Cons append_Nil append_assoc Option.bind_assoc)
qed

lemma format_ops_positions:
  assumes "21 \<le> n" and "(x, y) \<in> fst ` set (format_ops n ecc msk)"
  shows "x < n \<and> y < n"
  using assms by (auto simp: format_ops_def format_first_def format_second_def split: if_splits)

lemma format_ops_distinct:
  assumes "21 \<le> n"
  shows "distinct (map fst (format_ops n ecc msk))"
proof -
  have "inj_on format_first {0..<15}"
    by (rule inj_onI) (auto simp: format_first_def split: if_splits)
  moreover have "inj_on (format_second n) {0..<15}"
    using assms by (intro inj_onI) (auto simp: format_second_def split: if_splits)
  moreover have "format_first i \<noteq> format_second n j" if "i < 15" "j < 15" for i j
    using that assms by (auto simp: format_first_def format_second_def split: if_splits)
  moreover have "format_first i \<noteq> (8, n - 8)" "format_second n i \<noteq> (8, n - 8)" if "i < 15" for i
    using that assms by (auto simp: format_first_def format_second_def split: if_splits)
  ultimately show ?thesis
    unfolding format_ops_def by (auto simp del: upt_Suc upt_rec_numeral simp: distinct_map comp_def; metis)
qed

lemma drawFormatBits_drawn:
  assumes "grids_ok g n" "21 \<le> n" "n < 256"
  shows "\<exists>g'. drawFormatBits ecc msk g = Some g' \<and> drawn n (format_ops n ecc msk) g g'"
  using draw_drawn [OF assms(1) format_ops_positions [OF assms(2)], of "format_ops n ecc msk"] assms
  by (simp add: drawFormatBits_ops)

lemma drawn_value:
  assumes "drawn n ops g g'" "distinct (map fst ops)" "((x, y), v) \<in> set ops" "x < n" "y < n"
  shows "cell (fst g') x y = v"
proof -
  have "map_of (rev ops) (x, y) = Some v"
    using assms(2,3) by (intro map_of_is_SomeI) (auto simp flip: rev_map)
  then show ?thesis using assms by (auto simp: drawn_def)
qed

lemma format_copies:
  assumes "drawn n (format_ops n ecc msk) g g'" "21 \<le> n" "i < 15"
  shows "cell (fst g') (fst (format_first i)) (snd (format_first i)) = bit (format_data ecc msk) i"
    and "cell (fst g') (fst (format_second n i)) (snd (format_second n i)) = bit (format_data ecc msk) i"
proof -
  have stored: "cell (fst g') (fst p) (snd p) = v" if "(p, v) \<in> set (format_ops n ecc msk)" for p v
  proof (rule drawn_value [OF assms(1) format_ops_distinct [OF assms(2)]])
    show "((fst p, snd p), v) \<in> set (format_ops n ecc msk)" using that by simp
    show "fst p < n" "snd p < n"
      using format_ops_positions [OF assms(2), of "fst p" "snd p"] imageI [OF that, of fst] by simp_all
  qed
  have "(format_first i, bit (format_data ecc msk) i) \<in> set (format_ops n ecc msk)"
    "(format_second n i, bit (format_data ecc msk) i) \<in> set (format_ops n ecc msk)"
    using assms(3) by (auto simp: format_ops_def simp del: upt_Suc upt_rec_numeral)
  from this [THEN stored] show "cell (fst g') (fst (format_first i)) (snd (format_first i)) = bit (format_data ecc msk) i"
    "cell (fst g') (fst (format_second n i)) (snd (format_second n i)) = bit (format_data ecc msk) i"
    by simp_all
qed

section \<open>The code of the format information\<close>

text \<open>Up to the mask of the standard, the fifteen bits are linear in the five.\<close>

definition pick :: "bool \<Rightarrow> u32 \<Rightarrow> u32" where
  "pick p g = (if p then g else 0)"

definition format_code :: "u8 \<Rightarrow> u32" where
  "format_code d =
     pick (bit d 0) 0x537 XOR pick (bit d 1) 0xA6E XOR pick (bit d 2) 0x11EB XOR
     pick (bit d 3) 0x23D6 XOR pick (bit d 4) 0x429B"

lemma pick_xor: "pick (p \<noteq> q) g = pick p g XOR pick q g"
  by (simp add: pick_def)

lemma format_code_xor: "format_code (a XOR b) = format_code a XOR format_code b"
  unfolding format_code_def bit_xor_iff pick_xor by (simp only: xor.assoc xor.left_commute xor.commute)

definition format_pairs :: "(nat \<times> nat) list" where
  "format_pairs = List.product [0, 1, 2, 3] [0, 1, 2, 3, 4, 5, 6, 7]"

lemma format_pairs_in: "ecc < 4 \<Longrightarrow> msk < 8 \<Longrightarrow> (ecc, msk) \<in> set format_pairs"
proof -
  assume "ecc < 4" "msk < 8"
  then have "ecc = 0 \<or> ecc = 1 \<or> ecc = 2 \<or> ecc = 3"
    "msk = 0 \<or> msk = 1 \<or> msk = 2 \<or> msk = 3 \<or> msk = 4 \<or> msk = 5 \<or> msk = 6 \<or> msk = 7" by linarith+
  then show ?thesis unfolding format_pairs_def set_product mem_Times_iff by simp
qed

definition weight :: "u32 \<Rightarrow> nat" where
  "weight a = length (filter (bit a) [0, 1, 2, 3, 4, 5, 6, 7, 8, 9, 10, 11, 12, 13, 14])"

text \<open>The codewords, evaluated; the checks below are on these constants.\<close>

definition five_bits :: "u8 list" where
  "five_bits = [0, 1, 2, 3, 4, 5, 6, 7, 8, 9, 10, 11, 12, 13, 14, 15, 16, 17, 18, 19, 20, 21, 22, 23, 24, 25, 26, 27, 28, 29, 30, 31]"

definition format_words :: "u32 list" where
  "format_words =
     [0x0, 0x537, 0xA6E, 0xF59, 0x11EB, 0x14DC, 0x1B85, 0x1EB2, 0x23D6, 0x26E1, 0x29B8, 0x2C8F,
      0x323D, 0x370A, 0x3853, 0x3D64, 0x429B, 0x47AC, 0x48F5, 0x4DC2, 0x5370, 0x5647, 0x591E,
      0x5C29, 0x614D, 0x647A, 0x6B23, 0x6E14, 0x70A6, 0x7591, 0x7AC8, 0x7FFF]"

lemma format_words: "map format_code five_bits = format_words"
  by (simp add: format_words_def five_bits_def format_code_def pick_def bit_numeral_rec bit_1_iff)

lemma format_data_words: "map (case_prod format_data) format_pairs = map (\<lambda>w. w XOR 0x5412) format_words"
  by code_simp

lemma format_words_weight: "list_all (\<lambda>w. 7 \<le> weight w) (tl format_words)"
  by code_simp

lemma five_bits: "map (\<lambda>(ecc, msk). word_of_nat (8 * ecc + msk)) format_pairs = five_bits"
  by (simp add: format_pairs_def five_bits_def)

lemma format_data_code:
  assumes "(ecc, msk) \<in> set format_pairs"
  shows "format_data ecc msk = format_code (word_of_nat (8 * ecc + msk)) XOR 0x5412"
proof -
  have "map (case_prod format_data) format_pairs =
      map (\<lambda>(ecc, msk). format_code (word_of_nat (8 * ecc + msk)) XOR 0x5412) format_pairs"
    unfolding format_data_words format_words [symmetric] five_bits [symmetric] by (simp add: case_prod_beta')
  then show ?thesis using assms unfolding map_eq_conv by fastforce
qed

lemma format_code_weight: "d \<in> set five_bits \<Longrightarrow> d \<noteq> 0 \<Longrightarrow> 7 \<le> weight (format_code d)"
proof -
  have "tl format_words = map format_code (tl five_bits)" by (simp flip: format_words add: map_tl)
  then have "list_all (\<lambda>d. 7 \<le> weight (format_code d)) (tl five_bits)"
    using format_words_weight by (simp add: list.pred_map comp_def)
  moreover assume "d \<in> set five_bits" "d \<noteq> 0"
  moreover have "set five_bits = insert 0 (set (tl five_bits))" by (simp add: five_bits_def)
  ultimately show ?thesis by (simp add: list_all_iff)
qed

section \<open>Reading the format information back\<close>

text \<open>A decoder: the format whose fifteen bits differ from the ones read in at most three places.\<close>

definition errors :: "u32 \<Rightarrow> (nat \<Rightarrow> bool) \<Rightarrow> nat" where
  "errors w r = length (filter (\<lambda>i. bit w i \<noteq> r i) [0, 1, 2, 3, 4, 5, 6, 7, 8, 9, 10, 11, 12, 13, 14])"

definition decode_format :: "(nat \<Rightarrow> bool) \<Rightarrow> (nat \<times> nat) option" where
  "decode_format r = find (\<lambda>(ecc, msk). errors (format_data ecc msk) r \<le> 3) format_pairs"

definition read_at :: "BitBucket \<Rightarrow> (nat \<Rightarrow> nat \<times> nat) \<Rightarrow> nat \<Rightarrow> bool" where
  "read_at m pos i = cell m (fst (pos i)) (snd (pos i))"

lemma length_filter_neq:
  "length (filter (\<lambda>i. a i \<noteq> c i) is) \<le> length (filter (\<lambda>i. a i \<noteq> b i) is) + length (filter (\<lambda>i. c i \<noteq> b i) is)"
  by (induction "is") auto

lemma weight_xor: "weight (v XOR w) = errors v (bit w)"
proof -
  have "bit (v XOR w) = (\<lambda>i. bit v i \<noteq> bit w i)" by (simp add: fun_eq_iff bit_xor_iff)
  then show ?thesis unfolding weight_def errors_def by (rule arg_cong)
qed

lemma errors_triangle: "weight (v XOR w) \<le> errors v r + errors w r"
  unfolding weight_xor unfolding errors_def by (rule length_filter_neq)

lemma five_bits_iff: "w \<in> set five_bits \<longleftrightarrow> take_bit 5 w = w"
proof
  have "list_all (\<lambda>w. take_bit 5 w = w) five_bits" by (simp add: five_bits_def)
  then show "w \<in> set five_bits \<Longrightarrow> take_bit 5 w = w" by (simp add: list_all_iff)
next
  assume "take_bit 5 w = w"
  then have "unat w = take_bit 5 (unat w)" by (metis unsigned_take_bit_eq)
  then have "unat w < 32" using take_bit_nat_less_exp [of 5 "unat w"] by simp
  then have "word_of_nat (unat w) \<in> set (map word_of_nat [0..<32] :: u8 list)"
    unfolding set_map set_upt by (intro imageI) simp
  also have "map word_of_nat [0..<32] = five_bits" by (simp add: five_bits_def upt_conv_Cons)
  finally show "w \<in> set five_bits" by simp
qed

lemma five_bits_xor: "a \<in> set five_bits \<Longrightarrow> b \<in> set five_bits \<Longrightarrow> a XOR b \<in> set five_bits"
  by (simp add: five_bits_iff take_bit_xor)

lemma five_bits_inj:
  "inj_on (\<lambda>(ecc, msk). word_of_nat (8 * ecc + msk) :: u8) (set format_pairs)"
proof -
  have "distinct five_bits" by (simp add: five_bits_def)
  then show ?thesis unfolding five_bits [symmetric] distinct_map by blast
qed

lemma find_unique: "x \<in> set xs \<Longrightarrow> P x \<Longrightarrow> (\<And>y. y \<in> set xs \<Longrightarrow> P y \<Longrightarrow> y = x) \<Longrightarrow> find P xs = Some x"
proof (induction xs)
  case (Cons a xs)
  show ?case
  proof (cases "P a")
    case True
    then show ?thesis using Cons.prems(3) [of a] by simp
  next
    case False
    then have "x \<noteq> a" using Cons.prems(2) by blast
    then have "x \<in> set xs" using Cons.prems(1) by simp
    then have "find P xs = Some x"
      by (rule Cons.IH [OF _ Cons.prems(2)]) (rule Cons.prems(3), simp_all)
    then show ?thesis using False by simp
  qed
qed simp

lemma decode_format_unique:
  assumes "ecc < 4" "msk < 8" "errors (format_data ecc msk) r \<le> 3"
  shows "decode_format r = Some (ecc, msk)"
proof -
  have unique: "p = (ecc, msk)" if p: "p \<in> set format_pairs" "errors (case_prod format_data p) r \<le> 3" for p
  proof (rule ccontr)
    assume "p \<noteq> (ecc, msk)"
    obtain e k where ek: "p = (e, k)" by (cases p)
    let ?a = "word_of_nat (8 * e + k) :: u8" and ?b = "word_of_nat (8 * ecc + msk) :: u8"
    have "?a \<in> set five_bits" "?b \<in> set five_bits"
      using p(1) format_pairs_in [OF assms(1,2)] ek unfolding five_bits [symmetric] by force+
    moreover have "?a \<noteq> ?b"
      using inj_onD [OF five_bits_inj, of p "(ecc, msk)"] \<open>p \<noteq> (ecc, msk)\<close> p(1) format_pairs_in [OF assms(1,2)] ek by auto
    moreover have "?a XOR ?b \<noteq> 0" using \<open>?a \<noteq> ?b\<close> xor_cancel_left [of ?a ?b] by (metis xor.right_neutral)
    ultimately have "7 \<le> weight (format_code (?a XOR ?b))"
      by (intro format_code_weight five_bits_xor) assumption+
    also have "format_code (?a XOR ?b) = format_data e k XOR format_data ecc msk"
      using p(1) format_pairs_in [OF assms(1,2)] ek
      by (simp add: format_data_code format_code_xor xor.assoc xor.left_commute xor.commute)
    finally show False using errors_triangle [of "format_data e k" "format_data ecc msk" r] p(2) assms(3) ek by simp
  qed
  show ?thesis
    unfolding decode_format_def
    by (rule find_unique) (use assms format_pairs_in unique in auto)
qed

text \<open>
  C17. The format information that \<open>drawFormatBits\<close> draws can be read back from either of its two
  copies: however the symbol is damaged, a copy in which at most three of the fifteen modules changed
  determines the level and the mask, and the drawing changes no module outside the two copies and the
  dark module.
\<close>

theorem format_information_readable:
  assumes "grids_ok g n" "21 \<le> n" "n < 256" "ecc < 4" "msk < 8"
  shows "\<exists>g'. drawFormatBits ecc msk g = Some g' \<and>
    (\<forall>m. \<forall>pos \<in> {format_first, format_second n}.
       length (filter (\<lambda>i. cell m (fst (pos i)) (snd (pos i)) \<noteq> cell (fst g') (fst (pos i)) (snd (pos i))) [0..<15]) \<le> 3 \<longrightarrow>
       decode_format (read_at m pos) = Some (ecc, msk)) \<and>
    (\<forall>x<n. \<forall>y<n. (x, y) \<notin> format_first ` {..<15} \<union> format_second n ` {..<15} \<union> {(8, n - 8)} \<longrightarrow>
       cell (fst g') x y = cell (fst g) x y)"
proof -
  obtain g' where g': "drawFormatBits ecc msk g = Some g'" "drawn n (format_ops n ecc msk) g g'"
    using drawFormatBits_drawn [OF assms(1-3)] by blast
  have "decode_format (read_at m pos) = Some (ecc, msk)"
    if pos: "pos \<in> {format_first, format_second n}"
      and "length (filter (\<lambda>i. cell m (fst (pos i)) (snd (pos i)) \<noteq> cell (fst g') (fst (pos i)) (snd (pos i))) [0..<15]) \<le> 3"
    for m pos
  proof (rule decode_format_unique [OF assms(4,5)])
    have "cell (fst g') (fst (pos i)) (snd (pos i)) = bit (format_data ecc msk) i" if "i \<in> set [0..<15]" for i
      using pos that format_copies [OF g'(2) assms(2)] by auto
    then have "filter (\<lambda>i. cell m (fst (pos i)) (snd (pos i)) \<noteq> cell (fst g') (fst (pos i)) (snd (pos i))) [0..<15] =
        filter (\<lambda>i. bit (format_data ecc msk) i \<noteq> read_at m pos i) [0..<15]"
      by (intro filter_cong refl) (auto simp: read_at_def)
    moreover have "[0..<15] = [0, 1, 2, 3, 4, 5, 6, 7, 8, 9, 10, 11, 12, 13, 14 :: nat]" by (simp add: upt_conv_Cons)
    ultimately show "errors (format_data ecc msk) (read_at m pos) \<le> 3"
      using that(2) unfolding errors_def by (simp only:)
  qed
  moreover have "cell (fst g') x y = cell (fst g) x y"
    if "x < n" "y < n" "(x, y) \<notin> format_first ` {..<15} \<union> format_second n ` {..<15} \<union> {(8, n - 8)}" for x y
  proof -
    have "(x, y) \<notin> fst ` set (rev (format_ops n ecc msk))"
      using that(3) by (auto simp: format_ops_def simp del: upt_Suc upt_rec_numeral)
    then have "map_of (rev (format_ops n ecc msk)) (x, y) = None" by (simp add: map_of_eq_None_iff)
    then show ?thesis using g'(2) that by (simp add: drawn_def)
  qed
  ultimately show ?thesis using g'(1) by blast
qed

theorem format_information_readable_witness:
  "\<exists>g'. drawFormatBits 1 3 (bb_initGrid 21, bb_initGrid 21) = Some g' \<and>
     decode_format (read_at (fst g') (format_second 21)) = Some (1, 3)"
proof -
  have "grids_ok (bb_initGrid 21, bb_initGrid 21) 21"
    by (simp add: grids_ok_def grid_def bb_initGrid_def)
  from format_information_readable [OF this, of 1 3] show ?thesis by force
qed

end
