(* ===== verification/ReedSolomon.thy ===== *)
theory ReedSolomon
  imports Prelude
begin

text \<open>
  The Reed-Solomon generator of \<open>components/m5stack/src/utility/qrcode.c\<close>: multiplication in the field
  of 256 elements, the generator polynomial, and the remainder of a data block, computed in place
  with a stride.  Loop counters are natural numbers; they stay within the \<open>uint8_t\<close> of the code.
\<close>

section \<open>The code\<close>

definition rs_multiply :: "u8 \<Rightarrow> u8 \<Rightarrow> u8" where
  "rs_multiply x y =
     ucast (fold (\<lambda>i z.
         let z = push_bit 1 z XOR drop_bit 7 z * 0x11D
         in z XOR ucast (drop_bit i y AND 1) * ucast x)
       [7, 6, 5, 4, 3, 2, 1, 0] (0 :: u16))"

text \<open>The inner loop of \<open>rs_init\<close>: the product so far times \<open>(x - root)\<close>.\<close>

definition rs_init_step :: "nat \<Rightarrow> u16 \<Rightarrow> nat \<Rightarrow> u8 list \<Rightarrow> u8 list option" where
  "rs_init_step degree root j coeff =
     do {
       c \<leftarrow> rd coeff j;
       coeff \<leftarrow> wr coeff j (rs_multiply c (ucast root));
       if j + 1 < degree then
         do { c \<leftarrow> rd coeff j; d \<leftarrow> rd coeff (j + 1); wr coeff j (c XOR d) }
       else Some coeff
     }"

definition rs_init :: "nat \<Rightarrow> u8 list option" where
  "rs_init degree =
     do {
       coeff \<leftarrow> wr (replicate degree 0) (degree - 1) 1;
       (coeff, _) \<leftarrow> foldM (\<lambda>i (coeff, root).
           do {
             coeff \<leftarrow> foldM (rs_init_step degree root) [0..<degree] coeff;
             Some (coeff, push_bit 1 root XOR drop_bit 7 root * 0x11D)
           })
         [0..<degree] (coeff, 1);
       Some coeff
     }"

text \<open>
  \<open>rs_getRemainder\<close>: \<open>base\<close> is the index in the array behind \<open>result\<close> that the pointer argument
  points to, \<open>data\<close> the rest of the data array from its pointer on.
\<close>

definition rs_remainder_byte :: "nat \<Rightarrow> u8 list \<Rightarrow> nat \<Rightarrow> nat \<Rightarrow> u8 \<Rightarrow> u8 list \<Rightarrow> u8 list option" where
  "rs_remainder_byte degree coeff base stride byte result =
     do {
       r0 \<leftarrow> rd result base;
       let factor = byte XOR r0;
       result \<leftarrow> foldM (\<lambda>j result. do { r \<leftarrow> rd result (base + j * stride); wr result (base + (j - 1) * stride) r })
         [1..<degree] result;
       result \<leftarrow> wr result (base + (degree - 1) * stride) 0;
       foldM (\<lambda>j result.
           do {
             c \<leftarrow> rd coeff j;
             r \<leftarrow> rd result (base + j * stride);
             wr result (base + j * stride) (r XOR rs_multiply c factor)
           })
         [0..<degree] result
     }"

definition rs_getRemainder ::
    "nat \<Rightarrow> u8 list \<Rightarrow> u8 list \<Rightarrow> nat \<Rightarrow> nat \<Rightarrow> nat \<Rightarrow> u8 list \<Rightarrow> u8 list option" where
  "rs_getRemainder degree coeff data len base stride result =
     foldM (\<lambda>i result. do { byte \<leftarrow> rd data i; rs_remainder_byte degree coeff base stride byte result })
       [0..<len] result"

section \<open>Multiplication is that of a field\<close>

text \<open>Multiplication by \<open>x\<close>.\<close>

definition xtime :: "u8 \<Rightarrow> u8" where
  "xtime z = push_bit 1 z XOR (if bit z 7 then 0x1D else 0)"

definition mul_step :: "u8 \<Rightarrow> u8 \<Rightarrow> nat \<Rightarrow> u8 \<Rightarrow> u8" where
  "mul_step x y i z = xtime z XOR (if bit y i then x else 0)"

lemma xtime_wide: "push_bit 1 (ucast z) XOR drop_bit 7 (ucast z) * 0x11D = (ucast (xtime z) :: u16)"
proof -
  have "list_all (\<lambda>z. push_bit 1 (ucast z) XOR drop_bit 7 (ucast z) * 0x11D = (ucast (xtime z) :: u16)) all_bytes"
    by code_simp
  then show ?thesis by (rule list_all_bytes)
qed

lemma and_1_bit: "drop_bit i y AND 1 = (if bit y i then 1 else 0 :: 'a::len word)"
  by (rule bit_word_eqI) (auto simp: bit_simps intro!: gr0I)

lemma rs_multiply_fold: "rs_multiply x y = fold (mul_step x y) [7, 6, 5, 4, 3, 2, 1, 0] 0"
proof -
  have "fold (\<lambda>i z. let z = push_bit 1 z XOR drop_bit 7 z * 0x11D
      in z XOR ucast (drop_bit i y AND 1) * ucast x) is (ucast z) = (ucast (fold (mul_step x y) is z) :: u16)" for "is" z
  proof (induction "is" arbitrary: z)
    case (Cons i "is")
    have "(ucast (xtime z) :: u16) XOR ucast (drop_bit i y AND 1) * ucast x = ucast (mul_step x y i z)"
      unfolding mul_step_def and_1_bit by (rule bit_word_eqI) (auto simp: bit_simps)
    then show ?case using Cons.IH [of "mul_step x y i z"] by (simp add: xtime_wide del: push_bit_Suc One_nat_def)
  qed simp
  from this [of "[7, 6, 5, 4, 3, 2, 1, 0]" 0] have
    "rs_multiply x y = ucast (ucast (fold (mul_step x y) [7, 6, 5, 4, 3, 2, 1, 0] 0) :: u16)"
    unfolding rs_multiply_def by simp
  also have "(ucast (ucast v :: u16) :: u8) = v" for v
    by (rule bit_word_eqI) (auto simp: bit_simps)
  finally show ?thesis .
qed


lemma xtime_xor: "xtime (a XOR b) = xtime a XOR xtime b"
  by (rule u8_eqI) (auto simp add: xtime_def bit_simps bit_numeral_rec simp del: push_bit_Suc)

lemma xtime_0 [simp]: "xtime 0 = 0"
  by (simp add: xtime_def)

lemma mul_fold_xor:
  "fold (mul_step x (y XOR y')) is (z XOR z') = fold (mul_step x y) is z XOR fold (mul_step x y') is z'"
proof (induction "is" arbitrary: z z')
  case (Cons i "is")
  have "mul_step x (y XOR y') i (z XOR z') = mul_step x y i z XOR mul_step x y' i z'"
    by (auto simp: mul_step_def xtime_xor bit_xor_iff xor.assoc xor.left_commute xor.commute)
  then show ?case by (simp add: Cons.IH)
qed simp

lemma mul_fold_xor_left:
  "fold (mul_step (x XOR x') y) is (z XOR z') = fold (mul_step x y) is z XOR fold (mul_step x' y) is z'"
proof (induction "is" arbitrary: z z')
  case (Cons i "is")
  have "mul_step (x XOR x') y i (z XOR z') = mul_step x y i z XOR mul_step x' y i z'"
    by (auto simp: mul_step_def xtime_xor bit_xor_iff xor.assoc xor.left_commute xor.commute)
  then show ?case by (simp add: Cons.IH)
qed simp

lemma mul_xor_right: "rs_multiply x (y XOR z) = rs_multiply x y XOR rs_multiply x z"
  using mul_fold_xor [of x y z "[7, 6, 5, 4, 3, 2, 1, 0]" 0 0] by (simp add: rs_multiply_fold del: fold.simps)

lemma mul_xor_left: "rs_multiply (x XOR y) z = rs_multiply x z XOR rs_multiply y z"
  using mul_fold_xor_left [of x y z "[7, 6, 5, 4, 3, 2, 1, 0]" 0 0] by (simp add: rs_multiply_fold del: fold.simps)

text \<open>Every byte is a sum of powers of \<open>x\<close>.\<close>

lemma u8_xor_induct [case_names xor power]:
  assumes "\<And>a b. P a \<Longrightarrow> P b \<Longrightarrow> P (a XOR b)"
    and "\<And>j. j < 8 \<Longrightarrow> P (2 ^ j)"
  shows "P (y :: u8)"
proof -
  define part where "part j = (if bit y j then 2 ^ j else 0 :: u8)" for j
  have "P 0" using assms(1) [OF assms(2) [of 0] assms(2) [of 0]] by simp
  then have part: "P (part j)" if "j < 8" for j using assms(2) that by (simp add: part_def)
  have "y = part 0 XOR (part 1 XOR (part 2 XOR (part 3 XOR (part 4 XOR (part 5 XOR (part 6 XOR part 7))))))"
    by (rule u8_eqI) (simp_all add: part_def bit_simps del: push_bit_Suc)
  also have "P \<dots>" by (intro assms(1) part) simp_all
  finally show ?thesis .
qed

lemma mul_power: "j < 8 \<Longrightarrow> rs_multiply x (2 ^ j) = (xtime ^^ j) x"
proof -
  assume "j < 8"
  then have "j = 0 \<or> j = 1 \<or> j = 2 \<or> j = 3 \<or> j = 4 \<or> j = 5 \<or> j = 6 \<or> j = 7" by auto
  then show ?thesis
    by (elim disjE) (simp_all add: rs_multiply_fold mul_step_def bit_numeral_rec eval_nat_numeral)
qed

lemma power_xtime: "j < 8 \<Longrightarrow> 2 ^ j = (xtime ^^ j) 1"
proof -
  assume "j < 8"
  then have "j = 0 \<or> j = 1 \<or> j = 2 \<or> j = 3 \<or> j = 4 \<or> j = 5 \<or> j = 6 \<or> j = 7" by auto
  then show ?thesis
    by (elim disjE) (simp_all add: xtime_def bit_numeral_rec numeral_eq_Suc)
qed

lemma mul_xtime_left: "rs_multiply (xtime x) y = xtime (rs_multiply x y)"
  by (induction y rule: u8_xor_induct) (simp_all add: mul_xor_right xtime_xor mul_power funpow_swap1)

lemma mul_funpow_left: "rs_multiply ((xtime ^^ j) x) y = (xtime ^^ j) (rs_multiply x y)"
  by (induction j) (simp_all add: mul_xtime_left)

lemma mul_1_left: "rs_multiply 1 y = y"
  by (induction y rule: u8_xor_induct) (simp_all add: mul_xor_right mul_power flip: power_xtime)

lemma mul_power_left: "j < 8 \<Longrightarrow> rs_multiply (2 ^ j) x = (xtime ^^ j) x"
  by (simp add: power_xtime mul_funpow_left mul_1_left)

lemma mul_commute: "rs_multiply x y = rs_multiply y x"
  by (induction y rule: u8_xor_induct) (simp_all add: mul_xor_right mul_xor_left mul_power mul_power_left)

lemma mul_assoc: "rs_multiply (rs_multiply x y) z = rs_multiply x (rs_multiply y z)"
proof (induction z rule: u8_xor_induct)
  case (power j)
  then have "rs_multiply x (rs_multiply y (2 ^ j)) = rs_multiply ((xtime ^^ j) y) x"
    by (simp add: mul_power mul_commute [of x])
  then show ?case using power by (simp add: mul_power mul_funpow_left mul_commute [of y])
qed (simp add: mul_xor_right)


section \<open>Polynomials over such a field\<close>

text \<open>
  What the generator needs of its multiplication: with exclusive or as addition, it is a
  commutative ring.  Polynomials are coefficient lists, highest power first; \<open>eval\<close> is Horner's
  rule, \<open>pow\<close> repeated multiplication.
\<close>

locale xor_ring =
  fixes mul :: "u8 \<Rightarrow> u8 \<Rightarrow> u8"
  assumes mul_xor: "mul x (y XOR z) = mul x y XOR mul x z"
    and commute: "mul x y = mul y x"
    and assoc: "mul (mul x y) z = mul x (mul y z)"
    and one: "mul 1 x = x"
begin

lemma mul_xor': "mul (y XOR z) x = mul y x XOR mul z x"
  by (metis commute mul_xor)

lemma mul_zero: "mul x 0 = 0" "mul 0 x = 0"
proof -
  show "mul x 0 = 0" using mul_xor [of x 0 0] by simp
  then show "mul 0 x = 0" by (simp add: commute)
qed

lemma left_commute: "mul x (mul y z) = mul y (mul x z)"
  by (metis assoc commute)

fun eval :: "u8 list \<Rightarrow> u8 \<Rightarrow> u8" where
  "eval [] s = 0"
| "eval (c # cs) s = mul c (((mul s) ^^ length cs) 1) XOR eval cs s"

definition pow :: "u8 \<Rightarrow> nat \<Rightarrow> u8" where
  "pow s n = ((mul s) ^^ n) 1"

lemma eval_Cons: "eval (c # cs) s = mul c (pow s (length cs)) XOR eval cs s"
  by (simp add: pow_def)

declare eval.simps(2) [simp del]

lemma pow_Suc: "pow s (Suc n) = mul s (pow s n)"
  by (simp add: pow_def)

lemma pow_0: "pow s 0 = 1"
  by (simp add: pow_def)

lemma eval_snoc: "eval (cs @ [c]) s = mul s (eval cs s) XOR c"
proof (induction cs)
  case Nil
  then show ?case by (simp add: eval_Cons pow_0 mul_zero commute [of _ 1] one)
next
  case (Cons a cs)
  then show ?case by (simp add: eval_Cons pow_Suc mul_xor left_commute [of s] xor.assoc)
qed

lemma eval_append: "eval (as @ bs) s = mul (eval as s) (pow s (length bs)) XOR eval bs s"
proof (induction bs rule: rev_induct)
  case Nil
  then show ?case by (simp add: pow_0 commute [of _ 1] one)
next
  case (snoc b bs)
  then show ?case
    by (simp add: eval_snoc pow_Suc mul_xor left_commute [of s] xor.assoc flip: append_assoc)
qed

lemma eval_map2: "length as = length bs \<Longrightarrow> eval (map2 (XOR) as bs) s = eval as s XOR eval bs s"
proof (induction as bs rule: list_induct2)
  case (Cons a as b bs)
  then show ?case
    by (simp add: eval_Cons mul_xor' xor.assoc xor.left_commute xor.commute)
qed simp

lemma eval_scale: "eval (map (mul c) as) s = mul c (eval as s)"
  by (induction as) (simp_all add: eval_Cons mul_xor assoc mul_zero)

text \<open>
  The two list operations of the code, and what they do to the value of the polynomial at a point:
  multiplying by \<open>(x - root)\<close> without the coefficient that leaves the list, and one step of the
  division.
\<close>

definition times_root :: "u8 \<Rightarrow> u8 list \<Rightarrow> u8 list" where
  "times_root root cs = map2 (XOR) (map (mul root) cs) (tl cs @ [0])"

definition divide_step :: "u8 list \<Rightarrow> u8 \<Rightarrow> u8 list \<Rightarrow> u8 list" where
  "divide_step g byte res = map2 (XOR) (tl res @ [0]) (map (mul (byte XOR hd res)) g)"

lemma length_times_root [simp]: "length (times_root r cs) = length cs"
  by (cases cs) (simp_all add: times_root_def)

lemma length_divide_step [simp]: "res \<noteq> [] \<Longrightarrow> length g = length res \<Longrightarrow> length (divide_step g b res) = length res"
  by (cases res) (simp_all add: divide_step_def)

lemma eval_shift: "cs \<noteq> [] \<Longrightarrow> eval (tl cs @ [0]) s = mul s (eval cs s) XOR mul (hd cs) (pow s (length cs))"
proof (cases cs)
  case (Cons a as)
  then show ?thesis
    by (simp add: eval_snoc eval_Cons pow_Suc mul_xor left_commute [of s] xor.left_commute xor.commute)
qed simp

lemma eval_times_root:
  assumes "cs \<noteq> []"
  shows "eval (times_root r cs) s = mul (r XOR s) (eval cs s) XOR mul (hd cs) (pow s (length cs))"
proof -
  have "length (map (mul r) cs) = length (tl cs @ [0])" using assms by (cases cs) simp_all
  then show ?thesis
    unfolding times_root_def eval_map2 [OF \<open>length (map (mul r) cs) = _\<close>]
    by (simp add: eval_scale eval_shift [OF assms] mul_xor' xor.assoc)
qed

lemma eval_divide_step:
  assumes "res \<noteq> []" and "length g = length res" and root: "eval g s = pow s (length g)"
  shows "eval (divide_step g b res) s = mul s (eval res s) XOR mul b (pow s (length g))"
proof -
  have len: "length (tl res @ [0]) = length (map (mul (b XOR hd res)) g)" using assms by (cases res) simp_all
  show ?thesis
    unfolding divide_step_def eval_map2 [OF len]
    by (simp add: eval_shift [OF assms(1)] eval_scale root mul_xor' assms(2) xor.assoc xor.left_commute xor.commute)
qed

text \<open>Division leaves a remainder that makes the whole block vanish at the roots of \<open>g\<close>.\<close>

lemma eval_remainder:
  assumes "g \<noteq> []" and "eval g s = pow s (length g)"
  shows "length res = length g \<Longrightarrow>
    eval (fold (divide_step g) data res) s =
    mul (pow s (length data)) (eval res s) XOR mul (eval data s) (pow s (length g))"
proof (induction data arbitrary: res)
  case Nil
  then show ?case by (simp add: pow_0 one mul_zero)
next
  case (Cons b data)
  have "res \<noteq> []" using Cons.prems assms(1) by auto
  then have "eval (fold (divide_step g) data (divide_step g b res)) s =
      mul (pow s (length data)) (eval (divide_step g b res) s) XOR mul (eval data s) (pow s (length g))"
    using Cons.prems by (intro Cons.IH) simp
  also have "eval (divide_step g b res) s = mul s (eval res s) XOR mul b (pow s (length g))"
    using eval_divide_step [OF \<open>res \<noteq> []\<close> _ assms(2)] Cons.prems by simp
  finally have "eval (fold (divide_step g) (b # data) res) s =
      mul (pow s (length data)) (mul s (eval res s)) XOR
      (mul (pow s (length data)) (mul b (pow s (length g))) XOR mul (eval data s) (pow s (length g)))"
    by (simp add: mul_xor xor.assoc)
  also have "mul (pow s (length data)) (mul s (eval res s)) = mul (pow s (length (b # data))) (eval res s)"
    by (metis assoc commute pow_Suc length_Cons)
  also have "mul (pow s (length data)) (mul b (pow s (length g))) XOR mul (eval data s) (pow s (length g)) =
      mul (eval (b # data) s) (pow s (length g))"
  proof -
    have "mul (pow s (length data)) (mul b (pow s (length g))) = mul (mul b (pow s (length data))) (pow s (length g))"
      by (metis assoc commute)
    then show ?thesis by (simp only: eval_Cons mul_xor')
  qed
  finally show ?case .
qed

lemma length_fold_divide: "length res = length g \<Longrightarrow> g \<noteq> [] \<Longrightarrow> length (fold (divide_step g) data res) = length g"
proof (induction data arbitrary: res)
  case (Cons b data)
  then have "res \<noteq> []" by (metis length_0_conv)
  then have "length (divide_step g b res) = length g"
    using length_divide_step [of res g b] Cons.prems(1) by argo
  from Cons.IH [OF this Cons.prems(2)] show ?case unfolding fold.simps comp_apply .
qed simp

end

interpretation gf: xor_ring rs_multiply
  by unfold_locales (rule mul_xor_right mul_commute mul_assoc mul_1_left)+


section \<open>The generator polynomial\<close>

text \<open>The roots of the generator: the powers of \<open>x\<close>.\<close>

definition gf_root :: "nat \<Rightarrow> u8" where
  "gf_root i = (xtime ^^ i) 1"

fun vanish :: "nat \<Rightarrow> u8 \<Rightarrow> u8" where
  "vanish 0 s = 1"
| "vanish (Suc i) s = rs_multiply (gf_root i XOR s) (vanish i s)"

lemma vanish_root: "k < n \<Longrightarrow> vanish n (gf_root k) = 0"
  by (induction n) (auto simp: less_Suc_eq gf.mul_zero)

lemma times_root_simps:
  "gf.times_root r [c] = [rs_multiply r c]"
  "gf.times_root r (c # c' # cs) = (rs_multiply r c XOR c') # gf.times_root r (c' # cs)"
  by (simp_all add: gf.times_root_def)

lemma times_root_leading:
  "gf.times_root r (replicate (Suc m) 0 @ 1 # rest) = replicate m 0 @ 1 # gf.times_root r (1 # rest)"
proof (induction m)
  case (Suc m)
  then show ?case by (simp add: times_root_simps gf.mul_zero)
qed (simp add: times_root_simps gf.mul_zero)

lemma times_root_nth:
  "i < length cs \<Longrightarrow> gf.times_root r cs ! i =
     rs_multiply r (cs ! i) XOR (if Suc i < length cs then cs ! Suc i else 0)"
proof (induction cs arbitrary: i)
  case (Cons c cs)
  then show ?case by (cases cs; cases i) (auto simp: times_root_simps)
qed simp

lemma rs_init_inner:
  assumes "length coeff = d"
  shows "foldM (rs_init_step d (ucast root)) [0..<d] coeff = Some (gf.times_root root coeff)"
proof -
  have "\<exists>t. foldM (rs_init_step d (ucast root)) [0..<d] coeff = Some t \<and>
      (length t = d \<and> (\<forall>k<d. t ! k = (if k < d then gf.times_root root coeff ! k else coeff ! k)))"
  proof (rule foldM_upt_invariant [where P = "\<lambda>j t. length t = d \<and>
        (\<forall>k<d. t ! k = (if k < j then gf.times_root root coeff ! k else coeff ! k))"])
    fix j t assume j: "j < d" and t: "length t = d \<and>
      (\<forall>k<d. t ! k = (if k < j then gf.times_root root coeff ! k else coeff ! k))"
    have "(ucast (ucast root :: u16) :: u8) = root"
      by (rule bit_word_eqI) (auto simp: bit_simps)
    then have "rs_init_step d (ucast root) j t = Some (t[j := gf.times_root root coeff ! j])"
      using j t assms by (auto simp: rs_init_step_def cmem times_root_nth mul_commute)
    then show "\<exists>t'. rs_init_step d (ucast root) j t = Some t' \<and> length t' = d \<and>
        (\<forall>k<d. t' ! k = (if k < Suc j then gf.times_root root coeff ! k else coeff ! k))"
      using t by (auto simp: nth_list_update less_Suc_eq)
  qed (simp add: assms)
  then show ?thesis using assms by (auto intro!: nth_equalityI)
qed

definition generator_after :: "nat \<Rightarrow> nat \<Rightarrow> u8 list" where
  "generator_after d i = fold (\<lambda>k. gf.times_root (gf_root k)) [0..<i] (replicate (d - 1) 0 @ [1])"

lemma length_generator_after: "0 < d \<Longrightarrow> length (generator_after d i) = d"
  by (induction i) (simp_all add: generator_after_def)

lemma rs_init_generator:
  assumes "0 < d"
  shows "rs_init d = Some (generator_after d d)"
proof -
  let ?body = "\<lambda>i (coeff, root).
      do { coeff \<leftarrow> foldM (rs_init_step d root) [0..<d] coeff;
        Some (coeff, push_bit 1 root XOR drop_bit 7 root * 0x11D) }"
  have "\<exists>t. foldM ?body [0..<d] (replicate (d - 1) 0 @ [1], 1) = Some t \<and>
      t = (generator_after d d, ucast (gf_root d))"
  proof (rule foldM_upt_invariant [where P = "\<lambda>i t. t = (generator_after d i, ucast (gf_root i))"])
    fix i t assume "i < d" and t: "t = (generator_after d i, ucast (gf_root i) :: u16)"
    have "push_bit 1 (ucast (gf_root i) :: u16) XOR drop_bit 7 (ucast (gf_root i)) * 0x11D = ucast (gf_root (Suc i))"
      unfolding xtime_wide by (simp add: gf_root_def)
    then show "\<exists>t'. ?body i t = Some t' \<and> t' = (generator_after d (Suc i), ucast (gf_root (Suc i)))"
      using rs_init_inner [OF length_generator_after [OF assms], of "gf_root i" i] t
      by (simp add: generator_after_def del: push_bit_Suc One_nat_def)
  qed (simp add: generator_after_def gf_root_def)
  moreover have "wr (replicate d (0 :: u8)) (d - 1) 1 = Some (replicate (d - 1) 0 @ [1])"
    using assms by (cases d) (simp_all add: cmem list_update_append replicate_append_same [symmetric])
  ultimately show ?thesis by (simp add: rs_init_def del: push_bit_Suc One_nat_def)
qed

lemma generator_leading:
  "i < d \<Longrightarrow> \<exists>rest. generator_after d i = replicate (d - 1 - i) 0 @ 1 # rest \<and> length rest = i \<and>
     gf.eval (1 # rest) s = vanish i s"
proof (induction i)
  case 0
  then show ?case by (simp add: generator_after_def gf.eval_Cons gf.pow_0 gf.one)
next
  case (Suc i)
  then obtain rest where rest: "generator_after d i = replicate (d - 1 - i) 0 @ 1 # rest" "length rest = i"
    "gf.eval (1 # rest) s = vanish i s" by auto
  have m: "d - 1 - i = Suc (d - 1 - Suc i)" using Suc.prems by simp
  have step: "generator_after d (Suc i) = replicate (d - 1 - Suc i) 0 @ 1 # gf.times_root (gf_root i) (1 # rest)"
    using times_root_leading [of "gf_root i" "d - 1 - Suc i" rest] rest(1)
    unfolding m by (simp add: generator_after_def)
  have "gf.eval (1 # gf.times_root (gf_root i) (1 # rest)) s = vanish (Suc i) s"
    using rest gf.eval_times_root [of "1 # rest" "gf_root i" s]
    by (simp add: gf.eval_Cons gf.one xor.left_commute xor.commute)
  with step rest(2) show ?case by simp
qed

lemma generator_root:
  assumes "k < d"
  shows "gf.eval (generator_after d d) (gf_root k) = gf.pow (gf_root k) d"
proof -
  let ?s = "gf_root k"
  obtain rest where rest: "generator_after d (d - 1) = 1 # rest" "length rest = d - 1"
    "gf.eval (1 # rest) ?s = vanish (d - 1) ?s"
    using generator_leading [of "d - 1" d ?s] assms by auto
  have "generator_after d d = gf.times_root (gf_root (d - 1)) (generator_after d (d - 1))"
    using assms by (cases d) (simp_all add: generator_after_def)
  then have "gf.eval (generator_after d d) ?s = vanish d ?s XOR gf.pow ?s d"
    using rest assms gf.eval_times_root [of "1 # rest" "gf_root (d - 1)" ?s]
    by (cases d) (simp_all add: gf.one)
  then show ?thesis using vanish_root [OF assms] by simp
qed


section \<open>The strided remainder\<close>

text \<open>The \<open>d\<close> cells behind a strided pointer, and that everything else is as it was.\<close>

definition strided :: "nat \<Rightarrow> nat \<Rightarrow> nat \<Rightarrow> 'a list \<Rightarrow> 'a list" where
  "strided base stride d r = map (\<lambda>j. r ! (base + j * stride)) [0..<d]"

definition cells :: "nat \<Rightarrow> nat \<Rightarrow> nat \<Rightarrow> nat set" where
  "cells base stride d = (\<lambda>j. base + j * stride) ` {..<d}"

definition same_elsewhere :: "nat set \<Rightarrow> 'a list \<Rightarrow> 'a list \<Rightarrow> bool" where
  "same_elsewhere C r r' \<longleftrightarrow> length r' = length r \<and> (\<forall>p. p \<notin> C \<longrightarrow> r' ! p = r ! p)"

lemma same_elsewhere_trans: "same_elsewhere C r s \<Longrightarrow> same_elsewhere C s t \<Longrightarrow> same_elsewhere C r t"
  by (simp add: same_elsewhere_def)

lemma same_elsewhere_refl [simp]: "same_elsewhere C r r"
  by (simp add: same_elsewhere_def)

lemma same_elsewhere_update: "p \<in> C \<Longrightarrow> same_elsewhere C r (r[p := x])"
  by (auto simp: same_elsewhere_def) (metis nth_list_update_neq)

lemma strided_nth: "j < d \<Longrightarrow> strided base stride d r ! j = r ! (base + j * stride)"
  by (simp add: strided_def)

lemma length_strided [simp]: "length (strided base stride d r) = d"
  by (simp add: strided_def)

lemma cell_bound:
  assumes "base + (d - 1) * stride < n" and "j < d"
  shows "base + j * stride < (n :: nat)"
proof -
  have "j * stride \<le> (d - 1) * stride" using assms(2) by (intro mult_le_mono1) simp
  with assms(1) show ?thesis by linarith
qed

lemma strided_update:
  assumes "0 < stride" and "base + (d - 1) * stride < length r" and "j < d"
  shows "strided base stride d (r[base + j * stride := x]) = (strided base stride d r)[j := x]"
proof (rule nth_equalityI)
  fix i assume "i < length (strided base stride d (r[base + j * stride := x]))"
  then have i: "i < d" by simp
  then have "base + i * stride < length r" by (rule cell_bound [OF assms(2)])
  then show "strided base stride d (r[base + j * stride := x]) ! i = (strided base stride d r)[j := x] ! i"
    using i assms(1,3) by (auto simp: strided_nth nth_list_update)
qed simp

lemma strided_rd:
  "base + (d - 1) * stride < length r \<Longrightarrow> j < d \<Longrightarrow>
     rd r (base + j * stride) = Some (strided base stride d r ! j)"
  by (simp add: cmem cell_bound strided_nth)

lemma strided_wr:
  "base + (d - 1) * stride < length r \<Longrightarrow> j < d \<Longrightarrow>
     wr r (base + j * stride) x = Some (r[base + j * stride := x])"
  by (simp add: cmem cell_bound)

lemma cells_in: "j < d \<Longrightarrow> base + j * stride \<in> cells base stride d"
  by (auto simp: cells_def)

text \<open>A loop over the cells that works on the list of the cells alone.\<close>

lemma strided_loop:
  assumes "0 < stride" and "base + (d - 1) * stride < length r" and "m \<le> n"
    and body: "\<And>j r'. m \<le> j \<Longrightarrow> j < n \<Longrightarrow> length r' = length r \<Longrightarrow> P j (strided base stride d r') \<Longrightarrow>
      \<exists>i x. i < d \<and> f j r' = Some (r'[base + i * stride := x]) \<and> P (Suc j) ((strided base stride d r')[i := x])"
    and "P m (strided base stride d r)"
  shows "\<exists>r'. foldM f [m..<n] r = Some r' \<and> same_elsewhere (cells base stride d) r r' \<and>
    P n (strided base stride d r')"
proof -
  let ?Q = "\<lambda>j r'. same_elsewhere (cells base stride d) r r' \<and> P j (strided base stride d r')"
  have "\<exists>r'. foldM f [m..<n] r = Some r' \<and> ?Q n r'"
  proof (rule foldM_range_invariant)
    show "?Q m r" using assms(5) by simp
  next
    fix j r' assume j: "m \<le> j" "j < n" and Q: "?Q j r'"
    then have len: "length r' = length r" by (simp add: same_elsewhere_def)
    from body [OF j len] Q obtain i x where ix: "i < d" "f j r' = Some (r'[base + i * stride := x])"
      "P (Suc j) ((strided base stride d r')[i := x])" by blast
    moreover have "strided base stride d (r'[base + i * stride := x]) = (strided base stride d r')[i := x]"
      using assms(1,2) len ix(1) by (intro strided_update) simp_all
    ultimately show "\<exists>t. f j r' = Some t \<and> ?Q (Suc j) t"
      using Q same_elsewhere_update [OF cells_in [OF ix(1)], of base stride r' x]
      by (auto intro: same_elsewhere_trans)
  qed (rule assms(3))
  then show ?thesis by blast
qed


lemma rs_remainder_shift:
  assumes "0 < stride" and "base + (d - 1) * stride < length r" and "0 < d"
  shows "\<exists>r'. foldM (\<lambda>j r. do { x \<leftarrow> rd r (base + j * stride); wr r (base + (j - 1) * stride) x }) [1..<d] r = Some r' \<and>
    same_elsewhere (cells base stride d) r r' \<and>
    (strided base stride d r')[d - 1 := 0] = tl (strided base stride d r) @ [0]"
proof -
  let ?xs = "strided base stride d r"
  let ?P = "\<lambda>j xs. length xs = d \<and> (\<forall>k<d. xs ! k = (if Suc k < j then ?xs ! Suc k else ?xs ! k))"
  have "\<exists>r'. foldM (\<lambda>j r. do { x \<leftarrow> rd r (base + j * stride); wr r (base + (j - 1) * stride) x }) [1..<d] r = Some r' \<and>
      same_elsewhere (cells base stride d) r r' \<and> ?P d (strided base stride d r')"
  proof (rule strided_loop [where P = ?P, OF assms(1,2)])
    fix j r' assume j: "1 \<le> j" "j < d" and len: "length r' = length r" and P: "?P j (strided base stride d r')"
    have "base + (d - 1) * stride < length r'" using assms(2) len by simp
    from strided_rd [OF this j(2)] strided_wr [OF this, of "j - 1"] j P
    have "do { x \<leftarrow> rd r' (base + j * stride); wr r' (base + (j - 1) * stride) x } =
        Some (r'[base + (j - 1) * stride := ?xs ! j])" by simp
    moreover have "?P (Suc j) ((strided base stride d r')[j - 1 := ?xs ! j])"
      using P j by (auto simp: nth_list_update)
    ultimately show "\<exists>i x. i < d \<and> do { x \<leftarrow> rd r' (base + j * stride); wr r' (base + (j - 1) * stride) x } =
        Some (r'[base + i * stride := x]) \<and> ?P (Suc j) ((strided base stride d r')[i := x])"
      using j by (intro exI [of _ "j - 1"] exI [of _ "?xs ! j"]) simp
  qed (use assms(3) in \<open>auto simp: Suc_le_eq\<close>)
  then obtain r' where r': "foldM (\<lambda>j r. do { x \<leftarrow> rd r (base + j * stride); wr r (base + (j - 1) * stride) x }) [1..<d] r = Some r'"
    "same_elsewhere (cells base stride d) r r'" "?P d (strided base stride d r')" by blast
  have "(strided base stride d r')[d - 1 := 0] = tl ?xs @ [0]"
    using r'(3) assms(3) by (intro nth_equalityI) (auto simp: nth_list_update nth_append nth_tl)
  with r' show ?thesis by blast
qed

lemma rs_remainder_add:
  assumes "0 < stride" and "base + (d - 1) * stride < length r" and "length coeff = d"
  shows "\<exists>r'. foldM (\<lambda>j r. do { c \<leftarrow> rd coeff j; x \<leftarrow> rd r (base + j * stride);
        wr r (base + j * stride) (x XOR rs_multiply c factor) }) [0..<d] r = Some r' \<and>
    same_elsewhere (cells base stride d) r r' \<and>
    strided base stride d r' = map2 (XOR) (strided base stride d r) (map (rs_multiply factor) coeff)"
proof -
  let ?f = "\<lambda>j r. do { c \<leftarrow> rd coeff j; x \<leftarrow> rd r (base + j * stride); wr r (base + j * stride) (x XOR rs_multiply c factor) }"
  let ?xs = "strided base stride d r"
  let ?P = "\<lambda>j xs. length xs = d \<and> (\<forall>k<d. xs ! k = (if k < j then ?xs ! k XOR rs_multiply factor (coeff ! k) else ?xs ! k))"
  have "\<exists>r'. foldM ?f [0..<d] r = Some r' \<and> same_elsewhere (cells base stride d) r r' \<and> ?P d (strided base stride d r')"
  proof (rule strided_loop [where P = ?P, OF assms(1,2)])
    fix j r' assume j: "j < d" and len: "length r' = length r" and P: "?P j (strided base stride d r')"
    let ?x = "?xs ! j XOR rs_multiply factor (coeff ! j)"
    have "base + (d - 1) * stride < length r'" using assms(2) len by simp
    from strided_rd [OF this j] strided_wr [OF this j] j P assms(3)
    have "?f j r' = Some (r'[base + j * stride := ?x])" by (simp add: cmem mul_commute)
    moreover have "?P (Suc j) ((strided base stride d r')[j := ?x])"
      using P j by (auto simp: nth_list_update less_Suc_eq)
    ultimately show "\<exists>i x. i < d \<and> ?f j r' = Some (r'[base + i * stride := x]) \<and> ?P (Suc j) ((strided base stride d r')[i := x])"
      using j by blast
  qed simp_all
  then obtain r' where r': "foldM ?f [0..<d] r = Some r'"
    "same_elsewhere (cells base stride d) r r'" "?P d (strided base stride d r')" by blast
  have "strided base stride d r' = map2 (XOR) ?xs (map (rs_multiply factor) coeff)"
    using r'(3) assms(3) by (intro nth_equalityI) auto
  with r' show ?thesis by blast
qed

lemma rs_remainder_byte_strided:
  assumes "0 < stride" and "base + (d - 1) * stride < length r" and "0 < d" and "length coeff = d"
  shows "\<exists>r'. rs_remainder_byte d coeff base stride b r = Some r' \<and> same_elsewhere (cells base stride d) r r' \<and>
    strided base stride d r' = gf.divide_step coeff b (strided base stride d r)"
proof -
  let ?xs = "strided base stride d r"
  have r0: "rd r base = Some (hd ?xs)"
    using strided_rd [OF assms(2,3)] assms(3) by (simp add: hd_conv_nth flip: length_greater_0_conv)
  obtain r1 where r1: "foldM (\<lambda>j r. do { x \<leftarrow> rd r (base + j * stride); wr r (base + (j - 1) * stride) x }) [1..<d] r = Some r1"
    "same_elsewhere (cells base stride d) r r1" "(strided base stride d r1)[d - 1 := 0] = tl ?xs @ [0]"
    using rs_remainder_shift [OF assms(1-3)] by blast
  let ?r2 = "r1[base + (d - 1) * stride := 0]"
  have len1: "base + (d - 1) * stride < length r1" using r1(2) assms(2) by (simp add: same_elsewhere_def)
  then have w: "wr r1 (base + (d - 1) * stride) 0 = Some ?r2" by (simp add: cmem)
  have s2: "strided base stride d ?r2 = tl ?xs @ [0]"
    using strided_update [OF assms(1) len1, of "d - 1"] assms(3) r1(3) by simp
  have len2: "base + (d - 1) * stride < length ?r2" using len1 by simp
  obtain r3 where r3: "foldM (\<lambda>j r. do { c \<leftarrow> rd coeff j; x \<leftarrow> rd r (base + j * stride);
        wr r (base + j * stride) (x XOR rs_multiply c (b XOR hd ?xs)) }) [0..<d] ?r2 = Some r3"
    "same_elsewhere (cells base stride d) ?r2 r3"
    "strided base stride d r3 = map2 (XOR) (strided base stride d ?r2) (map (rs_multiply (b XOR hd ?xs)) coeff)"
    using rs_remainder_add [OF assms(1) len2 assms(4)] by blast
  have "rs_remainder_byte d coeff base stride b r = Some r3"
    using r0 r1(1) w r3(1) by (simp add: rs_remainder_byte_def)
  moreover have "same_elsewhere (cells base stride d) r r3"
    using r1(2) r3(2) same_elsewhere_update [OF cells_in, of "d - 1" d base stride r1 0] assms(3)
    by (meson diff_less same_elsewhere_trans zero_less_one)
  ultimately show ?thesis using r3(3) s2 by (auto simp: gf.divide_step_def)
qed

lemma rs_getRemainder_strided:
  assumes "0 < stride" and "base + (d - 1) * stride < length r" and "0 < d" and "length coeff = d"
    and "len \<le> length data"
  shows "\<exists>r'. rs_getRemainder d coeff data len base stride r = Some r' \<and> same_elsewhere (cells base stride d) r r' \<and>
    strided base stride d r' = fold (gf.divide_step coeff) (take len data) (strided base stride d r)"
proof -
  let ?f = "\<lambda>i r. do { byte \<leftarrow> rd data i; rs_remainder_byte d coeff base stride byte r }"
  have "\<exists>r'. foldM ?f [0..<len] r = Some r' \<and> (same_elsewhere (cells base stride d) r r' \<and>
      strided base stride d r' = fold (gf.divide_step coeff) (take len data) (strided base stride d r))"
  proof (rule foldM_upt_invariant [where P = "\<lambda>i r'. same_elsewhere (cells base stride d) r r' \<and>
      strided base stride d r' = fold (gf.divide_step coeff) (take i data) (strided base stride d r)"])
    fix i r' assume i: "i < len" and P: "same_elsewhere (cells base stride d) r r' \<and>
      strided base stride d r' = fold (gf.divide_step coeff) (take i data) (strided base stride d r)"
    then have "base + (d - 1) * stride < length r'" using assms(2) by (simp add: same_elsewhere_def)
    from rs_remainder_byte_strided [OF assms(1) this assms(3,4), of "data ! i"] i assms(5) P
    show "\<exists>t. ?f i r' = Some t \<and> same_elsewhere (cells base stride d) r t \<and>
        strided base stride d t = fold (gf.divide_step coeff) (take (Suc i) data) (strided base stride d r)"
      by (auto simp: cmem take_Suc_conv_app_nth intro: same_elsewhere_trans)
  qed simp
  then show ?thesis by (simp add: rs_getRemainder_def)
qed

lemma rs_block_codeword:
  assumes "0 < d" and "0 < stride" and "base + (d - 1) * stride < length r"
    and "\<forall>j<d. r ! (base + j * stride) = 0" and "len \<le> length data"
  shows "\<exists>r'. rs_init d = Some (generator_after d d) \<and> rs_getRemainder d (generator_after d d) data len base stride r = Some r' \<and>
    same_elsewhere (cells base stride d) r r' \<and>
    (\<forall>k<d. gf.eval (take len data @ strided base stride d r') (gf_root k) = 0)"
proof -
  let ?g = "generator_after d d"
  have g: "rs_init d = Some ?g" "length ?g = d"
    using rs_init_generator [OF assms(1)] length_generator_after [OF assms(1)] by simp_all
  obtain r' where r': "rs_getRemainder d ?g data len base stride r = Some r'"
    "same_elsewhere (cells base stride d) r r'"
    "strided base stride d r' = fold (gf.divide_step ?g) (take len data) (strided base stride d r)"
    using rs_getRemainder_strided [OF assms(2,3,1) g(2) assms(5)] by blast
  have zero: "strided base stride d r = replicate d 0"
    using assms(4) by (intro nth_equalityI) (simp_all add: strided_nth)
  have eval_zero: "gf.eval (replicate n 0) s = 0" for n s
    by (induction n) (simp_all add: gf.eval_Cons gf.mul_zero)
  have "gf.eval (take len data @ strided base stride d r') (gf_root k) = 0" if "k < d" for k
  proof -
    have "?g \<noteq> []" using g(2) assms(1) by auto
    moreover have "gf.eval ?g (gf_root k) = gf.pow (gf_root k) (length ?g)"
      using generator_root [OF that] g(2) by simp
    ultimately show ?thesis
      using gf.eval_remainder [of ?g "gf_root k" "replicate d 0" "take len data"] g(2)
      unfolding gf.eval_append r'(3) zero
      by (simp add: gf.length_fold_divide eval_zero gf.mul_zero)
  qed
  with g(1) r'(1,2) show ?thesis by blast
qed

section \<open>Properties\<close>

text \<open>
  \<open>rs_multiply\<close> is the multiplication of a commutative ring over exclusive or, with unit 1, and
  multiplication by 2 is the shift of polynomials modulo \<open>x^8 + x^4 + x^3 + x^2 + 1\<close>.
\<close>

theorem rs_multiply_ring:
  "rs_multiply x (y XOR z) = rs_multiply x y XOR rs_multiply x z \<and>
   rs_multiply x y = rs_multiply y x \<and> rs_multiply (rs_multiply x y) z = rs_multiply x (rs_multiply y z) \<and>
   rs_multiply 1 x = x \<and> rs_multiply 2 x = push_bit 1 x XOR (if bit x 7 then 0x1D else 0)"
  using mul_xor_right [of x y z] mul_commute [of x y] mul_assoc [of x y z] mul_1_left [of x]
    mul_power_left [of 1 x]
  by (simp add: xtime_def)

text \<open>
  Every block with its error correction is a Reed-Solomon codeword: for every degree, data and
  stride, \<open>rs_init\<close> succeeds, \<open>rs_getRemainder\<close> stays inside the result array and changes only its
  own cells, and the data followed by these cells is a polynomial that vanishes at the first
  \<open>degree\<close> powers of 2.
\<close>

theorem rs_block_is_codeword:
  assumes "0 < d" and "0 < stride" and "base + (d - 1) * stride < length r"
    and "\<forall>j<d. r ! (base + j * stride) = 0" and "len \<le> length data"
  shows "\<exists>coeff r'. rs_init d = Some coeff \<and> rs_getRemainder d coeff data len base stride r = Some r' \<and>
    same_elsewhere (cells base stride d) r r' \<and>
    (\<forall>k<d. gf.eval (take len data @ strided base stride d r') (gf_root k) = 0)"
  using rs_block_codeword [OF assms] by blast

theorem rs_block_is_codeword_witness:
  "\<exists>coeff r'. rs_init 7 = Some coeff \<and> rs_getRemainder 7 coeff [0x20, 0x5B, 0x0B] 3 0 1 (replicate 7 0) = Some r' \<and>
     gf.eval ([0x20, 0x5B, 0x0B] @ strided 0 1 7 r') 1 = 0"
  using rs_block_is_codeword [of 7 1 0 "replicate 7 0" 3 "[0x20, 0x5B, 0x0B]"]
  by (fastforce simp: gf_root_def dest: spec [of _ 0])

end
