(* ===== verification/QrCode.thy ===== *)
theory QrCode
  imports QrFormat ReedSolomon
begin

text \<open>
  \<open>components/m5stack/src/utility/qrcode.c\<close>, last part: the penalty of a mask, the interleaving of the
  blocks with their error correction, and \<open>qrcode_initBytes\<close>, which makes a symbol out of a text and
  chooses its mask.  Counters that cannot wrap around for the 177 modules of the largest symbol are
  naturals.
\<close>

section \<open>Penalty\<close>

definition PENALTY_N1 :: nat where "PENALTY_N1 = 3"
definition PENALTY_N2 :: nat where "PENALTY_N2 = 3"
definition PENALTY_N3 :: nat where "PENALTY_N3 = 40"
definition PENALTY_N4 :: nat where "PENALTY_N4 = 10"

text \<open>The runs of one row or column: its modules are read by \<open>get\<close>.\<close>

definition run_module :: "(nat \<Rightarrow> bool option) \<Rightarrow> nat \<Rightarrow> bool \<times> nat \<times> nat \<Rightarrow> (bool \<times> nat \<times> nat) option" where
  "run_module get i = (\<lambda>(color, run, result).
     do {
       c \<leftarrow> get i;
       if c \<noteq> color then Some (c, 1, result)
       else
         let run = run + 1
         in Some (color, run,
              if run = 5 then result + PENALTY_N1 else if run > 5 then result + 1 else result)
     })"

definition run_line :: "(nat \<Rightarrow> bool option) \<Rightarrow> nat \<Rightarrow> nat \<Rightarrow> nat option" where
  "run_line get sz result =
     do {
       color \<leftarrow> get 0;
       (_, _, result) \<leftarrow> foldM (run_module get) [1..<sz] (color, 1, result);
       Some result
     }"

definition finder_like :: "u16 \<Rightarrow> bool" where
  "finder_like bits \<longleftrightarrow> bits = 0x05D \<or> bits = 0x5D0"

definition penalty_module ::
    "BitBucket \<Rightarrow> nat \<Rightarrow> nat \<Rightarrow> nat \<times> nat \<times> u16 \<times> u16 \<Rightarrow> (nat \<times> nat \<times> u16 \<times> u16) option" where
  "penalty_module modules y x = (\<lambda>(result, black, bitsRow, bitsCol).
     do {
       color \<leftarrow> bb_getBit x y modules;
       result \<leftarrow> (if x > 0 \<and> y > 0 then do {
           colorUL \<leftarrow> bb_getBit (x - 1) (y - 1) modules;
           colorUR \<leftarrow> bb_getBit x (y - 1) modules;
           colorL \<leftarrow> bb_getBit (x - 1) y modules;
           Some (if color = colorUL \<and> color = colorUR \<and> color = colorL then result + PENALTY_N2 else result)
         }
         else Some result);
       let bitsRow = (push_bit 1 bitsRow AND 0x7FF) OR of_bool color;
       c \<leftarrow> bb_getBit y x modules;
       let bitsCol = (push_bit 1 bitsCol AND 0x7FF) OR of_bool c;
       let result = (if x \<ge> 10 \<and> finder_like bitsRow then result + PENALTY_N3 else result);
       let result = (if x \<ge> 10 \<and> finder_like bitsCol then result + PENALTY_N3 else result);
       Some (result, if color then black + 1 else black, bitsRow, bitsCol)
     })"

definition penalty_row :: "BitBucket \<Rightarrow> nat \<Rightarrow> nat \<Rightarrow> nat \<times> nat \<Rightarrow> (nat \<times> nat) option" where
  "penalty_row modules sz y = (\<lambda>(result, black).
     do {
       (result, black, _, _) \<leftarrow> foldM (penalty_module modules y) [0..<sz] (result, black, 0, 0);
       Some (result, black)
     })"

partial_function (option) balance_loop :: "int \<Rightarrow> int \<Rightarrow> int \<Rightarrow> nat \<Rightarrow> nat option" where
  "balance_loop black area k result =
     (if black * 20 < (9 - k) * area \<or> black * 20 > (11 + k) * area
      then balance_loop black area (k + 1) (result + PENALTY_N4)
      else Some result)"

definition getPenaltyScore :: "BitBucket \<Rightarrow> nat option" where
  "getPenaltyScore modules =
     (let sz = bitOffsetOrWidth modules mod 256 in
      do {
        result \<leftarrow> foldM (\<lambda>y. run_line (\<lambda>x. bb_getBit x y modules) sz) [0..<sz] 0;
        result \<leftarrow> foldM (\<lambda>x. run_line (\<lambda>y. bb_getBit x y modules) sz) [0..<sz] result;
        (result, black) \<leftarrow> foldM (penalty_row modules sz) [0..<sz] (result, 0);
        balance_loop (int black) (int (sz * sz)) 0 result
      })"

section \<open>Error correction\<close>

text \<open>An entry of a table that is indexed by \<open>version - 1\<close>.\<close>

definition for_version :: "nat list \<Rightarrow> nat \<Rightarrow> nat option" where
  "for_version t version = (if version = 0 then None else rd t (version - 1))"

text \<open>The two loops that interleave: \<open>result[offset++] = dataBytes[index]\<close>, and the step to the next block.\<close>

definition interleave_byte ::
    "u8 list \<Rightarrow> nat \<Rightarrow> nat \<Rightarrow> u8 list \<times> nat \<times> nat \<times> nat \<Rightarrow> (u8 list \<times> nat \<times> nat \<times> nat) option" where
  "interleave_byte dataBytes longFrom blockNum = (\<lambda>(result, offset, index, stride).
     do {
       c \<leftarrow> rd dataBytes index;
       result \<leftarrow> wr result offset c;
       let stride = (if blockNum = longFrom then stride + 1 else stride);
       Some (result, offset + 1, index + stride, stride)
     })"

definition ecc_block ::
    "nat \<Rightarrow> u8 list \<Rightarrow> u8 list \<Rightarrow> nat \<Rightarrow> nat \<Rightarrow> nat \<Rightarrow> nat \<Rightarrow> u8 list \<times> nat \<times> nat \<Rightarrow> (u8 list \<times> nat \<times> nat) option" where
  "ecc_block blockEccLen coeff dataBytes offset numBlocks numShortBlocks blockNum = (\<lambda>(result, start, blockSize).
     (let blockSize = (if blockNum = numShortBlocks then blockSize + 1 else blockSize)
      in do {
        result \<leftarrow> rs_getRemainder blockEccLen coeff (drop start dataBytes) blockSize (offset + blockNum) numBlocks result;
        Some (result, start + blockSize, blockSize)
      }))"

definition performErrorCorrection :: "nat \<Rightarrow> nat \<Rightarrow> BitBucket \<Rightarrow> BitBucket option" where
  "performErrorCorrection version ecc b =
     do {
       blocks \<leftarrow> rd NUM_ERROR_CORRECTION_BLOCKS ecc;
       numBlocks \<leftarrow> for_version blocks version;
       codewords \<leftarrow> rd NUM_ERROR_CORRECTION_CODEWORDS ecc;
       totalEcc \<leftarrow> for_version codewords version;
       moduleCount \<leftarrow> for_version NUM_RAW_DATA_MODULES version;
       let blockEccLen = totalEcc div numBlocks;
       let numShortBlocks = numBlocks - moduleCount div 8 mod numBlocks;
       let shortBlockLen = moduleCount div 8 div numBlocks;
       let shortDataBlockLen = shortBlockLen - blockEccLen;
       coeff \<leftarrow> rs_init blockEccLen;
       (result, offset) \<leftarrow> foldM (\<lambda>i (result, offset). do {
           (result, offset, _, _) \<leftarrow> foldM (interleave_byte (data b) numShortBlocks) [0..<numBlocks]
             (result, offset, i, shortDataBlockLen);
           Some (result, offset)
         }) [0..<shortDataBlockLen] (replicate (capacityBytes b) 0, 0);
       (result, offset, _, _) \<leftarrow> foldM (interleave_byte (data b) 0) [0..<numBlocks - numShortBlocks]
         (result, offset, shortDataBlockLen * (numShortBlocks + 1), shortDataBlockLen);
       (result, _, _) \<leftarrow> foldM (ecc_block blockEccLen coeff (data b) offset numBlocks numShortBlocks)
         [0..<numBlocks] (result, 0, shortDataBlockLen);
       Some (b\<lparr>data := result @ drop (capacityBytes b) (data b), bitOffsetOrWidth := moduleCount\<rparr>)
     }"

section \<open>Symbols\<close>

record QRCode =
  qr_version :: nat
  qr_size :: nat
  qr_ecc :: nat
  qr_mode :: nat
  qr_mask :: nat
  qr_modules :: "u8 list"

definition ECC_FORMAT_BITS :: u8 where
  "ECC_FORMAT_BITS = push_bit 6 2 OR push_bit 4 3 OR push_bit 2 0 OR 1"

definition qrcode_getBufferSize :: "nat \<Rightarrow> nat" where
  "qrcode_getBufferSize version = bb_getGridSizeBytes ((4 * version + 17) mod 256)"

text \<open>
  One round of the choice of the mask: the penalty of the grid with this mask, which is applied and
  taken back; the minimum is kept as \<open>(mask, penalty)\<close>, starting from \<open>INT32_MAX\<close>.
\<close>

definition try_mask :: "nat \<Rightarrow> nat \<Rightarrow> grids \<times> nat \<times> nat \<Rightarrow> (grids \<times> nat \<times> nat) option" where
  "try_mask eccFormatBits i = (\<lambda>(g, best, minPenalty).
     do {
       (modules, isFunction) \<leftarrow> drawFormatBits eccFormatBits i g;
       modules \<leftarrow> applyMask isFunction i modules;
       penalty \<leftarrow> getPenaltyScore modules;
       let best' = (if penalty < minPenalty then (i, penalty) else (best, minPenalty));
       modules \<leftarrow> applyMask isFunction i modules;
       Some ((modules, isFunction), best')
     })"

definition choose_mask :: "nat \<Rightarrow> grids \<Rightarrow> (grids \<times> nat) option" where
  "choose_mask eccFormatBits g =
     do {
       (g, best, _) \<leftarrow> foldM (try_mask eccFormatBits) [0..<8] (g, 0, 2 ^ 31 - 1);
       (modules, isFunction) \<leftarrow> drawFormatBits eccFormatBits best g;
       modules \<leftarrow> applyMask isFunction best modules;
       Some ((modules, isFunction), best)
     }"

text \<open>
  \<open>modules\<close> is the caller's buffer of \<open>qrcode_getBufferSize\<close> bytes, which the code clears.  The mode
  that \<open>encodeDataCodewords\<close> returns is never negative, so the early return of -1 is never taken.
\<close>

definition qrcode_initBytes :: "nat \<Rightarrow> nat \<Rightarrow> u8 list \<Rightarrow> nat \<Rightarrow> (int \<times> QRCode) option" where
  "qrcode_initBytes version ecc text len =
     (let sz = (version * 4 + 17) mod 256;
          eccFormatBits = unat (drop_bit (2 * ecc) ECC_FORMAT_BITS AND 3)
      in do {
        moduleCount \<leftarrow> for_version NUM_RAW_DATA_MODULES version;
        row \<leftarrow> rd NUM_ERROR_CORRECTION_CODEWORDS eccFormatBits;
        eccCount \<leftarrow> for_version row version;
        let dataCapacity = moduleCount div 8 - eccCount;
        let codewords = bb_initBuffer (bb_getBufferSizeBytes moduleCount);
        (mode, codewords) \<leftarrow> encodeDataCodewords text len version codewords;
        codewords \<leftarrow> pad_bits dataCapacity codewords;
        codewords \<leftarrow> pad_bytes dataCapacity 0xEC codewords;
        g \<leftarrow> drawFunctionPatterns version eccFormatBits (bb_initGrid sz, bb_initGrid sz);
        codewords \<leftarrow> performErrorCorrection version eccFormatBits codewords;
        modules \<leftarrow> drawCodewords (snd g) codewords (fst g);
        (g, msk) \<leftarrow> choose_mask eccFormatBits (modules, snd g);
        Some (0, \<lparr>qr_version = version, qr_size = sz, qr_ecc = ecc, qr_mode = mode, qr_mask = msk,
          qr_modules = data (fst g)\<rparr>)
      })"

text \<open>The text ends at its first null byte.\<close>

definition qrcode_initText :: "nat \<Rightarrow> nat \<Rightarrow> u8 list \<Rightarrow> (int \<times> QRCode) option" where
  "qrcode_initText version ecc text =
     qrcode_initBytes version ecc text (length (takeWhile (\<lambda>c. c \<noteq> 0) text))"

definition qrcode_getModule :: "QRCode \<Rightarrow> nat \<Rightarrow> nat \<Rightarrow> bool option" where
  "qrcode_getModule q x y =
     (if x \<ge> qr_size q \<or> y \<ge> qr_size q then Some False
      else
        let offset = y * qr_size q + x
        in do { c \<leftarrow> rd (qr_modules q) (offset div 8); Some (c AND bb_mask offset \<noteq> 0) })"

section \<open>The penalty is always computed\<close>

lemma run_module_total:
  "get i = Some c \<Longrightarrow> \<exists>t. run_module get i st = Some t \<and> snd (snd t) \<le> snd (snd st) + 3"
  by (cases st) (simp add: run_module_def Let_def PENALTY_N1_def)

lemma run_line_total:
  assumes "0 < sz" and "\<And>i. i < sz \<Longrightarrow> \<exists>c. get i = Some c"
  shows "\<exists>r. run_line get sz result = Some r \<and> r \<le> result + 3 * sz"
proof -
  have "\<exists>st. foldM (run_module get) [1..<sz] (the (get 0), 1, result) = Some st \<and> snd (snd st) \<le> result + 3 * sz"
  proof (rule foldM_range_invariant [where P = "\<lambda>i st. snd (snd st) \<le> result + 3 * i"])
    fix i and st :: "bool \<times> nat \<times> nat"
    assume i: "i < sz" and st: "snd (snd st) \<le> result + 3 * i"
    then obtain c where "get i = Some c" using assms(2) [of i] by auto
    from run_module_total [where get = get and i = i, OF this, of st] st
    show "\<exists>t. run_module get i st = Some t \<and> snd (snd t) \<le> result + 3 * Suc i" by force
  qed (use assms in auto)
  moreover obtain c where "get 0 = Some c" using assms by blast
  ultimately show ?thesis by (auto simp: run_line_def)
qed

lemma penalty_module_total:
  assumes "grid m n" "x < n" "y < n"
  shows "\<exists>t. penalty_module m y x st = Some t \<and> fst (snd t) \<le> fst (snd st) + 1 \<and> fst t \<le> fst st + 83"
  using assms by (cases st) (auto simp: penalty_module_def getBit Let_def PENALTY_N2_def PENALTY_N3_def)

lemma penalty_row_total:
  assumes "grid m n" "y < n"
  shows "\<exists>t. penalty_row m n y st = Some t \<and> snd t \<le> snd st + n \<and> fst t \<le> fst st + 83 * n"
proof -
  obtain r b where st: "st = (r, b)" by (cases st)
  have "\<exists>t. foldM (penalty_module m y) [0..<n] (r, b, 0, 0) = Some t \<and> fst (snd t) \<le> b + n \<and> fst t \<le> r + 83 * n"
  proof (rule foldM_upt_invariant)
    fix i and s :: "nat \<times> nat \<times> u16 \<times> u16" assume i: "i < n" and "fst (snd s) \<le> b + i \<and> fst s \<le> r + 83 * i"
    moreover from penalty_module_total [OF assms(1) i assms(2), of s]
    obtain t where "penalty_module m y i s = Some t" "fst (snd t) \<le> fst (snd s) + 1" "fst t \<le> fst s + 83" by blast
    ultimately show "\<exists>t. penalty_module m y i s = Some t \<and> fst (snd t) \<le> b + Suc i \<and> fst t \<le> r + 83 * Suc i" by force
  qed simp
  then show ?thesis by (auto simp: penalty_row_def st)
qed

lemma black_count:
  assumes "grid m n"
  shows "\<exists>r b. foldM (penalty_row m n) [0..<n] (result, 0) = Some (r, b) \<and> b \<le> n * n \<and> r \<le> result + 83 * n * n"
proof -
  have "\<exists>t. foldM (penalty_row m n) [0..<n] (result, 0) = Some t \<and> snd t \<le> n * n \<and> fst t \<le> result + n * (83 * n)"
  proof (rule foldM_upt_invariant [where P = "\<lambda>i s. snd s \<le> i * n \<and> fst s \<le> result + i * (83 * n)"])
    fix i and s :: "nat \<times> nat" assume i: "i < n" and s: "snd s \<le> i * n \<and> fst s \<le> result + i * (83 * n)"
    from penalty_row_total [OF assms i, of s]
    obtain t where t: "penalty_row m n i s = Some t" "snd t \<le> snd s + n" "fst t \<le> fst s + 83 * n" by blast
    have "snd t \<le> Suc i * n" "fst t \<le> result + Suc i * (83 * n)" using t s by simp_all
    with t(1) show "\<exists>t. penalty_row m n i s = Some t \<and> snd t \<le> Suc i * n \<and> fst t \<le> result + Suc i * (83 * n)" by blast
  qed simp
  then show ?thesis by (auto simp: mult.commute mult.left_commute)
qed

lemma balance_loop_steps:
  assumes "0 \<le> black" "black \<le> area"
  shows "j \<le> 9 \<Longrightarrow> \<exists>i \<le> 9 - j. balance_loop black area (int j) result = Some (result + i * PENALTY_N4)"
proof (induction "9 - j" arbitrary: j result)
  case 0
  then have "\<not> (black * 20 < (9 - int j) * area \<or> black * 20 > (11 + int j) * area)" using assms by simp
  then show ?case by (subst balance_loop.simps) auto
next
  case (Suc d)
  show ?case
  proof (cases "black * 20 < (9 - int j) * area \<or> black * 20 > (11 + int j) * area")
    case True
    have "d = 9 - Suc j" "Suc j \<le> 9" using Suc.hyps(2) Suc.prems by simp_all
    from Suc.hyps(1) [OF this, of "result + PENALTY_N4"] obtain i where
      "i \<le> 9 - Suc j" "balance_loop black area (int (Suc j)) (result + PENALTY_N4) = Some (result + PENALTY_N4 + i * PENALTY_N4)"
      by blast
    moreover have "balance_loop black area (int j) result = balance_loop black area (int (Suc j)) (result + PENALTY_N4)"
      using True by (subst balance_loop.simps) (simp add: add.commute)
    ultimately show ?thesis using Suc.hyps(2) by (intro exI [of _ "Suc i"]) auto
  next
    case False
    then show ?thesis by (subst balance_loop.simps) auto
  qed
qed

lemma line_loop_total:
  assumes "\<And>i x. i < n \<Longrightarrow> x < n \<Longrightarrow> \<exists>c. get i x = Some c"
  shows "\<exists>r. foldM (\<lambda>i. run_line (get i) n) [0..<n] result = Some r \<and> r \<le> result + n * (3 * n)"
proof (rule foldM_upt_invariant [where P = "\<lambda>i r. r \<le> result + i * (3 * n)"])
  fix i s assume i: "i < n" and s: "s \<le> result + i * (3 * n)"
  have "\<exists>r. run_line (get i) n s = Some r \<and> r \<le> s + 3 * n"
    using i assms by (intro run_line_total) auto
  then obtain r where r: "run_line (get i) n s = Some r" "r \<le> s + 3 * n" by blast
  then have "r \<le> result + Suc i * (3 * n)" using s by simp
  with r(1) show "\<exists>t. run_line (get i) n s = Some t \<and> t \<le> result + Suc i * (3 * n)" by blast
qed simp

lemma getPenaltyScore_total:
  assumes "grid m n" "n < 256"
  shows "\<exists>p. getPenaltyScore m = Some p \<and> p \<le> 89 * n * n + 90"
proof -
  obtain r1 where r1: "foldM (\<lambda>y. run_line (\<lambda>x. bb_getBit x y m) n) [0..<n] 0 = Some r1" "r1 \<le> n * (3 * n)"
    using line_loop_total [of n "\<lambda>y x. bb_getBit x y m" 0] getBit [OF assms(1)] by auto
  obtain r2 where r2: "foldM (\<lambda>x. run_line (\<lambda>y. bb_getBit x y m) n) [0..<n] r1 = Some r2" "r2 \<le> r1 + n * (3 * n)"
    using line_loop_total [of n "\<lambda>x y. bb_getBit x y m" r1] getBit [OF assms(1)] by auto
  obtain r3 b where r3: "foldM (penalty_row m n) [0..<n] (r2, 0) = Some (r3, b)" "b \<le> n * n" "r3 \<le> r2 + 83 * n * n"
    using black_count [OF assms(1)] by blast
  have "int b \<le> int (n * n)" using r3(2) by (simp only: of_nat_le_iff)
  from balance_loop_steps [OF _ this, of 0 r3] obtain i where
    "balance_loop (int b) (int (n * n)) 0 r3 = Some (r3 + i * PENALTY_N4)" "i \<le> 9" by auto
  then show ?thesis
    using assms r1 r2 r3 by (simp add: getPenaltyScore_def grid_def PENALTY_N4_def)
qed

section \<open>The choice of the mask\<close>

definition masked_symbol :: "nat \<Rightarrow> grids \<Rightarrow> nat \<Rightarrow> BitBucket option" where
  "masked_symbol ecc g msk = do { (m, f) \<leftarrow> drawFormatBits ecc msk g; applyMask f msk m }"

definition mask_penalty :: "nat \<Rightarrow> grids \<Rightarrow> nat \<Rightarrow> nat option" where
  "mask_penalty ecc g msk = Option.bind (masked_symbol ecc g msk) getPenaltyScore"

lemma format_ops_modules: "fst ` set (format_ops n ecc i) = fst ` set (format_ops n ecc j)"
  by (simp add: format_ops_def image_Un image_image del: upt_Suc upt_rec_numeral)

lemma map_of_rev_set: "map_of (rev ops) p = None \<longleftrightarrow> p \<notin> fst ` set ops"
  by (simp add: map_of_eq_None_iff)

lemma drawn_unique:
  assumes "grids_ok g n" "drawn n ops g g1" "drawn n ops g g2"
  shows "g1 = g2"
proof (rule prod_eqI)
  have ok: "grid (fst g2) n" "grid (snd g2) n"
    using drawn_ok [OF assms(3)] assms(1) by (simp_all add: grids_ok_def)
  show "fst g1 = fst g2"
    by (rule grid_eqI [OF _ ok(1)]) (use assms(2,3) in \<open>auto simp: drawn_def same_frame_def\<close>)
  show "snd g1 = snd g2"
    by (rule grid_eqI [OF _ ok(2)]) (use assms(2,3) in \<open>auto simp: drawn_def same_frame_def\<close>)
qed

lemma drawn_overwrite:
  assumes "drawn n ops g g1" "drawn n ops' g1 g2" "fst ` set ops = fst ` set ops'"
  shows "drawn n ops' g g2"
proof -
  have "map_of (rev ops') p = None \<Longrightarrow> map_of (rev ops) p = None" for p
    using assms(3) by (simp add: map_of_rev_set)
  then show ?thesis
    using assms(1,2) unfolding drawn_def assms(3)
    by (auto intro: same_frame_trans split: option.splits)
qed

lemma drawFormatBits_again:
  assumes "grids_ok g n" "21 \<le> n" "n < 256" "drawFormatBits ecc i g = Some g1"
  shows "drawFormatBits ecc j g1 = drawFormatBits ecc j g"
proof -
  have d1: "drawn n (format_ops n ecc i) g g1"
    using drawFormatBits_drawn [OF assms(1-3), of ecc i] assms(4) by simp
  then have "grids_ok g1 n" using assms(1) by (simp add: drawn_ok)
  then obtain g2 where g2: "drawFormatBits ecc j g1 = Some g2" "drawn n (format_ops n ecc j) g1 g2"
    using drawFormatBits_drawn [OF _ assms(2,3)] by blast
  obtain g3 where g3: "drawFormatBits ecc j g = Some g3" "drawn n (format_ops n ecc j) g g3"
    using drawFormatBits_drawn [OF assms(1-3)] by blast
  have "g2 = g3"
    by (rule drawn_unique [OF assms(1) drawn_overwrite [OF d1 g2(2) format_ops_modules] g3(2)])
  with g2(1) g3(1) show ?thesis by simp
qed

lemma try_mask_step:
  assumes "grids_ok g n" "21 \<le> n" "n < 256"
  shows "\<exists>m f m' p. drawFormatBits ecc i g = Some (m, f) \<and> applyMask f i m = Some m' \<and> applyMask f i m' = Some m \<and>
    getPenaltyScore m' = Some p \<and> p \<le> 89 * n * n + 90 \<and> grids_ok (m, f) n"
proof -
  obtain m f where d: "drawFormatBits ecc i g = Some (m, f)" "drawn n (format_ops n ecc i) g (m, f)"
    using drawFormatBits_drawn [OF assms, of ecc i] by (metis prod.collapse)
  then have ok: "grids_ok (m, f) n" using assms(1) by (simp add: drawn_ok)
  then have g: "grid f n" "grid m n" by (simp_all add: grids_ok_def)
  obtain m' where m': "applyMask f i m = Some m'" "applyMask f i m' = Some m"
    using applyMask_twice [OF g assms(3)] by blast
  then have "grid m' n" using applyMask_cells [OF g assms(3), of i] g(2) by (auto simp: same_frame_grid)
  then show ?thesis using d(1) m' ok getPenaltyScore_total [OF _ assms(3)] by blast
qed

lemma try_mask_eq:
  assumes "grids_ok g0 n" "21 \<le> n" "n < 256" "grids_ok g n" "\<And>j. drawFormatBits ecc j g = drawFormatBits ecc j g0"
  shows "\<exists>g' p. mask_penalty ecc g0 i = Some p \<and> p < 2 ^ 31 - 1 \<and>
    try_mask ecc i (g, best, minp) = Some (g', if p < minp then (i, p) else (best, minp)) \<and>
    grids_ok g' n \<and> (\<forall>j. drawFormatBits ecc j g' = drawFormatBits ecc j g0)"
proof -
  obtain m f m' p where s: "drawFormatBits ecc i g = Some (m, f)" "applyMask f i m = Some m'" "applyMask f i m' = Some m"
    "getPenaltyScore m' = Some p" "p \<le> 89 * n * n + 90" "grids_ok (m, f) n"
    using try_mask_step [OF assms(4,2,3)] by blast
  have "n * n \<le> 255 * 255" using assms(3) by (intro mult_le_mono) simp_all
  then have "p < 2 ^ 31 - 1" using s(5) by simp
  moreover have "mask_penalty ecc g0 i = Some p"
    using s(1,2,4) assms(5) by (simp add: mask_penalty_def masked_symbol_def)
  moreover have "\<forall>j. drawFormatBits ecc j (m, f) = drawFormatBits ecc j g0"
    using drawFormatBits_again [OF assms(4,2,3) s(1)] assms(5) by simp
  moreover have "try_mask ecc i (g, best, minp) = Some ((m, f), if p < minp then (i, p) else (best, minp))"
    using s(1-4) by (simp add: try_mask_def Let_def)
  ultimately show ?thesis using s(6) by blast
qed

text \<open>The state of the loop after the first \<open>i\<close> masks.\<close>

definition best_of :: "nat \<Rightarrow> grids \<Rightarrow> nat \<Rightarrow> nat \<times> nat \<Rightarrow> bool" where
  "best_of ecc g0 i = (\<lambda>(best, minp).
     if i = 0 then best = 0 \<and> minp = 2 ^ 31 - 1
     else best < i \<and> mask_penalty ecc g0 best = Some minp \<and>
       (\<forall>j<i. \<exists>q. mask_penalty ecc g0 j = Some q \<and> minp \<le> q \<and> (j < best \<longrightarrow> minp < q)))"

lemma best_of_step:
  assumes "best_of ecc g0 i (best, minp)" "mask_penalty ecc g0 i = Some p" "p < 2 ^ 31 - 1"
  shows "best_of ecc g0 (Suc i) (if p < minp then (i, p) else (best, minp))"
proof (cases "i = 0")
  case True
  then show ?thesis using assms by (simp add: best_of_def)
next
  case False
  then have b: "best < i" "mask_penalty ecc g0 best = Some minp"
    "\<And>j. j < i \<Longrightarrow> \<exists>q. mask_penalty ecc g0 j = Some q \<and> minp \<le> q \<and> (j < best \<longrightarrow> minp < q)"
    using assms(1) by (simp_all add: best_of_def)
  show ?thesis
  proof (cases "p < minp")
    case True
    have "\<exists>q. mask_penalty ecc g0 j = Some q \<and> p \<le> q \<and> (j < i \<longrightarrow> p < q)" if "j < Suc i" for j
      using that b(3) [of j] True assms(2) by (cases "j = i") force+
    then show ?thesis using True assms(2) by (simp add: best_of_def)
  next
    case False
    have "\<exists>q. mask_penalty ecc g0 j = Some q \<and> minp \<le> q \<and> (j < best \<longrightarrow> minp < q)" if "j < Suc i" for j
      using that b(1) b(3) [of j] False assms(2) by (cases "j = i") auto
    then show ?thesis using False b by (simp add: best_of_def)
  qed
qed

lemma choose_mask_best:
  assumes "grids_ok g n" "21 \<le> n" "n < 256"
  shows "\<exists>g' k minp. choose_mask ecc g = Some (g', k) \<and> masked_symbol ecc g k = Some (fst g') \<and> best_of ecc g 8 (k, minp)"
proof -
  have "\<exists>st. foldM (try_mask ecc) [0..<8] (g, 0, 2 ^ 31 - 1) = Some st \<and>
      (grids_ok (fst st) n \<and> (\<forall>j. drawFormatBits ecc j (fst st) = drawFormatBits ecc j g) \<and> best_of ecc g 8 (snd st))"
  proof (rule foldM_upt_invariant)
    show "grids_ok (fst (g, 0, 2 ^ 31 - 1)) n \<and>
        (\<forall>j. drawFormatBits ecc j (fst (g, 0, 2 ^ 31 - 1)) = drawFormatBits ecc j g) \<and> best_of ecc g 0 (snd (g, 0, 2 ^ 31 - 1))"
      using assms(1) by (simp add: best_of_def)
  next
    fix i and st :: "grids \<times> nat \<times> nat"
    assume st: "grids_ok (fst st) n \<and> (\<forall>j. drawFormatBits ecc j (fst st) = drawFormatBits ecc j g) \<and> best_of ecc g i (snd st)"
    obtain g1 best minp where e: "st = (g1, best, minp)" by (cases st)
    obtain g' p where "mask_penalty ecc g i = Some p" "p < 2 ^ 31 - 1"
      "try_mask ecc i (g1, best, minp) = Some (g', if p < minp then (i, p) else (best, minp))"
      "grids_ok g' n" "\<forall>j. drawFormatBits ecc j g' = drawFormatBits ecc j g"
      using try_mask_eq [OF assms, of g1] st e by fastforce
    with best_of_step [of ecc g i best minp p] st e
    show "\<exists>t. try_mask ecc i st = Some t \<and> grids_ok (fst t) n \<and>
        (\<forall>j. drawFormatBits ecc j (fst t) = drawFormatBits ecc j g) \<and> best_of ecc g (Suc i) (snd t)" by simp
  qed
  then obtain g1 k minp where l: "foldM (try_mask ecc) [0..<8] (g, 0, 2 ^ 31 - 1) = Some (g1, k, minp)"
    "\<And>j. drawFormatBits ecc j g1 = drawFormatBits ecc j g" "best_of ecc g 8 (k, minp)" by auto
  obtain m f m' where "drawFormatBits ecc k g = Some (m, f)" "applyMask f k m = Some m'"
    using try_mask_step [OF assms] by blast
  then have "choose_mask ecc g = Some ((m', f), k)" "masked_symbol ecc g k = Some m'"
    unfolding choose_mask_def masked_symbol_def l(1) by (simp_all add: l(2))
  with l(3) show ?thesis by (metis fst_conv)
qed

text \<open>
  C10. \<open>qrcode_initBytes\<close> settles on the best mask: of the eight symbols that differ in the mask and its
  format information it yields one with the smallest penalty, the first such, exactly as if the masks
  before it had never been tried on the grid; every penalty is computed, its loops terminate and its
  value fits in an \<open>int\<close>.
\<close>

theorem mask_choice_is_best:
  assumes "grids_ok g n" "21 \<le> n" "n < 256"
  shows "\<exists>g' k minp. choose_mask ecc g = Some (g', k) \<and> k < 8 \<and> masked_symbol ecc g k = Some (fst g') \<and>
    mask_penalty ecc g k = Some minp \<and> minp < 2 ^ 31 \<and>
    (\<forall>j<8. \<exists>q. mask_penalty ecc g j = Some q \<and> minp \<le> q \<and> (j < k \<longrightarrow> minp < q))"
proof -
  obtain g' k minp where c: "choose_mask ecc g = Some (g', k)" "masked_symbol ecc g k = Some (fst g')"
    "best_of ecc g 8 (k, minp)" using choose_mask_best [OF assms] by blast
  moreover have "\<exists>p. mask_penalty ecc g k = Some p \<and> p < 2 ^ 31 - 1"
    using try_mask_eq [OF assms assms(1) refl] by blast
  ultimately show ?thesis unfolding best_of_def by fastforce
qed

theorem mask_choice_is_best_witness:
  "\<exists>g' k. choose_mask 1 (bb_initGrid 21, bb_initGrid 21) = Some (g', k) \<and> k < 8"
proof -
  have "grids_ok (bb_initGrid 21, bb_initGrid 21) 21"
    by (simp add: grids_ok_def grid_def bb_initGrid_def)
  from mask_choice_is_best [OF this, of 1] show ?thesis by auto
qed

end
