(* ===== verification/QrBlocks.thy ===== *)
theory QrBlocks
  imports QrCode
begin

text \<open>
  What \<open>performErrorCorrection\<close> of \<open>qrcode.c\<close> makes of the data of a symbol: the blocks of the standard,
  each followed by its Reed-Solomon remainder, interleaved byte by byte.
\<close>

section \<open>The blocks\<close>

definition ec_blocks :: "nat \<Rightarrow> nat \<Rightarrow> nat" where
  "ec_blocks version ecc = NUM_ERROR_CORRECTION_BLOCKS ! ecc ! (version - 1)"

definition ec_len :: "nat \<Rightarrow> nat \<Rightarrow> nat" where
  "ec_len version ecc = NUM_ERROR_CORRECTION_CODEWORDS ! ecc ! (version - 1) div ec_blocks version ecc"

definition ec_total :: "nat \<Rightarrow> nat" where
  "ec_total version = NUM_RAW_DATA_MODULES ! (version - 1) div 8"

definition ec_short :: "nat \<Rightarrow> nat \<Rightarrow> nat" where
  "ec_short version ecc = ec_blocks version ecc - ec_total version mod ec_blocks version ecc"

definition ec_data :: "nat \<Rightarrow> nat \<Rightarrow> nat" where
  "ec_data version ecc = ec_total version div ec_blocks version ecc - ec_len version ecc"

text \<open>Where a block starts: the first \<open>s\<close> blocks have \<open>S\<close> bytes, the others one more.\<close>

definition block_start :: "nat \<Rightarrow> nat \<Rightarrow> nat \<Rightarrow> nat" where
  "block_start S s j = j * S + (j - s)"

definition block_size :: "nat \<Rightarrow> nat \<Rightarrow> nat \<Rightarrow> nat" where
  "block_size S s j = S + (if j < s then 0 else 1)"

definition ec_block :: "nat \<Rightarrow> nat \<Rightarrow> u8 list \<Rightarrow> nat \<Rightarrow> u8 list" where
  "ec_block S s d j = take (block_size S s j) (drop (block_start S s j) d)"

lemma block_start_Suc: "block_start S s (Suc j) = block_start S s j + block_size S s j"
  by (simp add: block_start_def block_size_def Suc_diff_le)

lemma block_start_mono: "i \<le> j \<Longrightarrow> block_start S s i \<le> block_start S s j"
  by (simp add: block_start_def add_mono diff_le_mono)

lemma block_end: "j < n \<Longrightarrow> block_start S s j + block_size S s j \<le> block_start S s n"
  using block_start_mono [of "Suc j" n S s] by (simp add: block_start_Suc)

section \<open>The array that is filled from its start\<close>

definition fill :: "u8 list \<Rightarrow> nat \<Rightarrow> u8 list" where
  "fill w cap = w @ replicate (cap - length w) 0"

lemma fill_wr: "length w < cap \<Longrightarrow> wr (fill w cap) (length w) c = Some (fill (w @ [c]) cap)"
  by (simp add: fill_def wr_def list_update_append Suc_diff_Suc [symmetric])

lemma length_fill: "length w \<le> cap \<Longrightarrow> length (fill w cap) = cap"
  by (simp add: fill_def)

lemma interleave_row:
  assumes "i < S" "s \<le> n" "length w + n \<le> cap" "block_start S s n \<le> length d"
  shows "foldM (interleave_byte d s) [0..<n] (fill w cap, length w, i, S) =
    Some (fill (w @ map (\<lambda>j. d ! (block_start S s j + i)) [0..<n]) cap, length w + n, i + block_start S s n,
      if s < n then S + 1 else S)"
proof -
  let ?st = "\<lambda>j. (fill (w @ map (\<lambda>j. d ! (block_start S s j + i)) [0..<j]) cap, length w + j, i + block_start S s j,
      if s < j then S + 1 else S)"
  have "\<exists>t. foldM (interleave_byte d s) [0..<n] (fill w cap, length w, i, S) = Some t \<and> t = ?st n"
  proof (rule foldM_upt_invariant [where P = "\<lambda>j t. t = ?st j"])
    fix j t assume j: "j < n" and t: "t = ?st j"
    have "i + block_start S s j < length d"
      using block_end [OF j, of S s] assms(1,4) by (simp add: block_size_def split: if_splits)
    moreover have "wr (fill (w @ map (\<lambda>j. d ! (block_start S s j + i)) [0..<j]) cap) (length w + j) (d ! (block_start S s j + i)) =
        Some (fill (w @ map (\<lambda>j. d ! (block_start S s j + i)) [0..<Suc j]) cap)"
      using fill_wr [of "w @ map (\<lambda>j. d ! (block_start S s j + i)) [0..<j]" cap] assms(3) j by simp
    ultimately show "\<exists>t'. interleave_byte d s j t = Some t' \<and> t' = ?st (Suc j)"
      using t by (simp add: interleave_byte_def cmem Let_def add.commute [of i] block_start_Suc block_size_def del: upt_Suc) 
  qed (simp add: block_start_def)
  then show ?thesis by simp
qed

lemma interleave_rows:
  assumes "s \<le> n" "n * S \<le> cap" "block_start S s n \<le> length d"
  shows "foldM (\<lambda>i (result, offset). do {
       (result, offset, _, _) \<leftarrow> foldM (interleave_byte d s) [0..<n] (result, offset, i, S);
       Some (result, offset) }) [0..<S] (replicate cap 0, 0) =
    Some (fill (concat (map (\<lambda>i. map (\<lambda>j. d ! (block_start S s j + i)) [0..<n]) [0..<S])) cap, S * n)"
proof -
  let ?w = "\<lambda>k. concat (map (\<lambda>i. map (\<lambda>j. d ! (block_start S s j + i)) [0..<n]) [0..<k])"
  have len: "length (?w k) = k * n" for k by (induction k) simp_all
  have "\<exists>t. foldM (\<lambda>i (result, offset). do {
       (result, offset, _, _) \<leftarrow> foldM (interleave_byte d s) [0..<n] (result, offset, i, S);
       Some (result, offset) }) [0..<S] (replicate cap 0, 0) = Some t \<and> t = (fill (?w S) cap, S * n)"
  proof (rule foldM_upt_invariant [where P = "\<lambda>k t. t = (fill (?w k) cap, k * n)"])
    fix k t assume k: "k < S" and t: "t = (fill (?w k) cap, k * n)"
    have "Suc k * n \<le> S * n" using k by (intro mult_le_mono1) simp
    then have "length (?w k) + n \<le> cap" using assms(2) by (simp only: len) (simp add: mult.commute)
    from interleave_row [OF k assms(1) this assms(3)]
    show "\<exists>t'. (case t of (result, offset) \<Rightarrow> do {
        (result, offset, _, _) \<leftarrow> foldM (interleave_byte d s) [0..<n] (result, offset, k, S);
        Some (result, offset) }) = Some t' \<and> t' = (fill (?w (Suc k)) cap, Suc k * n)"
      using t by (simp add: len)
  qed (simp add: fill_def)
  then show ?thesis by blast
qed

lemma interleave_long:
  assumes "s \<le> n" "length w + (n - s) \<le> cap" "block_start S s n \<le> length d"
  shows "\<exists>ix str. foldM (interleave_byte d 0) [0..<n - s] (fill w cap, length w, S * (s + 1), S) =
    Some (fill (w @ map (\<lambda>j. d ! (block_start S s (s + j) + S)) [0..<n - s]) cap, length w + (n - s), ix, str)"
proof -
  let ?st = "\<lambda>j. (fill (w @ map (\<lambda>j. d ! (block_start S s (s + j) + S)) [0..<j]) cap, length w + j,
      block_start S s (s + j) + S, if 0 < j then S + 1 else S)"
  have "\<exists>t. foldM (interleave_byte d 0) [0..<n - s] (fill w cap, length w, S * (s + 1), S) = Some t \<and> t = ?st (n - s)"
  proof (rule foldM_upt_invariant [where P = "\<lambda>j t. t = ?st j"])
    fix j t assume j: "j < n - s" and t: "t = ?st j"
    have ix: "block_start S s (s + Suc j) = block_start S s (s + j) + (S + 1)" by (simp add: block_start_Suc block_size_def)
    have "s + j < n" using j by simp
    from block_end [OF this, of S s] have "block_start S s (s + j) + S < length d"
      using assms(3) by (simp add: block_size_def)
    moreover have "wr (fill (w @ map (\<lambda>j. d ! (block_start S s (s + j) + S)) [0..<j]) cap) (length w + j) (d ! (block_start S s (s + j) + S)) =
        Some (fill (w @ map (\<lambda>j. d ! (block_start S s (s + j) + S)) [0..<Suc j]) cap)"
      using fill_wr [of "w @ map (\<lambda>j. d ! (block_start S s (s + j) + S)) [0..<j]" cap] assms(2) j by simp
    ultimately show "\<exists>t'. interleave_byte d 0 j t = Some t' \<and> t' = ?st (Suc j)"
      using t by (simp add: interleave_byte_def cmem Let_def ix del: upt_Suc add_Suc_right)
  qed (simp add: block_start_def mult.commute)
  then show ?thesis by simp
qed

section \<open>The error correction of the blocks\<close>

lemma cells_apart:
  assumes "i < n" "j < n" "i \<noteq> j" "k < L"
  shows "D + i + k * n \<notin> cells (D + j) n L"
proof
  assume "D + i + k * n \<in> cells (D + j) n L"
  then obtain k' where "D + i + k * n = D + j + k' * n" unfolding cells_def by blast
  then have "i + k * n = j + k' * n" by simp
  then have "(i + k * n) mod n = (j + k' * n) mod n" by simp
  then show False using assms(1-3) by simp
qed

lemma cells_behind: "p < D \<Longrightarrow> p \<notin> cells (D + j) n L"
  by (auto simp: cells_def)

definition codeword :: "nat \<Rightarrow> u8 list \<Rightarrow> bool" where
  "codeword L xs \<longleftrightarrow> (\<forall>k<L. gf.eval xs (gf_root k) = 0)"

text \<open>The first \<open>j\<close> blocks have their remainders, those of the others are still zero.\<close>

definition ecc_done :: "nat \<Rightarrow> nat \<Rightarrow> nat \<Rightarrow> nat \<Rightarrow> u8 list \<Rightarrow> nat \<Rightarrow> u8 list \<Rightarrow> nat \<Rightarrow> u8 list \<Rightarrow> bool" where
  "ecc_done n L S s d D r0 j r \<longleftrightarrow>
     length r = length r0 \<and> (\<forall>p<D. r ! p = r0 ! p) \<and>
     (\<forall>i<j. codeword L (ec_block S s d i @ strided (D + i) n L r)) \<and>
     (\<forall>i<n. j \<le> i \<longrightarrow> (\<forall>k<L. r ! (D + i + k * n) = 0))"

lemma ecc_cell_bound:
  assumes "j < n" "D + n * L \<le> cap" "0 < L"
  shows "D + j + (L - 1) * n < (cap :: nat)"
proof -
  have "(L - 1) * n + n = n * L" using assms(3) by (cases L) (simp_all add: algebra_simps)
  then show ?thesis using assms by linarith
qed

lemma strided_same:
  assumes "same_elsewhere (cells (D + j) n L) r r'" "i < n" "j < n" "i \<noteq> j"
  shows "strided (D + i) n L r' = strided (D + i) n L r"
  using assms cells_apart [OF assms(2-4)] by (simp add: strided_def same_elsewhere_def)

lemma ecc_block_step:
  assumes "0 < L" "0 < n" "j < n" "s \<le> n" "D + n * L \<le> length r0" "block_start S s n \<le> length d"
    and "ecc_done n L S s d D r0 j r"
  shows "\<exists>r'. ecc_block L (generator_after L L) d D n s j (r, block_start S s j, if s < j then S + 1 else S) =
      Some (r', block_start S s (Suc j), if s < Suc j then S + 1 else S) \<and> ecc_done n L S s d D r0 (Suc j) r'"
proof -
  have size: "(if j = s then (if s < j then S + 1 else S) + 1 else (if s < j then S + 1 else S)) = block_size S s j"
    by (auto simp: block_size_def)
  have r: "length r = length r0" "\<forall>p<D. r ! p = r0 ! p"
    "\<forall>i<j. codeword L (ec_block S s d i @ strided (D + i) n L r)"
    "\<forall>i<n. j \<le> i \<longrightarrow> (\<forall>k<L. r ! (D + i + k * n) = 0)"
    using assms(7) by (simp_all add: ecc_done_def)
  have "D + j + (L - 1) * n < length r" using ecc_cell_bound [OF assms(3,5,1)] r(1) by simp
  moreover have "\<forall>k<L. r ! (D + j + k * n) = 0" using r(4) assms(3) by blast
  moreover have "block_size S s j \<le> length (drop (block_start S s j) d)"
    using block_end [OF assms(3), of S s] assms(6) by simp
  ultimately obtain r' where r': "rs_getRemainder L (generator_after L L) (drop (block_start S s j) d) (block_size S s j) (D + j) n r = Some r'"
    "same_elsewhere (cells (D + j) n L) r r'"
    "\<forall>k<L. gf.eval (ec_block S s d j @ strided (D + j) n L r') (gf_root k) = 0"
    using rs_block_codeword [OF assms(1,2), of "D + j" r] unfolding ec_block_def by blast
  have "ecc_done n L S s d D r0 (Suc j) r'"
    unfolding ecc_done_def
  proof (intro conjI allI impI)
    show "length r' = length r0" using r'(2) r(1) by (simp add: same_elsewhere_def)
    show "r' ! p = r0 ! p" if "p < D" for p
      using that r'(2) r(2) cells_behind [OF that] by (simp add: same_elsewhere_def)
    show "codeword L (ec_block S s d i @ strided (D + i) n L r')" if i: "i < Suc j" for i
    proof (cases "i = j")
      case True
      then show ?thesis using r'(3) by (simp add: codeword_def)
    next
      case False
      then show ?thesis using strided_same [OF r'(2), of i] i assms(3) r(3) by simp
    qed
    show "r' ! (D + i + k * n) = 0" if "i < n" "Suc j \<le> i" "k < L" for i k
      using that r(4) cells_apart [OF that(1) assms(3) _ that(3), of D] r'(2) by (simp add: same_elsewhere_def)
  qed
  moreover have "ecc_block L (generator_after L L) d D n s j (r, block_start S s j, if s < j then S + 1 else S) =
      Some (r', block_start S s (Suc j), if s < Suc j then S + 1 else S)"
    using r'(1) unfolding ecc_block_def prod.case Let_def size by (simp add: block_start_Suc) (simp add: block_size_def)
  ultimately show ?thesis by blast
qed

lemma ecc_blocks:
  assumes "0 < L" "0 < n" "s \<le> n" "D + n * L \<le> length r0" "block_start S s n \<le> length d"
    and "\<forall>p. D \<le> p \<longrightarrow> p < length r0 \<longrightarrow> r0 ! p = 0"
  shows "\<exists>r x y. foldM (ecc_block L (generator_after L L) d D n s) [0..<n] (r0, 0, S) = Some (r, x, y) \<and>
    ecc_done n L S s d D r0 n r"
proof -
  have zero: "r0 ! (D + i + k * n) = 0" if "i < n" "k < L" for i k
  proof -
    have "D + i + k * n < length r0"
      by (rule cell_bound [OF ecc_cell_bound [OF that(1) assms(4,1)] that(2)])
    then show ?thesis using assms(6) by simp
  qed
  have "\<exists>t. foldM (ecc_block L (generator_after L L) d D n s) [0..<n] (r0, 0, S) = Some t \<and>
      snd t = (block_start S s n, if s < n then S + 1 else S) \<and> ecc_done n L S s d D r0 n (fst t)"
  proof (rule foldM_upt_invariant [where P = "\<lambda>j t. snd t = (block_start S s j, if s < j then S + 1 else S) \<and>
      ecc_done n L S s d D r0 j (fst t)"])
    show "snd (r0, 0, S) = (block_start S s 0, if s < 0 then S + 1 else S) \<and> ecc_done n L S s d D r0 0 (fst (r0, 0, S))"
      using zero by (simp add: block_start_def ecc_done_def)
  next
    fix j and t :: "u8 list \<times> nat \<times> nat"
    assume j: "j < n" and t: "snd t = (block_start S s j, if s < j then S + 1 else S) \<and> ecc_done n L S s d D r0 j (fst t)"
    then show "\<exists>t'. ecc_block L (generator_after L L) d D n s j t = Some t' \<and>
        snd t' = (block_start S s (Suc j), if s < Suc j then S + 1 else S) \<and> ecc_done n L S s d D r0 (Suc j) (fst t')"
      using ecc_block_step [OF assms(1,2) j assms(3-5), of "fst t"] by (cases t) force
  qed
  then show ?thesis by (metis prod.collapse)
qed

section \<open>The tables\<close>

definition ec_ok :: "nat \<times> nat \<times> nat \<Rightarrow> bool" where
  "ec_ok = (\<lambda>(n, t, m). 0 < n \<and> 0 < t div n \<and> t div n \<le> m div 8 div n)"

definition ec_rows :: "nat \<Rightarrow> (nat \<times> nat \<times> nat) list" where
  "ec_rows ecc = zip (NUM_ERROR_CORRECTION_BLOCKS ! ecc) (zip (NUM_ERROR_CORRECTION_CODEWORDS ! ecc) NUM_RAW_DATA_MODULES)"

lemma tables_ok: "list_all ec_ok (ec_rows 0)" "list_all ec_ok (ec_rows 1)" "list_all ec_ok (ec_rows 2)" "list_all ec_ok (ec_rows 3)"
  by (simp_all add: ec_rows_def NUM_ERROR_CORRECTION_BLOCKS_def NUM_ERROR_CORRECTION_CODEWORDS_def NUM_RAW_DATA_MODULES_def ec_ok_def)

lemma ec_table_lengths:
  "length NUM_RAW_DATA_MODULES = 40" "length NUM_ERROR_CORRECTION_BLOCKS = 4" "length NUM_ERROR_CORRECTION_CODEWORDS = 4"
  by (simp_all add: NUM_RAW_DATA_MODULES_def NUM_ERROR_CORRECTION_BLOCKS_def NUM_ERROR_CORRECTION_CODEWORDS_def)

lemma row_lengths:
  assumes "ecc < 4"
  shows "length (NUM_ERROR_CORRECTION_BLOCKS ! ecc) = 40" "length (NUM_ERROR_CORRECTION_CODEWORDS ! ecc) = 40"
proof -
  have "list_all (\<lambda>r. length r = 40) NUM_ERROR_CORRECTION_BLOCKS" "list_all (\<lambda>r. length r = 40) NUM_ERROR_CORRECTION_CODEWORDS"
    by (simp_all add: NUM_ERROR_CORRECTION_BLOCKS_def NUM_ERROR_CORRECTION_CODEWORDS_def)
  then show "length (NUM_ERROR_CORRECTION_BLOCKS ! ecc) = 40" "length (NUM_ERROR_CORRECTION_CODEWORDS ! ecc) = 40"
    using assms ec_table_lengths by (simp_all add: list_all_length)
qed

lemma ec_parameters:
  assumes "1 \<le> version" "version \<le> 40" "ecc < 4"
  shows "0 < ec_blocks version ecc" "0 < ec_len version ecc" "ec_len version ecc \<le> ec_total version div ec_blocks version ecc"
proof -
  have "ecc = 0 \<or> ecc = 1 \<or> ecc = 2 \<or> ecc = 3" using assms(3) by linarith
  then have "list_all ec_ok (ec_rows ecc)" using tables_ok by metis
  moreover have len: "version - 1 < length (ec_rows ecc)" using assms by (simp add: ec_rows_def ec_table_lengths row_lengths)
  ultimately have "ec_ok (ec_rows ecc ! (version - 1))" by (simp add: list_all_length)
  moreover have "ec_rows ecc ! (version - 1) = (NUM_ERROR_CORRECTION_BLOCKS ! ecc ! (version - 1),
      NUM_ERROR_CORRECTION_CODEWORDS ! ecc ! (version - 1), NUM_RAW_DATA_MODULES ! (version - 1))"
    using assms unfolding ec_rows_def by (simp add: ec_table_lengths row_lengths)
  ultimately show "0 < ec_blocks version ecc" "0 < ec_len version ecc" "ec_len version ecc \<le> ec_total version div ec_blocks version ecc"
    by (simp_all add: ec_ok_def ec_blocks_def ec_len_def ec_total_def)
qed

section \<open>The final sequence of codewords\<close>

lemma concat_rows_nth:
  assumes "\<And>i. length (f i) = n" "i < S" "j < n"
  shows "concat (map f [0..<S]) ! (i * n + j) = f i ! j"
  using assms(2)
proof (induction S)
  case (Suc S)
  have len: "length (concat (map f [0..<S])) = S * n" using assms(1) by (induction S) simp_all
  show ?case
  proof (cases "i = S")
    case True
    then show ?thesis using len by (simp add: nth_append)
  next
    case False
    then have "i < S" using Suc.prems by simp
    moreover have "i * n + j < S * n"
    proof -
      have "i * n + j < Suc i * n" using assms(3) by simp
      also have "\<dots> \<le> S * n" using \<open>i < S\<close> by (intro mult_le_mono1) simp
      finally show ?thesis .
    qed
    ultimately show ?thesis using len Suc.IH by (simp add: nth_append)
  qed
qed simp

definition interleaved :: "nat \<Rightarrow> nat \<Rightarrow> nat \<Rightarrow> u8 list \<Rightarrow> u8 list" where
  "interleaved n S s d =
     concat (map (\<lambda>i. map (\<lambda>j. d ! (block_start S s j + i)) [0..<n]) [0..<S]) @
     map (\<lambda>j. d ! (block_start S s (s + j) + S)) [0..<n - s]"

text \<open>Where byte \<open>i\<close> of block \<open>j\<close> goes.\<close>

definition place :: "nat \<Rightarrow> nat \<Rightarrow> nat \<Rightarrow> nat \<Rightarrow> nat \<Rightarrow> nat" where
  "place n S s j i = (if i < S then i * n + j else S * n + (j - s))"

lemma length_interleaved: "length (interleaved n S s d) = S * n + (n - s)"
proof -
  have "length (concat (map (\<lambda>i. map (\<lambda>j. d ! (block_start S s j + i)) [0..<n]) [0..<k])) = k * n" for k
    by (induction k) simp_all
  then show ?thesis by (simp add: interleaved_def)
qed

lemma interleaved_nth:
  assumes "j < n" "i < block_size S s j" "block_start S s n \<le> length d"
  shows "interleaved n S s d ! place n S s j i = ec_block S s d j ! i \<and> place n S s j i < S * n + (n - s)"
proof -
  have len: "length (concat (map (\<lambda>i. map (\<lambda>j. d ! (block_start S s j + i)) [0..<n]) [0..<k])) = k * n" for k
    by (induction k) simp_all
  have block: "ec_block S s d j ! i = d ! (block_start S s j + i)"
    using assms block_end [OF assms(1), of S s] by (simp add: ec_block_def)
  show ?thesis
  proof (cases "i < S")
    case True
    have "i * n + j < Suc i * n" using assms(1) by simp
    also have "\<dots> \<le> S * n" using True by (intro mult_le_mono1) simp
    finally have "i * n + j < S * n" .
    then show ?thesis
      using True assms(1) concat_rows_nth [of "\<lambda>i. map (\<lambda>j. d ! (block_start S s j + i)) [0..<n]" n i S j]
      by (simp add: interleaved_def place_def nth_append len block)
  next
    case False
    then have "i = S" "s \<le> j" using assms(2) by (auto simp: block_size_def split: if_splits)
    then have "j - s < n - s" "s + (j - s) = j" using assms(1) by simp_all
    moreover have "interleaved n S s d ! (S * n + (j - s)) = map (\<lambda>j. d ! (block_start S s (s + j) + S)) [0..<n - s] ! (j - s)"
      unfolding interleaved_def by (subst len [of S, symmetric]) (rule nth_append_length_plus)
    ultimately show ?thesis using \<open>i = S\<close> block by (simp add: place_def del: nth_upt) (simp add: nth_upt)
  qed
qed

lemma ec_sizes:
  assumes "1 \<le> version" "version \<le> 40" "ecc < 4"
  defines "n \<equiv> ec_blocks version ecc" and "L \<equiv> ec_len version ecc"
    and "S \<equiv> ec_data version ecc" and "s \<equiv> ec_short version ecc"
  shows "s \<le> n" "block_start S s n = S * n + (n - s)" "S * n + (n - s) + n * L = ec_total version"
proof -
  have pos: "0 < n" "L \<le> ec_total version div n"
    using ec_parameters [OF assms(1-3)] by (simp_all add: n_def L_def)
  show "s \<le> n" by (simp add: s_def n_def ec_short_def)
  have "ec_total version mod n < n" using pos(1) by simp
  then have ns: "n - s = ec_total version mod n" by (simp add: s_def n_def ec_short_def)
  have "S + L = ec_total version div n" using pos(2) by (simp add: S_def L_def n_def ec_data_def)
  then have "S * n + L * n = ec_total version div n * n" by (metis add_mult_distrib)
  then have "S * n + (n - s) + L * n = ec_total version"
    using ns div_mult_mod_eq [of "ec_total version" n] by linarith
  then show "S * n + (n - s) + n * L = ec_total version" by (simp only: mult.commute [of n L])
  show "block_start S s n = S * n + (n - s)" by (simp add: block_start_def mult.commute)
qed

lemma performErrorCorrection_blocks:
  assumes "1 \<le> version" "version \<le> 40" "ecc < 4"
    and "capacityBytes b = length (data b)" "ec_total version \<le> length (data b)"
  defines "n \<equiv> ec_blocks version ecc" and "L \<equiv> ec_len version ecc"
    and "S \<equiv> ec_data version ecc" and "s \<equiv> ec_short version ecc"
  shows "\<exists>b'. performErrorCorrection version ecc b = Some b' \<and> bitOffsetOrWidth b' = NUM_RAW_DATA_MODULES ! (version - 1) \<and>
    capacityBytes b' = capacityBytes b \<and>
    ecc_done n L S s (data b) (S * n + (n - s)) (fill (interleaved n S s (data b)) (length (data b))) n (data b')"
proof -
  let ?d = "data b" and ?cap = "length (data b)"
  have pos: "0 < n" "0 < L" "L \<le> ec_total version div n"
    using ec_parameters [OF assms(1-3)] by (simp_all add: n_def L_def)
  have sn: "s \<le> n" and start: "block_start S s n = S * n + (n - s)" and "S * n + (n - s) + n * L = ec_total version"
    using ec_sizes [OF assms(1-3)] by (simp_all only: n_def L_def S_def s_def)
  then have size: "S * n + (n - s) + n * L \<le> ?cap" using assms(5) by simp
  let ?w = "concat (map (\<lambda>i. map (\<lambda>j. ?d ! (block_start S s j + i)) [0..<n]) [0..<S])"
  have lw: "length ?w = S * n" using length_interleaved [of n S s ?d] by (simp add: interleaved_def)
  have rows: "foldM (\<lambda>i (result, offset). do {
       (result, offset, _, _) \<leftarrow> foldM (interleave_byte ?d s) [0..<n] (result, offset, i, S);
       Some (result, offset) }) [0..<S] (replicate ?cap 0, 0) = Some (fill ?w ?cap, S * n)"
    using size by (intro interleave_rows [OF sn]) (simp_all add: start mult.commute)
  have "length ?w + (n - s) \<le> ?cap" "block_start S s n \<le> ?cap" using size by (simp_all add: lw start)
  from interleave_long [OF sn this] obtain ix str where long:
    "foldM (interleave_byte ?d 0) [0..<n - s] (fill ?w ?cap, S * n, S * (s + 1), S) =
      Some (fill (interleaved n S s ?d) ?cap, S * n + (n - s), ix, str)"
    unfolding lw interleaved_def by blast
  let ?r0 = "fill (interleaved n S s ?d) ?cap"
  have r0: "length ?r0 = ?cap" using size by (intro length_fill) (simp add: length_interleaved)
  have "\<forall>p. S * n + (n - s) \<le> p \<longrightarrow> p < length ?r0 \<longrightarrow> ?r0 ! p = 0"
    by (simp add: fill_def nth_append length_interleaved)
  then obtain r x y where ecc: "foldM (ecc_block L (generator_after L L) ?d (S * n + (n - s)) n s) [0..<n] (?r0, 0, S) = Some (r, x, y)"
    "ecc_done n L S s ?d (S * n + (n - s)) ?r0 n r"
    using ecc_blocks [OF pos(2,1) sn, of "S * n + (n - s)" ?r0 S ?d] size r0 start by auto
  have lr: "length r = ?cap" using ecc(2) r0 by (simp add: ecc_done_def)
  have tables: "rd NUM_ERROR_CORRECTION_BLOCKS ecc = Some (NUM_ERROR_CORRECTION_BLOCKS ! ecc)"
    "for_version (NUM_ERROR_CORRECTION_BLOCKS ! ecc) version = Some n"
    "rd NUM_ERROR_CORRECTION_CODEWORDS ecc = Some (NUM_ERROR_CORRECTION_CODEWORDS ! ecc)"
    "for_version (NUM_ERROR_CORRECTION_CODEWORDS ! ecc) version = Some (NUM_ERROR_CORRECTION_CODEWORDS ! ecc ! (version - 1))"
    "for_version NUM_RAW_DATA_MODULES version = Some (NUM_RAW_DATA_MODULES ! (version - 1))"
    using assms(1-3) by (simp_all add: for_version_def cmem ec_table_lengths row_lengths n_def ec_blocks_def)
  have parts: "NUM_ERROR_CORRECTION_CODEWORDS ! ecc ! (version - 1) div n = L" "NUM_RAW_DATA_MODULES ! (version - 1) div 8 = ec_total version"
    "n - ec_total version mod n = s" "ec_total version div n - L = S"
    by (simp_all add: L_def n_def S_def s_def ec_len_def ec_total_def ec_short_def ec_data_def)
  have "performErrorCorrection version ecc b =
      Some (b\<lparr>data := r, bitOffsetOrWidth := NUM_RAW_DATA_MODULES ! (version - 1)\<rparr>)"
    unfolding performErrorCorrection_def tables Option.bind.bind_lunit Let_def parts rs_init_generator [OF pos(2)] assms(4) rows prod.case long ecc(1)
    by simp
  then show ?thesis using ecc(2) by (intro exI [of _ "b\<lparr>data := r, bitOffsetOrWidth := NUM_RAW_DATA_MODULES ! (version - 1)\<rparr>"]) simp
qed

text \<open>
  C8. \<open>performErrorCorrection\<close> succeeds for every version and level, and makes the final message of the
  standard: byte \<open>i\<close> of data block \<open>j\<close> is where the interleaving puts it, and each block with its own
  error correction bytes, read at every \<open>n\<close>-th place behind the data, is a Reed-Solomon codeword.
\<close>

theorem final_message_blocks:
  assumes "1 \<le> version" "version \<le> 40" "ecc < 4"
    and "capacityBytes b = length (data b)" "ec_total version \<le> length (data b)"
  defines "n \<equiv> ec_blocks version ecc" and "L \<equiv> ec_len version ecc"
    and "S \<equiv> ec_data version ecc" and "s \<equiv> ec_short version ecc"
  shows "\<exists>b'. performErrorCorrection version ecc b = Some b' \<and> bitOffsetOrWidth b' = NUM_RAW_DATA_MODULES ! (version - 1) \<and>
    (\<forall>j<n. (\<forall>i<block_size S s j. data b' ! place n S s j i = ec_block S s (data b) j ! i) \<and>
      codeword L (ec_block S s (data b) j @ map (\<lambda>k. data b' ! (S * n + (n - s) + j + k * n)) [0..<L]))"
proof -
  obtain b' where b': "performErrorCorrection version ecc b = Some b'" "bitOffsetOrWidth b' = NUM_RAW_DATA_MODULES ! (version - 1)"
    "ecc_done n L S s (data b) (S * n + (n - s)) (fill (interleaved n S s (data b)) (length (data b))) n (data b')"
    using performErrorCorrection_blocks [OF assms(1-5)] unfolding n_def L_def S_def s_def by blast
  have total: "block_start S s n \<le> length (data b)"
    using ec_sizes [OF assms(1-3)] assms(5) by (simp add: n_def S_def s_def)
  have "data b' ! place n S s j i = ec_block S s (data b) j ! i" if "j < n" "i < block_size S s j" for i j
    using interleaved_nth [OF that total] b'(3)
    by (simp add: ecc_done_def fill_def nth_append length_interleaved)
  then show ?thesis using b' by (auto simp: ecc_done_def strided_def)
qed

theorem final_message_blocks_witness:
  "\<exists>b'. performErrorCorrection 1 0 (bb_initBuffer 26) = Some b' \<and> bitOffsetOrWidth b' = 208 \<and>
     codeword 10 (replicate 16 0 @ map (\<lambda>k. data b' ! (16 + k)) [0..<10])"
proof -
  have t: "ec_total 1 = 26" "ec_blocks 1 0 = 1" "ec_len 1 0 = 10" "ec_data 1 0 = 16" "ec_short 1 0 = 1"
    by (simp_all add: ec_total_def ec_blocks_def ec_len_def ec_data_def ec_short_def
      NUM_RAW_DATA_MODULES_def NUM_ERROR_CORRECTION_BLOCKS_def NUM_ERROR_CORRECTION_CODEWORDS_def)
  have m: "NUM_RAW_DATA_MODULES ! (1 - 1) = 208" by (simp add: NUM_RAW_DATA_MODULES_def)
  have c: "capacityBytes (bb_initBuffer 26) = length (data (bb_initBuffer 26))" "ec_total 1 \<le> length (data (bb_initBuffer 26))"
    by (simp_all add: bb_initBuffer_def t [simplified])
  from final_message_blocks [OF _ _ _ c, of 0, unfolded t m] obtain b' where
    "performErrorCorrection 1 0 (bb_initBuffer 26) = Some b'" "bitOffsetOrWidth b' = 208"
    "codeword 10 (ec_block 16 1 (data (bb_initBuffer 26)) 0 @ map (\<lambda>k. data b' ! (16 * 1 + (1 - 1) + 0 + k * 1)) [0..<10])"
    by auto
  moreover have "ec_block 16 1 (data (bb_initBuffer 26)) 0 = replicate 16 0"
    by (simp add: ec_block_def block_size_def block_start_def bb_initBuffer_def)
  ultimately show ?thesis by (intro exI [of _ b']) (simp del: upt_rec_numeral upt_Suc)
qed

end
