(* ===== verification/QrZigzag.thy ===== *)
theory QrZigzag
  imports QrFormat
begin

text \<open>
  The placement of the codewords of \<open>qrcode.c\<close>: \<open>drawCodewords\<close> writes one bit into each data module in
  the order of the zigzag of the standard, so reading the data modules in that order gives the bits back.
\<close>

section \<open>The zigzag\<close>

text \<open>The modules of one pair of columns, then those of all pairs.\<close>

definition column_pair :: "nat \<Rightarrow> int \<Rightarrow> (nat \<times> nat) list" where
  "column_pair n right =
     [(u8_of (right - int j), if (right AND 2 = 0) \<noteq> (u8_of (right - int j) < 6) then n - 1 - vert else vert).
        vert \<leftarrow> [0..<n], j \<leftarrow> [0..<2]]"

function zigzag :: "nat \<Rightarrow> int \<Rightarrow> (nat \<times> nat) list" where
  "zigzag n right =
     (if right \<ge> 1 then
        let right = (if right = 6 then 5 else right) in column_pair n right @ zigzag n (right - 2)
      else [])"
  by pat_completeness auto

termination
  by (relation "measure (\<lambda>(n, right). nat right)") auto

declare zigzag.simps [simp del]

definition data_modules :: "BitBucket \<Rightarrow> nat \<Rightarrow> (nat \<times> nat) list" where
  "data_modules isFunction n = filter (\<lambda>(x, y). \<not> cell isFunction x y) (zigzag n (int n - 1))"

lemma column_pair_in:
  assumes "(x, y) \<in> set (column_pair n right)" "1 \<le> right" "right < 256"
  shows "(int x = right \<or> int x = right - 1) \<and> y < n"
proof -
  have "u8_of right = nat right" "u8_of (right - 1) = nat (right - 1)" using assms(2,3) by (simp_all add: u8_of_small)
  moreover obtain vert j where "vert < n" "j < 2" "x = u8_of (right - int j)"
    "y = (if (right AND 2 = 0) \<noteq> (u8_of (right - int j) < 6) then n - 1 - vert else vert)"
    using assms(1) by (auto simp: column_pair_def)
  moreover have "j = 0 \<or> j = 1" using \<open>j < 2\<close> by linarith
  ultimately show ?thesis using assms(2) by auto
qed

lemma distinct_column_pair:
  assumes "1 \<le> right" "right < 256"
  shows "distinct (column_pair n right)"
proof -
  let ?y = "\<lambda>j vert. if (right AND 2 = 0) \<noteq> (u8_of (right - int j) < 6) then n - 1 - vert else vert"
  let ?f = "\<lambda>(vert, j). (u8_of (right - int j), ?y j vert)"
  have "column_pair n right = map ?f (List.product [0..<n] [0..<2])"
    unfolding column_pair_def product_concat_map by (simp add: map_concat comp_def)
  moreover have "inj_on ?f (set (List.product [0..<n] [0..<2]))"
  proof (rule inj_onI)
    fix p q assume p: "p \<in> set (List.product [0..<n] [0..<2])" and q: "q \<in> set (List.product [0..<n] [0..<2])" and e: "?f p = ?f q"
    obtain v j v' j' where pq: "p = (v, j)" "q = (v', j')" by (metis prod.collapse)
    have "j < 2" "j' < 2" "v < n" "v' < n" using p q pq by auto
    moreover have "u8_of (right - int j) = nat (right - int j)" "u8_of (right - int j') = nat (right - int j')"
      using calculation assms by (simp_all add: u8_of_small)
    moreover have "u8_of (right - int j) = u8_of (right - int j')" "?y j v = ?y j' v'" using e unfolding pq prod.case prod.inject by blast+
    ultimately have "j = j'" using assms by linarith
    with \<open>?y j v = ?y j' v'\<close> \<open>v < n\<close> \<open>v' < n\<close> have "v = v'" by (auto split: if_splits)
    with \<open>j = j'\<close> pq show "p = q" by simp
  qed
  ultimately show ?thesis by (simp add: distinct_map distinct_product)
qed

lemma zigzag_in: "(x, y) \<in> set (zigzag n right) \<Longrightarrow> right < 256 \<Longrightarrow> int x \<le> right \<and> y < n"
proof (induction n right rule: zigzag.induct)
  case (1 n right)
  let ?r = "if right = 6 then 5 else right"
  have "1 \<le> right" using "1.prems"(1) by (subst (asm) zigzag.simps) (auto split: if_splits)
  then have z: "zigzag n right = column_pair n ?r @ zigzag n (?r - 2)" by (subst zigzag.simps) (simp add: Let_def)
  have r: "1 \<le> ?r" "?r < 256" "?r \<le> right" using \<open>1 \<le> right\<close> "1.prems"(2) by auto
  consider "(x, y) \<in> set (column_pair n ?r)" | "(x, y) \<in> set (zigzag n (?r - 2))"
    using "1.prems"(1) unfolding z by auto
  then show ?case
  proof cases
    case 1
    then show ?thesis using column_pair_in [OF _ r(1,2)] r(3) by force
  next
    case 2
    then show ?thesis using "1.IH" [OF \<open>1 \<le> right\<close> refl, of ] r by force
  qed
qed

lemma distinct_zigzag: "right < 256 \<Longrightarrow> distinct (zigzag n right)"
proof (induction n right rule: zigzag.induct)
  case (1 n right)
  let ?r = "if right = 6 then 5 else right"
  show ?case
  proof (cases "1 \<le> right")
    case True
    then have z: "zigzag n right = column_pair n ?r @ zigzag n (?r - 2)" by (subst zigzag.simps) (simp add: Let_def)
    have r: "1 \<le> ?r" "?r < 256" using True "1.prems" by auto
    have "p \<notin> set (zigzag n (?r - 2))" if "p \<in> set (column_pair n ?r)" for p
    proof
      assume "p \<in> set (zigzag n (?r - 2))"
      then have "int (fst p) \<le> ?r - 2" using zigzag_in [of "fst p" "snd p" n "?r - 2"] r(2) by simp
      moreover have "int (fst p) \<ge> ?r - 1" using column_pair_in [OF _ r, of "fst p" "snd p" n] that by force
      ultimately show False by linarith
    qed
    moreover have "distinct (zigzag n (?r - 2))" using "1.IH" [OF True refl] r(2) by simp
    ultimately show ?thesis unfolding z using distinct_column_pair [OF r] by auto
  next
    case False
    then show ?thesis by (subst zigzag.simps) simp
  qed
qed

section \<open>Drawing along the zigzag\<close>

definition draw_at :: "BitBucket \<Rightarrow> BitBucket \<Rightarrow> nat \<times> nat \<Rightarrow> nat \<times> BitBucket \<Rightarrow> (nat \<times> BitBucket) option" where
  "draw_at isFunction codewords = (\<lambda>(x, y) (i, modules).
     do {
       f \<leftarrow> bb_getBit x y isFunction;
       if \<not> f \<and> i < bitOffsetOrWidth codewords then do {
         c \<leftarrow> rd (data codewords) (i div 8);
         modules \<leftarrow> bb_setBit x y (drop_bit (7 - i mod 8) c AND 1 \<noteq> 0) modules;
         Some (i + 1, modules)
       }
       else Some (i, modules)
     })"

lemma draw_at_width: "draw_at f c p st = Some st' \<Longrightarrow> bitOffsetOrWidth (snd st') = bitOffsetOrWidth (snd st)"
  by (cases st; cases p) (auto simp: draw_at_def bb_setBit_def Let_def split: Option.bind_splits if_splits)

lemma draw_module_at:
  assumes "bitOffsetOrWidth (snd st) = n" "n < 256"
  shows "draw_codeword_module f c right vert j st =
    draw_at f c (u8_of (right - int j), if (right AND 2 = 0) \<noteq> (u8_of (right - int j) < 6) then n - 1 - vert else vert) st"
proof -
  obtain i m where st: "st = (i, m)" by (cases st)
  then have sz: "bitOffsetOrWidth m mod 256 = n" using assms by simp
  show ?thesis unfolding st draw_codeword_module_def draw_at_def Let_def prod.case sz by (rule refl)
qed

lemma foldM_mono_width:
  assumes "bitOffsetOrWidth (snd st) = n" "foldM (draw_at f c) ps st = Some st'"
  shows "bitOffsetOrWidth (snd st') = n"
  using foldM_invariant [where P = "\<lambda>st. bitOffsetOrWidth (snd st) = n", OF assms(2,1)] draw_at_width by simp

lemma foldM_concat: "foldM (\<lambda>xs. foldM g xs) xss s = foldM g (concat xss) s"
  by (induction xss arbitrary: s) (auto simp: foldM_append split: Option.bind_splits)

lemma foldM_cong_inv:
  assumes "P s" "\<And>x s. x \<in> set xs \<Longrightarrow> P s \<Longrightarrow> f x s = g x s" "\<And>x s t. x \<in> set xs \<Longrightarrow> P s \<Longrightarrow> g x s = Some t \<Longrightarrow> P t"
  shows "foldM f xs s = foldM g xs s"
  using assms
proof (induction xs arbitrary: s)
  case (Cons x xs)
  have "foldM f xs t = foldM g xs t" if "g x s = Some t" for t
  proof (rule Cons.IH)
    show "P t" using Cons.prems(3) [of x s t] Cons.prems(1) that by simp
    show "\<And>y u. y \<in> set xs \<Longrightarrow> P u \<Longrightarrow> f y u = g y u" using Cons.prems(2) by simp
    show "\<And>y u v. y \<in> set xs \<Longrightarrow> P u \<Longrightarrow> g y u = Some v \<Longrightarrow> P v" using Cons.prems(3) by (meson list.set_intros(2))
  qed
  then show ?case using Cons.prems(1) Cons.prems(2) [of x s] by (cases "g x s") auto
qed simp

lemma column_pair_loop:
  assumes "bitOffsetOrWidth (snd st) = n" "n < 256"
  shows "foldM (\<lambda>vert. foldM (draw_codeword_module f c right vert) [0..<2]) [0..<n] st = foldM (draw_at f c) (column_pair n right) st"
proof -
  let ?p = "\<lambda>vert j. (u8_of (right - int j), if (right AND 2 = 0) \<noteq> (u8_of (right - int j) < 6) then n - 1 - vert else vert)"
  have "foldM (draw_codeword_module f c right vert) [0..<2] s = foldM (draw_at f c) (map (?p vert) [0..<2]) s"
    if "bitOffsetOrWidth (snd s) = n" for vert s
    unfolding foldM_map
  proof (rule foldM_cong_inv [where P = "\<lambda>s. bitOffsetOrWidth (snd s) = n", OF that])
    fix j s t
    show "bitOffsetOrWidth (snd s) = n \<Longrightarrow> draw_codeword_module f c right vert j s = draw_at f c (?p vert j) s"
      by (rule draw_module_at [OF _ assms(2)])
    show "bitOffsetOrWidth (snd s) = n \<Longrightarrow> draw_at f c (?p vert j) s = Some t \<Longrightarrow> bitOffsetOrWidth (snd t) = n"
      using draw_at_width [of f c "?p vert j" s t] by (simp only:)
  qed
  then have "foldM (\<lambda>vert. foldM (draw_codeword_module f c right vert) [0..<2]) [0..<n] st =
      foldM (\<lambda>vert. foldM (draw_at f c) (map (?p vert) [0..<2])) [0..<n] st"
    by (rule foldM_cong_inv [where P = "\<lambda>s. bitOffsetOrWidth (snd s) = n", OF assms(1)]) (simp only:, rule foldM_mono_width)
  also have "\<dots> = foldM (foldM (draw_at f c)) (map (\<lambda>vert. map (?p vert) [0..<2]) [0..<n]) st" by (simp only: foldM_map)
  also have "\<dots> = foldM (draw_at f c) (column_pair n right) st"
    unfolding column_pair_def foldM_concat [symmetric] by (simp only:)
  finally show ?thesis .
qed

lemma draw_columns_zigzag:
  "bitOffsetOrWidth (snd st) = n \<Longrightarrow> n < 256 \<Longrightarrow> draw_columns f c n right st = foldM (draw_at f c) (zigzag n right) st"
proof (induction n right arbitrary: st rule: zigzag.induct)
  case (1 n right)
  let ?r = "if right = 6 then 5 else right"
  show ?case
  proof (cases "1 \<le> right")
    case True
    then have z: "zigzag n right = column_pair n ?r @ zigzag n (?r - 2)" by (subst zigzag.simps) (simp add: Let_def)
    have "draw_columns f c n right st =
        Option.bind (foldM (draw_at f c) (column_pair n ?r) st) (draw_columns f c n (?r - 2))"
      using True column_pair_loop [OF "1.prems"] by (subst draw_columns.simps) (simp add: Let_def)
    also have "\<dots> = Option.bind (foldM (draw_at f c) (column_pair n ?r) st) (foldM (draw_at f c) (zigzag n (?r - 2)))"
      using "1.IH" [OF True refl _ "1.prems"(2)] foldM_mono_width [OF "1.prems"(1)]
      by (intro Option.bind_cong refl) (simp only:)
    finally show ?thesis unfolding z foldM_append .
  next
    case False
    then show ?thesis by (subst draw_columns.simps, subst zigzag.simps) simp
  qed
qed

text \<open>After the first positions: the bits so far are in the data modules among them.\<close>

definition free_of :: "BitBucket \<Rightarrow> (nat \<times> nat) list \<Rightarrow> (nat \<times> nat) list" where
  "free_of f ps = filter (\<lambda>(x, y). \<not> cell f x y) ps"

definition value_at :: "BitBucket \<Rightarrow> nat \<times> nat \<Rightarrow> bool" where
  "value_at m p = cell m (fst p) (snd p)"

lemma codeword_bit: "i < 8 * length d \<Longrightarrow> drop_bit (7 - i mod 8) (d ! (i div 8)) AND 1 \<noteq> 0 \<longleftrightarrow> bits_of d ! i"
proof -
  assume i: "i < 8 * length d"
  have "drop_bit j w AND 1 = (if bit w j then 1 else 0)" for j and w :: u8
    by (rule bit_word_eqI) (auto simp: bit_simps intro!: gr0I)
  then show ?thesis by (simp add: bits_of_nth [OF i])
qed

lemma draw_at_step:
  assumes "grid f n" "grid m n" "x < n" "y < n" "bitOffsetOrWidth c \<le> 8 * length (data c)"
  shows "\<exists>m'. draw_at f c (x, y) (i, m) = Some (if \<not> cell f x y \<and> i < bitOffsetOrWidth c then i + 1 else i, m') \<and>
    set_cell x y (if \<not> cell f x y \<and> i < bitOffsetOrWidth c then bits_of (data c) ! i else cell m x y) m m'"
proof (cases "\<not> cell f x y \<and> i < bitOffsetOrWidth c")
  case True
  then have "i < 8 * length (data c)" using assms(5) by simp
  then have "rd (data c) (i div 8) = Some (data c ! (i div 8))"
    "(drop_bit (7 - i mod 8) (data c ! (i div 8)) AND 1 \<noteq> 0) = bits_of (data c) ! i"
    by (simp_all add: cmem less_mult_imp_div_less mult.commute codeword_bit)
  then show ?thesis
    using True getBit [OF assms(1,3,4)] setBit [OF assms(2-4), of "bits_of (data c) ! i"]
    unfolding draw_at_def prod.case by auto
next
  case False
  then show ?thesis
    using getBit [OF assms(1,3,4)] set_cell_same [OF assms(2), of x y] by (auto simp: draw_at_def)
qed

lemma draw_at_loop:
  assumes "grid f n" "grid m n" "distinct ps" "\<And>x y. (x, y) \<in> set ps \<Longrightarrow> x < n \<and> y < n" "bitOffsetOrWidth c \<le> 8 * length (data c)"
    and "i \<le> bitOffsetOrWidth c"
  shows "\<exists>i' m'. foldM (draw_at f c) ps (i, m) = Some (i', m') \<and> same_frame m m' \<and>
    (\<forall>x<n. \<forall>y<n. (x, y) \<notin> set (free_of f ps) \<longrightarrow> cell m' x y = cell m x y) \<and>
    (\<forall>k<length (free_of f ps). value_at m' (free_of f ps ! k) =
       (if i + k < bitOffsetOrWidth c then bits_of (data c) ! (i + k) else value_at m (free_of f ps ! k)))"
  using assms
proof (induction ps arbitrary: i m)
  case Nil
  then show ?case by (simp add: free_of_def)
next
  case (Cons p ps)
  obtain x y where p: "p = (x, y)" by (cases p)
  have xy: "x < n" "y < n" using Cons.prems(4) [of x y] p by simp_all
  let ?b = "\<not> cell f x y \<and> i < bitOffsetOrWidth c"
  let ?i = "if ?b then i + 1 else i"
  obtain m1 where m1: "draw_at f c (x, y) (i, m) = Some (?i, m1)"
    "set_cell x y (if ?b then bits_of (data c) ! i else cell m x y) m m1"
    using draw_at_step [OF Cons.prems(1,2) xy Cons.prems(5)] by blast
  have g1: "grid m1 n" using set_cell_grid [OF m1(2)] Cons.prems(2) by simp
  have "distinct ps" "(x, y) \<notin> set ps" using Cons.prems(3) p by auto
  moreover have "?i \<le> bitOffsetOrWidth c" using Cons.prems(6) by simp
  ultimately obtain i' m' where m': "foldM (draw_at f c) ps (?i, m1) = Some (i', m')" "same_frame m1 m'"
    "\<And>x y. x < n \<Longrightarrow> y < n \<Longrightarrow> (x, y) \<notin> set (free_of f ps) \<Longrightarrow> cell m' x y = cell m1 x y"
    "\<And>k. k < length (free_of f ps) \<Longrightarrow> value_at m' (free_of f ps ! k) =
       (if ?i + k < bitOffsetOrWidth c then bits_of (data c) ! (?i + k) else value_at m1 (free_of f ps ! k))"
    using Cons.IH [OF Cons.prems(1) g1 _ _ Cons.prems(5), of ?i] Cons.prems(4) by fastforce
  note cell1 = set_cell_cell [OF m1(2) Cons.prems(2) xy]
  have frame: "same_frame m m'" using set_cell_frame [OF m1(2) Cons.prems(2) xy] m'(2) same_frame_trans by blast
  have notin: "(x, y) \<notin> set (free_of f ps)" using \<open>(x, y) \<notin> set ps\<close> by (simp add: free_of_def)
  have in_range: "q \<in> set (free_of f ps) \<Longrightarrow> fst q < n \<and> snd q < n" for q
    using Cons.prems(4) [of "fst q" "snd q"] by (auto simp: free_of_def)
  have same1: "value_at m1 q = value_at m q" if "q \<in> set (free_of f ps)" for q
    using that notin cell1 [of "fst q" "snd q"] in_range [OF that] by (cases q) (auto simp: value_at_def)
  have other: "cell m' x' y' = cell m x' y'" if "x' < n" "y' < n" "(x', y') \<notin> set (free_of f (p # ps))" for x' y'
    using that m'(3) [OF that(1,2)] cell1 [OF that(1,2)] p by (auto simp: free_of_def split: if_splits)
  have vals: "value_at m' (free_of f (p # ps) ! k) =
      (if i + k < bitOffsetOrWidth c then bits_of (data c) ! (i + k) else value_at m (free_of f (p # ps) ! k))"
    if k: "k < length (free_of f (p # ps))" for k
  proof (cases "cell f x y")
    case True
    then have fr: "free_of f (p # ps) = free_of f ps" using p by (simp add: free_of_def)
    then show ?thesis using True k m'(4) [of k] same1 [of "free_of f ps ! k"] by simp
  next
    case False
    then have fr: "free_of f (p # ps) = p # free_of f ps" using p by (simp add: free_of_def)
    show ?thesis
    proof (cases k)
      case 0
      have "value_at m' p = value_at m1 p" using m'(3) [OF xy notin] p by (simp add: value_at_def)
      then show ?thesis using 0 fr False cell1 [OF xy] p by (simp add: value_at_def)
    next
      case (Suc l)
      then have "l < length (free_of f ps)" using k fr by simp
      then show ?thesis
        using Suc fr False m'(4) [of l] same1 [of "free_of f ps ! l"] Cons.prems(6) by auto
    qed
  qed
  show ?case using m1(1) m'(1) p frame other vals by auto
qed

text \<open>
  C9. The codewords can be read back from the symbol: \<open>drawCodewords\<close> succeeds on every grid, changes no
  function module, and reading the data modules along the zigzag gives exactly the bits of the codewords,
  in order, followed by what the remaining modules held before.
\<close>

theorem codewords_readable:
  assumes "grid f n" "grid m n" "n < 256" "bitOffsetOrWidth c \<le> 8 * length (data c)"
    and "bitOffsetOrWidth c \<le> length (data_modules f n)"
  shows "\<exists>m'. drawCodewords f c m = Some m' \<and> grid m' n \<and>
    (\<forall>x<n. \<forall>y<n. cell f x y \<longrightarrow> cell m' x y = cell m x y) \<and>
    map (\<lambda>(x, y). cell m' x y) (data_modules f n) =
      take (bitOffsetOrWidth c) (bits_of (data c)) @
      drop (bitOffsetOrWidth c) (map (\<lambda>(x, y). cell m x y) (data_modules f n))"
proof -
  let ?ps = "zigzag n (int n - 1)" and ?k = "bitOffsetOrWidth c"
  have "int n - 1 < 256" using assms(3) by simp
  then have ps: "distinct ?ps" "\<And>x y. (x, y) \<in> set ?ps \<Longrightarrow> x < n \<and> y < n"
    using distinct_zigzag zigzag_in by force+
  have fr: "free_of f ?ps = data_modules f n" by (simp add: free_of_def data_modules_def)
  obtain i' m' where m': "foldM (draw_at f c) ?ps (0, m) = Some (i', m')" "same_frame m m'"
    "\<And>x y. x < n \<Longrightarrow> y < n \<Longrightarrow> (x, y) \<notin> set (data_modules f n) \<Longrightarrow> cell m' x y = cell m x y"
    "\<And>j. j < length (data_modules f n) \<Longrightarrow> value_at m' (data_modules f n ! j) =
       (if j < ?k then bits_of (data c) ! j else value_at m (data_modules f n ! j))"
    using draw_at_loop [OF assms(1,2) ps assms(4), of 0] unfolding fr by auto
  have w: "bitOffsetOrWidth m = n" using assms(2) by (simp add: grid_def)
  then have "drawCodewords f c m = Some m'"
    using draw_columns_zigzag [of "(0, m)" n f c] m'(1) assms(3) by (simp add: drawCodewords_def Let_def)
  moreover have "grid m' n" using m'(2) assms(2) by (simp add: same_frame_grid)
  moreover have "cell f x y \<Longrightarrow> cell m' x y = cell m x y" if "x < n" "y < n" for x y
    using m'(3) [OF that] by (simp add: data_modules_def)
  moreover have "map (\<lambda>(x, y). cell m' x y) (data_modules f n) =
      take ?k (bits_of (data c)) @ drop ?k (map (\<lambda>(x, y). cell m x y) (data_modules f n))"
  proof (rule nth_equalityI)
    show "length (map (\<lambda>(x, y). cell m' x y) (data_modules f n)) =
        length (take ?k (bits_of (data c)) @ drop ?k (map (\<lambda>(x, y). cell m x y) (data_modules f n)))"
      using assms(4,5) by simp
    fix j assume "j < length (map (\<lambda>(x, y). cell m' x y) (data_modules f n))"
    then show "map (\<lambda>(x, y). cell m' x y) (data_modules f n) ! j =
        (take ?k (bits_of (data c)) @ drop ?k (map (\<lambda>(x, y). cell m x y) (data_modules f n))) ! j"
      using m'(4) [of j] assms(4) by (simp add: nth_append case_prod_beta' value_at_def min_absorb1)
  qed
  ultimately show ?thesis by blast
qed

theorem codewords_readable_witness:
  "\<exists>m'. drawCodewords (bb_initGrid 21) \<lparr>bitOffsetOrWidth = 0, capacityBytes = 1, data = [0xA5]\<rparr> (bb_initGrid 21) = Some m' \<and> grid m' 21"
proof -
  have "grid (bb_initGrid 21) 21" by (simp add: grid_def bb_initGrid_def)
  from codewords_readable [OF this this, of "\<lparr>bitOffsetOrWidth = 0, capacityBytes = 1, data = [0xA5]\<rparr>"]
  show ?thesis by auto
qed

end
