(* ===== verification/TftBus.thy ===== *)
theory TftBus
  imports Prelude
begin

text \<open>
  The primitives of \<open>components/m5stack/src/utility/In_eSPI.cpp\<close>, in the configuration of
  \<open>In_eSPI_Setup.h\<close> for the ESP32 (\<open>ILI9341\<close>, no transactions): what a pixel, a line and a rectangle
  send to the display controller.  The state is the driver object; the bytes that go over the bus are
  returned as a list.  Coordinates are the \<open>int32_t\<close> of the code as integers, converted to \<open>uint32_t\<close>
  where the code compares them with the unsigned \<open>_width\<close> and \<open>_height\<close>.  The chip select lines, which
  only frame the bytes, are left out, and \<open>spi_begin\<close> and \<open>spi_end\<close> are empty in this configuration.
\<close>

section \<open>The bus\<close>

datatype wire =
    Cmd u8              \<comment> \<open>\<open>DC_C; tft_Write_8; DC_D\<close>\<close>
  | Word u32            \<comment> \<open>\<open>tft_Write_32\<close>\<close>
  | Pixels "u16 list"   \<comment> \<open>\<open>tft_Write_16\<close>, \<open>writeBlock\<close> and \<open>pushColors\<close>\<close>

record Tft =
  tft_width :: u32
  tft_height :: u32
  addr_row :: u32
  addr_col :: u32

definition TFT_CASET :: u8 where "TFT_CASET = 0x2A"
definition TFT_PASET :: u8 where "TFT_PASET = 0x2B"
definition TFT_RAMWR :: u8 where "TFT_RAMWR = 0x2C"

definition u32_of :: "int \<Rightarrow> u32" where
  "u32_of i = word_of_int i"

text \<open>\<open>(uint32_t)a << 16 | b\<close>.\<close>

definition pair_word :: "u32 \<Rightarrow> u32 \<Rightarrow> u32" where
  "pair_word a b = push_bit 16 a OR b"

definition setAddrWindow :: "int \<Rightarrow> int \<Rightarrow> int \<Rightarrow> int \<Rightarrow> Tft \<Rightarrow> Tft \<times> wire list" where
  "setAddrWindow x0 y0 x1 y1 t =
     (t\<lparr>addr_col := 0xFFFF, addr_row := 0xFFFF\<rparr>,
      [Cmd TFT_CASET, Word (pair_word (u32_of x0) (u32_of x1)),
       Cmd TFT_PASET, Word (pair_word (u32_of y0) (u32_of y1)), Cmd TFT_RAMWR])"

definition drawPixel :: "u32 \<Rightarrow> u32 \<Rightarrow> u32 \<Rightarrow> Tft \<Rightarrow> Tft \<times> wire list" where
  "drawPixel x y color t =
     (if x \<ge> tft_width t \<or> y \<ge> tft_height t then (t, [])
      else
        let col = (if addr_col t \<noteq> x then [Cmd TFT_CASET, Word (pair_word x x)] else []);
            row = (if addr_row t \<noteq> y then [Cmd TFT_PASET, Word (pair_word y y)] else [])
        in (t\<lparr>addr_col := x, addr_row := y\<rparr>, col @ row @ [Cmd TFT_RAMWR, Pixels [ucast color]]))"

text \<open>
  The block writer fills the sixteen data registers of the SPI peripheral and sends sixteen pixels at a
  time (256 bits); what is left is sent by one transfer of \<open>repeat << 4\<close> bits.
\<close>

fun writeBlock_loop :: "u16 \<Rightarrow> nat \<Rightarrow> wire list" where
  "writeBlock_loop color n =
     (if n > 15 then Pixels (replicate 16 color) # writeBlock_loop color (n - 16)
      else if n > 0 then [Pixels (replicate n color)] else [])"

declare writeBlock_loop.simps [simp del]

definition writeBlock :: "u16 \<Rightarrow> u32 \<Rightarrow> wire list" where
  "writeBlock color n = writeBlock_loop color (unat n)"

definition drawFastVLine :: "int \<Rightarrow> int \<Rightarrow> int \<Rightarrow> u32 \<Rightarrow> Tft \<Rightarrow> Tft \<times> wire list" where
  "drawFastVLine x y h color t =
     (if u32_of x \<ge> tft_width t \<or> u32_of y \<ge> tft_height t \<or> h < 1 then (t, [])
      else
        let h = (if u32_of (y + h - 1) \<ge> tft_height t then sint (tft_height t - u32_of y) else h);
            (t, ws) = setAddrWindow x y x (y + h - 1) t
        in (t, ws @ writeBlock (ucast color) (u32_of h)))"

definition drawFastHLine :: "int \<Rightarrow> int \<Rightarrow> int \<Rightarrow> u32 \<Rightarrow> Tft \<Rightarrow> Tft \<times> wire list" where
  "drawFastHLine x y w color t =
     (if u32_of x \<ge> tft_width t \<or> u32_of y \<ge> tft_height t \<or> w < 1 then (t, [])
      else
        let w = (if u32_of (x + w - 1) \<ge> tft_width t then sint (tft_width t - u32_of x) else w);
            (t, ws) = setAddrWindow x y (x + w - 1) y t
        in (t, ws @ writeBlock (ucast color) (u32_of w)))"

definition fillRect :: "int \<Rightarrow> int \<Rightarrow> int \<Rightarrow> int \<Rightarrow> u32 \<Rightarrow> Tft \<Rightarrow> Tft \<times> wire list" where
  "fillRect x y w h color t =
     (if u32_of x > tft_width t \<or> u32_of y > tft_height t \<or> w < 1 \<or> h < 1 then (t, [])
      else
        let w = (if u32_of (x + w - 1) > tft_width t then sint (tft_width t - u32_of x) else w);
            h = (if u32_of (y + h - 1) > tft_height t then sint (tft_height t - u32_of y) else h);
            (t, ws) = setAddrWindow x y (x + w - 1) (y + h - 1) t;
            n = u32_of w * u32_of h
        in (t, ws @ writeBlock (ucast color) n))"

section \<open>The controller\<close>

text \<open>
  The display controller as its data sheet describes it: \<open>CASET\<close> and \<open>PASET\<close> set the range of columns
  and rows, \<open>RAMWR\<close> puts the write pointer at the corner of this window, and every pixel is stored
  there and advances the pointer along the row, then to the next row, and back to the corner.
\<close>

record Panel =
  sc :: nat
  ec :: nat
  sp :: nat
  ep :: nat
  ptr_x :: nat
  ptr_y :: nat
  reg :: u8
  pix :: "nat \<times> nat \<Rightarrow> u16"

definition store_pixel :: "u16 \<Rightarrow> Panel \<Rightarrow> Panel" where
  "store_pixel c p =
     p\<lparr>pix := (pix p)((ptr_x p, ptr_y p) := c),
       ptr_x := (if ptr_x p = ec p then sc p else ptr_x p + 1),
       ptr_y := (if ptr_x p = ec p then (if ptr_y p = ep p then sp p else ptr_y p + 1) else ptr_y p)\<rparr>"

fun panel :: "wire \<Rightarrow> Panel \<Rightarrow> Panel" where
  "panel (Cmd c) p = (if c = TFT_RAMWR then p\<lparr>reg := c, ptr_x := sc p, ptr_y := sp p\<rparr> else p\<lparr>reg := c\<rparr>)"
| "panel (Word d) p =
     (if reg p = TFT_CASET then p\<lparr>sc := unat (drop_bit 16 d), ec := unat (d AND 0xFFFF)\<rparr>
      else if reg p = TFT_PASET then p\<lparr>sp := unat (drop_bit 16 d), ep := unat (d AND 0xFFFF)\<rparr>
      else p)"
| "panel (Pixels cs) p = (if reg p = TFT_RAMWR then fold store_pixel cs p else p)"

definition display :: "wire list \<Rightarrow> Panel \<Rightarrow> Panel" where
  "display = fold panel"

lemma display_simps [simp]:
  "display [] p = p" "display (w # ws) p = display ws (panel w p)" "display (ws @ ws') p = display ws' (display ws p)"
  by (simp_all add: display_def)

text \<open>
  The driver's idea of the window: a cached column or row is the one the controller has, and no screen
  is so large that the mark \<open>0xFFFF\<close> of an unknown one is a coordinate.
\<close>

definition coherent :: "Tft \<Rightarrow> Panel \<Rightarrow> bool" where
  "coherent t p \<longleftrightarrow> 0 < tft_width t \<and> tft_width t \<le> 0x7FFF \<and> 0 < tft_height t \<and> tft_height t \<le> 0x7FFF \<and>
     (addr_col t \<noteq> 0xFFFF \<longrightarrow> sc p = unat (addr_col t) \<and> ec p = unat (addr_col t)) \<and>
     (addr_row t \<noteq> 0xFFFF \<longrightarrow> sp p = unat (addr_row t) \<and> ep p = unat (addr_row t))"

text \<open>Painting: the pixels of a set get the colour, the others stay.\<close>

definition painted :: "(nat \<times> nat) set \<Rightarrow> u16 \<Rightarrow> Panel \<Rightarrow> Panel \<Rightarrow> bool" where
  "painted A c p p' \<longleftrightarrow> pix p' = (\<lambda>xy. if xy \<in> A then c else pix p xy)"

lemma painted_empty: "painted {} c p p"
  by (simp add: painted_def)

lemma painted_trans: "painted A c p q \<Longrightarrow> painted B c q r \<Longrightarrow> painted (A \<union> B) c p r"
  by (auto simp: painted_def)

lemma take_bit_small: "a \<le> 0xFFFF \<Longrightarrow> take_bit 16 a = (a :: u32)"
  by (simp add: take_bit_eq_mod word_le_nat_alt word_less_nat_alt less_eq_Suc_le mod_word_less)

lemma pair_word_parts:
  assumes "a \<le> 0xFFFF" "b \<le> 0xFFFF"
  shows "drop_bit 16 (pair_word a b) = a" "pair_word a b AND 0xFFFF = b"
proof -
  have mask: "0xFFFF = (mask 16 :: u32)" by (simp add: mask_eq_exp_minus_1)
  have hi: "bit a n \<Longrightarrow> n < 16" "bit b n \<Longrightarrow> n < 16" for n
    using take_bit_small [OF assms(1)] take_bit_small [OF assms(2)] by (metis bit_take_bit_iff)+
  show "drop_bit 16 (pair_word a b) = a"
    by (rule bit_word_eqI) (auto simp: pair_word_def bit_simps dest: hi)
  show "pair_word a b AND 0xFFFF = b"
    unfolding mask by (rule bit_word_eqI) (auto simp: pair_word_def bit_simps dest: hi)
qed

section \<open>Blocks of pixels\<close>

lemma store_pixel_fields [simp]:
  "sc (store_pixel c p) = sc p" "ec (store_pixel c p) = ec p" "sp (store_pixel c p) = sp p"
  "ep (store_pixel c p) = ep p" "reg (store_pixel c p) = reg p"
  by (simp_all add: store_pixel_def)

lemma fold_store_fields [simp]:
  "sc (fold store_pixel cs p) = sc p" "ec (fold store_pixel cs p) = ec p" "sp (fold store_pixel cs p) = sp p"
  "ep (fold store_pixel cs p) = ep p" "reg (fold store_pixel cs p) = reg p"
  by (induction cs arbitrary: p) simp_all

lemma writeBlock_loop_display:
  "reg p = TFT_RAMWR \<Longrightarrow> display (writeBlock_loop c n) p = fold store_pixel (replicate n c) p"
proof (induction c n arbitrary: p rule: writeBlock_loop.induct)
  case (1 c n)
  show ?case
  proof (cases "n > 15")
    case True
    then have "replicate n c = replicate 16 c @ replicate (n - 16) c"
      by (simp flip: replicate_add)
    moreover have "display (writeBlock_loop c (n - 16)) (fold store_pixel (replicate 16 c) p)
        = fold store_pixel (replicate (n - 16) c) (fold store_pixel (replicate 16 c) p)"
      using True 1(2) by (intro 1(1)) (auto simp only: fold_store_fields)
    ultimately have "display (writeBlock_loop c (n - 16)) (fold store_pixel (replicate 16 c) p)
        = fold store_pixel (replicate n c) p" by (simp only: fold_append comp_apply)
    moreover have "writeBlock_loop c n = Pixels (replicate 16 c) # writeBlock_loop c (n - 16)"
      using True by (subst writeBlock_loop.simps) (simp only: if_True)
    ultimately show ?thesis using 1(2) by (simp only: display_simps panel.simps simp_thms if_True)
  next
    case False
    then show ?thesis using 1(2) by (subst writeBlock_loop.simps) auto
  qed
qed

text \<open>The \<open>i\<close>-th pixel of a window lands in column \<open>i mod w\<close> of row \<open>i div w\<close>.\<close>

lemma store_window:
  assumes "ptr_x p = sc p" "ptr_y p = sp p" "ec p = sc p + w - 1" "ep p = sp p + h - 1" "0 < w"
    and "length cs \<le> w * h"
  shows "pix (fold store_pixel cs p) = (\<lambda>(x, y).
           if sc p \<le> x \<and> x < sc p + w \<and> sp p \<le> y \<and> (y - sp p) * w + (x - sc p) < length cs
           then cs ! ((y - sp p) * w + (x - sc p)) else pix p (x, y))
       \<and> ptr_x (fold store_pixel cs p) = sc p + length cs mod w
       \<and> ptr_y (fold store_pixel cs p) = sp p + (length cs div w) mod h"
  using assms(6)
proof (induction cs rule: rev_induct)
  case Nil
  then show ?case using assms by (auto simp: fun_eq_iff)
next
  case (snoc c cs)
  let ?n = "length cs" and ?q = "fold store_pixel cs p"
  have IH: "pix ?q = (\<lambda>(x, y). if sc p \<le> x \<and> x < sc p + w \<and> sp p \<le> y \<and> (y - sp p) * w + (x - sc p) < ?n
           then cs ! ((y - sp p) * w + (x - sc p)) else pix p (x, y))"
    "ptr_x ?q = sc p + ?n mod w" "ptr_y ?q = sp p + (?n div w) mod h"
    using snoc by simp_all
  have n: "?n < w * h" using snoc.prems by simp
  then have row: "?n div w < h" by (simp add: less_mult_imp_div_less mult.commute)
  have here: "(y - sp p) * w + (x - sc p) = ?n \<longleftrightarrow> x = sc p + ?n mod w \<and> y = sp p + ?n div w"
    if "sc p \<le> x" "x < sc p + w" "sp p \<le> y" for x y
  proof
    assume e: "(y - sp p) * w + (x - sc p) = ?n"
    then have "?n mod w = x - sc p" using that by (metis less_diff_conv2 mod_less mod_mult_self3 add.commute)
    moreover have "?n div w = y - sp p"
      using e that assms(5) by (metis add.right_neutral div_less div_mult_self3 less_diff_conv2 add.commute nat_less_le)
    ultimately show "x = sc p + ?n mod w \<and> y = sp p + ?n div w" using that by simp
  qed simp
  have px: "pix (store_pixel c ?q) = (pix ?q)((sc p + ?n mod w, sp p + ?n div w) := c)"
    by (simp add: store_pixel_def IH(2,3) row)
  have "pix (store_pixel c ?q) = (\<lambda>(x, y).
      if sc p \<le> x \<and> x < sc p + w \<and> sp p \<le> y \<and> (y - sp p) * w + (x - sc p) < length (cs @ [c])
      then (cs @ [c]) ! ((y - sp p) * w + (x - sc p)) else pix p (x, y))"
    unfolding px
  proof (rule ext)
    fix xy :: "nat \<times> nat"
    obtain x y where xy: "xy = (x, y)" by force
    show "((pix ?q)((sc p + ?n mod w, sp p + ?n div w) := c)) xy = (case xy of (x, y) \<Rightarrow>
      if sc p \<le> x \<and> x < sc p + w \<and> sp p \<le> y \<and> (y - sp p) * w + (x - sc p) < length (cs @ [c])
      then (cs @ [c]) ! ((y - sp p) * w + (x - sc p)) else pix p (x, y))"
    proof (cases "sc p \<le> x \<and> x < sc p + w \<and> sp p \<le> y")
      case True
      then show ?thesis using here [of x y] by (auto simp: xy IH(1) nth_append)
    next
      case False
      then show ?thesis using assms(5) by (auto simp: xy IH(1))
    qed
  qed
  moreover have "ptr_x (store_pixel c ?q) = sc p + Suc ?n mod w"
    using assms(5) by (auto simp: store_pixel_def IH(2) assms(3) mod_Suc)
  moreover have "ptr_y (store_pixel c ?q) = sp p + (Suc ?n div w) mod h"
  proof (cases "?n mod w = w - 1")
    case True
    then have "Suc ?n div w = Suc (?n div w)" using assms(5) by (simp add: div_Suc mod_Suc)
    then show ?thesis using True assms(4,5) row
      by (auto simp: store_pixel_def IH(2,3) assms(3) mod_Suc)
  next
    case False
    then have "Suc ?n div w = ?n div w" using assms(5) by (simp add: div_Suc mod_Suc)
    then show ?thesis using False assms(5) by (auto simp: store_pixel_def IH(2,3) assms(3))
  qed
  ultimately show ?case by simp
qed

section \<open>What the primitives paint\<close>

text \<open>Coordinates the code can convert without loss: a coordinate on the screen, or any \<open>int32_t\<close>.\<close>

lemma u32_of_small: "0 \<le> i \<Longrightarrow> i < 2 ^ 32 \<Longrightarrow> unat (u32_of i) = nat i"
  by (simp add: u32_of_def unat_eq_nat_uint uint_word_of_int take_bit_int_eq_self)

lemma u32_of_negative: "- (2 ^ 31) \<le> i \<Longrightarrow> i < 0 \<Longrightarrow> unat (u32_of i) = nat (i + 2 ^ 32)"
proof -
  assume i: "- (2 ^ 31) \<le> i" "i < 0"
  then have "i mod 2 ^ 32 = i + 2 ^ 32"
    using mod_pos_pos_trivial [of "i + 2 ^ 32" "2 ^ 32"] by simp
  then show ?thesis by (simp add: u32_of_def unat_eq_nat_uint uint_word_of_int take_bit_eq_mod)
qed

lemma u32_of_less:
  assumes "- (2 ^ 31) \<le> i" "i < 2 ^ 31" "m \<le> 0x7FFF"
  shows "u32_of i < m \<longleftrightarrow> 0 \<le> i \<and> i < int (unat m)"
proof -
  have m: "uint m \<le> 0x7FFF" using assms(3) by (simp add: word_le_def)
  show ?thesis
  proof (cases "0 \<le> i")
    case True
    then show ?thesis using assms by (simp add: word_less_nat_alt u32_of_small nat_less_iff)
  next
    case False
    then show ?thesis using assms m by (simp add: word_less_nat_alt u32_of_negative nat_less_iff)
  qed
qed

lemma u32_of_le:
  assumes "- (2 ^ 31) \<le> i" "i < 2 ^ 31" "m \<le> 0x7FFF"
  shows "u32_of i \<le> m \<longleftrightarrow> 0 \<le> i \<and> i \<le> int (unat m)"
proof -
  have m: "uint m \<le> 0x7FFF" using assms(3) by (simp add: word_le_def)
  show ?thesis
  proof (cases "0 \<le> i")
    case True
    then show ?thesis using assms by (simp add: word_le_nat_alt u32_of_small nat_le_iff)
  next
    case False
    then show ?thesis using assms m by (simp add: word_le_nat_alt u32_of_negative nat_le_iff)
  qed
qed

lemma clipped_length:
  assumes "0 \<le> i" "i \<le> int (unat m)" "m \<le> 0x7FFF"
  shows "sint (m - u32_of i) = int (unat m) - i"
proof -
  have m: "uint m \<le> 0x7FFF" using assms(3) by (simp add: word_le_def)
  have "m - u32_of i = word_of_int (uint m - i)" by (simp add: u32_of_def)
  then have "sint (m - u32_of i) = signed_take_bit 31 (uint m - i)" by (simp only: sint_sbintrunc') simp
  then show ?thesis using assms m by (simp add: signed_take_bit_int_eq_self)
qed

lemma store_block:
  assumes "ptr_x p = sc p" "ptr_y p = sp p" "ec p = sc p + w - 1" "ep p = sp p + h - 1" "0 < w"
  shows "pix (fold store_pixel (replicate (w * h) c) p) =
    (\<lambda>(a, b). if sc p \<le> a \<and> a < sc p + w \<and> sp p \<le> b \<and> b < sp p + h then c else pix p (a, b))"
proof -
  have here: "(b - y) * w + (a - x) < w * h \<longleftrightarrow> b < y + h" if "x \<le> a" "a < x + w" "y \<le> b" for a b x y :: nat
  proof
    assume "b < y + h"
    then have "Suc (b - y) * w \<le> h * w" using that by (intro mult_le_mono1) auto
    then show "(b - y) * w + (a - x) < w * h" using that by (simp add: mult.commute)
  next
    assume "(b - y) * w + (a - x) < w * h"
    then have "(b - y) * w < h * w" by (metis add_lessD1 mult.commute)
    then show "b < y + h" by auto
  qed
  have here': "(b - y) * w + a - x < w * h \<longleftrightarrow> b < y + h" if "x \<le> a" "a < x + w" "y \<le> b" for a b x y :: nat
    using here [OF that] that(1) by simp
  have "pix (fold store_pixel (replicate (w * h) c) p) = (\<lambda>(a, b).
      if sc p \<le> a \<and> a < sc p + w \<and> sp p \<le> b \<and> (b - sp p) * w + (a - sc p) < w * h
      then replicate (w * h) c ! ((b - sp p) * w + (a - sc p)) else pix p (a, b))"
    using store_window [OF assms, of "replicate (w * h) c"] by simp
  also have "\<dots> = (\<lambda>(a, b). if sc p \<le> a \<and> a < sc p + w \<and> sp p \<le> b \<and> b < sp p + h then c else pix p (a, b))"
    by (auto simp: fun_eq_iff here here')
  finally show ?thesis .
qed

text \<open>
  The window of \<open>setAddrWindow\<close> and the pixels sent after it: the painted part of the screen is the
  rectangle, column by column and row by row.
\<close>

lemma setAddrWindow_display:
  assumes "0 \<le> x0" "x0 \<le> 0xFFFF" "0 \<le> x1" "x1 \<le> 0xFFFF" "0 \<le> y0" "y0 \<le> 0xFFFF" "0 \<le> y1" "y1 \<le> 0xFFFF"
  shows "display (snd (setAddrWindow x0 y0 x1 y1 t)) p =
    p\<lparr>sc := nat x0, ec := nat x1, sp := nat y0, ep := nat y1, ptr_x := nat x0, ptr_y := nat y0, reg := TFT_RAMWR\<rparr>"
proof -
  have le: "u32_of i \<le> 0xFFFF" if "0 \<le> i" "i \<le> 0xFFFF" for i
    using that by (simp add: word_le_nat_alt u32_of_small nat_le_iff)
  show ?thesis using assms
    by (simp add: setAddrWindow_def TFT_CASET_def TFT_PASET_def TFT_RAMWR_def pair_word_parts le u32_of_small)
qed

lemma coherent_setAddrWindow: "coherent t p \<Longrightarrow> coherent (fst (setAddrWindow x0 y0 x1 y1 t)) q"
  by (simp add: coherent_def setAddrWindow_def)

definition rectangle :: "int \<Rightarrow> int \<Rightarrow> int \<Rightarrow> int \<Rightarrow> (nat \<times> nat) set" where
  "rectangle x y w h = {(a, b). x \<le> int a \<and> int a < x + w \<and> y \<le> int b \<and> int b < y + h}"

lemma rectangle_empty: "w \<le> 0 \<or> h \<le> 0 \<Longrightarrow> rectangle x y w h = {}"
  by (auto simp: rectangle_def)

lemma window_filled:
  assumes "coherent t p" "0 \<le> x" "x \<le> 0x7FFF" "0 \<le> y" "y \<le> 0x7FFF" "0 \<le> w" "w \<le> 0x8000" "0 \<le> h" "h \<le> 0x8000"
    and "n = u32_of (w * h)" and "x = 0 \<longrightarrow> 0 < w" and "y = 0 \<longrightarrow> 0 < h"
  shows "painted (rectangle x y w h) c p (display (snd (setAddrWindow x y (x + w - 1) (y + h - 1) t) @ writeBlock c n) p)"
proof -
  let ?p = "p\<lparr>sc := nat x, ec := nat (x + w - 1), sp := nat y, ep := nat (y + h - 1), ptr_x := nat x,
              ptr_y := nat y, reg := TFT_RAMWR\<rparr>"
  have wh: "0 \<le> w * h" "w * h \<le> 0x8000 * 0x8000" using assms(6-9) by (simp, intro mult_mono) auto
  have win: "display (snd (setAddrWindow x y (x + w - 1) (y + h - 1) t)) p = ?p"
    using assms by (intro setAddrWindow_display) auto
  have n: "unat n = nat w * nat h"
    unfolding assms(10) using wh assms(6,8) by (subst u32_of_small) (auto simp: nat_mult_distrib)
  show ?thesis
  proof (cases "w = 0 \<or> h = 0")
    case True
    then have "unat n = 0" using n by auto
    then have "display (writeBlock c n) ?p = ?p" by (simp add: writeBlock_def writeBlock_loop.simps)
    then show ?thesis using True win by (auto simp: rectangle_empty painted_def)
  next
    case False
    then have pos: "0 < w" "0 < h" using assms(6,8) by auto
    then have ends: "nat (x + w - 1) = nat x + nat w - 1" "nat (y + h - 1) = nat y + nat h - 1"
      using assms(2,4) by auto
    have "pix (fold store_pixel (replicate (nat w * nat h) c) ?p) = (\<lambda>(a, b).
        if nat x \<le> a \<and> a < nat x + nat w \<and> nat y \<le> b \<and> b < nat y + nat h then c else pix p (a, b))"
      using store_block [of ?p "nat w" "nat h" c] pos ends by (simp cong: if_cong)
    moreover have "nat x \<le> a \<and> a < nat x + nat w \<and> nat y \<le> b \<and> b < nat y + nat h
        \<longleftrightarrow> (a, b) \<in> rectangle x y w h" for a b
      using assms(2,4) pos by (auto simp: rectangle_def)
    ultimately have "pix (fold store_pixel (replicate (nat w * nat h) c) ?p) = (\<lambda>xy. if xy \<in> rectangle x y w h then c else pix p xy)"
      by (auto simp: fun_eq_iff)
    then show ?thesis using win n by (simp add: painted_def writeBlock_def writeBlock_loop_display)
  qed
qed

text \<open>A coordinate or a length with which the sums of the code do not overflow.\<close>

definition coord :: "int \<Rightarrow> bool" where
  "coord i \<longleftrightarrow> - (2 ^ 30) \<le> i \<and> i < 2 ^ 30"

definition screen :: "Tft \<Rightarrow> (nat \<times> nat) set" where
  "screen t = {(a, b). int a < uint (tft_width t) \<and> int b < uint (tft_height t)}"

text \<open>What every primitive keeps: the cached window is the controller's, the size of the screen stays.\<close>

definition driven :: "Tft \<Rightarrow> Tft \<Rightarrow> Panel \<Rightarrow> bool" where
  "driven t t' p \<longleftrightarrow> coherent t' p \<and> tft_width t' = tft_width t \<and> tft_height t' = tft_height t"

lemma coherent_size:
  assumes "coherent t p"
  shows "0 < uint (tft_width t)" "uint (tft_width t) \<le> 0x7FFF" "0 < uint (tft_height t)" "uint (tft_height t) \<le> 0x7FFF"
    "tft_width t \<le> 0x7FFF" "tft_height t \<le> 0x7FFF"
  using assms by (simp_all add: coherent_def word_le_def word_less_def)

lemma on_screen:
  assumes "coherent t p" "coord i"
  shows "u32_of i \<ge> tft_width t \<longleftrightarrow> i < 0 \<or> uint (tft_width t) \<le> i"
    "u32_of i \<ge> tft_height t \<longleftrightarrow> i < 0 \<or> uint (tft_height t) \<le> i"
    "u32_of i > tft_width t \<longleftrightarrow> i < 0 \<or> uint (tft_width t) < i"
    "u32_of i > tft_height t \<longleftrightarrow> i < 0 \<or> uint (tft_height t) < i"
proof -
  have i: "- (2 ^ 31) \<le> i" "i < 2 ^ 31" using assms(2) by (auto simp: coord_def)
  note size = coherent_size(5,6) [OF assms(1)]
  show "u32_of i \<ge> tft_width t \<longleftrightarrow> i < 0 \<or> uint (tft_width t) \<le> i"
    "u32_of i \<ge> tft_height t \<longleftrightarrow> i < 0 \<or> uint (tft_height t) \<le> i"
    unfolding not_less [symmetric, of "u32_of i"] using u32_of_less [OF i size(1)] u32_of_less [OF i size(2)] by auto
  show "u32_of i > tft_width t \<longleftrightarrow> i < 0 \<or> uint (tft_width t) < i"
    "u32_of i > tft_height t \<longleftrightarrow> i < 0 \<or> uint (tft_height t) < i"
    unfolding not_le [symmetric, of "u32_of i"] using u32_of_le [OF i size(1)] u32_of_le [OF i size(2)] by auto
qed

lemma driven_setAddrWindow: "coherent t p \<Longrightarrow> driven t (fst (setAddrWindow x0 y0 x1 y1 t)) q"
  by (simp add: driven_def coherent_setAddrWindow) (simp add: setAddrWindow_def)

lemma drawFastHLine_steps:
  assumes t: "coherent t p" and c: "coord x" "coord y" "coord w" "coord (x + w)" "drawFastHLine x y w color t = (t', ws)"
  shows "painted (if 0 \<le> x \<and> 0 \<le> y then rectangle x y w 1 \<inter> screen t else {}) (ucast color) p (display ws p)
       \<and> driven t t' (display ws p)"
proof (cases "x < 0 \<or> uint (tft_width t) \<le> x \<or> y < 0 \<or> uint (tft_height t) \<le> y \<or> w < 1")
  case True
  then have "t' = t" "ws = []" using c on_screen [OF t] by (auto simp: drawFastHLine_def)
  moreover have "(if 0 \<le> x \<and> 0 \<le> y then rectangle x y w 1 \<inter> screen t else {}) = {}"
    using True by (auto simp: rectangle_def screen_def)
  ultimately show ?thesis using t by (simp add: painted_def driven_def)
next
  case False
  let ?w = "if uint (tft_width t) \<le> x + w - 1 then uint (tft_width t) - x else w"
  have on: "coord (x + w - 1)" using c False by (auto simp: coord_def)
  have res: "ws = snd (setAddrWindow x y (x + ?w - 1) (y + 1 - 1) t) @ writeBlock (ucast color) (u32_of (?w * 1))"
    "t' = fst (setAddrWindow x y (x + ?w - 1) (y + 1 - 1) t)"
    using c(5) False c(1,2) on_screen [OF t] on clipped_length [of x "tft_width t"] coherent_size [OF t]
    by (auto simp: drawFastHLine_def Let_def split: prod.splits)
  have "painted (rectangle x y ?w 1) (ucast color) p (display ws p)"
    unfolding res using False coherent_size [OF t] by (intro window_filled [OF t]) auto
  moreover have "rectangle x y ?w 1 = rectangle x y w 1 \<inter> screen t"
    using False by (auto simp: rectangle_def screen_def)
  ultimately show ?thesis using False by (simp add: res(2) driven_setAddrWindow [OF t])
qed

lemma drawFastVLine_steps:
  assumes t: "coherent t p" and c: "coord x" "coord y" "coord h" "coord (y + h)" "drawFastVLine x y h color t = (t', ws)"
  shows "painted (if 0 \<le> x \<and> 0 \<le> y then rectangle x y 1 h \<inter> screen t else {}) (ucast color) p (display ws p)
       \<and> driven t t' (display ws p)"
proof (cases "x < 0 \<or> uint (tft_width t) \<le> x \<or> y < 0 \<or> uint (tft_height t) \<le> y \<or> h < 1")
  case True
  then have "t' = t" "ws = []" using c on_screen [OF t] by (auto simp: drawFastVLine_def)
  moreover have "(if 0 \<le> x \<and> 0 \<le> y then rectangle x y 1 h \<inter> screen t else {}) = {}"
    using True by (auto simp: rectangle_def screen_def)
  ultimately show ?thesis using t by (simp add: painted_def driven_def)
next
  case False
  let ?h = "if uint (tft_height t) \<le> y + h - 1 then uint (tft_height t) - y else h"
  have on: "coord (y + h - 1)" using c False by (auto simp: coord_def)
  have res: "ws = snd (setAddrWindow x y (x + 1 - 1) (y + ?h - 1) t) @ writeBlock (ucast color) (u32_of (1 * ?h))"
    "t' = fst (setAddrWindow x y (x + 1 - 1) (y + ?h - 1) t)"
    using c(5) False c(1,2) on_screen [OF t] on clipped_length [of y "tft_height t"] coherent_size [OF t]
    by (auto simp: drawFastVLine_def Let_def split: prod.splits)
  have "painted (rectangle x y 1 ?h) (ucast color) p (display ws p)"
    unfolding res using False coherent_size [OF t] by (intro window_filled [OF t]) auto
  moreover have "rectangle x y 1 ?h = rectangle x y 1 h \<inter> screen t"
    using False by (auto simp: rectangle_def screen_def)
  ultimately show ?thesis using False by (simp add: res(2) driven_setAddrWindow [OF t])
qed

lemma coherent_cached:
  assumes "coherent t p"
  shows "addr_col t \<noteq> 0xFFFF \<Longrightarrow> sc p = unat (addr_col t) \<and> ec p = unat (addr_col t)"
    "addr_row t \<noteq> 0xFFFF \<Longrightarrow> sp p = unat (addr_row t) \<and> ep p = unat (addr_row t)"
  using assms by (auto simp: coherent_def)

lemma drawPixel_steps:
  assumes t: "coherent t p" and c: "coord x" "coord y" "drawPixel (u32_of x) (u32_of y) color t = (t', ws)"
  shows "painted (rectangle x y 1 1 \<inter> screen t) (ucast color) p (display ws p) \<and> driven t t' (display ws p)"
proof (cases "x < 0 \<or> uint (tft_width t) \<le> x \<or> y < 0 \<or> uint (tft_height t) \<le> y")
  case True
  then have "t' = t" "ws = []" using c on_screen [OF t] by (auto simp: drawPixel_def)
  moreover have "rectangle x y 1 1 \<inter> screen t = {}" using True by (auto simp: rectangle_def screen_def)
  ultimately show ?thesis using t by (simp add: painted_def driven_def)
next
  case False
  then have lt: "0 \<le> x" "x < uint (tft_width t)" "0 \<le> y" "y < uint (tft_height t)" by auto
  note size = coherent_size [OF t]
  have nx: "unat (u32_of x) = nat x" "unat (u32_of y) = nat y" using lt size by (auto intro!: u32_of_small)
  have le: "u32_of x \<le> 0xFFFF" "u32_of y \<le> 0xFFFF" using lt size nx by (auto simp: word_le_nat_alt nat_le_iff)
  have ne: "u32_of x \<noteq> 0xFFFF" "u32_of y \<noteq> 0xFFFF"
    using lt size nx by (auto simp: word_unat_eq_iff nat_eq_iff)
  let ?col = "if addr_col t \<noteq> u32_of x then [Cmd TFT_CASET, Word (pair_word (u32_of x) (u32_of x))] else []"
  let ?row = "if addr_row t \<noteq> u32_of y then [Cmd TFT_PASET, Word (pair_word (u32_of y) (u32_of y))] else []"
  have res: "t' = t\<lparr>addr_col := u32_of x, addr_row := u32_of y\<rparr>"
    "ws = ?col @ ?row @ [Cmd TFT_RAMWR, Pixels [ucast color]]"
    using c(3) False c(1,2) on_screen [OF t] by (auto simp: drawPixel_def Let_def)
  define q where "q = display ?col p"
  have q: "sc q = nat x" "ec q = nat x" "sp q = sp p" "ep q = ep p" "pix q = pix p"
    using coherent_cached(1) [OF t] ne(1) nx le
    by (auto simp: q_def TFT_CASET_def TFT_RAMWR_def pair_word_parts)
  define r where "r = display ?row q"
  have r: "sc r = nat x" "ec r = nat x" "sp r = nat y" "ep r = nat y" "pix r = pix p"
    using coherent_cached(2) [OF t] ne(2) nx le q
    by (auto simp: r_def TFT_CASET_def TFT_PASET_def TFT_RAMWR_def pair_word_parts)
  have ws: "display ws p = store_pixel (ucast color) (r\<lparr>reg := TFT_RAMWR, ptr_x := nat x, ptr_y := nat y\<rparr>)"
    by (simp only: res display_simps flip: q_def r_def) (simp add: r)
  have "coherent t' (display ws p)"
    using t by (simp add: res(1) ws coherent_def r nx)
  moreover have "painted (rectangle x y 1 1 \<inter> screen t) (ucast color) p (display ws p)"
    using lt by (auto simp: painted_def ws store_pixel_def r rectangle_def screen_def fun_eq_iff)
  ultimately show ?thesis by (simp add: driven_def res(1))
qed

text \<open>
  The clipping of \<open>fillRect\<close> compares with \<open>>\<close>: a rectangle that ends one column or one row off the
  screen is not clipped.
\<close>

definition clip_gt :: "int \<Rightarrow> int \<Rightarrow> int \<Rightarrow> int" where
  "clip_gt m x w = (if x + w - 1 > m then m - x else w)"

text \<open>
  \<open>fillRect\<close> paints the rectangle the caller asks for when it lies on the screen, and its visible
  part otherwise; but it clips one column and one row too late, so the rectangle it opens in the
  controller may reach one column past the width and one row past the height.  A rectangle that starts
  left of the screen or above it is dropped, not clipped.  Nothing else is painted, and the driver's
  cached window stays the controller's.
\<close>

theorem fillRect_paints:
  assumes t: "coherent t p" and c: "coord x" "coord y" "coord w" "coord h" "coord (x + w)" "coord (y + h)"
    and res: "fillRect x y w h color t = (t', ws)"
  shows "painted (if 0 \<le> x \<and> x \<le> uint (tft_width t) \<and> 0 \<le> y \<and> y \<le> uint (tft_height t) \<and> 1 \<le> w \<and> 1 \<le> h
           then rectangle x y (clip_gt (uint (tft_width t)) x w) (clip_gt (uint (tft_height t)) y h) else {})
           (ucast color) p (display ws p)
       \<and> driven t t' (display ws p)"
proof (cases "x < 0 \<or> uint (tft_width t) < x \<or> y < 0 \<or> uint (tft_height t) < y \<or> w < 1 \<or> h < 1")
  case True
  then have "t' = t" "ws = []" using res c on_screen [OF t] by (auto simp: fillRect_def)
  with True show ?thesis using t by (auto simp: painted_def driven_def)
next
  case False
  let ?w = "clip_gt (uint (tft_width t)) x w" and ?h = "clip_gt (uint (tft_height t)) y h"
  have on: "coord (x + w - 1)" "coord (y + h - 1)" using c False by (auto simp: coord_def)
  have "u32_of ?w * u32_of ?h = u32_of (?w * ?h)" by (simp add: u32_of_def)
  then have ws: "ws = snd (setAddrWindow x y (x + ?w - 1) (y + ?h - 1) t) @ writeBlock (ucast color) (u32_of (?w * ?h))"
    "t' = fst (setAddrWindow x y (x + ?w - 1) (y + ?h - 1) t)"
    using res False c(1,2) on_screen [OF t] on clipped_length [of x "tft_width t"] clipped_length [of y "tft_height t"]
      coherent_size [OF t]
    by (auto simp: fillRect_def Let_def clip_gt_def split: prod.splits)
  have "painted (rectangle x y ?w ?h) (ucast color) p (display ws p)"
    unfolding ws using False coherent_size [OF t] by (intro window_filled [OF t]) (auto simp: clip_gt_def)
  then show ?thesis using False by (simp add: ws(2) driven_setAddrWindow [OF t])
qed

text \<open>The driver and the controller of the M5Stack's 320 by 240 screen after \<open>init\<close>.\<close>

definition fresh_tft :: Tft where
  "fresh_tft = \<lparr>tft_width = 320, tft_height = 240, addr_row = 0xFFFF, addr_col = 0xFFFF\<rparr>"

definition blank_panel :: Panel where
  "blank_panel = \<lparr>sc = 0, ec = 319, sp = 0, ep = 239, ptr_x = 0, ptr_y = 0, reg = 0, pix = (\<lambda>_. 0)\<rparr>"

lemma fresh_coherent: "coherent fresh_tft blank_panel"
  by (simp add: coherent_def fresh_tft_def)

text \<open>One column off the screen: the pixel is sent.\<close>

theorem fillRect_paints_witness:
  "painted (rectangle 320 0 1 1) 0xF800 blank_panel (display (snd (fillRect 320 0 1 1 0xF800 fresh_tft)) blank_panel)
   \<and> rectangle 320 0 1 1 \<inter> screen fresh_tft = {}"
  using fillRect_paints [OF fresh_coherent, where x = 320 and y = 0 and w = 1 and h = 1 and color = "0xF800"
      and t' = "fst (fillRect 320 0 1 1 0xF800 fresh_tft)" and ws = "snd (fillRect 320 0 1 1 0xF800 fresh_tft)"]
  by (auto simp: coord_def clip_gt_def fresh_tft_def screen_def rectangle_def)

end
