(* ===== verification/TftShapes.thy ===== *)
theory TftShapes
  imports TftBus "HOL-Library.Signed_Division"
begin

text \<open>
  The shapes of \<open>components/m5stack/src/utility/In_eSPI.cpp\<close>: lines, rectangles, circles, ellipses,
  triangles and bitmaps.  A shape is the list of calls it makes to the primitives of \<open>TftBus\<close>, in the
  order of the code, and \<open>run_calls\<close> gives what they send to the controller.  The \<open>int32_t\<close> values
  are integers: for lines, circles, triangles and rectangles the model is the code's as long as no sum
  or product leaves 32 bits, which is undefined in C and far from the coordinates of a screen; the
  ellipses, whose products are cubes of the radii, check every operation.  \<open>spi_begin\<close>, \<open>spi_end\<close> and the flag
  \<open>inTransaction\<close> have no effect in the configuration of the M5Stack.
\<close>

section \<open>Calls to the primitives\<close>

datatype call =
    Pixel int int u32           \<comment> \<open>\<open>drawPixel(x, y, color)\<close>\<close>
  | HLine int int int u32       \<comment> \<open>\<open>drawFastHLine(x, y, w, color)\<close>\<close>
  | VLine int int int u32       \<comment> \<open>\<open>drawFastVLine(x, y, h, color)\<close>\<close>
  | Fill int int int int u32    \<comment> \<open>\<open>fillRect(x, y, w, h, color)\<close>\<close>

fun run_call :: "call \<Rightarrow> Tft \<Rightarrow> Tft \<times> wire list" where
  "run_call (Pixel x y c) t = drawPixel (u32_of x) (u32_of y) c t"
| "run_call (HLine x y w c) t = drawFastHLine x y w c t"
| "run_call (VLine x y h c) t = drawFastVLine x y h c t"
| "run_call (Fill x y w h c) t = fillRect x y w h c t"

fun run_calls :: "call list \<Rightarrow> Tft \<Rightarrow> Tft \<times> wire list" where
  "run_calls [] t = (t, [])"
| "run_calls (k # ks) t =
     (let (t, ws) = run_call k t; (t, ws') = run_calls ks t in (t, ws @ ws'))"

section \<open>Lines\<close>

text \<open>
  The loop of Bresenham's algorithm; the two loops of the code differ in the calls of the last
  argument only.  \<open>seg xs y0 dlen\<close> is a run of \<open>dlen\<close> pixels, \<open>dot\<close> a single pixel.
\<close>

function line_loop :: "(int \<Rightarrow> int \<Rightarrow> call) \<Rightarrow> (int \<Rightarrow> int \<Rightarrow> int \<Rightarrow> call) \<Rightarrow> int \<Rightarrow> int \<Rightarrow> int \<Rightarrow>
    int \<Rightarrow> int \<Rightarrow> int \<Rightarrow> int \<Rightarrow> int \<Rightarrow> int \<Rightarrow> call list" where
  "line_loop dot seg x1 dx dy ystep x0 y0 err xs dlen =
     (if x0 \<le> x1 then
        let dlen = dlen + 1;
            err = err - dy
        in if err < 0 then
             (if dlen = 1 then dot xs y0 else seg xs y0 dlen)
               # line_loop dot seg x1 dx dy ystep (x0 + 1) (y0 + ystep) (err + dx) (x0 + 1) 0
           else line_loop dot seg x1 dx dy ystep (x0 + 1) y0 err xs dlen
      else if dlen \<noteq> 0 then [seg xs y0 dlen] else [])"
  by pat_completeness auto
termination by (relation "measure (\<lambda>(_, _, x1, _, _, _, x0, _). nat (x1 + 1 - x0))") auto

declare line_loop.simps [simp del]

definition drawLine :: "int \<Rightarrow> int \<Rightarrow> int \<Rightarrow> int \<Rightarrow> u32 \<Rightarrow> call list" where
  "drawLine x0 y0 x1 y1 color =
     (let steep = \<bar>y1 - y0\<bar> > \<bar>x1 - x0\<bar>;
          (x0, y0, x1, y1) = (if steep then (y0, x0, y1, x1) else (x0, y0, x1, y1));
          (x0, y0, x1, y1) = (if x0 > x1 then (x1, y1, x0, y0) else (x0, y0, x1, y1));
          dx = x1 - x0;
          dy = \<bar>y1 - y0\<bar>;
          err = drop_bit 1 dx;
          ystep = (if y0 < y1 then 1 else -1)
      in if steep
         then line_loop (\<lambda>xs y0. Pixel y0 xs color) (\<lambda>xs y0 dlen. VLine y0 xs dlen color) x1 dx dy ystep x0 y0 err x0 0
         else line_loop (\<lambda>xs y0. Pixel xs y0 color) (\<lambda>xs y0 dlen. HLine xs y0 dlen color) x1 dx dy ystep x0 y0 err x0 0)"

definition drawTriangle :: "int \<Rightarrow> int \<Rightarrow> int \<Rightarrow> int \<Rightarrow> int \<Rightarrow> int \<Rightarrow> u32 \<Rightarrow> call list" where
  "drawTriangle x0 y0 x1 y1 x2 y2 color =
     drawLine x0 y0 x1 y1 color @ drawLine x1 y1 x2 y2 color @ drawLine x2 y2 x0 y0 color"

section \<open>Rectangles\<close>

definition fillScreen :: "Tft \<Rightarrow> u32 \<Rightarrow> call list" where
  "fillScreen t color = [Fill 0 0 (sint (tft_width t)) (sint (tft_height t)) color]"

definition drawRect :: "int \<Rightarrow> int \<Rightarrow> int \<Rightarrow> int \<Rightarrow> u32 \<Rightarrow> call list" where
  "drawRect x y w h color =
     [HLine x y w color, HLine x (y + h - 1) w color, VLine x y h color, VLine (x + w - 1) y h color]"

section \<open>Circles\<close>

text \<open>
  The loop of \<open>drawCircle\<close> and \<open>fillCircle\<close>, which is the same code around different calls
  \<open>draw x r\<close>.
\<close>

function circle_loop :: "(int \<Rightarrow> int \<Rightarrow> call list) \<Rightarrow> int \<Rightarrow> int \<Rightarrow> int \<Rightarrow> int \<Rightarrow> int \<Rightarrow> call list" where
  "circle_loop draw x dx dy p r =
     (if x < r then
        let (dy, p, r) = (if p \<ge> 0 then (dy - 2, p - (dy - 2), r - 1) else (dy, p, r));
            dx = dx + 2;
            p = p + dx;
            x = x + 1
        in draw x r @ circle_loop draw x dx dy p r
      else [])"
  by pat_completeness auto
termination by (relation "measure (\<lambda>(_, x, _, _, _, r). nat (r - x))") (auto split: if_splits)

declare circle_loop.simps [simp del]

definition drawCircle :: "int \<Rightarrow> int \<Rightarrow> int \<Rightarrow> u32 \<Rightarrow> call list" where
  "drawCircle x0 y0 r color =
     [Pixel (x0 + r) y0 color, Pixel (x0 - r) y0 color, Pixel x0 (y0 - r) color, Pixel x0 (y0 + r) color]
     @ circle_loop (\<lambda>x r.
         [Pixel (x0 + x) (y0 + r) color, Pixel (x0 - x) (y0 + r) color,
          Pixel (x0 - x) (y0 - r) color, Pixel (x0 + x) (y0 - r) color,
          Pixel (x0 + r) (y0 + x) color, Pixel (x0 - r) (y0 + x) color,
          Pixel (x0 - r) (y0 - x) color, Pixel (x0 + r) (y0 - x) color])
         0 1 (r + r) (- (drop_bit 1 r)) r"

definition fillCircle :: "int \<Rightarrow> int \<Rightarrow> int \<Rightarrow> u32 \<Rightarrow> call list" where
  "fillCircle x0 y0 r color =
     HLine (x0 - r) y0 (r + r + 1) color
     # circle_loop (\<lambda>x r.
         [HLine (x0 - r) (y0 + x) (2 * r + 1) color, HLine (x0 - r) (y0 - x) (2 * r + 1) color,
          HLine (x0 - x) (y0 + r) (2 * x + 1) color, HLine (x0 - x) (y0 - r) (2 * x + 1) color])
         0 1 (r + r) (- (drop_bit 1 r)) r"

text \<open>The loop of the two helpers, which draw the corners of rounded rectangles.\<close>

function corner_loop :: "(int \<Rightarrow> int \<Rightarrow> call list) \<Rightarrow> int \<Rightarrow> int \<Rightarrow> int \<Rightarrow> int \<Rightarrow> int \<Rightarrow> call list" where
  "corner_loop draw f ddF_x ddF_y x r =
     (if x < r then
        let (r, ddF_y, f) = (if f \<ge> 0 then (r - 1, ddF_y + 2, f + (ddF_y + 2)) else (r, ddF_y, f));
            x = x + 1;
            ddF_x = ddF_x + 2;
            f = f + ddF_x
        in draw x r @ corner_loop draw f ddF_x ddF_y x r
      else [])"
  by pat_completeness auto
termination by (relation "measure (\<lambda>(_, _, _, _, x, r). nat (r - x))") (auto split: if_splits)

declare corner_loop.simps [simp del]

definition drawCircleHelper :: "int \<Rightarrow> int \<Rightarrow> int \<Rightarrow> u8 \<Rightarrow> u32 \<Rightarrow> call list" where
  "drawCircleHelper x0 y0 r cornername color =
     corner_loop (\<lambda>x r.
       (if cornername AND 0x4 \<noteq> 0 then [Pixel (x0 + x) (y0 + r) color, Pixel (x0 + r) (y0 + x) color] else []) @
       (if cornername AND 0x2 \<noteq> 0 then [Pixel (x0 + x) (y0 - r) color, Pixel (x0 + r) (y0 - x) color] else []) @
       (if cornername AND 0x8 \<noteq> 0 then [Pixel (x0 - r) (y0 + x) color, Pixel (x0 - x) (y0 + r) color] else []) @
       (if cornername AND 0x1 \<noteq> 0 then [Pixel (x0 - r) (y0 - x) color, Pixel (x0 - x) (y0 - r) color] else []))
       (1 - r) 1 (- 2 * r) 0 r"

definition fillCircleHelper :: "int \<Rightarrow> int \<Rightarrow> int \<Rightarrow> u8 \<Rightarrow> int \<Rightarrow> u32 \<Rightarrow> call list" where
  "fillCircleHelper x0 y0 r cornername delta color =
     (let delta = delta + 1 in
      corner_loop (\<lambda>y r.
        (if cornername AND 0x1 \<noteq> 0 then
           [HLine (x0 - r) (y0 + y) (r + r + delta) color, HLine (x0 - y) (y0 + r) (y + y + delta) color] else []) @
        (if cornername AND 0x2 \<noteq> 0 then
           [HLine (x0 - r) (y0 - y) (r + r + delta) color, HLine (x0 - y) (y0 - r) (y + y + delta) color] else []))
        (1 - r) 1 (- r - r) 0 r)"

definition drawRoundRect :: "int \<Rightarrow> int \<Rightarrow> int \<Rightarrow> int \<Rightarrow> int \<Rightarrow> u32 \<Rightarrow> call list" where
  "drawRoundRect x y w h r color =
     [HLine (x + r) y (w - r - r) color, HLine (x + r) (y + h - 1) (w - r - r) color,
      VLine x (y + r) (h - r - r) color, VLine (x + w - 1) (y + r) (h - r - r) color] @
     drawCircleHelper (x + r) (y + r) r 1 color @
     drawCircleHelper (x + w - r - 1) (y + r) r 2 color @
     drawCircleHelper (x + w - r - 1) (y + h - r - 1) r 4 color @
     drawCircleHelper (x + r) (y + h - r - 1) r 8 color"

definition fillRoundRect :: "int \<Rightarrow> int \<Rightarrow> int \<Rightarrow> int \<Rightarrow> int \<Rightarrow> u32 \<Rightarrow> call list" where
  "fillRoundRect x y w h r color =
     Fill x (y + r) w (h - r - r) color #
     fillCircleHelper (x + r) (y + h - r - 1) r 1 (w - r - r - 1) color @
     fillCircleHelper (x + r) (y + r) r 2 (w - r - r - 1) color"

section \<open>Ellipses\<close>

text \<open>
  Here the products are large: from a radius of 813 on they leave 32 bits, which is undefined in C.  So
  every operation on the \<open>int32_t\<close> variables is checked, and \<open>None\<close> is an overflow.  A loop ends or
  overflows, because it counts \<open>u\<close> upwards.  \<open>a2\<close> is the square of the radius along \<open>u\<close>, \<open>b2\<close> the
  other, \<open>f2\<close> four times \<open>a2\<close>; the second loop of the code is the first with the axes exchanged.
\<close>

function ellipse_loop :: "(int \<Rightarrow> int \<Rightarrow> call list) \<Rightarrow> int \<Rightarrow> int \<Rightarrow> int \<Rightarrow> int \<Rightarrow> int \<Rightarrow> int \<Rightarrow> call list option" where
  "ellipse_loop draw a2 b2 f2 u v s =
     do {
       p \<leftarrow> s32 (b2 * u);
       q \<leftarrow> s32 (a2 * v);
       if p \<le> q then do {
         (s, v') \<leftarrow>
           (if s \<ge> 0 then do {
              n \<leftarrow> s32 (1 - v);
              n \<leftarrow> s32 (f2 * n);
              s \<leftarrow> s32 (s + n);
              v' \<leftarrow> s32 (v - 1);
              Some (s, v')
            } else Some (s, v));
         m \<leftarrow> s32 (4 * u);
         m \<leftarrow> s32 (m + 6);
         m \<leftarrow> s32 (b2 * m);
         s \<leftarrow> s32 (s + m);
         u' \<leftarrow> s32 (u + 1);
         ks \<leftarrow> ellipse_loop draw a2 b2 f2 u' v' s;
         Some (draw u v @ ks)
       } else Some []
     }"
  by pat_completeness auto
termination by (relation "measure (\<lambda>(_, _, _, _, u, _). nat (2 ^ 31 - u))") (auto simp: s32_def split: if_splits)

declare ellipse_loop.simps [simp del]

text \<open>The start value of \<open>s\<close> for the radii \<open>a\<close> and \<open>b\<close> with the squares \<open>a2\<close> and \<open>b2\<close>.\<close>

definition ellipse_start :: "int \<Rightarrow> int \<Rightarrow> int \<Rightarrow> int option" where
  "ellipse_start a2 b2 b =
     do {
       m \<leftarrow> s32 (2 * b2);
       n \<leftarrow> s32 (2 * b);
       n \<leftarrow> s32 (1 - n);
       n \<leftarrow> s32 (a2 * n);
       s32 (m + n)
     }"

definition ellipse :: "(int \<Rightarrow> int \<Rightarrow> call list) \<Rightarrow> int \<Rightarrow> int \<Rightarrow> call list option" where
  "ellipse draw rx ry =
     (if rx < 2 then Some [] else if ry < 2 then Some []
      else do {
        rx2 \<leftarrow> s32 (rx * rx);
        ry2 \<leftarrow> s32 (ry * ry);
        fx2 \<leftarrow> s32 (4 * rx2);
        fy2 \<leftarrow> s32 (4 * ry2);
        s \<leftarrow> ellipse_start rx2 ry2 ry;
        top \<leftarrow> ellipse_loop draw rx2 ry2 fx2 0 ry s;
        s \<leftarrow> ellipse_start ry2 rx2 rx;
        side \<leftarrow> ellipse_loop (\<lambda>y x. draw x y) ry2 rx2 fy2 0 rx s;
        Some (top @ side)
      })"

definition drawEllipse :: "int \<Rightarrow> int \<Rightarrow> int \<Rightarrow> int \<Rightarrow> u16 \<Rightarrow> call list option" where
  "drawEllipse x0 y0 rx ry color =
     ellipse (\<lambda>x y. [Pixel (x0 + x) (y0 + y) (ucast color), Pixel (x0 - x) (y0 + y) (ucast color),
                     Pixel (x0 - x) (y0 - y) (ucast color), Pixel (x0 + x) (y0 - y) (ucast color)]) rx ry"

definition fillEllipse :: "int \<Rightarrow> int \<Rightarrow> int \<Rightarrow> int \<Rightarrow> u16 \<Rightarrow> call list option" where
  "fillEllipse x0 y0 rx ry color =
     ellipse (\<lambda>x y. [HLine (x0 - x) (y0 - y) (x + x + 1) (ucast color),
                     HLine (x0 - x) (y0 + y) (x + x + 1) (ucast color)]) rx ry"

section \<open>Filled triangles\<close>

text \<open>C division, which truncates; a zero divisor is undefined.\<close>

definition cdiv :: "int \<Rightarrow> int \<Rightarrow> int option" where
  "cdiv a b = (if b = 0 then None else Some (a sdiv b))"

text \<open>One scanline: the two crossings, swapped if need be, and the line between them.\<close>

definition scanline :: "int \<Rightarrow> int \<Rightarrow> int \<Rightarrow> u32 \<Rightarrow> call" where
  "scanline a b y color =
     (let (a, b) = (if a > b then (b, a) else (a, b)) in HLine a y (b - a + 1) color)"

text \<open>Either loop of \<open>fillTriangle\<close>: \<open>xa\<close>, \<open>dxa\<close> and \<open>dya\<close> belong to the edge of \<open>a\<close>.\<close>

function scan_loop :: "int \<Rightarrow> int \<Rightarrow> int \<Rightarrow> int \<Rightarrow> int \<Rightarrow> int \<Rightarrow> int \<Rightarrow> u32 \<Rightarrow> int \<Rightarrow> int \<Rightarrow> int \<Rightarrow> call list option" where
  "scan_loop xa dxa dya xb dxb dyb lim color y sa sb =
     (if y \<le> lim then
        Option.bind (cdiv sa dya) (\<lambda>qa. Option.bind (cdiv sb dyb) (\<lambda>qb.
        Option.bind (scan_loop xa dxa dya xb dxb dyb lim color (y + 1) (sa + dxa) (sb + dxb)) (\<lambda>ks.
        Some (scanline (xa + qa) (xb + qb) y color # ks))))
      else Some [])"
  by pat_completeness auto
termination by (relation "measure (\<lambda>(_, _, _, _, _, _, lim, _, y, _). nat (lim + 1 - y))") auto

declare scan_loop.simps [simp del]

definition fillTriangle :: "int \<Rightarrow> int \<Rightarrow> int \<Rightarrow> int \<Rightarrow> int \<Rightarrow> int \<Rightarrow> u32 \<Rightarrow> call list option" where
  "fillTriangle x0 y0 x1 y1 x2 y2 color =
     (let (x0, y0, x1, y1) = (if y0 > y1 then (x1, y1, x0, y0) else (x0, y0, x1, y1));
          (x1, y1, x2, y2) = (if y1 > y2 then (x2, y2, x1, y1) else (x1, y1, x2, y2));
          (x0, y0, x1, y1) = (if y0 > y1 then (x1, y1, x0, y0) else (x0, y0, x1, y1))
      in if y0 = y2 then
           let a = x0; b = x0;
               (a, b) = (if x1 < a then (x1, b) else if x1 > b then (a, x1) else (a, b));
               (a, b) = (if x2 < a then (x2, b) else if x2 > b then (a, x2) else (a, b))
           in Some [HLine a y0 (b - a + 1) color]
         else
           let dx01 = x1 - x0; dy01 = y1 - y0; dx02 = x2 - x0; dy02 = y2 - y0; dx12 = x2 - x1; dy12 = y2 - y1;
               lim = (if y1 = y2 then y1 else y1 - 1);
               y = max y0 (lim + 1)
           in Option.bind (scan_loop x0 dx01 dy01 x0 dx02 dy02 lim color y0 0 0) (\<lambda>upper.
              Option.bind (scan_loop x1 dx12 dy12 x0 dx02 dy02 y2 color y (dx12 * (y - y1)) (dx02 * (y - y0))) (\<lambda>lower.
              Some (upper @ lower))))"

section \<open>Bitmaps\<close>

text \<open>The bit of column \<open>i\<close> in row \<open>j\<close>: from the left in \<open>drawBitmap\<close>, from the right in an XBM.\<close>

definition bitmap_bit :: "u8 list \<Rightarrow> int \<Rightarrow> (int \<Rightarrow> u8) \<Rightarrow> int \<Rightarrow> int \<Rightarrow> bool option" where
  "bitmap_bit bitmap byteWidth bitmask j i =
     Option.bind (rd bitmap (nat (j * byteWidth + i sdiv 8))) (\<lambda>b. Some (b AND bitmask i \<noteq> 0))"

definition bitmap_rows :: "u8 list \<Rightarrow> int \<Rightarrow> int \<Rightarrow> (int \<Rightarrow> u8) \<Rightarrow> (bool \<Rightarrow> int \<Rightarrow> int \<Rightarrow> call list) \<Rightarrow> call list option" where
  "bitmap_rows bitmap w h bitmask draw =
     (let byteWidth = (w + 7) sdiv 8 in
      foldM (\<lambda>j. foldM (\<lambda>i ks.
        Option.bind (bitmap_bit bitmap byteWidth bitmask j i) (\<lambda>b. Some (ks @ draw b i j)))
        [0 .. w - 1]) [0 .. h - 1] [])"

definition drawBitmap :: "int \<Rightarrow> int \<Rightarrow> u8 list \<Rightarrow> int \<Rightarrow> int \<Rightarrow> u16 \<Rightarrow> call list option" where
  "drawBitmap x y bitmap w h color =
     bitmap_rows bitmap w h (\<lambda>i. drop_bit (nat (i AND 7)) 128)
       (\<lambda>b i j. if b then [Pixel (x + i) (y + j) (ucast color)] else [])"

definition drawXBitmap :: "int \<Rightarrow> int \<Rightarrow> u8 list \<Rightarrow> int \<Rightarrow> int \<Rightarrow> u16 \<Rightarrow> call list option" where
  "drawXBitmap x y bitmap w h color =
     bitmap_rows bitmap w h (\<lambda>i. push_bit (nat (i AND 7)) 1)
       (\<lambda>b i j. if b then [Pixel (x + i) (y + j) (ucast color)] else [])"

definition drawXBitmap_bg :: "int \<Rightarrow> int \<Rightarrow> u8 list \<Rightarrow> int \<Rightarrow> int \<Rightarrow> u16 \<Rightarrow> u16 \<Rightarrow> call list option" where
  "drawXBitmap_bg x y bitmap w h color bgcolor =
     bitmap_rows bitmap w h (\<lambda>i. push_bit (nat (i AND 7)) 1)
       (\<lambda>b i j. if b then [Pixel (x + i) (y + j) (ucast color)] else [Pixel (x + i) (y + j) (ucast bgcolor)])"

section \<open>Colours\<close>

definition color565 :: "u8 \<Rightarrow> u8 \<Rightarrow> u8 \<Rightarrow> u16" where
  "color565 r g b = push_bit 8 (ucast r AND 0xF8) OR push_bit 3 (ucast g AND 0xFC) OR drop_bit 3 (ucast b)"

definition color16to8 :: "u16 \<Rightarrow> u8" where
  "color16to8 c = ucast (drop_bit 8 (c AND 0xE000) OR drop_bit 6 (c AND 0x0700) OR drop_bit 3 (c AND 0x0018))"

definition color8to16 :: "u8 \<Rightarrow> u16" where
  "color8to16 color =
     (let blue = [0, 11, 21, 31] :: u16 list;
          c = ucast color :: u16
      in push_bit 6 (c AND 0x1C) OR push_bit 5 (c AND 0xC0) OR push_bit 8 (c AND 0xE0)
         OR push_bit 3 (c AND 0x1C) OR blue ! unat (color AND 0x03))"

end
