(* ===== verification/TftLine.thy ===== *)
theory TftLine
  imports TftShapes
begin

text \<open>
  What \<open>drawLine\<close> and \<open>drawTriangle\<close> paint.  The calls of a shape are turned into the points they
  name (\<open>points\<close>) and into the pixels of the screen they colour (\<open>run_calls_paint\<close>); Bresenham's loop
  is shown to visit every column once, within half a pixel of the line.
\<close>

section \<open>The points of calls\<close>

fun call_points :: "call \<Rightarrow> (int \<times> int) list" where
  "call_points (Pixel x y c) = [(x, y)]"
| "call_points (HLine x y w c) = map (\<lambda>i. (i, y)) [x .. x + w - 1]"
| "call_points (VLine x y h c) = map (\<lambda>i. (x, i)) [y .. y + h - 1]"
| "call_points (Fill x y w h c) = List.product [x .. x + w - 1] [y .. y + h - 1]"

definition points :: "call list \<Rightarrow> (int \<times> int) list" where
  "points ks = concat (map call_points ks)"

lemma points_simps [simp]:
  "points [] = []" "points (k # ks) = call_points k @ points ks" "points (ks @ ks') = points ks @ points ks'"
  by (simp_all add: points_def)

fun call_color :: "call \<Rightarrow> u32" where
  "call_color (Pixel x y c) = c"
| "call_color (HLine x y w c) = c"
| "call_color (VLine x y h c) = c"
| "call_color (Fill x y w h c) = c"

text \<open>Calls that are not rectangles and whose coordinates do not overflow; runs that start on the screen.\<close>

fun call_ok :: "call \<Rightarrow> bool" where
  "call_ok (Pixel x y c) \<longleftrightarrow> coord x \<and> coord y"
| "call_ok (HLine x y w c) \<longleftrightarrow> coord x \<and> coord y \<and> coord w \<and> coord (x + w) \<and> 0 \<le> x \<and> 0 \<le> y"
| "call_ok (VLine x y h c) \<longleftrightarrow> coord x \<and> coord y \<and> coord h \<and> coord (y + h) \<and> 0 \<le> x \<and> 0 \<le> y"
| "call_ok (Fill x y w h c) \<longleftrightarrow> False"

definition visible :: "Tft \<Rightarrow> (int \<times> int) list \<Rightarrow> (nat \<times> nat) set" where
  "visible t pts = {(a, b). (int a, int b) \<in> set pts} \<inter> screen t"

lemma call_paints:
  assumes t: "coherent t p" and ok: "call_ok k" and res: "run_call k t = (t', ws)"
  shows "painted (visible t (call_points k)) (ucast (call_color k)) p (display ws p) \<and> driven t t' (display ws p)"
proof (cases k)
  case (Pixel x y c)
  have "visible t (call_points k) = rectangle x y 1 1 \<inter> screen t"
    by (auto simp: Pixel visible_def rectangle_def)
  then show ?thesis using drawPixel_steps [OF t, of x y c t' ws] ok res by (simp add: Pixel)
next
  case (HLine x y w c)
  have "visible t (call_points k) = rectangle x y w 1 \<inter> screen t"
    by (auto simp: HLine visible_def rectangle_def)
  then show ?thesis using drawFastHLine_steps [OF t, of x y w c t' ws] ok res by (simp add: HLine)
next
  case (VLine x y h c)
  have "visible t (call_points k) = rectangle x y 1 h \<inter> screen t"
    by (auto simp: VLine visible_def rectangle_def)
  then show ?thesis using drawFastVLine_steps [OF t, of x y h c t' ws] ok res by (simp add: VLine)
qed (use ok in simp)

lemma visible_driven: "driven t t' q \<Longrightarrow> visible t' pts = visible t pts"
  by (simp add: driven_def visible_def screen_def)

lemma visible_append: "visible t (xs @ ys) = visible t xs \<union> visible t ys"
  by (auto simp: visible_def)

lemma run_calls_paint:
  assumes "coherent t p" "\<forall>k\<in>set ks. call_ok k \<and> call_color k = color" "run_calls ks t = (t', ws)"
  shows "painted (visible t (points ks)) (ucast color) p (display ws p) \<and> driven t t' (display ws p)"
  using assms
proof (induction ks arbitrary: t t' p ws)
  case Nil
  then show ?case by (simp add: painted_def driven_def visible_def)
next
  case (Cons k ks)
  obtain t1 ws1 where k: "run_call k t = (t1, ws1)" by force
  obtain t2 ws2 where ks: "run_calls ks t1 = (t2, ws2)" by force
  have res: "t' = t2" "ws = ws1 @ ws2" using Cons.prems(3) k ks by auto
  have 1: "painted (visible t (call_points k)) (ucast color) p (display ws1 p)" "driven t t1 (display ws1 p)"
    using call_paints [OF Cons.prems(1) _ k] Cons.prems(2) by auto
  have 2: "painted (visible t1 (points ks)) (ucast color) (display ws1 p) (display ws2 (display ws1 p))"
    "driven t1 t2 (display ws2 (display ws1 p))"
    using Cons.IH [OF _ _ ks, of "display ws1 p"] 1(2) Cons.prems(2) by (auto simp: driven_def)
  show ?case
    using painted_trans [OF 1(1) 2(1)] 1(2) 2(2) visible_driven [OF 1(2)]
    by (auto simp: res visible_append driven_def)
qed

section \<open>Bresenham's loop\<close>

lemma upto_split: "xs \<le> x \<Longrightarrow> x \<le> y \<Longrightarrow> [xs .. y] = [xs .. x] @ [x + 1 .. (y :: int)]"
  using upto_split2 by (metis order.trans)

text \<open>Row \<open>m\<close> is the nearest one in column \<open>k\<close>: the error is at most half a pixel.\<close>

definition near :: "int \<Rightarrow> int \<Rightarrow> int \<Rightarrow> int \<Rightarrow> bool" where
  "near dx dy k m \<longleftrightarrow> 2 * \<bar>k * dy - m * dx\<bar> \<le> dx"

lemma near_error:
  assumes "err = dx div 2 - k * dy + m * dx" "0 \<le> err" "err < dx \<or> dx = 0" "0 \<le> dy" "dy \<le> dx"
  shows "near dx dy k m"
proof (cases "dx = 0")
  case False
  then have "0 \<le> dx div 2 - k * dy + m * dx" "dx div 2 - k * dy + m * dx < dx" using assms by auto
  then show ?thesis by (auto simp: near_def abs_if)
qed (use assms in \<open>simp add: near_def\<close>)

lemma line_loop_points:
  assumes dots: "\<And>x y. call_points (dot x y) = [g x y]"
    and segs: "\<And>x y n. call_points (seg x y n) = map (\<lambda>i. g i y) [x .. x + n - 1]"
    and dy: "0 \<le> dy" "dy \<le> dx"
  shows "err = dx div 2 - (x0 - X) * dy + m * dx \<Longrightarrow> 0 \<le> err \<Longrightarrow> err < dx \<or> dx = 0 \<Longrightarrow> y0 = Y + ystep * m \<Longrightarrow>
    x0 \<le> x1 + 1 \<Longrightarrow> dlen = x0 - xs \<Longrightarrow> xs \<le> x0 \<Longrightarrow>
    \<exists>f. points (line_loop dot seg x1 dx dy ystep x0 y0 err xs dlen) = map (\<lambda>i. g i (Y + ystep * f i)) [xs .. x1]
      \<and> (\<forall>i\<in>{xs..<x0}. f i = m) \<and> (x0 \<le> x1 \<longrightarrow> f x0 = m) \<and> (\<forall>i\<in>{x0..x1}. near dx dy (i - X) (f i))"
proof (induction "nat (x1 + 1 - x0)" arbitrary: x0 y0 err xs dlen m)
  case 0
  then have "points (line_loop dot seg x1 dx dy ystep x0 y0 err xs dlen) = map (\<lambda>i. g i (Y + ystep * m)) [xs .. x1]"
    by (subst line_loop.simps) (auto simp: segs)
  moreover have "\<not> x0 \<le> x1" using 0 by simp
  ultimately show ?case by (intro exI [of _ "\<lambda>_. m"]) auto
next
  case (Suc n)
  then have le: "x0 \<le> x1" by simp
  have near: "near dx dy (x0 - X) m" using Suc.prems(1-3) dy by (rule near_error)
  have less: "n = nat (x1 + 1 - (x0 + 1))" using Suc.hyps(2) le by simp
  note loop = line_loop.simps [of dot seg x1 dx dy ystep x0 y0 err xs dlen]
  show ?case
  proof (cases "err - dy < 0")
    case True
    have "dx \<noteq> 0" using True dy Suc.prems(2) by auto
    then obtain f where f: "points (line_loop dot seg x1 dx dy ystep (x0 + 1) (y0 + ystep) (err - dy + dx) (x0 + 1) 0) =
        map (\<lambda>i. g i (Y + ystep * f i)) [x0 + 1 .. x1]" "\<forall>i\<in>{x0 + 1..x1}. near dx dy (i - X) (f i)"
      using Suc.hyps(1) [of "x0 + 1" "err - dy + dx" "m + 1" "y0 + ystep" 0 "x0 + 1", OF less] le Suc.prems dy True
      by (auto simp: algebra_simps)
    define f' where "f' i = (if i \<le> x0 then m else f i)" for i
    have "points (line_loop dot seg x1 dx dy ystep x0 y0 err xs dlen)
        = map (\<lambda>i. g i (Y + ystep * m)) [xs .. x0] @ map (\<lambda>i. g i (Y + ystep * f i)) [x0 + 1 .. x1]"
      using le True Suc.prems(4,6,7) by (subst loop) (auto simp: f(1) [unfolded Suc.prems(4)] dots segs Let_def)
    also have "\<dots> = map (\<lambda>i. g i (Y + ystep * f' i)) [xs .. x1]"
      using upto_split [OF Suc.prems(7) le] by (simp add: f'_def)
    finally show ?thesis using f(2) near by (intro exI [of _ f']) (auto simp: f'_def)
  next
    case False
    have "\<exists>f. points (line_loop dot seg x1 dx dy ystep (x0 + 1) y0 (err - dy) xs (dlen + 1)) =
        map (\<lambda>i. g i (Y + ystep * f i)) [xs .. x1] \<and> (\<forall>i\<in>{xs..<x0 + 1}. f i = m) \<and>
        (x0 + 1 \<le> x1 \<longrightarrow> f (x0 + 1) = m) \<and> (\<forall>i\<in>{x0 + 1..x1}. near dx dy (i - X) (f i))"
      by (rule Suc.hyps(1) [OF less]) (use le False Suc.prems dy in \<open>auto simp: algebra_simps\<close>)
    then obtain f where f: "points (line_loop dot seg x1 dx dy ystep (x0 + 1) y0 (err - dy) xs (dlen + 1)) =
        map (\<lambda>i. g i (Y + ystep * f i)) [xs .. x1]" "\<forall>i\<in>{xs..<x0 + 1}. f i = m"
        "\<forall>i\<in>{x0 + 1..x1}. near dx dy (i - X) (f i)" by blast
    have "points (line_loop dot seg x1 dx dy ystep x0 y0 err xs dlen) = map (\<lambda>i. g i (Y + ystep * f i)) [xs .. x1]"
      using le False by (subst loop) (simp add: f(1) Let_def)
    moreover have "f x0 = m" using f(2) Suc.prems(7) by simp
    moreover have "near dx dy (i - X) (f i)" if "i \<in> {x0..x1}" for i
      using that near f(3) \<open>f x0 = m\<close> by (cases "i = x0") auto
    ultimately show ?thesis using f(2) by (intro exI [of _ f]) auto
  qed
qed

section \<open>The line\<close>

text \<open>
  A rasterised line: one point per column of its longer extent, both ends included, no point twice, all
  within the box of the ends and at most half a pixel off the ideal line.
\<close>

definition extent :: "int \<Rightarrow> int \<Rightarrow> int \<Rightarrow> int \<Rightarrow> int" where
  "extent x0 y0 x1 y1 = max \<bar>x1 - x0\<bar> \<bar>y1 - y0\<bar>"

definition rasterised :: "int \<Rightarrow> int \<Rightarrow> int \<Rightarrow> int \<Rightarrow> (int \<times> int) list \<Rightarrow> bool" where
  "rasterised x0 y0 x1 y1 pts \<longleftrightarrow>
     int (length pts) = extent x0 y0 x1 y1 + 1 \<and> distinct pts \<and> (x0, y0) \<in> set pts \<and> (x1, y1) \<in> set pts \<and>
     (\<forall>(x, y)\<in>set pts. min x0 x1 \<le> x \<and> x \<le> max x0 x1 \<and> min y0 y1 \<le> y \<and> y \<le> max y0 y1 \<and>
        2 * \<bar>(x - x0) * (y1 - y0) - (y - y0) * (x1 - x0)\<bar> \<le> extent x0 y0 x1 y1)"

lemma cross_reversed:
  "(x - x1) * (y0 - y1) - (y - y1) * (x0 - x1) = - ((x - x0) * (y1 - y0) - (y - y0) * (x1 - x0))"
  for x y x0 y0 x1 y1 :: int
  by (simp add: algebra_simps)

lemma rasterised_reversed: "rasterised x1 y1 x0 y0 pts \<Longrightarrow> rasterised x0 y0 x1 y1 pts"
  using cross_reversed [of _ x1 y0 y1 _ x0]
  by (simp add: rasterised_def extent_def abs_minus_commute min.commute max.commute)

lemma rasterised_swapped:
  assumes "rasterised y0 x0 y1 x1 pts"
  shows "rasterised x0 y0 x1 y1 (map prod.swap pts)"
proof -
  have "2 * \<bar>(x - x0) * (y1 - y0) - (y - y0) * (x1 - x0)\<bar> \<le> extent x0 y0 x1 y1"
    if "2 * \<bar>(y - y0) * (x1 - x0) - (x - x0) * (y1 - y0)\<bar> \<le> extent y0 x0 y1 x1" for x y
    using that by (simp add: extent_def abs_minus_commute max.commute)
  moreover have "extent x0 y0 x1 y1 = extent y0 x0 y1 x1" by (simp add: extent_def max.commute)
  ultimately show ?thesis
    using assms by (fastforce simp: rasterised_def distinct_map intro: inj_onI)
qed

lemma near_within:
  assumes "near dx dy k m" "0 \<le> dy" "dy \<le> dx" "0 \<le> k" "k \<le> dx" "dx \<noteq> 0"
  shows "0 \<le> m" "m \<le> dy" "k = dx \<longrightarrow> m = dy"
proof -
  have n: "2 * (k * dy) - 2 * (m * dx) \<le> dx" "2 * (m * dx) - 2 * (k * dy) \<le> dx"
    using assms(1) by (auto simp: near_def abs_if split: if_splits)
  have pos: "0 < dx" using assms by simp
  have k: "0 \<le> k * dy" "k * dy \<le> dx * dy" using assms by (auto intro: mult_right_mono)
  show "0 \<le> m"
  proof (rule ccontr)
    assume "\<not> 0 \<le> m"
    then have "m * dx \<le> - 1 * dx" using pos by (intro mult_right_mono) auto
    then show False using n k pos by simp
  qed
  show "m \<le> dy"
  proof (rule ccontr)
    assume "\<not> m \<le> dy"
    then have "(dy + 1) * dx \<le> m * dx" using pos by (intro mult_right_mono) auto
    then show False using n k pos by (simp add: algebra_simps)
  qed
  moreover have "dy \<le> m" if "k = dx"
  proof (rule ccontr)
    assume "\<not> dy \<le> m"
    then have "m * dx \<le> (dy - 1) * dx" using pos by (intro mult_right_mono) auto
    then show False using n pos that by (simp add: algebra_simps)
  qed
  ultimately show "k = dx \<longrightarrow> m = dy" by auto
qed

text \<open>The loop from left to right, for a line that is not steep.\<close>

lemma line_rasterised:
  assumes le: "x0 \<le> x1" "\<bar>y1 - y0\<bar> \<le> x1 - x0"
    and dots: "\<And>x y. call_points (dot x y) = [g x y]"
    and segs: "\<And>x y n. call_points (seg x y n) = map (\<lambda>i. g i y) [x .. x + n - 1]"
    and res: "ks = line_loop dot seg x1 (x1 - x0) \<bar>y1 - y0\<bar> (if y0 < y1 then 1 else -1) x0 y0 (drop_bit 1 (x1 - x0)) x0 0"
  shows "\<exists>pts. points ks = map (\<lambda>(x, y). g x y) pts \<and> rasterised x0 y0 x1 y1 pts"
proof -
  let ?dx = "x1 - x0" and ?dy = "\<bar>y1 - y0\<bar>" and ?s = "if y0 < y1 then 1 else - 1 :: int"
  have s: "y1 - y0 = ?s * ?dy" "\<bar>?s * z\<bar> = \<bar>z\<bar>" for z by auto
  have half: "?dx div 2 < ?dx \<or> x1 = x0" using le(1) by linarith
  obtain f where f: "points ks = map (\<lambda>i. g i (y0 + ?s * f i)) [x0 .. x1]" "f x0 = 0"
      "\<forall>i\<in>{x0..x1}. near ?dx ?dy (i - x0) (f i)"
    using half line_loop_points [where dot = dot and seg = seg and g = g, OF dots segs _ le(2), of "drop_bit 1 ?dx" x0 x0 0 y0 y0 ?s x1 0 x0] le
    by (auto simp: res drop_bit_eq_div)
  define pts where "pts = map (\<lambda>i. (i, y0 + ?s * f i)) [x0 .. x1]"
  have last: "y0 + ?s * f x1 = y1"
  proof (cases "x0 = x1")
    case False
    then have "f x1 = ?dy" using near_within(3) [of ?dx ?dy "x1 - x0" "f x1"] f(3) le by auto
    then show ?thesis using s(1) by simp
  qed (use f(2) le in auto)
  have "min x0 x1 \<le> i \<and> i \<le> max x0 x1 \<and> min y0 y1 \<le> y0 + ?s * f i \<and> y0 + ?s * f i \<le> max y0 y1 \<and>
      2 * \<bar>(i - x0) * (y1 - y0) - (y0 + ?s * f i - y0) * (x1 - x0)\<bar> \<le> ?dx" if i: "i \<in> {x0..x1}" for i
  proof (cases "x0 = x1")
    case False
    then have "0 \<le> f i" "f i \<le> ?dy" using near_within(1,2) [of ?dx ?dy "i - x0" "f i"] f(3) le i by auto
    moreover have "(i - x0) * (y1 - y0) - (y0 + ?s * f i - y0) * (x1 - x0) = ?s * ((i - x0) * ?dy - f i * ?dx)"
      by (simp add: algebra_simps)
    ultimately show ?thesis using f(3) i le s(2) by (auto simp: near_def)
  qed (use f(2) i le in auto)
  then have "rasterised x0 y0 x1 y1 pts"
    using le last f(2) by (force simp: rasterised_def pts_def extent_def distinct_map inj_on_def image_iff)
  moreover have "points ks = map (\<lambda>(x, y). g x y) pts" by (simp add: f(1) pts_def)
  ultimately show ?thesis by blast
qed

text \<open>No run of the loop is empty, so a call whose points lie on the screen has coordinates in range.\<close>

fun proper :: "call \<Rightarrow> bool" where
  "proper (Pixel x y c) \<longleftrightarrow> True"
| "proper (HLine x y w c) \<longleftrightarrow> 1 \<le> w"
| "proper (VLine x y h c) \<longleftrightarrow> 1 \<le> h"
| "proper (Fill x y w h c) \<longleftrightarrow> False"

lemma line_loop_calls:
  assumes "\<And>x y. P (dot x y)" "\<And>x y n. 1 \<le> n \<Longrightarrow> P (seg x y n)" "0 \<le> dlen"
  shows "\<forall>k\<in>set (line_loop dot seg x1 dx dy ystep x0 y0 err xs dlen). P k"
  using assms
proof (induction dot seg x1 dx dy ystep x0 y0 err xs dlen rule: line_loop.induct)
  case (1 dot seg x1 dx dy ystep x0 y0 err xs dlen)
  then show ?case by (subst line_loop.simps) (auto simp: Let_def)
qed

lemma proper_ok:
  assumes "proper k" "\<forall>(x, y)\<in>set (call_points k). 0 \<le> x \<and> x \<le> 0x7FFF \<and> 0 \<le> y \<and> y \<le> 0x7FFF"
  shows "call_ok k"
proof (cases k)
  case (HLine x y w c)
  have "(x, y) \<in> set (call_points k)" "(x + w - 1, y) \<in> set (call_points k)"
    using assms(1) by (auto simp: HLine)
  from this [THEN bspec [OF assms(2)]] show ?thesis using assms(1) by (simp add: HLine coord_def)
next
  case (VLine x y h c)
  have "(x, y) \<in> set (call_points k)" "(x, y + h - 1) \<in> set (call_points k)"
    using assms(1) by (auto simp: VLine)
  from this [THEN bspec [OF assms(2)]] show ?thesis using assms(1) by (simp add: VLine coord_def)
qed (use assms in \<open>auto simp: coord_def\<close>)

lemma drawLine_points:
  "(\<exists>pts. points (drawLine x0 y0 x1 y1 color) = pts \<and> rasterised x0 y0 x1 y1 pts) \<and>
   (\<forall>k\<in>set (drawLine x0 y0 x1 y1 color). proper k \<and> call_color k = color)"
proof -
  define steep where "steep = (\<bar>y1 - y0\<bar> > \<bar>x1 - x0\<bar>)"
  obtain a0 b0 a1 b1 where s: "(a0, b0, a1, b1) = (if steep then (y0, x0, y1, x1) else (x0, y0, x1, y1))"
    by (metis prod.collapse)
  obtain c0 d0 c1 d1 where o: "(c0, d0, c1, d1) = (if a0 > a1 then (a1, b1, a0, b0) else (a0, b0, a1, b1))"
    by (metis prod.collapse)
  let ?dot = "if steep then (\<lambda>xs y0. Pixel y0 xs color) else (\<lambda>xs y0. Pixel xs y0 color)"
  let ?seg = "if steep then (\<lambda>xs y0 dlen. VLine y0 xs dlen color) else (\<lambda>xs y0 dlen. HLine xs y0 dlen color)"
  let ?g = "\<lambda>x y. if steep then (y, x) else (x, y :: int)"
  have ks: "drawLine x0 y0 x1 y1 color = line_loop ?dot ?seg c1 (c1 - c0) \<bar>d1 - d0\<bar>
      (if d0 < d1 then 1 else -1) c0 d0 (drop_bit 1 (c1 - c0)) c0 0"
    using s o by (auto simp: drawLine_def Let_def steep_def split: if_splits)
  have le: "c0 \<le> c1" "\<bar>d1 - d0\<bar> \<le> c1 - c0" using s o by (auto simp: steep_def split: if_splits)
  obtain pts where pts: "points (drawLine x0 y0 x1 y1 color) = map (\<lambda>(x, y). ?g x y) pts" "rasterised c0 d0 c1 d1 pts"
    using line_rasterised [OF le, where dot = ?dot and seg = ?seg and g = ?g, OF _ _ ks] by (cases steep) auto
  have "rasterised a0 b0 a1 b1 pts" using pts(2) o rasterised_reversed by (auto split: if_splits)
  then have "rasterised x0 y0 x1 y1 (map (\<lambda>(x, y). ?g x y) pts)"
    using s rasterised_swapped [of y0 x0 y1 x1 pts]
    by (cases steep) (auto simp: prod.swap_def [abs_def] case_prod_beta')
  moreover have "\<forall>k\<in>set (drawLine x0 y0 x1 y1 color). proper k \<and> call_color k = color"
    unfolding ks by (rule line_loop_calls) auto
  ultimately show ?thesis using pts(1) by auto
qed

text \<open>A shape whose points all lie on the screen paints exactly these points.\<close>

lemma shape_paints:
  assumes t: "coherent t p" and res: "run_calls ks t = (t', ws)"
    and calls: "\<forall>k\<in>set ks. proper k \<and> call_color k = color"
    and box: "\<And>x y. (x, y) \<in> set (points ks) \<Longrightarrow> 0 \<le> x \<and> x < uint (tft_width t) \<and> 0 \<le> y \<and> y < uint (tft_height t)"
  shows "painted {(a, b). (int a, int b) \<in> set (points ks)} (ucast color) p (display ws p) \<and> driven t t' (display ws p)"
proof -
  have "call_ok k" if "k \<in> set ks" for k
  proof (rule proper_ok)
    show "proper k" using calls that by blast
    have "set (call_points k) \<subseteq> set (points ks)" using that by (auto simp: points_def)
    then show "\<forall>(x, y)\<in>set (call_points k). 0 \<le> x \<and> x \<le> 0x7FFF \<and> 0 \<le> y \<and> y \<le> 0x7FFF"
      using box coherent_size [OF t] by fastforce
  qed
  then have "painted (visible t (points ks)) (ucast color) p (display ws p) \<and> driven t t' (display ws p)"
    using run_calls_paint [OF t _ res] calls by blast
  moreover have "visible t (points ks) = {(a, b). (int a, int b) \<in> set (points ks)}"
    using box by (auto simp: visible_def screen_def)
  ultimately show ?thesis by simp
qed

text \<open>
  C11.  A line between two points of the screen is drawn as a rasterised line: the controller ends up
  with the colour in exactly one pixel for every column (or row, if the line is steep) between the
  ends, both ends included, none of them more than half a pixel off the ideal line, and every other
  pixel keeps its colour.
\<close>

theorem drawLine_paints:
  assumes t: "coherent t p" and res: "run_calls (drawLine x0 y0 x1 y1 color) t = (t', ws)"
    and on: "0 \<le> x0" "x0 < uint (tft_width t)" "0 \<le> y0" "y0 < uint (tft_height t)"
      "0 \<le> x1" "x1 < uint (tft_width t)" "0 \<le> y1" "y1 < uint (tft_height t)"
  shows "\<exists>pts. rasterised x0 y0 x1 y1 pts \<and>
    painted {(a, b). (int a, int b) \<in> set pts} (ucast color) p (display ws p) \<and> driven t t' (display ws p)"
proof -
  let ?ks = "drawLine x0 y0 x1 y1 color"
  have pts: "rasterised x0 y0 x1 y1 (points ?ks)" and calls: "\<forall>k\<in>set ?ks. proper k \<and> call_color k = color"
    using drawLine_points [of x0 y0 x1 y1 color] by auto
  have "0 \<le> x \<and> x < uint (tft_width t) \<and> 0 \<le> y \<and> y < uint (tft_height t)" if "(x, y) \<in> set (points ?ks)" for x y
    using that pts on by (fastforce simp: rasterised_def)
  from shape_paints [OF t res calls this] show ?thesis using pts by blast
qed

theorem drawLine_paints_witness:
  "\<exists>pts. rasterised 3 7 200 90 pts \<and>
    painted {(a, b). (int a, int b) \<in> set pts} 0xF800 blank_panel
      (display (snd (run_calls (drawLine 3 7 200 90 0xF800) fresh_tft)) blank_panel)"
  using drawLine_paints [OF fresh_coherent, where ?x0.0 = 3 and ?y0.0 = 7 and ?x1.0 = 200 and ?y1.0 = 90 and color = "0xF800"
      and t' = "fst (run_calls (drawLine 3 7 200 90 0xF800) fresh_tft)"
      and ws = "snd (run_calls (drawLine 3 7 200 90 0xF800) fresh_tft)"]
  by (auto simp: fresh_tft_def)

end
