(* ===== verification/TftCurves.thy ===== *)
theory TftCurves
  imports TftLine
begin

text \<open>
  What \<open>drawCircle\<close> and \<open>fillCircle\<close> paint.
\<close>

section \<open>Circles\<close>

text \<open>A point is on the ring when its distance from the centre differs from the radius by at most one.\<close>

definition on_ring :: "int \<Rightarrow> int \<Rightarrow> int \<Rightarrow> bool" where
  "on_ring r x y \<longleftrightarrow> (r - 1)\<^sup>2 \<le> x\<^sup>2 + y\<^sup>2 \<and> x\<^sup>2 + y\<^sup>2 \<le> (r + 1)\<^sup>2"

text \<open>
  The decision variable \<open>p\<close> of the loop: the squared distance from the circle, up to the terms by which
  the code rounds.
\<close>

definition circle_inv :: "int \<Rightarrow> int \<Rightarrow> int \<Rightarrow> int \<Rightarrow> bool" where
  "circle_inv r0 x p r \<longleftrightarrow> 0 \<le> x \<and> 0 \<le> r \<and> r \<le> r0 \<and> 1 \<le> r0 \<and> x \<le> r0 \<and>
     p = x\<^sup>2 + r\<^sup>2 - r0\<^sup>2 + 2 * x + (r0 - r) - r0 div 2 \<and>
     2 * x + 1 - 2 * r \<le> p \<and> (p \<le> 2 * x \<or> r \<le> x \<and> p \<le> 2 * x + 1)"

lemma circle_inv_ring: "circle_inv r0 x p r \<Longrightarrow> on_ring r0 x r"
proof -
  assume inv: "circle_inv r0 x p r"
  define E where "E = x\<^sup>2 + r\<^sup>2 - r0\<^sup>2"
  define h where "h = r0 div 2"
  have "p = E + 2 * x + (r0 - r) - h" "2 * x + 1 - 2 * r \<le> p" "p \<le> 2 * x + 1" "0 \<le> h" "h \<le> r0" "r \<le> r0" "1 \<le> r0" "0 \<le> r"
    using inv by (auto simp: circle_inv_def E_def h_def)
  then have "1 - 2 * r0 \<le> E" "E \<le> 2 * r0 + 1" by auto
  then show ?thesis by (simp add: on_ring_def E_def power2_eq_square algebra_simps)
qed

lemma circle_inv_step:
  assumes "circle_inv r0 x p r" "x < r"
  shows "p \<ge> 0 \<Longrightarrow> circle_inv r0 (x + 1) (p - (2 * r - 2) + (2 * x + 3)) (r - 1)"
    and "p < 0 \<Longrightarrow> circle_inv r0 (x + 1) (p + (2 * x + 3)) r"
  using assms by (auto simp: circle_inv_def power2_eq_square algebra_simps)

lemma circle_loop_steps:
  "circle_inv r0 x p r \<Longrightarrow> \<exists>steps.
     (\<forall>draw. circle_loop draw x (2 * x + 1) (2 * r) p r = concat (map (\<lambda>(a, b). draw a b) steps)) \<and>
     (\<forall>(a, b)\<in>set steps. on_ring r0 a b \<and> 0 \<le> a \<and> a \<le> r0 \<and> 0 \<le> b \<and> b \<le> r0) \<and>
     (\<forall>k\<in>{x + 1..r - 1}. (\<exists>b. (k, b) \<in> set steps) \<or> (\<exists>a. (a, k) \<in> set steps))"
proof (induction "nat (r - x)" arbitrary: x p r rule: less_induct)
  case less
  show ?case
  proof (cases "x < r")
    case False
    then show ?thesis by (intro exI [of _ "[]"]) (subst circle_loop.simps, simp)
  next
    case True
    define q where "q = (if p \<ge> 0 then p - (2 * r - 2) + (2 * x + 3) else p + (2 * x + 3))"
    define r' where "r' = (if p \<ge> 0 then r - 1 else r)"
    have inv: "circle_inv r0 (x + 1) q r'"
      using circle_inv_step [OF less.prems True] by (simp add: q_def r'_def)
    have "nat (r' - (x + 1)) < nat (r - x)" using True by (simp add: r'_def)
    then obtain steps where st:
      "\<And>draw. circle_loop draw (x + 1) (2 * (x + 1) + 1) (2 * r') q r' = concat (map (\<lambda>(a, b). draw a b) steps)"
      "\<forall>(a, b)\<in>set steps. on_ring r0 a b \<and> 0 \<le> a \<and> a \<le> r0 \<and> 0 \<le> b \<and> b \<le> r0"
      "\<forall>k\<in>{x + 1 + 1..r' - 1}. (\<exists>b. (k, b) \<in> set steps) \<or> (\<exists>a. (a, k) \<in> set steps)"
      using less.hyps [OF _ inv] by blast
    let ?steps = "(x + 1, r') # steps"
    have loop: "circle_loop draw x (2 * x + 1) (2 * r) p r = draw (x + 1) r' @ circle_loop draw (x + 1) (2 * (x + 1) + 1) (2 * r') q r'"
      for draw
    proof -
      have e: "2 * (x + 1) + 1 = 2 * x + 1 + 2" "2 * x + 3 = 2 * x + 1 + 2" "2 * (r - 1) = 2 * r - 2" by auto
      show ?thesis using True
        by (subst circle_loop.simps) (simp only: q_def r'_def e Let_def if_True prod.case if_distrib [of "\<lambda>z. 2 * z"]
          split: if_split, simp)
    qed
    have "\<forall>draw. circle_loop draw x (2 * x + 1) (2 * r) p r = concat (map (\<lambda>(a, b). draw a b) ?steps)"
      unfolding loop st(1) by simp
    moreover have "\<forall>(a, b)\<in>set ?steps. on_ring r0 a b \<and> 0 \<le> a \<and> a \<le> r0 \<and> 0 \<le> b \<and> b \<le> r0"
      using st(2) circle_inv_ring [OF inv] inv by (simp add: circle_inv_def)
    moreover have "\<forall>k\<in>{x + 1..r - 1}. (\<exists>b. (k, b) \<in> set ?steps) \<or> (\<exists>a. (a, k) \<in> set ?steps)"
    proof
      fix k assume k: "k \<in> {x + 1..r - 1}"
      show "(\<exists>b. (k, b) \<in> set ?steps) \<or> (\<exists>a. (a, k) \<in> set ?steps)"
      proof (cases "k = x + 1 \<or> k = r'")
        case False
        then have "k \<in> {x + 1 + 1..r' - 1}" using k by (auto simp: r'_def split: if_splits)
        with st(3) show ?thesis by auto
      qed auto
    qed
    ultimately show ?thesis by blast
  qed
qed

text \<open>The steps of a whole circle.\<close>

lemma circle_steps:
  assumes "1 \<le> r0"
  obtains steps where
    "\<And>draw. circle_loop draw 0 1 (r0 + r0) (- (drop_bit 1 r0)) r0 = concat (map (\<lambda>(a, b). draw a b) steps)"
    "\<And>a b. (a, b) \<in> set steps \<Longrightarrow> on_ring r0 a b \<and> 0 \<le> a \<and> a \<le> r0 \<and> 0 \<le> b \<and> b \<le> r0"
    "\<And>k. 1 \<le> k \<Longrightarrow> k < r0 \<Longrightarrow> (\<exists>b. (k, b) \<in> set steps) \<or> (\<exists>a. (a, k) \<in> set steps)"
proof -
  have "circle_inv r0 0 (- (r0 div 2)) r0" using assms by (simp add: circle_inv_def)
  from circle_loop_steps [OF this] obtain steps where
    "\<forall>draw. circle_loop draw 0 (2 * 0 + 1) (2 * r0) (- (r0 div 2)) r0 = concat (map (\<lambda>(a, b). draw a b) steps)"
    "\<forall>(a, b)\<in>set steps. on_ring r0 a b \<and> 0 \<le> a \<and> a \<le> r0 \<and> 0 \<le> b \<and> b \<le> r0"
    "\<forall>k\<in>{0 + 1..r0 - 1}. (\<exists>b. (k, b) \<in> set steps) \<or> (\<exists>a. (a, k) \<in> set steps)" by blast
  then show ?thesis by (intro that [of steps]) (auto simp: drop_bit_eq_div)
qed

text \<open>
  The outline of a circle: a ring of points, symmetric about its centre, its axes and its diagonals, with
  a point in every column that the circle spans.
\<close>

definition circle_outline :: "int \<Rightarrow> int \<Rightarrow> int \<Rightarrow> (int \<times> int) set \<Rightarrow> bool" where
  "circle_outline x0 y0 r S \<longleftrightarrow>
     (\<forall>(x, y)\<in>S. on_ring r (x - x0) (y - y0)) \<and>
     (\<forall>(x, y)\<in>S. (2 * x0 - x, y) \<in> S \<and> (x, 2 * y0 - y) \<in> S \<and> (x0 + (y - y0), y0 + (x - x0)) \<in> S) \<and>
     (\<forall>k. \<bar>k\<bar> \<le> r \<longrightarrow> (\<exists>y. (x0 + k, y) \<in> S))"

text \<open>The points of a step and of its reflections.\<close>

definition octants :: "int \<Rightarrow> int \<Rightarrow> int \<Rightarrow> int \<Rightarrow> (int \<times> int) set" where
  "octants x0 y0 a b = {(x, y). \<bar>x - x0\<bar> = a \<and> \<bar>y - y0\<bar> = b \<or> \<bar>x - x0\<bar> = b \<and> \<bar>y - y0\<bar> = a}"

lemma octants_points:
  assumes "0 \<le> a" "0 \<le> b"
  shows "octants x0 y0 a b = {(x0 + a, y0 + b), (x0 - a, y0 + b), (x0 - a, y0 - b), (x0 + a, y0 - b),
    (x0 + b, y0 + a), (x0 - b, y0 + a), (x0 - b, y0 - a), (x0 + b, y0 - a)}"
proof -
  have "\<bar>x - x0\<bar> = a \<longleftrightarrow> x = x0 + a \<or> x = x0 - a" "\<bar>x - x0\<bar> = b \<longleftrightarrow> x = x0 + b \<or> x = x0 - b"
    "\<bar>y - y0\<bar> = a \<longleftrightarrow> y = y0 + a \<or> y = y0 - a" "\<bar>y - y0\<bar> = b \<longleftrightarrow> y = y0 + b \<or> y = y0 - b" for x y
    using assms by linarith+
  then show ?thesis by (auto simp: octants_def)
qed

lemma on_ring_abs: "on_ring r \<bar>x\<bar> \<bar>y\<bar> \<longleftrightarrow> on_ring r x y" "on_ring r y x \<longleftrightarrow> on_ring r x y"
  by (auto simp: on_ring_def add.commute)

lemma octants_ring:
  assumes "(x, y) \<in> octants x0 y0 a b" "on_ring r a b"
  shows "on_ring r (x - x0) (y - y0)"
  using assms on_ring_abs(1) [of r "x - x0" "y - y0"] on_ring_abs(2) [of r a b] by (auto simp: octants_def)

lemma octants_reflect:
  "(x, y) \<in> octants x0 y0 a b \<Longrightarrow> (2 * x0 - x, y) \<in> octants x0 y0 a b"
  "(x, y) \<in> octants x0 y0 a b \<Longrightarrow> (x, 2 * y0 - y) \<in> octants x0 y0 a b"
  "(x, y) \<in> octants x0 y0 a b \<Longrightarrow> (x0 + (y - y0), y0 + (x - x0)) \<in> octants x0 y0 a b"
  by (auto simp: octants_def abs_if split: if_splits)

lemma outline_octants:
  assumes "\<forall>(a, b)\<in>T. on_ring r a b"
    and "\<And>k. 0 \<le> k \<Longrightarrow> k \<le> r \<Longrightarrow> (\<exists>b. (k, b) \<in> T) \<or> (\<exists>a. (a, k) \<in> T)"
    and nonneg: "\<forall>(a, b)\<in>T. 0 \<le> a \<and> 0 \<le> b"
  shows "circle_outline x0 y0 r (\<Union>(a, b)\<in>T. octants x0 y0 a b)"
proof -
  have "\<exists>y. (x0 + k, y) \<in> (\<Union>(a, b)\<in>T. octants x0 y0 a b)" if k: "\<bar>k\<bar> \<le> r" for k
  proof -
    from k assms(2) [of "\<bar>k\<bar>"] consider b where "(\<bar>k\<bar>, b) \<in> T" | a where "(a, \<bar>k\<bar>) \<in> T" by auto
    then obtain a b where ab: "(a, b) \<in> T" "a = \<bar>k\<bar> \<and> 0 \<le> b \<or> b = \<bar>k\<bar> \<and> 0 \<le> a" using nonneg by cases force+
    then show ?thesis
      by (intro exI [of _ "if a = \<bar>k\<bar> then y0 + b else y0 + a"] UN_I [OF ab(1)]) (auto simp: octants_def nonneg)
  qed
  then show ?thesis
    using assms(1) octants_ring octants_reflect by (fastforce simp: circle_outline_def)
qed

lemma drawCircle_points:
  assumes "0 \<le> r0"
    and steps: "\<And>draw. circle_loop draw 0 1 (r0 + r0) (- (drop_bit 1 r0)) r0 = concat (map (\<lambda>(a, b). draw a b) steps)"
    and pos: "\<And>a b. (a, b) \<in> set steps \<Longrightarrow> 0 \<le> a \<and> 0 \<le> b"
  shows "set (points (drawCircle x0 y0 r0 color)) = (\<Union>(a, b)\<in>insert (0, r0) (set steps). octants x0 y0 a b)"
proof -
  have "set (points (concat (map (\<lambda>(a, b).
      [Pixel (x0 + a) (y0 + b) color, Pixel (x0 - a) (y0 + b) color,
          Pixel (x0 - a) (y0 - b) color, Pixel (x0 + a) (y0 - b) color,
          Pixel (x0 + b) (y0 + a) color, Pixel (x0 - b) (y0 + a) color,
          Pixel (x0 - b) (y0 - a) color, Pixel (x0 + b) (y0 - a) color]) ss)))
    = (\<Union>(a, b)\<in>set ss. octants x0 y0 a b)" if "\<And>a b. (a, b) \<in> set ss \<Longrightarrow> 0 \<le> a \<and> 0 \<le> b" for ss
    using that
  proof (induction ss)
    case (Cons s ss)
    obtain a b where s: "s = (a, b)" by force
    have "octants x0 y0 a b = {(x0 + a, y0 + b), (x0 - a, y0 + b), (x0 - a, y0 - b), (x0 + a, y0 - b),
        (x0 + b, y0 + a), (x0 - b, y0 + a), (x0 - b, y0 - a), (x0 + b, y0 - a)}"
      using Cons.prems [of a b] by (intro octants_points) (auto simp: s)
    moreover have "(\<Union>(a, b)\<in>set (s # ss). octants x0 y0 a b) = octants x0 y0 a b \<union> (\<Union>(a, b)\<in>set ss. octants x0 y0 a b)"
      by (simp add: s)
    ultimately show ?case using Cons.IH [OF Cons.prems [OF list.set_intros(2)]] by (simp add: s)
  qed simp
  from this [of steps] pos have *: "set (points (circle_loop (\<lambda>x r.
         [Pixel (x0 + x) (y0 + r) color, Pixel (x0 - x) (y0 + r) color,
          Pixel (x0 - x) (y0 - r) color, Pixel (x0 + x) (y0 - r) color,
          Pixel (x0 + r) (y0 + x) color, Pixel (x0 - r) (y0 + x) color,
          Pixel (x0 - r) (y0 - x) color, Pixel (x0 + r) (y0 - x) color])
         0 1 (r0 + r0) (- (drop_bit 1 r0)) r0)) = (\<Union>(a, b)\<in>set steps. octants x0 y0 a b)"
    unfolding steps by blast
  have "octants x0 y0 0 r0 = {(x0 + r0, y0), (x0 - r0, y0), (x0, y0 - r0), (x0, y0 + r0)}"
    using assms(1) by (auto simp: octants_points)
  then show ?thesis unfolding drawCircle_def points_simps set_append * by auto
qed

text \<open>
  A circle of radius one or more that lies on the screen is drawn as a closed ring: every painted
  pixel is at most one away from the radius, the set is symmetric about the centre and reaches every
  column from one side of the circle to the other, and no other pixel changes.
\<close>

theorem drawCircle_paints:
  assumes t: "coherent t p" and res: "run_calls (drawCircle x0 y0 r color) t = (t', ws)" and r: "1 \<le> r"
    and on: "r \<le> x0" "x0 + r < uint (tft_width t)" "r \<le> y0" "y0 + r < uint (tft_height t)"
  shows "\<exists>S. circle_outline x0 y0 r S \<and> painted {(a, b). (int a, int b) \<in> S} (ucast color) p (display ws p)
    \<and> driven t t' (display ws p)"
proof -
  from circle_steps [OF r] obtain steps where st:
    "\<And>draw. circle_loop draw 0 1 (r + r) (- (drop_bit 1 r)) r = concat (map (\<lambda>(a, b). draw a b) steps)"
    "\<And>a b. (a, b) \<in> set steps \<Longrightarrow> on_ring r a b \<and> 0 \<le> a \<and> a \<le> r \<and> 0 \<le> b \<and> b \<le> r"
    "\<And>k. 1 \<le> k \<Longrightarrow> k < r \<Longrightarrow> (\<exists>b. (k, b) \<in> set steps) \<or> (\<exists>a. (a, k) \<in> set steps)" by metis
  let ?ks = "drawCircle x0 y0 r color" and ?T = "insert (0, r) (set steps)"
  have pts: "set (points ?ks) = (\<Union>(a, b)\<in>?T. octants x0 y0 a b)"
    using r st(2) by (intro drawCircle_points st(1)) auto
  have T: "on_ring r a b \<and> 0 \<le> a \<and> a \<le> r \<and> 0 \<le> b \<and> b \<le> r" if "(a, b) \<in> ?T" for a b
    using that st(2) r by (auto simp: on_ring_def power2_eq_square algebra_simps)
  have "(\<exists>b. (k, b) \<in> ?T) \<or> (\<exists>a. (a, k) \<in> ?T)" if "0 \<le> k" "k \<le> r" for k
    using st(3) [of k] that by (cases "k = 0 \<or> k = r") auto
  then have "circle_outline x0 y0 r (set (points ?ks))"
    unfolding pts using T by (intro outline_octants) auto
  moreover have "0 \<le> x \<and> x < uint (tft_width t) \<and> 0 \<le> y \<and> y < uint (tft_height t)" if xy: "(x, y) \<in> set (points ?ks)" for x y
  proof -
    obtain a b where ab: "(a, b) \<in> ?T" "(x, y) \<in> octants x0 y0 a b" using xy unfolding pts by auto
    have "\<bar>x - x0\<bar> \<le> r" "\<bar>y - y0\<bar> \<le> r" using T [OF ab(1)] ab(2) by (auto simp: octants_def)
    then show ?thesis using on by (simp add: abs_le_iff)
  qed
  moreover have "\<forall>k\<in>set ?ks. proper k \<and> call_color k = color"
    unfolding drawCircle_def st(1) by auto
  ultimately show ?thesis using shape_paints [OF t res] by blast
qed

theorem drawCircle_paints_witness:
  "\<exists>S. circle_outline 160 120 40 S \<and> painted {(a, b). (int a, int b) \<in> S} 0x07E0 blank_panel
      (display (snd (run_calls (drawCircle 160 120 40 0x07E0) fresh_tft)) blank_panel)"
  using drawCircle_paints [OF fresh_coherent, where ?x0.0 = 160 and ?y0.0 = 120 and r = 40 and color = "0x07E0"
      and t' = "fst (run_calls (drawCircle 160 120 40 0x07E0) fresh_tft)"
      and ws = "snd (run_calls (drawCircle 160 120 40 0x07E0) fresh_tft)"]
  by (auto simp: fresh_tft_def)

text \<open>A filled circle: all of the disc one smaller, nothing outside the disc one larger.\<close>

definition disc :: "int \<Rightarrow> int \<Rightarrow> int \<Rightarrow> (int \<times> int) set \<Rightarrow> bool" where
  "disc x0 y0 r S \<longleftrightarrow>
     (\<forall>x y. (x - x0)\<^sup>2 + (y - y0)\<^sup>2 \<le> (r - 1)\<^sup>2 \<longrightarrow> (x, y) \<in> S) \<and>
     (\<forall>(x, y)\<in>S. (x - x0)\<^sup>2 + (y - y0)\<^sup>2 \<le> (r + 1)\<^sup>2)"

definition span :: "int \<Rightarrow> int \<Rightarrow> int \<Rightarrow> int \<Rightarrow> (int \<times> int) set" where
  "span x0 y0 w a = {(x, y). \<bar>x - x0\<bar> \<le> w \<and> \<bar>y - y0\<bar> = a}"

lemma span_points:
  assumes "0 \<le> a"
  shows "set (points [HLine (x0 - w) (y0 + a) (2 * w + 1) c, HLine (x0 - w) (y0 - a) (2 * w + 1) c]) = span x0 y0 w a"
  using assms by (auto simp: span_def image_iff)

lemma fillCircle_points:
  assumes "0 \<le> r0"
    and steps: "\<And>draw. circle_loop draw 0 1 (r0 + r0) (- (drop_bit 1 r0)) r0 = concat (map (\<lambda>(a, b). draw a b) steps)"
    and pos: "\<And>a b. (a, b) \<in> set steps \<Longrightarrow> 0 \<le> a \<and> 0 \<le> b"
  shows "set (points (fillCircle x0 y0 r0 color)) = span x0 y0 r0 0 \<union> (\<Union>(a, b)\<in>set steps. span x0 y0 b a \<union> span x0 y0 a b)"
proof -
  have "set (points (concat (map (\<lambda>(a, b).
      [HLine (x0 - b) (y0 + a) (2 * b + 1) color, HLine (x0 - b) (y0 - a) (2 * b + 1) color,
       HLine (x0 - a) (y0 + b) (2 * a + 1) color, HLine (x0 - a) (y0 - b) (2 * a + 1) color]) ss)))
    = (\<Union>(a, b)\<in>set ss. span x0 y0 b a \<union> span x0 y0 a b)" if "\<And>a b. (a, b) \<in> set ss \<Longrightarrow> 0 \<le> a \<and> 0 \<le> b" for ss
    using that
  proof (induction ss)
    case (Cons s ss)
    obtain a b where s: "s = (a, b)" by force
    have "0 \<le> a" "0 \<le> b" using Cons.prems [of a b] by (simp_all add: s)
    then have "set (points ([HLine (x0 - b) (y0 + a) (2 * b + 1) color, HLine (x0 - b) (y0 - a) (2 * b + 1) color] @
       [HLine (x0 - a) (y0 + b) (2 * a + 1) color, HLine (x0 - a) (y0 - b) (2 * a + 1) color]))
      = span x0 y0 b a \<union> span x0 y0 a b"
      by (simp only: points_simps(3) set_append span_points)
    then have "set (points [HLine (x0 - b) (y0 + a) (2 * b + 1) color, HLine (x0 - b) (y0 - a) (2 * b + 1) color,
       HLine (x0 - a) (y0 + b) (2 * a + 1) color, HLine (x0 - a) (y0 - b) (2 * a + 1) color])
      = span x0 y0 b a \<union> span x0 y0 a b" by (simp only: append.simps)
    then show ?case using Cons.IH [OF Cons.prems [OF list.set_intros(2)]]
      by (simp only: s list.map concat.simps prod.case points_simps set_append list.set UN_insert)
  qed simp
  from this [of steps] pos have *: "set (points (circle_loop (\<lambda>x r.
         [HLine (x0 - r) (y0 + x) (2 * r + 1) color, HLine (x0 - r) (y0 - x) (2 * r + 1) color,
          HLine (x0 - x) (y0 + r) (2 * x + 1) color, HLine (x0 - x) (y0 - r) (2 * x + 1) color])
         0 1 (r0 + r0) (- (drop_bit 1 r0)) r0)) = (\<Union>(a, b)\<in>set steps. span x0 y0 b a \<union> span x0 y0 a b)"
    unfolding steps by blast
  have "set (call_points (HLine (x0 - r0) y0 (r0 + r0 + 1) color)) = span x0 y0 r0 0"
    by (auto simp: span_def image_iff)
  then show ?thesis unfolding fillCircle_def points_simps set_append * by simp
qed

text \<open>Every point of the rows is on a row that ends on the ring, and the rows fill the disc.\<close>

lemma filled_outside:
  assumes "(x, y) \<in> span x0 y0 w a" "on_ring r w a" "0 \<le> w"
  shows "(x - x0)\<^sup>2 + (y - y0)\<^sup>2 \<le> (r + 1)\<^sup>2"
proof -
  have "\<bar>x - x0\<bar>\<^sup>2 \<le> w\<^sup>2" using assms by (intro power_mono) (auto simp: span_def)
  moreover have "(y - y0)\<^sup>2 = a\<^sup>2" using assms(1) by (auto simp: span_def)
  ultimately show ?thesis using assms(2) by (simp add: on_ring_def)
qed

lemma filled_inside:
  assumes d: "(x - x0)\<^sup>2 + (y - y0)\<^sup>2 \<le> (r - 1)\<^sup>2" and w: "on_ring r w \<bar>y - y0\<bar>" "0 \<le> w"
  shows "(x, y) \<in> span x0 y0 w \<bar>y - y0\<bar>"
proof -
  have "\<bar>x - x0\<bar>\<^sup>2 \<le> w\<^sup>2" using w(1) d by (simp add: on_ring_def)
  then show ?thesis using power2_le_imp_le [of "\<bar>x - x0\<bar>" w] w(2) by (simp add: span_def)
qed

lemma disc_rows:
  fixes x y x0 y0 r :: int
  assumes "(x - x0)\<^sup>2 + (y - y0)\<^sup>2 \<le> (r - 1)\<^sup>2" "1 \<le> r"
  shows "\<bar>y - y0\<bar> < (r :: int)"
proof -
  have "(y - y0)\<^sup>2 \<le> (r - 1)\<^sup>2" using assms(1) zero_le_power2 [of "x - x0"] by linarith
  then have "\<bar>y - y0\<bar>\<^sup>2 \<le> (r - 1)\<^sup>2" by (simp only: power2_abs)
  then show ?thesis using power2_le_imp_le [of "\<bar>y - y0\<bar>" "r - 1"] assms(2) by simp
qed

lemma fillCircle_rows:
  assumes r: "1 \<le> r"
  obtains T where "set (points (fillCircle x0 y0 r color)) = (\<Union>(w, a)\<in>T. span x0 y0 w a)"
    "\<And>w a. (w, a) \<in> T \<Longrightarrow> on_ring r w a \<and> 0 \<le> w \<and> w \<le> r \<and> 0 \<le> a \<and> a \<le> r"
    "\<And>k. 0 \<le> k \<Longrightarrow> k < r \<Longrightarrow> \<exists>w. (w, k) \<in> T"
    "\<forall>k\<in>set (fillCircle x0 y0 r color). proper k \<and> call_color k = color"
proof -
  from circle_steps [OF r] obtain steps where st:
    "\<And>draw. circle_loop draw 0 1 (r + r) (- (drop_bit 1 r)) r = concat (map (\<lambda>(a, b). draw a b) steps)"
    "\<And>a b. (a, b) \<in> set steps \<Longrightarrow> on_ring r a b \<and> 0 \<le> a \<and> a \<le> r \<and> 0 \<le> b \<and> b \<le> r"
    "\<And>k. 1 \<le> k \<Longrightarrow> k < r \<Longrightarrow> (\<exists>b. (k, b) \<in> set steps) \<or> (\<exists>a. (a, k) \<in> set steps)" by metis
  let ?T = "insert (r, 0) (set steps \<union> prod.swap ` set steps)"
  have "set (points (fillCircle x0 y0 r color)) = span x0 y0 r 0 \<union> (\<Union>(a, b)\<in>set steps. span x0 y0 b a \<union> span x0 y0 a b)"
    using r st(2) by (intro fillCircle_points st(1)) auto
  also have "\<dots> = (\<Union>(w, a)\<in>?T. span x0 y0 w a)" by auto
  finally have pts: "set (points (fillCircle x0 y0 r color)) = (\<Union>(w, a)\<in>?T. span x0 y0 w a)" .
  have "on_ring r r 0" using r by (simp add: on_ring_def power2_eq_square algebra_simps)
  then have ring: "on_ring r w a \<and> 0 \<le> w \<and> w \<le> r \<and> 0 \<le> a \<and> a \<le> r" if "(w, a) \<in> ?T" for w a
    using that st(2) [of w a] st(2) [of a w] on_ring_abs(2) [of r a w] r by auto
  have rows: "\<exists>w. (w, k) \<in> ?T" if k: "0 \<le> k" "k < r" for k
  proof (cases "k = 0")
    case False
    then consider b where "(k, b) \<in> set steps" | a where "(a, k) \<in> set steps" using st(3) [of k] k by auto
    then show ?thesis
    proof cases
      case (1 b)
      then have "prod.swap (k, b) \<in> prod.swap ` set steps" by (rule imageI)
      then show ?thesis by auto
    qed auto
  qed auto
  have "\<forall>k\<in>set (fillCircle x0 y0 r color). proper k \<and> call_color k = color"
    unfolding fillCircle_def st(1) using st(2) r by auto
  from that [OF pts ring rows this] show ?thesis .
qed

lemma fillCircle_disc:
  assumes "1 \<le> r"
  shows "disc x0 y0 r (set (points (fillCircle x0 y0 r color))) \<and>
    (\<forall>(x, y)\<in>set (points (fillCircle x0 y0 r color)). \<bar>x - x0\<bar> \<le> r \<and> \<bar>y - y0\<bar> \<le> r) \<and>
    (\<forall>k\<in>set (fillCircle x0 y0 r color). proper k \<and> call_color k = color)"
proof -
  obtain T where T: "set (points (fillCircle x0 y0 r color)) = (\<Union>(w, a)\<in>T. span x0 y0 w a)"
    "\<And>w a. (w, a) \<in> T \<Longrightarrow> on_ring r w a \<and> 0 \<le> w \<and> w \<le> r \<and> 0 \<le> a \<and> a \<le> r"
    "\<And>k. 0 \<le> k \<Longrightarrow> k < r \<Longrightarrow> \<exists>w. (w, k) \<in> T"
    "\<forall>k\<in>set (fillCircle x0 y0 r color). proper k \<and> call_color k = color"
    using fillCircle_rows [OF assms, of x0 y0 color] by blast
  have "(x, y) \<in> set (points (fillCircle x0 y0 r color))" if d: "(x - x0)\<^sup>2 + (y - y0)\<^sup>2 \<le> (r - 1)\<^sup>2" for x y
  proof -
    obtain w where w: "(w, \<bar>y - y0\<bar>) \<in> T" using T(3) [of "\<bar>y - y0\<bar>"] disc_rows [OF d assms] by auto
    then have "(x, y) \<in> span x0 y0 w \<bar>y - y0\<bar>" using filled_inside [OF d] T(2) by blast
    then show ?thesis unfolding T(1) using w by blast
  qed
  moreover have "(x - x0)\<^sup>2 + (y - y0)\<^sup>2 \<le> (r + 1)\<^sup>2 \<and> \<bar>x - x0\<bar> \<le> r \<and> \<bar>y - y0\<bar> \<le> r"
    if xy: "(x, y) \<in> set (points (fillCircle x0 y0 r color))" for x y
  proof -
    obtain w a where wa: "(w, a) \<in> T" "(x, y) \<in> span x0 y0 w a" using xy unfolding T(1) by blast
    then show ?thesis using filled_outside [OF wa(2)] T(2) [OF wa(1)] by (auto simp: span_def)
  qed
  ultimately show ?thesis using T(4) by (auto simp: disc_def)
qed

text \<open>
  C35.  A filled circle of radius one or more that lies on the screen paints a disc without holes: every
  pixel whose distance from the centre is at most the radius less one, and none whose distance is more
  than the radius and one.
\<close>

theorem fillCircle_paints:
  assumes t: "coherent t p" and res: "run_calls (fillCircle x0 y0 r color) t = (t', ws)" and r: "1 \<le> r"
    and on: "r \<le> x0" "x0 + r < uint (tft_width t)" "r \<le> y0" "y0 + r < uint (tft_height t)"
  shows "\<exists>S. disc x0 y0 r S \<and> painted {(a, b). (int a, int b) \<in> S} (ucast color) p (display ws p)
    \<and> driven t t' (display ws p)"
proof -
  let ?ks = "fillCircle x0 y0 r color"
  have d: "disc x0 y0 r (set (points ?ks))" and calls: "\<forall>k\<in>set ?ks. proper k \<and> call_color k = color"
    and near: "\<forall>(x, y)\<in>set (points ?ks). \<bar>x - x0\<bar> \<le> r \<and> \<bar>y - y0\<bar> \<le> r"
    using fillCircle_disc [OF r, of x0 y0 color] by auto
  have "0 \<le> x \<and> x < uint (tft_width t) \<and> 0 \<le> y \<and> y < uint (tft_height t)" if "(x, y) \<in> set (points ?ks)" for x y
    using bspec [OF near that] on by (auto simp: abs_le_iff)
  from shape_paints [OF t res calls this] show ?thesis using d by blast
qed

theorem fillCircle_paints_witness:
  "\<exists>S. disc 160 120 40 S \<and> painted {(a, b). (int a, int b) \<in> S} 0x07E0 blank_panel
      (display (snd (run_calls (fillCircle 160 120 40 0x07E0) fresh_tft)) blank_panel)"
  using fillCircle_paints [OF fresh_coherent, where ?x0.0 = 160 and ?y0.0 = 120 and r = 40 and color = "0x07E0"
      and t' = "fst (run_calls (fillCircle 160 120 40 0x07E0) fresh_tft)"
      and ws = "snd (run_calls (fillCircle 160 120 40 0x07E0) fresh_tft)"]
  by (auto simp: fresh_tft_def)

end
