(* ===== verification/TftImage.thy ===== *)
theory TftImage
  imports TftShapes
begin

text \<open>
  The images of \<open>components/m5stack/src/utility/In_eSPI.cpp\<close>: the routines \<open>pushImage\<close> for 16-bit, 8-bit and
  1-bit images, in memory and in flash, with and without a transparent colour.  An image is the array the
  caller passes, row by row, and an index into it; the object's \<open>_swapBytes\<close> and bitmap colours are arguments.
  \<open>SPI.writePixels\<close> sends each half word high byte first, \<open>SPI.writeBytes\<close> sends the memory as it is,
  which on this little-endian machine is the low byte first.
\<close>

section \<open>Sending pixels\<close>

definition bswap16 :: "u16 \<Rightarrow> u16" where
  "bswap16 c = drop_bit 8 c OR push_bit 8 c"

definition pushColors :: "u16 list \<Rightarrow> bool \<Rightarrow> wire list" where
  "pushColors data swap = [Pixels (if swap then data else map bswap16 data)]"

definition pushColor :: "u16 \<Rightarrow> nat \<Rightarrow> wire list" where
  "pushColor color n = writeBlock color (word_of_nat n)"

section \<open>Cropping\<close>

text \<open>
  The window on the screen (corner, width and height) and the first column and row of the image in it, or
  nothing.  The sums with the unsigned sizes are unsigned.
\<close>

definition crop :: "int \<Rightarrow> int \<Rightarrow> u32 \<Rightarrow> u32 \<Rightarrow> Tft \<Rightarrow> (int \<times> int \<times> int \<times> int \<times> int \<times> int) option" where
  "crop x y w h t =
     (if x \<ge> sint (tft_width t) \<or> y \<ge> sint (tft_height t) then None
      else
        let (dw, dx, x) = (if x < 0 then (sint w + x, - x, 0) else (sint w, 0, x));
            (dh, dy, y) = (if y < 0 then (sint h + y, - y, 0) else (sint h, 0, y));
            dw = (if u32_of x + w > tft_width t then sint (tft_width t - u32_of x) else dw);
            dh = (if u32_of y + h > tft_height t then sint (tft_height t - u32_of y) else dh)
        in if dw < 1 \<or> dh < 1 then None else Some (x, y, dx, dy, dw, dh))"

definition image_start :: "int \<Rightarrow> int \<Rightarrow> u32 \<Rightarrow> nat" where
  "image_start dx dy w = unat (u32_of dx + u32_of dy * w)"

section \<open>16-bit images\<close>

fun push_rows :: "u16 list \<Rightarrow> nat \<Rightarrow> u32 \<Rightarrow> nat \<Rightarrow> bool \<Rightarrow> nat \<Rightarrow> wire list option" where
  "push_rows data off w dw swap 0 = Some []"
| "push_rows data off w dw swap (Suc dh) =
     do {
       row \<leftarrow> mem_read data off dw;
       ws \<leftarrow> push_rows data (off + unat w) w dw swap dh;
       Some (pushColors row swap @ ws)
     }"

definition pushImage :: "bool \<Rightarrow> int \<Rightarrow> int \<Rightarrow> u32 \<Rightarrow> u32 \<Rightarrow> u16 list \<Rightarrow> Tft \<Rightarrow> (Tft \<times> wire list) option" where
  "pushImage swapBytes x y w h data t =
     (case crop x y w h t of
        None \<Rightarrow> Some (t, [])
      | Some (x, y, dx, dy, dw, dh) \<Rightarrow>
          let (t, ws) = setAddrWindow x y (x + dw - 1) (y + dh - 1) t
          in do { ws' \<leftarrow> push_rows data (image_start dx dy w) w (nat dw) swapBytes (nat dh); Some (t, ws @ ws') })"

definition pushRect :: "bool \<Rightarrow> int \<Rightarrow> int \<Rightarrow> u32 \<Rightarrow> u32 \<Rightarrow> u16 list \<Rightarrow> Tft \<Rightarrow> (Tft \<times> wire list) option" where
  "pushRect swapBytes x y w h data t = pushImage swapBytes x y w h data t"

text \<open>
  One line with a transparent colour: \<open>px\<close> is the column, \<open>move\<close> says that the next pixel needs a window
  and \<open>buf\<close> is the part of \<open>lineBuf\<close> in use.
\<close>

fun transp_line :: "bool \<Rightarrow> u16 \<Rightarrow> int \<Rightarrow> int \<Rightarrow> int \<Rightarrow> u16 list \<Rightarrow> int \<Rightarrow> bool \<Rightarrow> u16 list \<Rightarrow> Tft \<Rightarrow> Tft \<times> wire list" where
  "transp_line swap tcol xe y ye [] px move buf t = (t, if buf \<noteq> [] then pushColors buf swap else [])"
| "transp_line swap tcol xe y ye (c # cs) px move buf t =
     (if tcol \<noteq> c then
        let (t, ws) = (if move then setAddrWindow px y xe ye t else (t, []));
            (t, ws') = transp_line swap tcol xe y ye cs (px + 1) False (buf @ [c]) t
        in (t, ws @ ws')
      else
        let ws = (if buf \<noteq> [] then pushColors buf swap else []);
            (t, ws') = transp_line swap tcol xe y ye cs (px + 1) True [] t
        in (t, ws @ ws'))"

fun transp_rows :: "bool \<Rightarrow> u16 \<Rightarrow> int \<Rightarrow> int \<Rightarrow> u16 list \<Rightarrow> nat \<Rightarrow> u32 \<Rightarrow> nat \<Rightarrow> int \<Rightarrow> int \<Rightarrow> nat \<Rightarrow> Tft \<Rightarrow> (Tft \<times> wire list) option" where
  "transp_rows swap tcol xe ye data off w dw x y 0 t = Some (t, [])"
| "transp_rows swap tcol xe ye data off w dw x y (Suc dh) t =
     do {
       row \<leftarrow> mem_read data off dw;
       let (t, ws) = transp_line swap tcol xe y ye row x True [] t;
       (t, ws') \<leftarrow> transp_rows swap tcol xe ye data (off + unat w) w dw x (y + 1) dh t;
       Some (t, ws @ ws')
     }"

definition pushImage_transp :: "bool \<Rightarrow> int \<Rightarrow> int \<Rightarrow> u32 \<Rightarrow> u32 \<Rightarrow> u16 list \<Rightarrow> u16 \<Rightarrow> Tft \<Rightarrow> (Tft \<times> wire list) option" where
  "pushImage_transp swapBytes x y w h data tcol t =
     (case crop x y w h t of
        None \<Rightarrow> Some (t, [])
      | Some (x, y, dx, dy, dw, dh) \<Rightarrow>
          transp_rows swapBytes (if \<not> swapBytes then bswap16 tcol else tcol) (x + dw - 1) (y + dh - 1)
            data (image_start dx dy w) w (nat dw) x y (nat dh) t)"

section \<open>Images in flash\<close>

text \<open>The number of whole buffers is a \<open>uint16_t\<close>.\<close>

definition pushImage_flash :: "bool \<Rightarrow> int \<Rightarrow> int \<Rightarrow> u32 \<Rightarrow> u32 \<Rightarrow> u16 list \<Rightarrow> Tft \<Rightarrow> (Tft \<times> wire list) option" where
  "pushImage_flash swapBytes x y w h data t =
     (case crop x y w h t of
        None \<Rightarrow> Some (t, [])
      | Some (x, y, dx, dy, dw, dh) \<Rightarrow>
          let off = image_start dx dy w;
              (t, ws) = setAddrWindow x y (x + dw - 1) (y + dh - 1) t;
              nb = nat (dw * dh) div 64 mod 2 ^ 16;
              np = nat (dw * dh) mod 64
          in do {
            blocks \<leftarrow> those (map (\<lambda>i. mem_read data (off + i * 64) 64) [0..<nb]);
            rest \<leftarrow> (if np \<noteq> 0 then mem_read data (off + nb * 64) np else Some []);
            Some (t, ws @ concat (map (\<lambda>b. pushColors b (\<not> swapBytes)) blocks) @
              (if np \<noteq> 0 then pushColors rest (\<not> swapBytes) else []))
          })"

definition pushImage_flash_transp :: "bool \<Rightarrow> int \<Rightarrow> int \<Rightarrow> u32 \<Rightarrow> u32 \<Rightarrow> u16 list \<Rightarrow> u16 \<Rightarrow> Tft \<Rightarrow> (Tft \<times> wire list) option" where
  "pushImage_flash_transp swapBytes x y w h data tcol t =
     (case crop x y w h t of
        None \<Rightarrow> Some (t, [])
      | Some (x, y, dx, dy, dw, dh) \<Rightarrow>
          transp_rows (\<not> swapBytes) (if swapBytes then bswap16 tcol else tcol) (x + dw - 1) (y + dh - 1)
            data (image_start dx dy w) w (nat dw) x y (nat dh) t)"

section \<open>8-bit images\<close>

text \<open>Two bytes in memory, as the half word they make.\<close>

definition le_pair :: "u8 \<Rightarrow> u8 \<Rightarrow> u16" where
  "le_pair b0 b1 = ucast b0 OR push_bit 8 (ucast b1)"

definition msb_of :: "u8 \<Rightarrow> u8" where
  "msb_of color = drop_bit 2 (color AND 0x1C) OR drop_bit 3 (color AND 0xC0) OR (color AND 0xE0)"

definition lsb_of :: "u8 \<Rightarrow> u8" where
  "lsb_of color = (let blue = [0, 11, 21, 31] :: u8 list in push_bit 3 (color AND 0x1C) OR blue ! unat (color AND 0x03))"

text \<open>\<open>_lastColor\<close> and the bytes of the last colour: the conversion is skipped while the colour stays.\<close>

type_synonym cache = "int \<times> u8 \<times> u8"

definition convert :: "u8 \<Rightarrow> cache \<Rightarrow> cache" where
  "convert color st = (case st of (lastColor, msb, lsb) \<Rightarrow>
     if uint color \<noteq> lastColor then (uint color, msb_of color, lsb_of color) else (lastColor, msb, lsb))"

definition cached_pixel :: "cache \<Rightarrow> u16" where
  "cached_pixel st = (case st of (lastColor, msb, lsb) \<Rightarrow> le_pair msb lsb)"

fun convert_line :: "u8 list \<Rightarrow> cache \<Rightarrow> u16 list \<times> cache" where
  "convert_line [] st = ([], st)"
| "convert_line (c # cs) st =
     (let st = convert c st; (ps, st') = convert_line cs st in (cached_pixel st # ps, st'))"

fun push_rows8 :: "u8 list \<Rightarrow> nat \<Rightarrow> u32 \<Rightarrow> nat \<Rightarrow> nat \<Rightarrow> cache \<Rightarrow> wire list option" where
  "push_rows8 data off w dw 0 st = Some []"
| "push_rows8 data off w dw (Suc dh) st =
     do {
       row \<leftarrow> mem_read data off dw;
       let (ps, st) = convert_line row st;
       ws \<leftarrow> push_rows8 data (off + unat w) w dw dh st;
       Some (pushColors ps False @ ws)
     }"

fun transp_line8 :: "u8 \<Rightarrow> int \<Rightarrow> int \<Rightarrow> int \<Rightarrow> u8 list \<Rightarrow> int \<Rightarrow> bool \<Rightarrow> u16 list \<Rightarrow> cache \<Rightarrow> Tft \<Rightarrow> Tft \<times> wire list \<times> cache" where
  "transp_line8 tcol xe y ye [] px move buf st t = (t, if buf \<noteq> [] then pushColors buf False else [], st)"
| "transp_line8 tcol xe y ye (c # cs) px move buf st t =
     (if tcol \<noteq> c then
        let (t, ws) = (if move then setAddrWindow px y xe ye t else (t, []));
            st = convert c st;
            (t, ws', st) = transp_line8 tcol xe y ye cs (px + 1) False (buf @ [cached_pixel st]) st t
        in (t, ws @ ws', st)
      else
        let ws = (if buf \<noteq> [] then pushColors buf False else []);
            (t, ws', st) = transp_line8 tcol xe y ye cs (px + 1) True [] st t
        in (t, ws @ ws', st))"

fun transp_rows8 :: "u8 \<Rightarrow> int \<Rightarrow> int \<Rightarrow> u8 list \<Rightarrow> nat \<Rightarrow> u32 \<Rightarrow> nat \<Rightarrow> int \<Rightarrow> int \<Rightarrow> nat \<Rightarrow> cache \<Rightarrow> Tft \<Rightarrow> (Tft \<times> wire list) option" where
  "transp_rows8 tcol xe ye data off w dw x y 0 st t = Some (t, [])"
| "transp_rows8 tcol xe ye data off w dw x y (Suc dh) st t =
     do {
       row \<leftarrow> mem_read data off dw;
       let (t, ws, st) = transp_line8 tcol xe y ye row x True [] st t;
       (t, ws') \<leftarrow> transp_rows8 tcol xe ye data (off + unat w) w dw x (y + 1) dh st t;
       Some (t, ws @ ws')
     }"

section \<open>1-bit images\<close>

text \<open>Rows of a 1-bit image are padded to whole bytes.\<close>

definition padded :: "u32 \<Rightarrow> u32" where
  "padded w = (w + 7) AND 0xFFF8"

text \<open>
  One row, eight pixels at a time: \<open>b\<close> counts the bytes and \<open>len\<close> the pixels left.  \<open>index\<close> is the byte of
  column \<open>xp\<close> relative to \<open>ptr\<close>; its expression differs in the two routines.
\<close>

function bit_row :: "u8 list \<Rightarrow> (u32 \<Rightarrow> u32) \<Rightarrow> int \<Rightarrow> int \<Rightarrow> nat \<Rightarrow> bool list option" where
  "bit_row data index dx len b =
     (if len > 0 then
        let bits = (if len < 8 then nat len else 8)
        in do {
          ps \<leftarrow> those (map (\<lambda>i. let xp = u32_of dx + word_of_nat i
                   in map_option (\<lambda>byte. bit byte (7 - unat (xp AND 7))) (rd data (b + unat (index xp)))) [0..<bits]);
          rest \<leftarrow> bit_row data index dx (len - 8) (b + 1);
          Some (ps @ rest)
        }
      else Some [])"
  by pat_completeness auto
termination by (relation "measure (\<lambda>(_, _, _, len, _). nat len)") auto

declare bit_row.simps [simp del]

definition bit_pixel :: "u32 \<Rightarrow> u16" where
  "bit_pixel color = le_pair (ucast (drop_bit 8 color)) (ucast color)"

fun push_rows1 :: "u32 \<Rightarrow> u32 \<Rightarrow> u8 list \<Rightarrow> u32 \<Rightarrow> int \<Rightarrow> int \<Rightarrow> int \<Rightarrow> nat \<Rightarrow> wire list option" where
  "push_rows1 fg bg data w dx dy dw 0 = Some []"
| "push_rows1 fg bg data w dx dy dw (Suc dh) =
     do {
       let w = padded w;
       row \<leftarrow> bit_row data (\<lambda>xp. drop_bit 3 (xp + u32_of dy * w)) dx dw 0;
       ws \<leftarrow> push_rows1 fg bg data w dx (dy + 1) dw dh;
       Some (pushColors (map (\<lambda>b. if b then bit_pixel fg else bit_pixel bg) row) False @ ws)
     }"

fun transp_line1 :: "u16 \<Rightarrow> int \<Rightarrow> int \<Rightarrow> int \<Rightarrow> bool list \<Rightarrow> int \<Rightarrow> bool \<Rightarrow> nat \<Rightarrow> Tft \<Rightarrow> Tft \<times> wire list" where
  "transp_line1 fg xe y ye [] px move np t = (t, if np \<noteq> 0 then pushColor fg np else [])"
| "transp_line1 fg xe y ye (b # bs) px move np t =
     (if b then
        let (t, ws) = (if move then setAddrWindow px y xe ye t else (t, []));
            (t, ws') = transp_line1 fg xe y ye bs (px + 1) False (np + 1) t
        in (t, ws @ ws')
      else if np \<noteq> 0 then
        let (t, ws') = transp_line1 fg xe y ye bs (px + 1) True 0 t in (t, pushColor fg np @ ws')
      else transp_line1 fg xe y ye bs (px + 1) move np t)"

fun transp_rows1 :: "u16 \<Rightarrow> int \<Rightarrow> int \<Rightarrow> u8 list \<Rightarrow> u32 \<Rightarrow> int \<Rightarrow> int \<Rightarrow> int \<Rightarrow> int \<Rightarrow> int \<Rightarrow> nat \<Rightarrow> Tft \<Rightarrow> (Tft \<times> wire list) option" where
  "transp_rows1 fg xe ye data w dx dy dw x y 0 t = Some (t, [])"
| "transp_rows1 fg xe ye data w dx dy dw x y (Suc dh) t =
     do {
       row \<leftarrow> bit_row data (\<lambda>xp. drop_bit 3 xp + drop_bit 3 (u32_of dy * w)) dx dw 0;
       let (t, ws) = transp_line1 fg xe y ye row x True 0 t;
       (t, ws') \<leftarrow> transp_rows1 fg xe ye data w dx (dy + 1) dw x (y + 1) dh t;
       Some (t, ws @ ws')
     }"

text \<open>The two routines for images of bytes.\<close>

definition pushImage8 :: "u32 \<Rightarrow> u32 \<Rightarrow> int \<Rightarrow> int \<Rightarrow> u32 \<Rightarrow> u32 \<Rightarrow> u8 list \<Rightarrow> bool \<Rightarrow> Tft \<Rightarrow> (Tft \<times> wire list) option" where
  "pushImage8 fg bg x y w h data bpp8 t =
     (case crop x y w h t of
        None \<Rightarrow> Some (t, [])
      | Some (x, y, dx, dy, dw, dh) \<Rightarrow>
          let (t, ws) = setAddrWindow x y (x + dw - 1) (y + dh - 1) t
          in do {
            ws' \<leftarrow> (if bpp8 then push_rows8 data (image_start dx dy w) w (nat dw) (nat dh) (- 1, 0, 0)
                    else push_rows1 fg bg data w dx dy dw (nat dh));
            Some (t, ws @ ws')
          })"

definition pushImage8_transp :: "u32 \<Rightarrow> int \<Rightarrow> int \<Rightarrow> u32 \<Rightarrow> u32 \<Rightarrow> u8 list \<Rightarrow> u8 \<Rightarrow> bool \<Rightarrow> Tft \<Rightarrow> (Tft \<times> wire list) option" where
  "pushImage8_transp fg x y w h data tcol bpp8 t =
     (case crop x y w h t of
        None \<Rightarrow> Some (t, [])
      | Some (x, y, dx, dy, dw, dh) \<Rightarrow>
          if bpp8 then
            transp_rows8 tcol (x + dw - 1) (y + dh - 1) data (image_start dx dy w) w (nat dw) x y (nat dh) (- 1, 0, 0) t
          else transp_rows1 (ucast fg) (x + dw - 1) (y + dh - 1) data (padded w) dx dy dw x y (nat dh) t)"

end
