(* ===== verification/SpriteDraw.thy ===== *)
theory SpriteDraw
  imports TftImage
begin

text \<open>
  The sprites of \<open>components/m5stack/src/utility/Sprite.cpp\<close>: pictures in memory with sixteen, eight or one
  bit per pixel, which are drawn on with the routines of the display and then pushed to it.  The state is the
  object \<open>TFT_eSprite\<close>; the block that \<open>calloc\<close> returned is a list of cells, \<open>img\<close> for sixteen bits
  and \<open>img8\<close> for the others, and \<open>frame\<close> is the distance of \<open>_img8\<close> from its start.  A block that was
  freed or not allocated is the empty list, so every access to it, like every access outside a block, is
  \<open>None\<close>.  The \<open>int32_t\<close> values are integers, converted where the code mixes them with unsigned ones.
\<close>

section \<open>The object\<close>

record sprite =
  bpp :: u8
  created :: bool
  img :: "u16 list"
  img8 :: "u8 list"
  frame :: nat               \<comment> \<open>\<open>_img8 - _img8_1\<close>\<close>
  frame_2 :: nat             \<comment> \<open>\<open>_img8_2 - _img8_1\<close>\<close>
  iwidth :: int
  iheight :: int
  dwidth :: int
  dheight :: int
  bitwidth :: int
  rotation :: u8
  win_xs :: int
  win_ys :: int
  win_xe :: int
  win_ye :: int
  xptr :: int
  yptr :: int
  scroll_x :: int
  scroll_y :: int
  scroll_w :: u32
  scroll_h :: u32
  scroll_color :: u32
  iswapBytes :: bool

text \<open>The constructor works on raw memory: the fields that it does not set keep what was there.\<close>

definition TFT_eSprite :: "sprite \<Rightarrow> sprite" where
  "TFT_eSprite raw = raw\<lparr>iwidth := 0, iheight := 0, bpp := 16, iswapBytes := False, created := False,
     win_xs := 0, win_ys := 0, win_xe := 0, win_ye := 0, xptr := 0, yptr := 0, rotation := 0, img := [], img8 := []\<rparr>"

definition int16_of :: "int \<Rightarrow> int" where
  "int16_of i = sint (word_of_int i :: 16 word)"

text \<open>
  \<open>alloc n\<close> says whether the allocator has room for \<open>n\<close> bytes.  The flag that is returned says that the
  pointer is not \<open>NULL\<close>.
\<close>

definition createSprite :: "(nat \<Rightarrow> bool) \<Rightarrow> int \<Rightarrow> int \<Rightarrow> u8 \<Rightarrow> sprite \<Rightarrow> sprite \<times> bool" where
  "createSprite alloc w h frames s =
     (if created s then (s, True)
      else if w < 1 \<or> h < 1 then (s, False)
      else
        let s = s\<lparr>iwidth := w, dwidth := w, bitwidth := w, iheight := h, dheight := h,
                  scroll_x := 0, scroll_y := 0, scroll_w := u32_of w, scroll_h := u32_of h, scroll_color := 0\<rparr>;
            n = unat (u32_of (w * h + 1))
        in if bpp s = 16 then
             if alloc (n * 2) then (s\<lparr>img := replicate n 0, created := True\<rparr>, True) else (s\<lparr>img := []\<rparr>, False)
           else if bpp s = 8 then
             if alloc n then (s\<lparr>img8 := replicate n 0, frame := 0, frame_2 := 0, created := True\<rparr>, True)
             else (s\<lparr>img8 := []\<rparr>, False)
           else
             let w = int16_of ((w + 7) AND 0xFFF8);
                 s = s\<lparr>iwidth := w, bitwidth := w\<rparr>;
                 frames = (if frames > 2 then 2 else if frames < 1 then 1 else frames);
                 n = unat (u32_of (uint frames * drop_bit 3 w * h + uint frames))
             in if alloc n then (s\<lparr>img8 := replicate n 0, frame := 0, frame_2 := nat (drop_bit 3 w * h + 1), created := True\<rparr>, True)
                else (s\<lparr>img8 := []\<rparr>, False))"

definition frameBuffer :: "int \<Rightarrow> sprite \<Rightarrow> sprite" where
  "frameBuffer f s =
     (if \<not> created s \<or> bpp s = 16 \<or> bpp s = 8 then s
      else s\<lparr>frame := (if f = 2 then frame_2 s else 0)\<rparr>)"

definition setColorDepth :: "(nat \<Rightarrow> bool) \<Rightarrow> int \<Rightarrow> sprite \<Rightarrow> sprite \<times> bool" where
  "setColorDepth alloc b s =
     (let was = created s;
          s = (if was then s\<lparr>img := [], img8 := []\<rparr> else s);
          s = s\<lparr>bpp := (if b > 8 then 16 else if b > 1 then 8 else 1)\<rparr>
      in if was then createSprite alloc (int16_of (iwidth s)) (int16_of (iheight s)) 1 (s\<lparr>created := False\<rparr>)
         else (s, False))"

text \<open>The foreground and background colour that the display's object is given.\<close>

definition setBitmapColor :: "u16 \<Rightarrow> u16 \<Rightarrow> u32 \<times> u32" where
  "setBitmapColor c b = (let b = (if c = b then NOT c else b) in (ucast c, ucast b))"

definition deleteSprite :: "sprite \<Rightarrow> sprite" where
  "deleteSprite s = (if \<not> created s then s else s\<lparr>img := [], img8 := [], created := False\<rparr>)"

section \<open>Pixels\<close>

text \<open>\<open>(color >> 8) | (color << 8)\<close> as a half word, and the colour of eight bits.\<close>

definition swap_color :: "u32 \<Rightarrow> u16" where
  "swap_color color = ucast (drop_bit 8 color OR push_bit 8 color)"

definition color_332 :: "u32 \<Rightarrow> u8" where
  "color_332 color = ucast (drop_bit 8 (color AND 0xE000) OR drop_bit 6 (color AND 0x0700) OR drop_bit 3 (color AND 0x0018))"

definition spr_drawPixel :: "u32 \<Rightarrow> u32 \<Rightarrow> u32 \<Rightarrow> sprite \<Rightarrow> sprite option" where
  "spr_drawPixel x y color s =
     (if x \<ge> u32_of (iwidth s) \<or> y \<ge> u32_of (iheight s) \<or> \<not> created s then Some s
      else if bpp s = 16 then
        map_option (\<lambda>m. s\<lparr>img := m\<rparr>) (wr (img s) (unat (x + y * u32_of (iwidth s))) (swap_color color))
      else if bpp s = 8 then
        map_option (\<lambda>m. s\<lparr>img8 := m\<rparr>) (wr (img8 s) (frame s + unat (x + y * u32_of (iwidth s))) (color_332 color))
      else
        let tx = ucast (ucast x :: u16);
            (x, y) = (if rotation s = 1 then (u32_of (dwidth s) - y - 1, tx)
                      else if rotation s = 2 then (u32_of (dwidth s) - x - 1, u32_of (dheight s) - y - 1)
                      else if rotation s = 3 then (y, u32_of (dheight s) - tx - 1)
                      else (x, y));
            i = frame s + unat (drop_bit 3 (x + y * u32_of (bitwidth s)));
            mask = drop_bit (unat (x AND 7)) 0x80
        in do {
          b \<leftarrow> rd (img8 s) i;
          m \<leftarrow> wr (img8 s) i (if color \<noteq> 0 then b OR mask else b AND NOT mask);
          Some (s\<lparr>img8 := m\<rparr>)
        })"

definition readPixel :: "int \<Rightarrow> int \<Rightarrow> sprite \<Rightarrow> u16 option" where
  "readPixel x y s =
     (if x < 0 \<or> x \<ge> iwidth s \<or> y < 0 \<or> y \<ge> iheight s \<or> \<not> created s then Some 0
      else if bpp s = 16 then map_option bswap16 (rd (img s) (nat (x + y * iwidth s)))
      else if bpp s = 8 then
        map_option (\<lambda>c. if c \<noteq> 0 then color8to16 c else 0) (rd (img8 s) (frame s + nat (x + y * iwidth s)))
      else
        let tx = x mod 2 ^ 16;
            (x, y) = (if rotation s = 1 then (dwidth s - y - 1, tx)
                      else if rotation s = 2 then (dwidth s - x - 1, dheight s - y - 1)
                      else if rotation s = 3 then (y, dheight s - tx - 1)
                      else (x, y));
            i = int (frame s) + drop_bit 3 (x + y * bitwidth s)
        in if i < 0 then None
           else map_option (\<lambda>b. drop_bit 7 (push_bit (nat (x AND 7)) (ucast b) AND 0x80)) (rd (img8 s) (nat i)))"

section \<open>Lines and rectangles\<close>

definition move_cells :: "'a list \<Rightarrow> nat \<Rightarrow> nat \<Rightarrow> nat \<Rightarrow> 'a list option" where
  "move_cells m to from n = do { row \<leftarrow> mem_read m from n; mem_write m to row }"

definition spr_drawFastVLine :: "int \<Rightarrow> int \<Rightarrow> int \<Rightarrow> u32 \<Rightarrow> sprite \<Rightarrow> sprite option" where
  "spr_drawFastVLine x y h color s =
     (if x < 0 \<or> x \<ge> iwidth s \<or> y \<ge> iheight s \<or> \<not> created s then Some s
      else
        let (h, y) = (if y < 0 then (h + y, 0) else (h, y));
            h = (if y + h > iheight s then iheight s - y else h)
        in if h < 1 then Some s
           else if bpp s = 16 then
             map_option (\<lambda>m. s\<lparr>img := m\<rparr>)
               (foldM (\<lambda>i m. wr m (nat (x + iwidth s * y + int i * iwidth s)) (swap_color color)) [0..<nat h] (img s))
           else if bpp s = 8 then
             map_option (\<lambda>m. s\<lparr>img8 := m\<rparr>)
               (foldM (\<lambda>i m. wr m (frame s + nat (x + iwidth s * (y + int i))) (color_332 color)) [0..<nat h] (img8 s))
           else foldM (\<lambda>i. spr_drawPixel (u32_of x) (u32_of (y + int i)) color) [0..<nat h] s)"

definition spr_drawFastHLine :: "int \<Rightarrow> int \<Rightarrow> int \<Rightarrow> u32 \<Rightarrow> sprite \<Rightarrow> sprite option" where
  "spr_drawFastHLine x y w color s =
     (if y < 0 \<or> x \<ge> iwidth s \<or> y \<ge> iheight s \<or> \<not> created s then Some s
      else
        let (w, x) = (if x < 0 then (w + x, 0) else (w, x));
            w = (if x + w > iwidth s then iwidth s - x else w)
        in if w < 1 then Some s
           else if bpp s = 16 then
             map_option (\<lambda>m. s\<lparr>img := m\<rparr>)
               (foldM (\<lambda>i m. wr m (nat (iwidth s * y + (x + int i))) (swap_color color)) [0..<nat w] (img s))
           else if bpp s = 8 then
             map_option (\<lambda>m. s\<lparr>img8 := m\<rparr>)
               (mem_write (img8 s) (frame s + nat (iwidth s * y + x)) (replicate (nat w) (color_332 color)))
           else foldM (\<lambda>i. spr_drawPixel (u32_of (x + int i)) (u32_of y) color) [0..<nat w] s)"

text \<open>The rectangle that is left after clipping.\<close>

definition fill_clipped :: "int \<Rightarrow> int \<Rightarrow> int \<Rightarrow> int \<Rightarrow> u32 \<Rightarrow> sprite \<Rightarrow> sprite option" where
  "fill_clipped x y w h color s =
     (let yp = iwidth s * y + x
      in if bpp s = 16 then
           do {
             m \<leftarrow> foldM (\<lambda>i m. wr m (nat (yp + int i)) (swap_color color)) [0..<nat w] (img s);
             m \<leftarrow> foldM (\<lambda>j m. move_cells m (nat (yp + int j * iwidth s)) (nat yp) (nat w)) [1..<nat h] m;
             Some (s\<lparr>img := m\<rparr>)
           }
         else if bpp s = 8 then
           map_option (\<lambda>m. s\<lparr>img8 := m\<rparr>)
             (foldM (\<lambda>j m. mem_write m (frame s + nat (yp + int j * iwidth s)) (replicate (nat w) (color_332 color)))
               [0..<nat h] (img8 s))
         else foldM (\<lambda>j. foldM (\<lambda>i. spr_drawPixel (u32_of (x + int i)) (u32_of (y + int j)) color) [0..<nat w]) [0..<nat h] s)"

definition spr_fillRect :: "int \<Rightarrow> int \<Rightarrow> int \<Rightarrow> int \<Rightarrow> u32 \<Rightarrow> sprite \<Rightarrow> sprite option" where
  "spr_fillRect x y w h color s =
     (if \<not> created s then Some s
      else
        let (w, x) = (if x < 0 then (w + x, 0) else (w, x))
        in if x < 0 \<or> y < 0 \<or> x \<ge> iwidth s \<or> y \<ge> iheight s then Some s
           else
             let w = (if x + w > iwidth s then iwidth s - x else w);
                 h = (if y + h > iheight s then iheight s - y else h)
             in if w < 1 \<or> h < 1 then Some s else fill_clipped x y w h color s)"

text \<open>
  The shapes that a sprite inherits from the display's class call the primitives of the sprite, and so does
  its own \<open>drawLine\<close>, whose loops are those of the display.
\<close>

fun spr_call :: "call \<Rightarrow> sprite \<Rightarrow> sprite option" where
  "spr_call (Pixel x y c) s = spr_drawPixel (u32_of x) (u32_of y) c s"
| "spr_call (HLine x y w c) s = spr_drawFastHLine x y w c s"
| "spr_call (VLine x y h c) s = spr_drawFastVLine x y h c s"
| "spr_call (Fill x y w h c) s = spr_fillRect x y w h c s"

definition spr_calls :: "call list \<Rightarrow> sprite \<Rightarrow> sprite option" where
  "spr_calls = foldM spr_call"

definition spr_drawLine :: "int \<Rightarrow> int \<Rightarrow> int \<Rightarrow> int \<Rightarrow> u32 \<Rightarrow> sprite \<Rightarrow> sprite option" where
  "spr_drawLine x0 y0 x1 y1 color s =
     (if \<not> created s then Some s else spr_calls (drawLine x0 y0 x1 y1 color) s)"

definition fillSprite :: "u32 \<Rightarrow> sprite \<Rightarrow> sprite option" where
  "fillSprite color s =
     (if \<not> created s then Some s
      else if (ucast color :: u8) = ucast (drop_bit 8 color) \<and> bpp s = 16 then
        map_option (\<lambda>m. s\<lparr>img := m\<rparr>) (mem_write (img s) 0 (replicate (nat (iwidth s * iheight s)) (le_pair (ucast color) (ucast color))))
      else if bpp s = 8 then
        map_option (\<lambda>m. s\<lparr>img8 := m\<rparr>) (mem_write (img8 s) (frame s) (replicate (nat (iwidth s * iheight s)) (color_332 color)))
      else if bpp s = 1 then
        map_option (\<lambda>m. s\<lparr>img8 := m\<rparr>) (mem_write (img8 s) (frame s)
          (replicate (nat (drop_bit 3 (iwidth s) * iheight s + 1)) (if color \<noteq> 0 then 0xFF else 0)))
      else spr_fillRect 0 0 (iwidth s) (iheight s) color s)"

section \<open>Windows\<close>

definition setWindow :: "int \<Rightarrow> int \<Rightarrow> int \<Rightarrow> int \<Rightarrow> sprite \<Rightarrow> sprite" where
  "setWindow x0 y0 x1 y1 s =
     (let (x0, x1) = (if x0 > x1 then (x1, x0) else (x0, x1));
          (y0, y1) = (if y0 > y1 then (y1, y0) else (y0, y1));
          x0 = (if x0 < 0 then 0 else x0);
          x1 = (if x1 < 0 then 0 else x1);
          y0 = (if y0 < 0 then 0 else y0);
          y1 = (if y1 < 0 then 0 else y1);
          duff_coord = (x0 \<ge> iwidth s \<or> y0 \<ge> iheight s);
          x1 = (if x1 \<ge> iwidth s then iwidth s - 1 else x1);
          y1 = (if y1 \<ge> iheight s then iheight s - 1 else y1);
          (x0, y0, x1, y1) = (if duff_coord then (0, iheight s, 0, iheight s) else (x0, y0, x1, y1))
      in s\<lparr>win_xs := x0, win_ys := y0, win_xe := x1, win_ye := y1, xptr := x0, yptr := y0\<rparr>)"

text \<open>The step to the next pixel of the window, which ends both \<open>pushColor\<close> and \<open>writeColor\<close>.\<close>

definition next_pixel :: "sprite \<Rightarrow> sprite" where
  "next_pixel s =
     (let s = s\<lparr>xptr := xptr s + 1\<rparr>
      in if xptr s > win_xe s then
           let s = s\<lparr>xptr := win_xs s, yptr := yptr s + 1\<rparr>
           in if yptr s > win_ye s then s\<lparr>yptr := win_ys s\<rparr> else s
         else s)"

definition spr_pushColor :: "u32 \<Rightarrow> sprite \<Rightarrow> sprite option" where
  "spr_pushColor color s =
     (if \<not> created s then Some s
      else map_option next_pixel
        (if bpp s = 16 then map_option (\<lambda>m. s\<lparr>img := m\<rparr>) (wr (img s) (nat (xptr s + yptr s * iwidth s)) (swap_color color))
         else if bpp s = 8 then
           map_option (\<lambda>m. s\<lparr>img8 := m\<rparr>) (wr (img8 s) (frame s + nat (xptr s + yptr s * iwidth s)) (color_332 color))
         else spr_drawPixel (u32_of (xptr s)) (u32_of (yptr s)) color s))"

definition writeColor :: "u16 \<Rightarrow> sprite \<Rightarrow> sprite option" where
  "writeColor color s =
     (if \<not> created s then Some s
      else map_option next_pixel
        (if bpp s = 16 then map_option (\<lambda>m. s\<lparr>img := m\<rparr>) (wr (img s) (nat (xptr s + yptr s * iwidth s)) color)
         else if bpp s = 8 then
           map_option (\<lambda>m. s\<lparr>img8 := m\<rparr>) (wr (img8 s) (frame s + nat (xptr s + yptr s * iwidth s)) (ucast color))
         else spr_drawPixel (u32_of (xptr s)) (u32_of (yptr s)) (ucast color) s))"

definition spr_pushColor_len :: "u32 \<Rightarrow> u16 \<Rightarrow> sprite \<Rightarrow> sprite option" where
  "spr_pushColor_len color n s =
     (if \<not> created s then Some s
      else
        let pixelColor = (if bpp s = 16 then swap_color color else if bpp s = 8 then ucast (color_332 color) else ucast color)
        in foldM (\<lambda>_. writeColor pixelColor) [0..<unat n] s)"

section \<open>Scrolling\<close>

definition setScrollRect :: "int \<Rightarrow> int \<Rightarrow> u32 \<Rightarrow> u32 \<Rightarrow> u16 \<Rightarrow> sprite \<Rightarrow> sprite" where
  "setScrollRect x y w h color s =
     (if x \<ge> iwidth s \<or> y \<ge> iheight s \<or> \<not> created s then s
      else
        let x = (if x < 0 then 0 else x);
            y = (if y < 0 then 0 else y);
            w = (if u32_of x + w > u32_of (iwidth s) then u32_of (iwidth s - x) else w);
            h = (if u32_of y + h > u32_of (iheight s) then u32_of (iheight s - y) else h)
        in if w < 1 \<or> h < 1 then s
           else s\<lparr>scroll_x := x, scroll_y := y, scroll_w := w, scroll_h := h, scroll_color := ucast color\<rparr>)"

text \<open>Lines of \<open>w\<close> cells are moved one by one; both pointers move by \<open>iw\<close>.\<close>

fun move_lines :: "u32 \<Rightarrow> nat \<Rightarrow> nat \<Rightarrow> nat \<Rightarrow> u32 \<Rightarrow> u32 \<Rightarrow> 'a list \<Rightarrow> 'a list option" where
  "move_lines iw base w 0 typ fyp m = Some m"
| "move_lines iw base w (Suc h) typ fyp m =
     do {
       m \<leftarrow> move_cells m (base + unat typ) (base + unat fyp) w;
       move_lines iw base w h (typ + iw) (fyp + iw) m
     }"

definition scroll :: "int \<Rightarrow> int \<Rightarrow> sprite \<Rightarrow> sprite option" where
  "scroll dx dy s =
     (let sx = scroll_x s; sy = scroll_y s; sw = scroll_w s; sh = scroll_h s; color = scroll_color s
      in if u32_of \<bar>dx\<bar> \<ge> sw \<or> u32_of \<bar>dy\<bar> \<ge> sh then spr_fillRect sx sy (sint sw) (sint sh) color s
      else
        let w = sw - u32_of \<bar>dx\<bar>;
            h = sh - u32_of \<bar>dy\<bar>;
            (tx, fx) = (if dx \<le> 0 then (u32_of sx, u32_of sx - u32_of dx) else (u32_of sx + u32_of dx, u32_of sx));
            (ty, iw, fy) = (if dy \<le> 0 then (u32_of sy, u32_of (iwidth s), u32_of sy - u32_of dy)
              else (u32_of sy + sh - 1, u32_of (- iwidth s), u32_of sy + sh - 1 - u32_of dy));
            fyp = fx + fy * u32_of (iwidth s);
            typ = tx + ty * u32_of (iwidth s);
            gap = (\<lambda>s. do {
              s \<leftarrow> (if dx > 0 then spr_fillRect sx sy dx (sint sh) color s else Some s);
              s \<leftarrow> (if dx < 0 then spr_fillRect (sint (u32_of sx + sw + u32_of dx)) sy (- dx) (sint sh) color s else Some s);
              s \<leftarrow> (if dy > 0 then spr_fillRect sx sy (sint sw) dy color s else Some s);
              if dy < 0 then spr_fillRect sx (sint (u32_of sy + sh + u32_of dy)) (sint sw) (- dy) color s else Some s
            })
        in if bpp s = 16 then
             Option.bind (move_lines iw 0 (unat w) (unat h) typ fyp (img s)) (\<lambda>m. gap (s\<lparr>img := m\<rparr>))
           else if bpp s = 8 then
             Option.bind (move_lines iw (frame s) (unat w) (unat h) typ fyp (img8 s)) (\<lambda>m. gap (s\<lparr>img8 := m\<rparr>))
           else Some s)"

section \<open>Size and rotation\<close>

definition spr_width :: "sprite \<Rightarrow> int" where
  "spr_width s =
     (if \<not> created s then 0
      else if bpp s > 1 then int16_of (iwidth s)
      else if rotation s = 1 \<or> rotation s = 3 then int16_of (dheight s)
      else int16_of (bitwidth s))"

definition spr_height :: "sprite \<Rightarrow> int" where
  "spr_height s =
     (if \<not> created s then 0
      else if bpp s > 1 then int16_of (iheight s)
      else if rotation s = 1 \<or> rotation s = 3 then int16_of (dwidth s)
      else int16_of (dheight s))"

definition swap_size :: "sprite \<Rightarrow> sprite" where
  "swap_size s = s\<lparr>iwidth := iheight s, iheight := iwidth s\<rparr>"

definition setRotation :: "u8 \<Rightarrow> sprite \<Rightarrow> sprite" where
  "setRotation r s =
     (let s = s\<lparr>rotation := r\<rparr>;
          s = (if r = 0 \<and> iwidth s > iheight s then swap_size s else s);
          s = (if r = 1 \<and> iwidth s < iheight s then swap_size s else s);
          s = (if r = 2 \<and> iwidth s > iheight s then swap_size s else s)
      in if r = 3 \<and> iwidth s < iheight s then swap_size s else s)"

section \<open>Images\<close>

text \<open>The values of \<open>for (uint32_t p = a; p < b; p++)\<close>.\<close>

definition counted :: "u32 \<Rightarrow> u32 \<Rightarrow> u32 list" where
  "counted a b = map (\<lambda>i. a + word_of_nat i) [0..<unat b - unat a]"

text \<open>The half words of a picture as the bytes in memory.\<close>

definition rd_byte :: "u16 list \<Rightarrow> nat \<Rightarrow> u8 option" where
  "rd_byte data j = map_option (\<lambda>c. if even j then ucast c else ucast (drop_bit 8 c)) (rd data (j div 2))"

text \<open>
  The loops over a picture; the state is what is drawn on and the place in the picture.  The two routines,
  for pictures in memory and in flash, have the same loops.
\<close>

definition copy_picture :: "u32 list \<Rightarrow> u32 list \<Rightarrow> u16 list \<Rightarrow> (u16 \<Rightarrow> 'a) \<Rightarrow> u32 \<Rightarrow> nat \<Rightarrow> 'a list \<Rightarrow> ('a list \<times> nat) option" where
  "copy_picture ys xs data conv iw base m =
     foldM (\<lambda>yp. foldM (\<lambda>xp (m, k). do {
       color \<leftarrow> rd data k;
       m \<leftarrow> wr m (base + unat (xp + yp * iw)) (conv color);
       Some (m, k + 1)
     }) xs) ys (m, 0)"

definition spr_pushImage :: "int \<Rightarrow> int \<Rightarrow> u32 \<Rightarrow> u32 \<Rightarrow> u16 list \<Rightarrow> sprite \<Rightarrow> sprite option" where
  "spr_pushImage x y w h data s =
     (if x \<ge> iwidth s \<or> y \<ge> iheight s \<or> w = 0 \<or> h = 0 \<or> \<not> created s then Some s
      else if bpp s = 16 then
        map_option (\<lambda>(m, _). s\<lparr>img := m\<rparr>)
          (copy_picture (counted (u32_of y) (u32_of y + h)) (counted (u32_of x) (u32_of x + w)) data
            (\<lambda>c. if \<not> iswapBytes s then bswap16 c else c) (u32_of (iwidth s)) 0 (img s))
      else if bpp s = 8 then
        map_option (\<lambda>(m, _). s\<lparr>img8 := m\<rparr>)
          (copy_picture (counted (u32_of y) (u32_of y + h)) (counted (u32_of x) (u32_of x + w)) data
            (\<lambda>c. color_332 (ucast (if iswapBytes s then bswap16 c else c))) (u32_of (iwidth s)) (frame s) (img8 s))
      else
        let (x, y) = (if rotation s = 1 then (dwidth s - y - 1, x)
                      else if rotation s = 2 then (dwidth s - x - 1, dheight s - y - 1)
                      else if rotation s = 3 then (y, dheight s - x - 1)
                      else (x, y));
            ww = unat (padded w)
        in map_option fst
          (foldM (\<lambda>yp. foldM (\<lambda>b (s, k). do {
              pbyte \<leftarrow> rd_byte data k;
              s \<leftarrow> foldM (\<lambda>xc. \<lambda>s.
                if b * 8 + xc < unat w
                then spr_drawPixel (u32_of (x + int (b * 8) + int xc)) (u32_of (y + int yp)) (push_bit xc (ucast pbyte) AND 0x80) s
                else Some s) [0..<8] s;
              Some (s, k + 1)
            }) [0..<ww div 8]) [0..<unat h] (s, 0)))"

section \<open>Pushing a sprite to the display\<close>

text \<open>\<open>swapBytes\<close>, \<open>fg\<close> and \<open>bg\<close> are the settings of the display's object.\<close>

definition pushSprite :: "bool \<Rightarrow> u32 \<Rightarrow> u32 \<Rightarrow> int \<Rightarrow> int \<Rightarrow> sprite \<Rightarrow> Tft \<Rightarrow> (Tft \<times> wire list) option" where
  "pushSprite swapBytes fg bg x y s t =
     (if \<not> created s then Some (t, [])
      else if bpp s = 16 then pushImage swapBytes x y (u32_of (iwidth s)) (u32_of (iheight s)) (img s) t
      else pushImage8 fg bg x y (u32_of (dwidth s)) (u32_of (dheight s)) (drop (frame s) (img8 s)) (bpp s = 8) t)"

definition pushSprite_transp :: "bool \<Rightarrow> u32 \<Rightarrow> int \<Rightarrow> int \<Rightarrow> u16 \<Rightarrow> sprite \<Rightarrow> Tft \<Rightarrow> (Tft \<times> wire list) option" where
  "pushSprite_transp swapBytes fg x y tcol s t =
     (if \<not> created s then Some (t, [])
      else if bpp s = 16 then pushImage_transp swapBytes x y (u32_of (iwidth s)) (u32_of (iheight s)) (img s) tcol t
      else if bpp s = 8 then
        pushImage8_transp fg x y (u32_of (dwidth s)) (u32_of (dheight s)) (drop (frame s) (img8 s)) (color_332 (ucast tcol)) True t
      else pushImage8_transp fg x y (u32_of (dwidth s)) (u32_of (dheight s)) (drop (frame s) (img8 s)) 0 False t)"

end
