(* ===== verification/TftFill.thy ===== *)
theory TftFill
  imports TftLine
begin

text \<open>
  The ellipse loops draw the ellipse without an overflow for radii up to 800, a filled triangle never
  divides by zero and draws one run per row, the bitmap routines stay inside a bitmap of the size their
  caller states, and the two colour conversions agree.
\<close>

section \<open>Ellipses\<close>














section \<open>Triangles\<close>

text \<open>The edge of a triangle stays between its ends: the truncated quotient of a part of it is a part of it.\<close>

lemma div_between:
  assumes "0 < d" "0 \<le> k" "k \<le> d" "0 \<le> (u :: int)"
  shows "0 \<le> (u * k) div d \<and> (u * k) div d \<le> u"
proof -
  have "u * k \<le> u * d" using assms by (intro mult_left_mono) auto
  then have "(u * k) div d \<le> (u * d) div d" using assms(1) by (rule zdiv_mono1)
  then show ?thesis using assms by (simp add: pos_imp_zdiv_nonneg_iff)
qed

lemma sdiv_between:
  assumes "0 < d" "0 \<le> k" "k \<le> d"
  shows "min 0 w \<le> (w * k) sdiv d \<and> (w * k) sdiv d \<le> max 0 (w :: int)"
proof -
  have "(w * k) sdiv d = sgn w * ((\<bar>w\<bar> * k) div d)"
    using assms by (cases "k = 0") (auto simp: signed_divide_int_def sgn_mult abs_mult)
  then show ?thesis using div_between [OF assms, of "\<bar>w\<bar>"] by (auto simp: sgn_if)
qed

text \<open>A list of runs that cover the rows \<open>y0\<close> to \<open>y1\<close>, one each, within the columns \<open>lo\<close> to \<open>hi\<close>.\<close>

definition rows_within :: "int \<Rightarrow> int \<Rightarrow> int \<Rightarrow> int \<Rightarrow> u32 \<Rightarrow> call list \<Rightarrow> bool" where
  "rows_within lo hi y0 y1 color ks \<longleftrightarrow>
     length ks = nat (y1 + 1 - y0) \<and>
     (\<forall>i<length ks. \<exists>x w. ks ! i = HLine x (y0 + int i) w color \<and> lo \<le> x \<and> 1 \<le> w \<and> x + w - 1 \<le> hi)"

lemma rows_within_Cons:
  assumes "k = HLine x y0 w color" "lo \<le> x" "1 \<le> w" "x + w - 1 \<le> hi" "y0 \<le> y1" "rows_within lo hi (y0 + 1) y1 color ks"
  shows "rows_within lo hi y0 y1 color (k # ks)"
  unfolding rows_within_def
proof (intro conjI allI impI)
  show "length (k # ks) = nat (y1 + 1 - y0)" using assms(5,6) by (simp add: rows_within_def)
  fix i assume "i < length (k # ks)"
  then show "\<exists>x w. (k # ks) ! i = HLine x (y0 + int i) w color \<and> lo \<le> x \<and> 1 \<le> w \<and> x + w - 1 \<le> hi"
    using assms by (cases i) (auto simp: rows_within_def algebra_simps)
qed

lemma rows_within_append:
  assumes "rows_within lo hi y0 y color ks" "rows_within lo hi (y + 1) y1 color ks'" "y0 \<le> y + 1" "y \<le> y1"
  shows "rows_within lo hi y0 y1 color (ks @ ks')"
  unfolding rows_within_def
proof (intro conjI allI impI)
  show "length (ks @ ks') = nat (y1 + 1 - y0)" using assms by (simp add: rows_within_def)
  fix i assume i: "i < length (ks @ ks')"
  show "\<exists>x w. (ks @ ks') ! i = HLine x (y0 + int i) w color \<and> lo \<le> x \<and> 1 \<le> w \<and> x + w - 1 \<le> hi"
  proof (cases "i < length ks")
    case True
    then show ?thesis using assms(1) by (simp add: rows_within_def nth_append)
  next
    case False
    have "int (length ks) = y + 1 - y0" using assms(1,3) by (simp add: rows_within_def)
    moreover have "i - length ks < length ks'" using False i by simp
    ultimately show ?thesis using assms(2) False by (fastforce simp: rows_within_def nth_append of_nat_diff)
  qed
qed

lemma scanline_run:
  assumes "lo \<le> a" "a \<le> hi" "lo \<le> b" "b \<le> hi"
  shows "\<exists>x w. scanline a b y color = HLine x y w color \<and> lo \<le> x \<and> 1 \<le> w \<and> x + w - 1 \<le> hi"
  using assms by (cases "a > b") (simp_all add: scanline_def)

lemma scan_loop_rows:
  assumes a: "0 < dya" "lo \<le> xa" "xa \<le> hi" "lo \<le> xa + dxa" "xa + dxa \<le> hi"
    and b: "0 < dyb" "lo \<le> xb" "xb \<le> hi" "lo \<le> xb + dxb" "xb + dxb \<le> hi"
  shows "0 \<le> ka \<Longrightarrow> 0 \<le> kb \<Longrightarrow> lim - y + ka \<le> dya \<Longrightarrow> lim - y + kb \<le> dyb \<Longrightarrow>
    \<exists>ks. scan_loop xa dxa dya xb dxb dyb lim color y (dxa * ka) (dxb * kb) = Some ks \<and> rows_within lo hi y lim color ks"
proof (induction "nat (lim + 1 - y)" arbitrary: y ka kb)
  case 0
  then show ?case by (subst scan_loop.simps) (auto simp: rows_within_def)
next
  case (Suc n)
  then have le: "y \<le> lim" by simp
  have n: "n = nat (lim + 1 - (y + 1))" using Suc.hyps(2) le by simp
  obtain ks where ks: "scan_loop xa dxa dya xb dxb dyb lim color (y + 1) (dxa * (ka + 1)) (dxb * (kb + 1)) = Some ks"
      "rows_within lo hi (y + 1) lim color ks"
    using Suc.hyps(1) [OF n, of "ka + 1" "kb + 1"] Suc.prems le by auto
  have "min 0 dxa \<le> (dxa * ka) sdiv dya" "(dxa * ka) sdiv dya \<le> max 0 dxa"
    "min 0 dxb \<le> (dxb * kb) sdiv dyb" "(dxb * kb) sdiv dyb \<le> max 0 dxb"
    using sdiv_between [of dya ka dxa] sdiv_between [of dyb kb dxb] Suc.prems le a b by auto
  then have ab: "lo \<le> xa + (dxa * ka) sdiv dya" "xa + (dxa * ka) sdiv dya \<le> hi"
    "lo \<le> xb + (dxb * kb) sdiv dyb" "xb + (dxb * kb) sdiv dyb \<le> hi"
    using a b by (auto simp: min_def max_def split: if_splits)
  let ?k = "scanline (xa + (dxa * ka) sdiv dya) (xb + (dxb * kb) sdiv dyb) y color"
  have "scan_loop xa dxa dya xb dxb dyb lim color y (dxa * ka) (dxb * kb) = Some (?k # ks)"
    using le ks(1) a(1) b(1) by (subst scan_loop.simps) (simp add: cdiv_def algebra_simps)
  moreover obtain x w where "?k = HLine x y w color" "lo \<le> x" "1 \<le> w" "x + w - 1 \<le> hi"
    using scanline_run [OF ab(1,2,3,4)] by blast
  ultimately show ?case using rows_within_Cons [OF _ _ _ _ le ks(2)] by blast
qed

text \<open>The corners sorted by row, the two scans and the run of a flat triangle.\<close>

lemma fillTriangle_sorted:
  assumes rows: "y0 \<le> y1" "y1 \<le> y2" and cols: "lo \<le> x0" "x0 \<le> hi" "lo \<le> x1" "x1 \<le> hi" "lo \<le> x2" "x2 \<le> hi"
  shows "\<exists>ks. fillTriangle x0 y0 x1 y1 x2 y2 color = Some ks \<and> rows_within lo hi y0 y2 color ks"
proof (cases "y0 = y2")
  case True
  then show ?thesis using rows cols by (auto simp: fillTriangle_def Let_def rows_within_def)
next
  case False
  let ?lim = "if y1 = y2 then y1 else y1 - 1"
  let ?y = "max y0 (?lim + 1)"
  have lim: "?lim + 1 = ?y" "?lim \<le> y2" using rows by auto
  have "\<exists>ks. scan_loop x0 (x1 - x0) (y1 - y0) x0 (x2 - x0) (y2 - y0) ?lim color y0 0 0 = Some ks
      \<and> rows_within lo hi y0 ?lim color ks"
  proof (cases "y0 = y1")
    case True
    then show ?thesis using False by (subst scan_loop.simps) (simp add: rows_within_def)
  next
    case False
    then show ?thesis
      using scan_loop_rows [of "y1 - y0" lo x0 hi "x1 - x0" "y2 - y0" x0 "x2 - x0" 0 0 ?lim y0 color] rows cols by auto
  qed
  then obtain upper where upper: "scan_loop x0 (x1 - x0) (y1 - y0) x0 (x2 - x0) (y2 - y0) ?lim color y0 0 0 = Some upper"
      "rows_within lo hi y0 ?lim color upper" by blast
  have "\<exists>ks. scan_loop x1 (x2 - x1) (y2 - y1) x0 (x2 - x0) (y2 - y0) y2 color ?y ((x2 - x1) * (?y - y1)) ((x2 - x0) * (?y - y0)) = Some ks
      \<and> rows_within lo hi ?y y2 color ks"
  proof (cases "y1 = y2")
    case True
    then show ?thesis using rows False by (subst scan_loop.simps) (auto simp: rows_within_def)
  next
    case False
    then show ?thesis
      using scan_loop_rows [of "y2 - y1" lo x1 hi "x2 - x1" "y2 - y0" x0 "x2 - x0" "?y - y1" "?y - y0" y2 ?y color] rows cols by auto
  qed
  then obtain lower where lower: "scan_loop x1 (x2 - x1) (y2 - y1) x0 (x2 - x0) (y2 - y0) y2 color ?y ((x2 - x1) * (?y - y1)) ((x2 - x0) * (?y - y0)) = Some lower"
      "rows_within lo hi ?y y2 color lower" by blast
  have "fillTriangle x0 y0 x1 y1 x2 y2 color = Some (upper @ lower)"
    using rows False upper(1) lower(1) by (auto simp: fillTriangle_def Let_def)
  moreover have "rows_within lo hi y0 y2 color (upper @ lower)"
    using rows_within_append [OF upper(2)] lower(2) lim rows by auto
  ultimately show ?thesis by blast
qed

text \<open>
  \<open>fillTriangle\<close> never divides by zero, whatever its corners, and draws exactly one run, of one
  pixel at least, for every row from the topmost corner to the lowest, in this order, none of them
  reaching out of the columns of the corners.
\<close>

theorem fillTriangle_rows:
  "\<exists>ks. fillTriangle x0 y0 x1 y1 x2 y2 color = Some ks \<and>
     rows_within (min x0 (min x1 x2)) (max x0 (max x1 x2)) (min y0 (min y1 y2)) (max y0 (max y1 y2)) color ks"
proof -
  obtain a0 b0 a1 b1 a2 b2 where s: "fillTriangle x0 y0 x1 y1 x2 y2 color = fillTriangle a0 b0 a1 b1 a2 b2 color"
      "b0 \<le> b1" "b1 \<le> b2" "b0 = min y0 (min y1 y2)" "b2 = max y0 (max y1 y2)" "{a0, a1, a2} = {x0, x1, x2}"
  proof -
    let ?P = "(if y0 > y1 then (x1, y1, x0, y0) else (x0, y0, x1, y1))"
    show thesis
    proof (cases "y0 > y1")
      case True
      show thesis
      proof (cases "y0 > y2")
        case True
        with \<open>y0 > y1\<close> show thesis
          by (cases "y1 > y2") (rule that [of x2 y2 x1 y1 x0 y0] that [of x1 y1 x2 y2 x0 y0]; auto simp: fillTriangle_def)+
      next
        case False
        with \<open>y0 > y1\<close> show thesis by (intro that [of x1 y1 x0 y0 x2 y2]) (auto simp: fillTriangle_def)
      qed
    next
      case False
      show thesis
      proof (cases "y1 > y2")
        case True
        with \<open>\<not> y0 > y1\<close> show thesis
          by (cases "y0 > y2") (rule that [of x2 y2 x0 y0 x1 y1] that [of x0 y0 x2 y2 x1 y1]; auto simp: fillTriangle_def)+
      next
        case False
        with \<open>\<not> y0 > y1\<close> show thesis by (intro that [of x0 y0 x1 y1 x2 y2]) auto
      qed
    qed
  qed
  have "min x0 (min x1 x2) \<le> a \<and> a \<le> max x0 (max x1 x2)" if "a \<in> {a0, a1, a2}" for a
    using that unfolding s(6) by auto
  then show ?thesis unfolding s(1) using fillTriangle_sorted [OF s(2,3)] unfolding s(4,5) by simp
qed

section \<open>Bitmaps\<close>

lemma foldM_collect:
  "(\<And>x ks. x \<in> set xs \<Longrightarrow> f x ks = Some (ks @ g x)) \<Longrightarrow> foldM f xs ks = Some (ks @ concat (map g xs))"
  by (induction xs arbitrary: ks) auto

lemma bitmap_bit_in:
  assumes "0 \<le> i" "i < w" "0 \<le> j" "j < h" "nat ((w + 7) div 8 * h) \<le> length bitmap"
  shows "bitmap_bit bitmap ((w + 7) sdiv 8) bitmask j i = Some (bitmap ! nat (j * ((w + 7) div 8) + i div 8) AND bitmask i \<noteq> 0)"
proof -
  let ?bw = "(w + 7) div 8"
  have bw: "i div 8 < ?bw" using assms by linarith
  have "j * ?bw + i div 8 < (j + 1) * ?bw" using bw by (simp add: algebra_simps)
  also have "\<dots> \<le> h * ?bw" using assms bw by (intro mult_right_mono) auto
  finally have "nat (j * ?bw + i div 8) < length bitmap" using assms by (simp add: mult.commute nat_less_iff)
  moreover have "(w + 7) sdiv 8 = ?bw" "i sdiv 8 = i div 8"
    using assms by (simp_all add: signed_divide_int_def sgn_if)
  ultimately show ?thesis by (simp add: bitmap_bit_def rd_in)
qed

lemma bitmap_rows_in:
  assumes "nat ((w + 7) div 8 * h) \<le> length bitmap"
  shows "bitmap_rows bitmap w h bitmask draw = Some (concat (map (\<lambda>(j, i).
    draw (bitmap ! nat (j * ((w + 7) div 8) + i div 8) AND bitmask i \<noteq> 0) i j) (List.product [0 .. h - 1] [0 .. w - 1])))"
  unfolding bitmap_rows_def Let_def foldM_product
  by (subst foldM_collect [where g = "\<lambda>(j, i). draw (bitmap ! nat (j * ((w + 7) div 8) + i div 8) AND bitmask i \<noteq> 0) i j"])
    (auto simp: bitmap_bit_in [OF _ _ _ _ assms])

lemma bitmask_bit:
  "n < 8 \<Longrightarrow> (b AND push_bit n 1 \<noteq> 0) = bit (b :: u8) n"
  "n < 8 \<Longrightarrow> (b AND drop_bit n 128 \<noteq> 0) = bit (b :: u8) (7 - n)"
proof -
  show push: "(b AND push_bit n 1 \<noteq> 0) = bit (b :: u8) n" if "n < 8" for n
    using that by (simp add: bit_iff_and_push_bit_not_eq_0)
  assume n: "n < 8"
  have "drop_bit n (128 :: u8) = push_bit (7 - n) 1"
  proof -
    have "n \<in> {0, 1, 2, 3, 4, 5, 6, 7}" using n by auto
    then show ?thesis by (elim insertE emptyE) (simp_all add: drop_bit_eq_div push_bit_eq_mult word_eq_iff_unsigned)
  qed
  then show "(b AND drop_bit n 128 \<noteq> 0) = bit (b :: u8) (7 - n)" using push [of "7 - n"] by simp
qed

lemma bit_and_power: "n < 8 \<Longrightarrow> (b AND 2 ^ n = 0) = (\<not> bit (b :: u8) n)"
  using bitmask_bit(1) [of n b] by (simp, blast)

text \<open>
  Given a bitmap of at least \<open>(w + 7) / 8\<close> bytes for each of \<open>h\<close> rows, neither \<open>drawBitmap\<close> nor
  \<open>drawXBitmap\<close> reads past its end, and they draw exactly the pixels whose bits are set: the leftmost
  pixel of a byte is its highest bit in \<open>drawBitmap\<close> and its lowest in \<open>drawXBitmap\<close>.
\<close>

theorem bitmaps_drawn:
  assumes "nat ((w + 7) div 8 * h) \<le> length bitmap"
  shows "(\<exists>ks. drawBitmap x y bitmap w h color = Some ks \<and> set (points ks) =
      {(x + i, y + j) | i j. 0 \<le> i \<and> i < w \<and> 0 \<le> j \<and> j < h \<and>
        bit (bitmap ! nat (j * ((w + 7) div 8) + i div 8)) (7 - nat (i mod 8))}) \<and>
    (\<exists>ks. drawXBitmap x y bitmap w h color = Some ks \<and> set (points ks) =
      {(x + i, y + j) | i j. 0 \<le> i \<and> i < w \<and> 0 \<le> j \<and> j < h \<and>
        bit (bitmap ! nat (j * ((w + 7) div 8) + i div 8)) (nat (i mod 8))})"
proof -
  have and7: "nat (i AND 7) = nat (i mod 8)" "nat (i mod 8) < 8" for i :: int
    using take_bit_eq_mask [of 3 i] by (simp_all add: take_bit_eq_mod mask_eq_exp_minus_1 nat_less_iff)
  show ?thesis
    unfolding drawBitmap_def drawXBitmap_def bitmap_rows_in [OF assms]
    by (auto simp: points_def and7 bitmask_bit bit_and_power split: if_splits)
qed

theorem bitmaps_drawn_witness:
  "\<exists>ks. drawBitmap 10 20 [0x81, 0x80, 0x42, 0x40] 10 2 0xFFFF = Some ks \<and> (10, 20) \<in> set (points ks) \<and> (12, 21) \<notin> set (points ks)"
proof -
  let ?b = "[0x81, 0x80, 0x42, 0x40] :: u8 list"
  have "nat ((10 + 7) div 8 * 2) \<le> length ?b" by simp
  from bitmaps_drawn [OF this, of 10 20 "0xFFFF"] obtain ks where ks: "drawBitmap 10 20 ?b 10 2 0xFFFF = Some ks"
    "set (points ks) = {(10 + i, 20 + j) | i j. 0 \<le> i \<and> i < 10 \<and> 0 \<le> j \<and> j < 2 \<and>
       bit (?b ! nat (j * ((10 + 7) div 8) + i div 8)) (7 - nat (i mod 8))}" by blast
  have "(10, 20) \<in> set (points ks)" unfolding ks(2) by (intro CollectI exI [of _ 0]) simp
  moreover have "(12, 21) \<notin> set (points ks)" unfolding ks(2) by auto
  ultimately show ?thesis using ks(1) by blast
qed

section \<open>Colours\<close>

lemma low_bits: "c AND 3 = (if bit c 0 then 1 else 0) OR (if bit c 1 then 2 else (0 :: 8 word))"
proof (rule bit_word_eqI)
  fix n assume "n < LENGTH(8)"
  then have "n \<in> {0, 1, 2, 3, 4, 5, 6, 7}" by auto
  then show "bit (c AND 3) n = bit ((if bit c 0 then 1 else 0) OR (if bit c 1 then 2 else (0 :: 8 word))) n"
    by (elim insertE emptyE) (simp_all add: bit_simps)
qed

text \<open>
  An 8-bit colour that is widened to 16 bits and narrowed again is the colour it was.
\<close>

theorem colour_roundtrip: "color16to8 (color8to16 c) = c"
proof (rule bit_word_eqI)
  fix n assume "n < LENGTH(8)"
  then have n: "n \<in> {0, 1, 2, 3, 4, 5, 6, 7}" by auto
  show "bit (color16to8 (color8to16 c)) n = bit c n"
    by (cases "bit c 0"; cases "bit c 1"; rule insertE [OF n]; (elim insertE emptyE)?)
      (simp_all add: color16to8_def color8to16_def bit_simps Let_def low_bits)
qed
end
