(* ===== verification/TftPicture.thy ===== *)
theory TftPicture
  imports TftImage TftFill
begin

text \<open>
  What the images of \<open>TftImage\<close> paint: cropping, 16-bit images with and without a transparent colour, images in
  flash, and images of bytes and bits, which are the 16-bit images of their colours.
\<close>

section \<open>What is left of an image on the screen\<close>

text \<open>
  The cropping is exact for images that start on the screen and for images no larger than the screen.  The
  sizes are those of images that exist: less than \<open>2 ^ 15\<close> pixels wide and high.
\<close>

lemma sint_small: "uint (w :: u32) < 2 ^ 31 \<Longrightarrow> sint w = uint w"
proof -
  assume "uint w < 2 ^ 31"
  moreover have "- (2 ^ 31) \<le> uint w" by (rule order_trans [OF _ uint_ge_0]) simp
  ultimately show ?thesis by (simp add: sint_uint signed_take_bit_int_eq_self)
qed

definition extent :: "int \<Rightarrow> int \<Rightarrow> int \<Rightarrow> int" where
  "extent m x w = (if max 0 x + w > m then m - max 0 x else w + min 0 x)"

lemma extent_exact: "0 \<le> x \<or> w \<le> m \<Longrightarrow> extent m x w = min (x + w) m - max 0 x"
  by (auto simp: extent_def min_def max_def)

lemma crop_sums:
  assumes "m \<le> 0x7FFF" "0 \<le> x" "x < 2 ^ 30" "uint w \<le> 0x7FFF"
  shows "u32_of x + w > m \<longleftrightarrow> x + uint w > uint m"
proof -
  have "u32_of x + w = u32_of (x + uint w)" by (simp add: u32_of_def)
  moreover have "x < 1073741824" using assms(3) by simp
  then have b: "- 2147483648 \<le> x + uint w" "x + uint w < 2147483648"
    using assms(2,4) uint_ge_0 [of w] by linarith+
  have "u32_of (x + uint w) \<le> m \<longleftrightarrow> 0 \<le> x + uint w \<and> x + uint w \<le> int (unat m)"
    by (rule u32_of_le) (use assms(1) b in simp_all)
  ultimately show ?thesis using assms by (auto simp: not_le [symmetric])
qed

lemma crop_window:
  assumes t: "coherent t p" and c: "coord x" "coord y" and w: "uint w \<le> 0x7FFF" "uint h \<le> 0x7FFF"
  defines "W \<equiv> uint (tft_width t)" and "H \<equiv> uint (tft_height t)"
  shows "crop x y w h t =
    (if W \<le> x \<or> H \<le> y \<or> extent W x (uint w) < 1 \<or> extent H y (uint h) < 1 then None
     else Some (max 0 x, max 0 y, max 0 (- x), max 0 (- y), extent W x (uint w), extent H y (uint h)))"
proof -
  note size = coherent_size [OF t]
  have s: "sint (tft_width t) = W" "sint (tft_height t) = H" "sint w = uint w" "sint h = uint h"
    unfolding W_def H_def using size w by (simp_all add: sint_small)
  have d: "sint (m - u32_of i) = uint m - i" if "0 \<le> i" "i \<le> uint m" "m \<le> 0x7FFF" for m i
    using clipped_length [of i m] that by simp
  have x: "u32_of (max 0 x) + w > tft_width t \<longleftrightarrow> max 0 x + uint w > W"
    "u32_of (max 0 y) + h > tft_height t \<longleftrightarrow> max 0 y + uint h > H"
    unfolding W_def H_def using c size w by (intro crop_sums; simp add: coord_def)+
  show ?thesis
  proof (cases "x \<ge> W \<or> y \<ge> H")
    case True
    then show ?thesis by (auto simp: crop_def s)
  next
    case False
    have e: "(if u32_of (max 0 x) + w > tft_width t then sint (tft_width t - u32_of (max 0 x)) else uint w + min 0 x) = extent W x (uint w)"
      "(if u32_of (max 0 y) + h > tft_height t then sint (tft_height t - u32_of (max 0 y)) else uint h + min 0 y) = extent H y (uint h)"
      unfolding x extent_def using False size d [of "max 0 x" "tft_width t"] d [of "max 0 y" "tft_height t"]
      by (auto simp: W_def H_def)
    have "(if x < 0 then (sint w + x, - x, 0) else (sint w, 0, x)) = (uint w + min 0 x, max 0 (- x), max 0 x)"
      "(if y < 0 then (sint h + y, - y, 0) else (sint h, 0, y)) = (uint h + min 0 y, max 0 (- y), max 0 y)"
      by (simp_all add: s)
    then show ?thesis using False e unfolding crop_def s Let_def by simp
  qed
qed

lemma image_start_nat:
  assumes "0 \<le> dx" "0 \<le> dy" "dx < uint w" "dy < 0x7FFF" "uint w \<le> 0x7FFF"
  shows "image_start dx dy w = nat dx + nat dy * unat w"
proof -
  have "dy * uint w \<le> 0x7FFF * 0x7FFF" using assms by (intro mult_mono) simp_all
  then have b: "0 \<le> dx + dy * uint w" "dx + dy * uint w < 2 ^ 32" using assms by simp_all
  have "u32_of dx + u32_of dy * w = u32_of (dx + dy * uint w)" by (simp add: u32_of_def)
  then have "image_start dx dy w = nat (dx + dy * uint w)"
    unfolding image_start_def using u32_of_small [OF b] by simp
  then show ?thesis using assms by (simp add: nat_add_distrib nat_mult_distrib)
qed

section \<open>Rows of pixels\<close>

definition shown :: "bool \<Rightarrow> u16 \<Rightarrow> u16" where
  "shown swap c = (if swap then c else bswap16 c)"

lemma pushColors_shown: "pushColors data swap = [Pixels (map (shown swap) data)]"
  by (auto simp: pushColors_def shown_def intro: map_idI [symmetric])

definition image_rows :: "'a list \<Rightarrow> nat \<Rightarrow> nat \<Rightarrow> nat \<Rightarrow> nat \<Rightarrow> 'a list" where
  "image_rows data off w dw dh = concat (map (\<lambda>r. take dw (drop (off + r * w) data)) [0..<dh])"

lemma concat_rows:
  assumes "\<And>r. r < n \<Longrightarrow> length (f r) = d"
  shows "length (concat (map f [0..<n])) = n * d"
    and "r < n \<Longrightarrow> c < d \<Longrightarrow> concat (map f [0..<n]) ! (r * d + c) = f r ! c"
proof -
  show l: "length (concat (map f [0..<n])) = n * d" using assms by (induction n) auto
  show "r < n \<Longrightarrow> c < d \<Longrightarrow> concat (map f [0..<n]) ! (r * d + c) = f r ! c"
    using assms
  proof (induction n)
    case (Suc n)
    have len: "length (concat (map f [0..<n])) = n * d" using Suc.prems(3) by (induction n) auto
    show ?case
    proof (cases "r < n")
      case True
      then have "Suc r * d \<le> n * d" by (intro mult_le_mono1) simp
      then have "r * d + c < n * d" using Suc.prems(2) by simp
      then show ?thesis using Suc True len by (simp add: nth_append)
    next
      case False
      then have "r = n" using Suc.prems(1) by simp
      then show ?thesis using len by (simp add: nth_append)
    qed
  qed simp
qed

lemma image_rows_length: "\<forall>r<dh. off + r * w + dw \<le> length data \<Longrightarrow> length (image_rows data off w dw dh) = dh * dw"
  unfolding image_rows_def by (rule concat_rows(1)) auto

lemma image_rows_nth:
  assumes "\<forall>r<dh. off + r * w + dw \<le> length data" "r < dh" "c < dw"
  shows "image_rows data off w dw dh ! (r * dw + c) = data ! (off + r * w + c)"
proof -
  have l: "\<And>r. r < dh \<Longrightarrow> length (take dw (drop (off + r * w) data)) = dw" using assms(1) by auto
  have "image_rows data off w dw dh ! (r * dw + c) = take dw (drop (off + r * w) data) ! c"
    unfolding image_rows_def by (rule concat_rows(2) [OF l assms(2,3)])
  then show ?thesis using assms by (auto simp: add.assoc)
qed

lemma image_rows_Suc: "image_rows data off w dw (Suc dh) = take dw (drop off data) @ image_rows data (off + w) w dw dh"
  unfolding image_rows_def by (simp add: upt_conv_Cons map_Suc_upt [symmetric] comp_def algebra_simps del: upt_Suc map_Suc_upt)

lemma push_rows_display:
  "\<forall>r<dh. off + r * unat w + dw \<le> length data \<Longrightarrow> \<exists>ws. push_rows data off w dw swap dh = Some ws \<and>
     (\<forall>p. reg p = TFT_RAMWR \<longrightarrow> display ws p = fold store_pixel (map (shown swap) (image_rows data off (unat w) dw dh)) p)"
proof (induction dh arbitrary: off)
  case 0
  then show ?case by (simp add: image_rows_def)
next
  case (Suc dh)
  have "\<forall>r<dh. (off + unat w) + r * unat w + dw \<le> length data"
    using Suc.prems by (metis add.assoc add.commute mult_Suc Suc_mono)
  then obtain ws where "push_rows data (off + unat w) w dw swap dh = Some ws"
    "\<And>p. reg p = TFT_RAMWR \<Longrightarrow> display ws p = fold store_pixel (map (shown swap) (image_rows data (off + unat w) (unat w) dw dh)) p"
    using Suc.IH by blast
  moreover have "off + dw \<le> length data" using Suc.prems by (metis add_0_right mult_0 zero_less_Suc)
  ultimately show ?case by (simp add: cmem pushColors_shown image_rows_Suc)
qed

lemma store_image:
  assumes "ptr_x p = sc p" "ptr_y p = sp p" "ec p = sc p + w - 1" "ep p = sp p + h - 1" "0 < w" "length cs = h * w"
  shows "pix (fold store_pixel cs p) = (\<lambda>(a, b).
    if sc p \<le> a \<and> a < sc p + w \<and> sp p \<le> b \<and> b < sp p + h then cs ! ((b - sp p) * w + (a - sc p)) else pix p (a, b))"
proof -
  have "(b - sp p) * w + (a - sc p) < h * w \<longleftrightarrow> b < sp p + h" if "sc p \<le> a" "a < sc p + w" "sp p \<le> b" for a b
  proof
    assume "b < sp p + h"
    then have "Suc (b - sp p) * w \<le> h * w" using that by (intro mult_le_mono1) auto
    then show "(b - sp p) * w + (a - sc p) < h * w" using that by simp
  next
    assume "(b - sp p) * w + (a - sc p) < h * w"
    then have "(b - sp p) * w < h * w" by (rule add_lessD1)
    then show "b < sp p + h" by auto
  qed
  then have i: "(sc p \<le> a \<and> a < sc p + w \<and> sp p \<le> b \<and> (b - sp p) * w + (a - sc p) < length cs) =
     (sc p \<le> a \<and> a < sc p + w \<and> sp p \<le> b \<and> b < sp p + h)" for a b
    using assms(6) by auto
  show ?thesis using store_window [OF assms(1-5), of cs] assms(6) unfolding i by (simp add: mult.commute)
qed

text \<open>A window and the rows of an image in it.\<close>

lemma window_image:
  assumes t: "coherent t p" and x: "0 \<le> x" "0 \<le> y" "1 \<le> dw" "1 \<le> dh" "x + dw \<le> 0x7FFF" "y + dh \<le> 0x7FFF"
    and l: "length cs = nat dh * nat dw"
    and ws: "\<forall>q. reg q = TFT_RAMWR \<longrightarrow> display ws q = fold store_pixel cs q"
  shows "pix (display (snd (setAddrWindow x y (x + dw - 1) (y + dh - 1) t) @ ws) p) = (\<lambda>(a, b).
    if x \<le> int a \<and> int a < x + dw \<and> y \<le> int b \<and> int b < y + dh
    then cs ! (nat (int b - y) * nat dw + nat (int a - x)) else pix p (a, b))"
proof -
  let ?p = "p\<lparr>sc := nat x, ec := nat (x + dw - 1), sp := nat y, ep := nat (y + dh - 1), ptr_x := nat x,
              ptr_y := nat y, reg := TFT_RAMWR\<rparr>"
  have win: "display (snd (setAddrWindow x y (x + dw - 1) (y + dh - 1) t)) p = ?p"
    using x by (intro setAddrWindow_display) auto
  have "pix (fold store_pixel cs ?p) = (\<lambda>(a, b). if nat x \<le> a \<and> a < nat x + nat dw \<and> nat y \<le> b \<and> b < nat y + nat dh
      then cs ! ((b - nat y) * nat dw + (a - nat x)) else pix p (a, b))"
  proof -
    have "nat (x + dw - 1) = nat x + nat dw - 1" "nat (y + dh - 1) = nat y + nat dh - 1" using x by auto
    then show ?thesis using store_image [of ?p "nat dw" "nat dh" cs] x l by (simp cong: if_cong)
  qed
  also have "\<dots> = (\<lambda>(a, b). if x \<le> int a \<and> int a < x + dw \<and> y \<le> int b \<and> int b < y + dh
      then cs ! (nat (int b - y) * nat dw + nat (int a - x)) else pix p (a, b))"
  proof -
    have "nat x \<le> a \<longleftrightarrow> x \<le> int a" "a < nat x + nat dw \<longleftrightarrow> int a < x + dw"
      "nat y \<le> b \<longleftrightarrow> y \<le> int b" "b < nat y + nat dh \<longleftrightarrow> int b < y + dh"
      "b - nat y = nat (int b - y)" "a - nat x = nat (int a - x)" for a b
      using x by linarith+
    then show ?thesis by (simp cong: if_cong)
  qed
  finally show ?thesis using win ws by simp
qed

lemma visible:
  assumes "0 \<le> x \<or> w \<le> m"
  shows "max 0 x \<le> a \<and> a < max 0 x + extent m x w \<longleftrightarrow> x \<le> a \<and> a < x + w \<and> 0 \<le> a \<and> a < m"
proof -
  have "max 0 x + extent m x w = min (x + w) m" unfolding extent_exact [OF assms] by simp
  then show ?thesis by (simp only: max.bounded_iff min_less_iff_conj) blast
qed

text \<open>The rows that are shown lie in the image; \<open>s\<close> is the distance of two rows.\<close>

lemma rows_in_image:
  assumes "s * unat h \<le> length data" "unat w \<le> s" "0 \<le> dx" "0 \<le> dy" "dx + dw \<le> uint w" "dy + dh \<le> uint h" "1 \<le> dw"
  shows "\<forall>r<nat dh. (nat dx + nat dy * s) + r * s + nat dw \<le> length data"
proof (intro allI impI)
  fix r assume r: "r < nat dh"
  have "unat h = nat (uint h)" "unat w = nat (uint w)" by (rule unat_eq_nat_uint)+
  then have hw: "Suc (nat dy + r) \<le> unat h" "nat dx + nat dw \<le> s" using r assms(2-7) by linarith+
  then have "Suc (nat dy + r) * s \<le> unat h * s" by (intro mult_le_mono1)
  moreover have "nat dy * s + (r * s + s) = Suc (nat dy + r) * s" by (simp add: add_mult_distrib)
  ultimately show "(nat dx + nat dy * s) + r * s + nat dw \<le> length data"
    using assms(1) hw(2) mult.commute [of s "unat h"] by linarith
qed

lemma nat_window: "0 \<le> x \<Longrightarrow> 0 \<le> d \<Longrightarrow> (nat x \<le> a \<and> a < nat x + nat d) = (x \<le> int a \<and> int a < x + d)"
  by auto

lemma nat_place: "nat (max 0 x) \<le> a \<Longrightarrow> nat (int a - x) = nat (max 0 (- x)) + (a - nat (max 0 x))"
  by (cases "0 \<le> x") auto

text \<open>
  Everything the painting of an image needs of the cropping: either nothing is visible, or the window, the part of
  the array that is read and the place of a visible pixel in it are right.
\<close>

lemma crop_visible:
  assumes t: "coherent t p" and c: "coord x" "coord y" and w: "uint w \<le> 0x7FFF" "uint h \<le> 0x7FFF"
    and exact: "0 \<le> x \<or> uint w \<le> uint (tft_width t)" "0 \<le> y \<or> uint h \<le> uint (tft_height t)"
    and data: "s * unat h \<le> length data" "unat w \<le> s"
  obtains "crop x y w h t = None" "rectangle x y (uint w) (uint h) \<inter> screen t = {}"
  | X Y dx dy dw dh where "crop x y w h t = Some (int X, int Y, int dx, int dy, int dw, int dh)" "1 \<le> dw" "1 \<le> dh"
      "X + dw \<le> 0x7FFF" "Y + dh \<le> 0x7FFF" "image_start (int dx) (int dy) w = dx + dy * unat w"
      "\<forall>r<dh. dx + dy * s + r * s + dw \<le> length data"
      "\<And>a b. (a, b) \<in> rectangle x y (uint w) (uint h) \<inter> screen t \<longleftrightarrow> X \<le> a \<and> a < X + dw \<and> Y \<le> b \<and> b < Y + dh"
      "\<And>a b. X \<le> a \<Longrightarrow> Y \<le> b \<Longrightarrow> nat (int b - y) * s + nat (int a - x) = dx + dy * s + (b - Y) * s + (a - X)"
      "dx + dw \<le> unat w" "dy + dh \<le> unat h"
proof -
  define dw where "dw = extent (uint (tft_width t)) x (uint w)"
  define dh where "dh = extent (uint (tft_height t)) y (uint h)"
  let ?X = "nat (max 0 x)" and ?Y = "nat (max 0 y)" and ?dx = "nat (max 0 (- x))" and ?dy = "nat (max 0 (- y))"
  note size = coherent_size [OF t]
  note ext = extent_exact [OF exact(1), folded dw_def] extent_exact [OF exact(2), folded dh_def]
  have vis: "(a, b) \<in> rectangle x y (uint w) (uint h) \<inter> screen t \<longleftrightarrow>
      max 0 x \<le> int a \<and> int a < max 0 x + dw \<and> max 0 y \<le> int b \<and> int b < max 0 y + dh" for a b
    using visible [OF exact(1), of "int a"] visible [OF exact(2), of "int b"]
    unfolding rectangle_def screen_def dw_def dh_def by auto
  show thesis
  proof (cases "uint (tft_width t) \<le> x \<or> uint (tft_height t) \<le> y \<or> dw < 1 \<or> dh < 1")
    case True
    then have "crop x y w h t = None" using crop_window [OF t c w] by (auto simp: dw_def dh_def)
    moreover have "\<not> (max 0 x \<le> int a \<and> int a < max 0 x + dw \<and> max 0 y \<le> int b \<and> int b < max 0 y + dh)" for a b
      using True size ext by auto
    then have "rectangle x y (uint w) (uint h) \<inter> screen t = {}" using vis by auto
    ultimately show thesis by (rule that(1))
  next
    case False
    have bounds: "max 0 x + dw \<le> 0x7FFF" "max 0 y + dh \<le> 0x7FFF"
      using ext size(2,4) min.cobounded2 [of "x + uint w" "uint (tft_width t)"] min.cobounded2 [of "y + uint h" "uint (tft_height t)"]
      by linarith+
    have r: "max 0 (- x) + dw \<le> uint w" "max 0 (- y) + dh \<le> uint h" using ext by auto
    have pos: "int (nat dw) = dw" "int (nat dh) = dh" "int ?X = max 0 x" "int ?Y = max 0 y" "int ?dx = max 0 (- x)" "int ?dy = max 0 (- y)"
      using False by simp_all
    have "crop x y w h t = Some (int ?X, int ?Y, int ?dx, int ?dy, int (nat dw), int (nat dh))"
      unfolding pos using crop_window [OF t c w] False by (simp add: dw_def dh_def)
    moreover have "image_start (int ?dx) (int ?dy) w = ?dx + ?dy * unat w"
      unfolding pos using r False w by (intro image_start_nat) auto
    moreover have "\<forall>r<nat dh. ?dx + ?dy * s + r * s + nat dw \<le> length data"
      using rows_in_image [OF data _ _ r] False by simp
    moreover have "(a, b) \<in> rectangle x y (uint w) (uint h) \<inter> screen t \<longleftrightarrow>
        ?X \<le> a \<and> a < ?X + nat dw \<and> ?Y \<le> b \<and> b < ?Y + nat dh" for a b
    proof -
      have "(?X \<le> a \<and> a < ?X + nat dw) = (max 0 x \<le> int a \<and> int a < max 0 x + dw)"
        "(?Y \<le> b \<and> b < ?Y + nat dh) = (max 0 y \<le> int b \<and> int b < max 0 y + dh)"
        by (rule nat_window; use False in simp)+
      then show ?thesis unfolding vis by blast
    qed
    moreover have "nat (int b - y) * s + nat (int a - x) = ?dx + ?dy * s + (b - ?Y) * s + (a - ?X)"
      if "?X \<le> a" "?Y \<le> b" for a b
    proof -
      have "nat (int a - x) = ?dx + (a - ?X)" "nat (int b - y) = ?dy + (b - ?Y)"
        by (rule nat_place [OF that(1)], rule nat_place [OF that(2)])
      then show ?thesis by (simp only: add_mult_distrib add_ac)
    qed
    moreover have "?dx + nat dw \<le> unat w" "?dy + nat dh \<le> unat h"
      using r False unfolding unat_eq_nat_uint by linarith+
    moreover have "1 \<le> nat dw" "1 \<le> nat dh" "?X + nat dw \<le> 0x7FFF" "?Y + nat dh \<le> 0x7FFF" using False bounds by auto
    ultimately show thesis by (intro that(2))
  qed
qed

text \<open>The rows that fill the window show the image; \<open>off\<close> is the place of the first visible pixel in it.\<close>

lemma push_rows_paints:
  assumes t: "coherent t p" and d: "1 \<le> dw" "1 \<le> dh" "X + dw \<le> 0x7FFF" "Y + dh \<le> 0x7FFF"
    and rows: "\<forall>r<dh. off + r * unat w + dw \<le> length data"
  defines "win \<equiv> setAddrWindow (int X) (int Y) (int X + int dw - 1) (int Y + int dh - 1) t"
  obtains ws where "push_rows data off w dw swap dh = Some ws" "driven t (fst win) (display (snd win @ ws) p)"
    "pix (display (snd win @ ws) p) = (\<lambda>(a, b). if X \<le> a \<and> a < X + dw \<and> Y \<le> b \<and> b < Y + dh
       then shown swap (data ! (off + (b - Y) * unat w + (a - X))) else pix p (a, b))"
proof -
  let ?rows = "image_rows data off (unat w) dw dh"
  obtain ws where ws: "push_rows data off w dw swap dh = Some ws"
    "\<forall>q. reg q = TFT_RAMWR \<longrightarrow> display ws q = fold store_pixel (map (shown swap) ?rows) q"
    using push_rows_display [OF rows] by blast
  have len: "length ?rows = dh * dw" by (rule image_rows_length [OF rows])
  have "pix (display (snd win @ ws) p) = (\<lambda>(a, b). if int X \<le> int a \<and> int a < int X + int dw \<and> int Y \<le> int b \<and> int b < int Y + int dh
    then map (shown swap) ?rows ! (nat (int b - int Y) * nat (int dw) + nat (int a - int X)) else pix p (a, b))"
    unfolding win_def using d len by (intro window_image [OF t _ _ _ _ _ _ _ ws(2)]) auto
  moreover have "map (shown swap) ?rows ! (nat (int b - int Y) * nat (int dw) + nat (int a - int X)) =
      shown swap (data ! (off + (b - Y) * unat w + (a - X)))"
    if "X \<le> a" "a < X + dw" "Y \<le> b" "b < Y + dh" for a b
  proof -
    have rc: "b - Y < dh" "a - X < dw" using that by auto
    then have "Suc (b - Y) * dw \<le> dh * dw" by (intro mult_le_mono1 Suc_leI)
    then have "(b - Y) * dw + (a - X) < dh * dw" using rc(2) unfolding mult_Suc by linarith
    then show ?thesis using that image_rows_nth [OF rows rc] len by (simp add: nat_diff_distrib)
  qed
  ultimately have "pix (display (snd win @ ws) p) = (\<lambda>(a, b). if X \<le> a \<and> a < X + dw \<and> Y \<le> b \<and> b < Y + dh
       then shown swap (data ! (off + (b - Y) * unat w + (a - X))) else pix p (a, b))"
    by (auto simp: fun_eq_iff)
  then show thesis using that ws(1) driven_setAddrWindow [OF t] unfolding win_def by blast
qed

lemma pushImage_visible:
  assumes t: "coherent t p" and c: "coord x" "coord y" and w: "uint w \<le> 0x7FFF" "uint h \<le> 0x7FFF"
    and exact: "0 \<le> x \<or> uint w \<le> uint (tft_width t)" "0 \<le> y \<or> uint h \<le> uint (tft_height t)"
    and data: "unat w * unat h \<le> length data"
  shows "\<exists>t' ws. pushImage swapBytes x y w h data t = Some (t', ws) \<and> driven t t' (display ws p) \<and>
    pix (display ws p) = (\<lambda>(a, b). if (a, b) \<in> rectangle x y (uint w) (uint h) \<inter> screen t
      then shown swapBytes (data ! (nat (int b - y) * unat w + nat (int a - x))) else pix p (a, b))"
proof (rule crop_visible [OF assms order_refl])
  assume "crop x y w h t = None" "rectangle x y (uint w) (uint h) \<inter> screen t = {}"
  then show ?thesis using t by (auto simp: pushImage_def driven_def fun_eq_iff)
next
  fix X Y dx dy dw dh
  assume crop: "crop x y w h t = Some (int X, int Y, int dx, int dy, int dw, int dh)" and d: "1 \<le> dw" "1 \<le> dh"
    "X + dw \<le> 0x7FFF" "Y + dh \<le> 0x7FFF" and start: "image_start (int dx) (int dy) w = dx + dy * unat w"
    and rows: "\<forall>r<dh. dx + dy * unat w + r * unat w + dw \<le> length data"
    and vis: "\<And>a b. (a, b) \<in> rectangle x y (uint w) (uint h) \<inter> screen t \<longleftrightarrow> X \<le> a \<and> a < X + dw \<and> Y \<le> b \<and> b < Y + dh"
    and place: "\<And>a b. X \<le> a \<Longrightarrow> Y \<le> b \<Longrightarrow> nat (int b - y) * unat w + nat (int a - x) = dx + dy * unat w + (b - Y) * unat w + (a - X)"
  let ?set = "setAddrWindow (int X) (int Y) (int X + int dw - 1) (int Y + int dh - 1) t"
  obtain ws where ws: "push_rows data (dx + dy * unat w) w dw swapBytes dh = Some ws"
    "driven t (fst ?set) (display (snd ?set @ ws) p)"
    "pix (display (snd ?set @ ws) p) = (\<lambda>(a, b). if X \<le> a \<and> a < X + dw \<and> Y \<le> b \<and> b < Y + dh
       then shown swapBytes (data ! (dx + dy * unat w + (b - Y) * unat w + (a - X))) else pix p (a, b))"
    by (rule push_rows_paints [OF t d rows])
  have "pushImage swapBytes x y w h data t = Some (fst ?set, snd ?set @ ws)"
    using crop start ws(1) by (simp add: pushImage_def split: prod.split)
  moreover have "pix (display (snd ?set @ ws) p) = (\<lambda>(a, b). if (a, b) \<in> rectangle x y (uint w) (uint h) \<inter> screen t
      then shown swapBytes (data ! (nat (int b - y) * unat w + nat (int a - x))) else pix p (a, b))"
    unfolding ws(3) vis using place by (auto simp: fun_eq_iff)
  ultimately show ?thesis using ws(2) by blast
qed

text \<open>
  C30.  An image that starts on the screen, or is no larger than it, is painted pixel by pixel where it is visible,
  and nothing else is; the array is read within its bounds.
\<close>
theorem pushImage_paints:
  assumes t: "coherent t p" and c: "coord x" "coord y" and w: "uint w \<le> 0x7FFF" "uint h \<le> 0x7FFF"
    and exact: "0 \<le> x \<or> uint w \<le> uint (tft_width t)" "0 \<le> y \<or> uint h \<le> uint (tft_height t)"
    and data: "unat w * unat h \<le> length data"
  shows "\<exists>t' ws. pushImage swapBytes x y w h data t = Some (t', ws) \<and> driven t t' (display ws p) \<and>
    pix (display ws p) = (\<lambda>(a, b). if (a, b) \<in> rectangle x y (uint w) (uint h) \<inter> screen t
      then shown swapBytes (data ! (nat (int b - y) * unat w + nat (int a - x))) else pix p (a, b))"
  by (rule pushImage_visible [OF assms])

lemma pushImage_paints_witness:
  "\<exists>t' ws. pushImage True (- 1) 2 2 1 [0xF800, 0x07E0] fresh_tft = Some (t', ws) \<and> pix (display ws blank_panel) (0, 2) = 0x07E0 \<and>
     pix (display ws blank_panel) (1, 2) = 0"
proof -
  obtain t' ws where r: "pushImage True (- 1) 2 2 1 [0xF800, 0x07E0] fresh_tft = Some (t', ws)"
    "pix (display ws blank_panel) = (\<lambda>(a, b). if (a, b) \<in> rectangle (- 1) 2 (uint (2 :: u32)) (uint (1 :: u32)) \<inter> screen fresh_tft
      then shown True ([0xF800, 0x07E0] ! (nat (int b - 2) * unat (2 :: u32) + nat (int a - (- 1)))) else pix blank_panel (a, b))"
    using pushImage_paints [OF fresh_coherent, of "- 1" 2 2 1 "[0xF800, 0x07E0]" True] by (auto simp: coord_def fresh_tft_def)
  have "pix (display ws blank_panel) (0, 2) = 0x07E0" "pix (display ws blank_panel) (1, 2) = pix blank_panel (1, 2)"
    unfolding r(2) by (simp_all add: rectangle_def screen_def fresh_tft_def shown_def)
  then show ?thesis using r(1) by (auto simp: blank_panel_def)
qed

section \<open>An image wider than the screen\<close>

lemma push_rows_faults:
  "r < dh \<Longrightarrow> length data < off + r * unat w + dw \<Longrightarrow> push_rows data off w dw swap dh = None"
proof (induction dh arbitrary: off r)
  case (Suc dh)
  show ?case
  proof (cases r)
    case 0
    then show ?thesis using Suc.prems by (simp add: mem_read_def)
  next
    case (Suc r')
    then have "push_rows data (off + unat w) w dw swap dh = None"
      using Suc.prems by (intro Suc.IH [of r']) auto
    then show ?thesis by (auto split: Option.bind_split)
  qed
qed simp

text \<open>
  C34.  The cropping compares the screen with the width before it has subtracted what lies left of the screen: an
  image wider than the screen that starts left of it and ends on it is shown over the whole width, and the rows
  are read past their ends, the last one past the end of the array.
\<close>
theorem pushImage_overreads:
  assumes t: "coherent t p" and c: "coord x" "coord y" and w: "uint w \<le> 0x7FFF" "uint h \<le> 0x7FFF"
    and x: "x < 0" "- x < uint w" "uint (tft_width t) < uint w" "x + uint w < uint (tft_width t)"
    and y: "0 \<le> y" "1 \<le> uint h" "y + uint h \<le> uint (tft_height t)"
    and data: "length data = unat w * unat h"
  shows "pushImage swapBytes x y w h data t = None"
proof -
  note size = coherent_size [OF t]
  have e: "extent (uint (tft_width t)) x (uint w) = uint (tft_width t)" "extent (uint (tft_height t)) y (uint h) = uint h"
    using x y by (auto simp: extent_def)
  have crop: "crop x y w h t = Some (0, y, - x, 0, uint (tft_width t), uint h)"
    using crop_window [OF t c w] x y size unfolding e by simp
  have off: "image_start (- x) 0 w = nat (- x)"
    using image_start_nat [of "- x" 0 w] x w by simp
  have W: "unat w = nat (uint w)" by (rule unat_eq_nat_uint)
  obtain k where k: "unat h = Suc k" using y(2) by (cases "unat h") (auto simp: unat_eq_zero)
  have "unat w < nat (- x) + nat (uint (tft_width t))" using W x size by linarith
  then have "length data < nat (- x) + k * unat w + nat (uint (tft_width t))"
    unfolding data k mult_Suc_right by (simp add: mult.commute)
  then have "push_rows data (image_start (- x) 0 w) w (nat (uint (tft_width t))) swapBytes (nat (uint h)) = None"
    unfolding off by (intro push_rows_faults [of k]) (use k in \<open>simp_all add: unat_eq_nat_uint [symmetric]\<close>)
  then show ?thesis using crop by (simp add: pushImage_def split: prod.split)
qed

lemma pushImage_overreads_witness: "pushImage True (- 10) 0 325 1 (replicate 325 0) fresh_tft = None"
  using pushImage_overreads [OF fresh_coherent, of "- 10" 0 325 1 "replicate 325 0" True]
  by (simp add: coord_def fresh_tft_def)

section \<open>8-bit images\<close>

lemma u8_bits_pixel: "bswap16 (le_pair (msb_of c) (lsb_of c)) = color8to16 c"
proof -
  have "list_all (\<lambda>c. bswap16 (le_pair (msb_of c) (lsb_of c)) = color8to16 c) all_bytes" by code_simp
  then show ?thesis by (rule list_all_bytes)
qed

text \<open>The cache holds the conversion of the colour it names.\<close>

definition cache_ok :: "cache \<Rightarrow> bool" where
  "cache_ok st \<longleftrightarrow> (case st of (lastColor, msb, lsb) \<Rightarrow> \<forall>c. uint c = lastColor \<longrightarrow> msb = msb_of c \<and> lsb = lsb_of c)"

lemma cache_start: "cache_ok (- 1, 0, 0)"
proof -
  have "uint (c :: u8) \<noteq> - 1" for c using uint_ge_0 [of c] by linarith
  then show ?thesis by (simp add: cache_ok_def)
qed

lemma convert_cached:
  assumes "cache_ok st"
  shows "cache_ok (convert c st)" "bswap16 (cached_pixel (convert c st)) = color8to16 c"
  using assms u8_bits_pixel [of c] by (auto simp: convert_def cache_ok_def cached_pixel_def simp flip: word_uint_eq_iff split: prod.splits)

lemma convert_line_colors:
  "cache_ok st \<Longrightarrow> map bswap16 (fst (convert_line cs st)) = map color8to16 cs \<and> cache_ok (snd (convert_line cs st))"
proof (induction cs arbitrary: st)
  case (Cons c cs)
  then show ?case using Cons.IH [of "convert c st"] convert_cached [OF Cons.prems, of c]
    by (cases "convert_line cs (convert c st)") (simp add: Let_def)
qed simp

lemma mem_read_map: "mem_read (map f m) i n = map_option (map f) (mem_read m i n)"
  by (simp add: mem_read_def take_map drop_map)

lemma push_rows8_colors:
  "cache_ok st \<Longrightarrow> push_rows8 data off w dw dh st = push_rows (map color8to16 data) off w dw True dh"
proof (induction dh arbitrary: off st)
  case (Suc dh)
  show ?case
  proof (cases "mem_read data off dw")
    case (Some row)
    obtain ps st' where c: "convert_line row st = (ps, st')" by (metis surj_pair)
    then have "map bswap16 ps = map color8to16 row" "cache_ok st'"
      using convert_line_colors [OF Suc.prems, of row] by simp_all
    then show ?thesis using Some c Suc.IH by (simp add: mem_read_map pushColors_def)
  qed (simp add: mem_read_map)
qed simp

lemma color8to16_eq: "color8to16 c = color8to16 d \<longleftrightarrow> c = d"
  using colour_roundtrip [of c] colour_roundtrip [of d] by metis

lemma transp_line8_colors:
  assumes "cache_ok st"
  shows "case transp_line8 tcol xe y ye cs px move buf st t of (t', ws, st') \<Rightarrow>
     transp_line True (color8to16 tcol) xe y ye (map color8to16 cs) px move (map bswap16 buf) t = (t', ws) \<and> cache_ok st'"
  using assms
proof (induction cs arbitrary: px move buf st t)
  case Nil
  then show ?case by (simp add: pushColors_def)
next
  case (Cons c cs)
  show ?case
  proof (cases "tcol = c")
    case True
    then show ?thesis using Cons.IH [OF Cons.prems, of "px + 1" True "[]" t]
      by (auto simp: pushColors_def split: prod.splits)
  next
    case False
    obtain t1 ws1 where m: "(if move then setAddrWindow px y xe ye t else (t, [])) = (t1, ws1)" by (metis surj_pair)
    show ?thesis
      using False m convert_cached [OF Cons.prems, of c]
        Cons.IH [OF convert_cached(1) [OF Cons.prems, of c], of "px + 1" False "buf @ [cached_pixel (convert c st)]" t1]
      by (auto simp: color8to16_eq Let_def split: prod.splits)
  qed
qed

lemma transp_rows8_colors:
  "cache_ok st \<Longrightarrow> transp_rows8 tcol xe ye data off w dw x y dh st t =
     transp_rows True (color8to16 tcol) xe ye (map color8to16 data) off w dw x y dh t"
proof (induction dh arbitrary: off st t y)
  case (Suc dh)
  show ?case
  proof (cases "mem_read data off dw")
    case (Some row)
    obtain t' ws st' where l: "transp_line8 tcol xe y ye row x True [] st t = (t', ws, st')" by (metis prod_cases3)
    then have "transp_line True (color8to16 tcol) xe y ye (map color8to16 row) x True [] t = (t', ws)" "cache_ok st'"
      using transp_line8_colors [OF Suc.prems, of tcol xe y ye row x True "[]" t] by simp_all
    then show ?thesis using Some l Suc.IH by (simp add: mem_read_map)
  qed (simp add: mem_read_map)
qed simp

lemma pushImage8_colors:
  "pushImage8 fg bg x y w h data True t = pushImage True x y w h (map color8to16 data) t \<and>
   pushImage8_transp fg x y w h data tcol True t = pushImage_transp True x y w h (map color8to16 data) (color8to16 tcol) t"
  by (auto simp: pushImage8_def pushImage_def pushImage8_transp_def pushImage_transp_def push_rows8_colors [OF cache_start]
      transp_rows8_colors [OF cache_start] split: option.split)

text \<open>
  C32.  An 8-bit image is shown like the 16-bit image of its widened colours, with and without a transparent
  colour: the shortcut for repeated colours and the byte order of its line buffer make no difference.
\<close>
theorem pushImage8_widens:
  "pushImage8 fg bg x y w h data True t = pushImage True x y w h (map color8to16 data) t \<and>
   pushImage8_transp fg x y w h data tcol True t = pushImage_transp True x y w h (map color8to16 data) (color8to16 tcol) t"
  by (rule pushImage8_colors)

section \<open>Images with a transparent colour\<close>

lemma coherent_window_fields:
  "coherent t p \<Longrightarrow> sc q = sc p \<Longrightarrow> ec q = ec p \<Longrightarrow> sp q = sp p \<Longrightarrow> ep q = ep p \<Longrightarrow> coherent t q"
  by (simp add: coherent_def)

lemma store_run:
  assumes "ptr_x p = sc p" "ptr_y p = sp p" "sc p + length cs \<le> Suc (ec p)" "sp p \<le> ep p" "cs \<noteq> []"
  shows "pix (fold store_pixel cs p) = (\<lambda>(a, b).
    if b = sp p \<and> sc p \<le> a \<and> a < sc p + length cs then cs ! (a - sc p) else pix p (a, b))"
proof -
  define w where "w = Suc (ec p) - sc p"
  define h where "h = Suc (ep p) - sp p"
  have "0 < length cs" using assms(5) by simp
  then have w: "length cs \<le> w" "0 < w" "ec p = sc p + w - 1" "ep p = sp p + h - 1" "0 < h"
    using assms(3,4) unfolding w_def h_def by linarith+
  then have "w * 1 \<le> w * h" by (intro mult_le_mono2) simp
  then have "length cs \<le> w * h" using w(1) by (metis le_trans mult.right_neutral)
  note s = store_window [OF assms(1,2) w(3,4,2) this, THEN conjunct1]
  have i: "(sc p \<le> a \<and> a < sc p + w \<and> sp p \<le> b \<and> (b - sp p) * w + (a - sc p) < length cs) \<longleftrightarrow>
      (b = sp p \<and> sc p \<le> a \<and> a < sc p + length cs)" for a b
  proof (cases "b \<le> sp p")
    case False
    then have "1 * w \<le> (b - sp p) * w" by (intro mult_le_mono1) simp
    then have "\<not> (b - sp p) * w + (a - sc p) < length cs" using w(1) by linarith
    then show ?thesis using False by auto
  qed (use w(1) in auto)
  show ?thesis unfolding s i by (auto simp: fun_eq_iff)
qed

text \<open>The state in the middle of a line: what is in the buffer belongs just before the current column.\<close>

definition pending :: "bool \<Rightarrow> 'a list \<Rightarrow> nat \<Rightarrow> nat \<Rightarrow> nat \<Rightarrow> nat \<Rightarrow> Panel \<Rightarrow> bool" where
  "pending move buf px xe y ye p \<longleftrightarrow>
     (if move then buf = []
      else buf \<noteq> [] \<and> length buf \<le> px \<and> reg p = TFT_RAMWR \<and> sc p = px - length buf \<and> ec p = xe \<and> sp p = y \<and> ep p = ye \<and>
        ptr_x p = sc p \<and> ptr_y p = sp p)"

definition run_shown :: "bool \<Rightarrow> u16 \<Rightarrow> u16 list \<Rightarrow> u16 list \<Rightarrow> nat \<Rightarrow> nat \<Rightarrow> nat \<times> nat \<Rightarrow> u16 option" where
  "run_shown swap tcol buf cs px y xy = (case xy of (a, b) \<Rightarrow>
     if b = y \<and> px - length buf \<le> a \<and> a < px then Some (shown swap (buf ! (a - (px - length buf))))
     else if b = y \<and> px \<le> a \<and> a < px + length cs \<and> cs ! (a - px) \<noteq> tcol then Some (shown swap (cs ! (a - px)))
     else None)"

lemma flush_display:
  fixes swap :: bool
  assumes "pending move buf px xe y ye p" "px \<le> Suc xe" "y \<le> ye" "coherent t p"
  defines "q \<equiv> display (if buf \<noteq> [] then pushColors buf swap else []) p"
  shows "coherent t q" "pix q = (\<lambda>xy. case run_shown swap tcol buf [] px y xy of Some c \<Rightarrow> c | None \<Rightarrow> pix p xy)"
proof -
  show "coherent t q"
    using assms(1,4) unfolding q_def
    by (auto simp: pushColors_shown pending_def split: if_splits intro: coherent_window_fields)
  show "pix q = (\<lambda>xy. case run_shown swap tcol buf [] px y xy of Some c \<Rightarrow> c | None \<Rightarrow> pix p xy)"
  proof (cases "buf = []")
    case True
    then show ?thesis by (auto simp: q_def run_shown_def fun_eq_iff)
  next
    case False
    then have p: "length buf \<le> px" "reg p = TFT_RAMWR" "sc p = px - length buf" "ec p = xe" "sp p = y" "ep p = ye"
      "ptr_x p = sc p" "ptr_y p = sp p"
      using assms(1) by (auto simp: pending_def split: if_splits)
    have "q = fold store_pixel (map (shown swap) buf) p" using False p(2) by (simp add: q_def pushColors_shown)
    then show ?thesis
      using store_run [of p "map (shown swap) buf"] p assms(2,3) False
      by (auto simp: run_shown_def fun_eq_iff)
  qed
qed

lemma run_shown_skip:
  "run_shown swap tcol buf (tcol # cs) px y xy =
     (case run_shown swap tcol [] cs (Suc px) y xy of Some c \<Rightarrow> Some c | None \<Rightarrow> run_shown swap tcol buf [] px y xy)"
  by (cases xy) (auto simp: run_shown_def nth_Cons' le_Suc_eq Suc_diff_le)

lemma run_shown_take:
  "c \<noteq> tcol \<Longrightarrow> length buf \<le> px \<Longrightarrow> run_shown swap tcol buf (c # cs) px y = run_shown swap tcol (buf @ [c]) cs (Suc px) y"
  by (rule ext) (auto simp: run_shown_def nth_append nth_Cons' Suc_diff_le less_Suc_eq)

lemma transp_line_display:
  assumes "coherent t p" "pending move buf px xe y ye p" "px + length cs = Suc xe" "y \<le> ye" "xe \<le> 0x7FFF" "ye \<le> 0x7FFF"
  shows "case transp_line swap tcol (int xe) (int y) (int ye) cs (int px) move buf t of (t', ws) \<Rightarrow>
     driven t t' (display ws p) \<and>
     pix (display ws p) = (\<lambda>xy. case run_shown swap tcol buf cs px y xy of Some c \<Rightarrow> c | None \<Rightarrow> pix p xy)"
  using assms(1-3)
proof (induction cs arbitrary: px move buf t p)
  case Nil
  then show ?case
    using flush_display(1) [of move buf px xe y ye p t swap] flush_display(2) [of move buf px xe y ye p t swap tcol] assms(4)
    by (simp add: driven_def)
next
  case (Cons c cs)
  show ?case
  proof (cases "tcol = c")
    case True
    let ?q = "display (if buf \<noteq> [] then pushColors buf swap else []) p"
    have q: "coherent t ?q" "pix ?q = (\<lambda>xy. case run_shown swap tcol buf [] px y xy of Some c \<Rightarrow> c | None \<Rightarrow> pix p xy)"
      using flush_display(1) [of move buf px xe y ye p t swap] flush_display(2) [of move buf px xe y ye p t swap tcol]
        Cons.prems assms(4) by auto
    obtain t' ws where l: "transp_line swap tcol (int xe) (int y) (int ye) cs (int (Suc px)) True [] t = (t', ws)"
      by (metis surj_pair)
    have "driven t t' (display ws ?q) \<and>
        pix (display ws ?q) = (\<lambda>xy. case run_shown swap tcol [] cs (Suc px) y xy of Some c \<Rightarrow> c | None \<Rightarrow> pix ?q xy)"
      using Cons.IH [OF q(1), of True "[]" "Suc px"] Cons.prems(3) l by (simp add: pending_def)
    moreover have "transp_line swap tcol (int xe) (int y) (int ye) (c # cs) (int px) move buf t =
        (t', (if buf \<noteq> [] then pushColors buf swap else []) @ ws)"
      using True l by (simp add: add.commute)
    ultimately show ?thesis
      using True unfolding q(2) by (auto simp: run_shown_skip fun_eq_iff split: option.splits)
  next
    case False
    let ?set = "setAddrWindow (int px) (int y) (int xe) (int ye) t"
    obtain t1 ws1 where m: "(if move then ?set else (t, [])) = (t1, ws1)" by (metis surj_pair)
    let ?q = "display ws1 p"
    have q: "driven t t1 ?q \<and> pending False (buf @ [c]) (Suc px) xe y ye ?q \<and> pix ?q = pix p \<and> length buf \<le> px"
    proof (cases move)
      case True
      then have "buf = []" using Cons.prems(2) by (simp add: pending_def)
      moreover have "display (snd ?set) p = p\<lparr>sc := px, ec := xe, sp := y, ep := ye, ptr_x := px, ptr_y := y, reg := TFT_RAMWR\<rparr>"
        using setAddrWindow_display [of "int px" "int xe" "int y" "int ye" t p] Cons.prems(3) assms(4-6) by simp
      ultimately show ?thesis
        using True m driven_setAddrWindow [OF Cons.prems(1), of "int px" "int y" "int xe" "int ye" ?q]
        by (cases ?set) (auto simp: pending_def)
    next
      case False
      then show ?thesis using m Cons.prems(1,2) by (auto simp: pending_def driven_def)
    qed
    obtain t' ws where l: "transp_line swap tcol (int xe) (int y) (int ye) cs (int (Suc px)) False (buf @ [c]) t1 = (t', ws)"
      by (metis surj_pair)
    have "driven t1 t' (display ws ?q) \<and>
        pix (display ws ?q) = (\<lambda>xy. case run_shown swap tcol (buf @ [c]) cs (Suc px) y xy of Some c \<Rightarrow> c | None \<Rightarrow> pix ?q xy)"
      using Cons.IH [of t1 ?q False "buf @ [c]" "Suc px"] q Cons.prems(3) l by (simp add: driven_def)
    moreover have "transp_line swap tcol (int xe) (int y) (int ye) (c # cs) (int px) move buf t = (t', ws1 @ ws)"
      using False m l by (simp add: add.commute)
    ultimately show ?thesis
      using False q by (auto simp: run_shown_take driven_def cong: option.case_cong)
  qed
qed

lemma transp_rows_display:
  assumes "coherent t p" "\<forall>r<dh. off + r * unat w + dw \<le> length data" "x + dw = Suc xe" "y + dh = Suc ye" "xe \<le> 0x7FFF" "ye \<le> 0x7FFF"
  shows "\<exists>t' ws. transp_rows swap tcol (int xe) (int ye) data off w dw (int x) (int y) dh t = Some (t', ws) \<and>
     driven t t' (display ws p) \<and>
     pix (display ws p) = (\<lambda>(a, b). let c = data ! (off + (b - y) * unat w + (a - x)) in
       if x \<le> a \<and> a < x + dw \<and> y \<le> b \<and> b < y + dh \<and> c \<noteq> tcol then shown swap c else pix p (a, b))"
  using assms(1,2,4)
proof (induction dh arbitrary: off y t p)
  case 0
  then show ?case by (auto simp: driven_def fun_eq_iff Let_def)
next
  case (Suc dh)
  have off: "off + dw \<le> length data" using Suc.prems(2) by (metis add_0_right mult_0 zero_less_Suc)
  obtain row where row: "mem_read data off dw = Some row" "length row = dw" "\<And>i. i < dw \<Longrightarrow> row ! i = data ! (off + i)"
    using off by (simp add: cmem)
  have rows: "\<forall>r<dh. (off + unat w) + r * unat w + dw \<le> length data"
    using Suc.prems(2) by (metis add.assoc add.commute mult_Suc Suc_mono)
  obtain t1 ws1 where l: "transp_line swap tcol (int xe) (int y) (int ye) row (int x) True [] t = (t1, ws1)" by (metis surj_pair)
  let ?q = "display ws1 p"
  have line: "driven t t1 ?q" "pix ?q = (\<lambda>xy. case run_shown swap tcol [] row x y xy of Some c \<Rightarrow> c | None \<Rightarrow> pix p xy)"
    using transp_line_display [OF Suc.prems(1), of True "[]" x xe y ye row swap tcol] l row(2) assms(3,5,6) Suc.prems(3)
    by (simp_all add: pending_def)
  obtain t' ws where IH: "transp_rows swap tcol (int xe) (int ye) data (off + unat w) w dw (int x) (int (Suc y)) dh t1 = Some (t', ws)"
    "driven t1 t' (display ws ?q)"
    "pix (display ws ?q) = (\<lambda>(a, b). let c = data ! (off + unat w + (b - Suc y) * unat w + (a - x)) in
       if x \<le> a \<and> a < x + dw \<and> Suc y \<le> b \<and> b < Suc y + dh \<and> c \<noteq> tcol then shown swap c else pix ?q (a, b))"
    using Suc.IH [OF _ rows, of t1 ?q "Suc y"] line(1) Suc.prems(3) by (auto simp: driven_def)
  have "transp_rows swap tcol (int xe) (int ye) data off w dw (int x) (int y) (Suc dh) t = Some (t', ws1 @ ws)"
    using row(1) l IH(1) by (simp add: add.commute)
  moreover have "driven t t' (display (ws1 @ ws) p)" using line(1) IH(2) by (simp add: driven_def)
  moreover have "pix (display (ws1 @ ws) p) (a, b) = (let c = data ! (off + (b - y) * unat w + (a - x)) in
       if x \<le> a \<and> a < x + dw \<and> y \<le> b \<and> b < y + Suc dh \<and> c \<noteq> tcol then shown swap c else pix p (a, b))" for a b
  proof (cases "b \<le> y")
    case True
    have "row ! (a - x) = data ! (off + (a - x))" if "x \<le> a" "a < x + dw" using that row(3) [of "a - x"] by auto
    then show ?thesis
      using True unfolding display_simps IH(3) line(2) by (auto simp: run_shown_def Let_def row(2))
  next
    case False
    then have "b - y = Suc (b - Suc y)" by simp
    then have e: "off + (b - y) * unat w + k = off + unat w + (b - Suc y) * unat w + k" for k by simp
    have "run_shown swap tcol [] row x y (a, b) = None" using False by (simp add: run_shown_def)
    moreover obtain i where i: "a - x = i" by simp
    ultimately show ?thesis using False unfolding display_simps IH(3) line(2) e prod.case i by (simp add: Let_def)
  qed
  ultimately show ?case by (auto simp: fun_eq_iff)
qed

lemma bswap16_involution: "bswap16 (bswap16 c) = c"
proof (rule bit_word_eqI)
  fix n assume "n < LENGTH(16)"
  then show "bit (bswap16 (bswap16 c)) n = bit c n"
    using bit_imp_le_length [of c "n + 8"] bit_imp_le_length [of c "n + 8 - 16"]
    by (cases "n < 8") (auto simp: bswap16_def bit_simps)
qed

lemma shown_transparent: "shown swap c = tcol \<longleftrightarrow> c = (if \<not> swap then bswap16 tcol else tcol)"
  using bswap16_involution by (auto simp: shown_def)

text \<open>
  C31.  With a transparent colour, an image that starts on the screen or is no larger than it, in either direction,
  and has sides up to \<open>0x7FFF\<close> is painted where it is visible and its pixel has another colour, and everything else
  stays as it was; the array is read within its bounds.  The colour is given in the byte order of the display.
\<close>
theorem pushImage_transp_paints:
  assumes t: "coherent t p" and c: "coord x" "coord y" and w: "uint w \<le> 0x7FFF" "uint h \<le> 0x7FFF"
    and exact: "0 \<le> x \<or> uint w \<le> uint (tft_width t)" "0 \<le> y \<or> uint h \<le> uint (tft_height t)"
    and data: "unat w * unat h \<le> length data"
  shows "\<exists>t' ws. pushImage_transp swapBytes x y w h data tcol t = Some (t', ws) \<and> driven t t' (display ws p) \<and>
    pix (display ws p) = (\<lambda>(a, b). let c = shown swapBytes (data ! (nat (int b - y) * unat w + nat (int a - x))) in
      if (a, b) \<in> rectangle x y (uint w) (uint h) \<inter> screen t \<and> c \<noteq> tcol then c else pix p (a, b))"
proof (rule crop_visible [OF assms order_refl])
  assume "crop x y w h t = None" "rectangle x y (uint w) (uint h) \<inter> screen t = {}"
  then show ?thesis using t by (auto simp: pushImage_transp_def driven_def fun_eq_iff Let_def)
next
  fix X Y dx dy dw dh
  assume crop: "crop x y w h t = Some (int X, int Y, int dx, int dy, int dw, int dh)" and d: "1 \<le> dw" "1 \<le> dh"
    "X + dw \<le> 0x7FFF" "Y + dh \<le> 0x7FFF" and start: "image_start (int dx) (int dy) w = dx + dy * unat w"
    and rows: "\<forall>r<dh. dx + dy * unat w + r * unat w + dw \<le> length data"
    and vis: "\<And>a b. (a, b) \<in> rectangle x y (uint w) (uint h) \<inter> screen t \<longleftrightarrow> X \<le> a \<and> a < X + dw \<and> Y \<le> b \<and> b < Y + dh"
    and place: "\<And>a b. X \<le> a \<Longrightarrow> Y \<le> b \<Longrightarrow> nat (int b - y) * unat w + nat (int a - x) = dx + dy * unat w + (b - Y) * unat w + (a - X)"
  let ?tcol = "if \<not> swapBytes then bswap16 tcol else tcol"
  have e: "X + dw = Suc (X + dw - 1)" "Y + dh = Suc (Y + dh - 1)" "X + dw - 1 \<le> 0x7FFF" "Y + dh - 1 \<le> 0x7FFF"
    "int X + int dw - 1 = int (X + dw - 1)" "int Y + int dh - 1 = int (Y + dh - 1)"
    using d by simp_all
  obtain t' ws where r: "transp_rows swapBytes ?tcol (int (X + dw - 1)) (int (Y + dh - 1)) data (dx + dy * unat w) w dw (int X) (int Y) dh t = Some (t', ws)"
    "driven t t' (display ws p)"
    "pix (display ws p) = (\<lambda>(a, b). let c = data ! (dx + dy * unat w + (b - Y) * unat w + (a - X)) in
       if X \<le> a \<and> a < X + dw \<and> Y \<le> b \<and> b < Y + dh \<and> c \<noteq> ?tcol then shown swapBytes c else pix p (a, b))"
    using transp_rows_display [OF t rows e(1-4), of swapBytes ?tcol] by blast
  have "pushImage_transp swapBytes x y w h data tcol t = Some (t', ws)"
    using crop start r(1) by (simp only: pushImage_transp_def option.case prod.case e(5,6) nat_int)
  moreover have "pix (display ws p) = (\<lambda>(a, b). let c = shown swapBytes (data ! (nat (int b - y) * unat w + nat (int a - x))) in
      if (a, b) \<in> rectangle x y (uint w) (uint h) \<inter> screen t \<and> c \<noteq> tcol then c else pix p (a, b))"
    unfolding r(3) vis using place by (auto simp: fun_eq_iff Let_def shown_transparent)
  ultimately show ?thesis using r(2) by blast
qed

lemma pushImage_transp_paints_witness:
  "\<exists>t' ws. pushImage_transp True 318 0 3 1 [0xF800, 0x07E0, 0x001F] 0x07E0 fresh_tft = Some (t', ws) \<and>
     pix (display ws blank_panel) (318, 0) = 0xF800 \<and> pix (display ws blank_panel) (319, 0) = 0"
proof -
  obtain t' ws where r: "pushImage_transp True 318 0 3 1 [0xF800, 0x07E0, 0x001F] 0x07E0 fresh_tft = Some (t', ws)"
    "pix (display ws blank_panel) = (\<lambda>(a, b). let c = shown True ([0xF800, 0x07E0, 0x001F] ! (nat (int b - 0) * unat (3 :: u32) + nat (int a - 318))) in
      if (a, b) \<in> rectangle 318 0 (uint (3 :: u32)) (uint (1 :: u32)) \<inter> screen fresh_tft \<and> c \<noteq> 0x07E0 then c else pix blank_panel (a, b))"
    using pushImage_transp_paints [OF fresh_coherent, of 318 0 3 1 "[0xF800, 0x07E0, 0x001F]" True "0x07E0"]
    by (auto simp: coord_def fresh_tft_def)
  have "pix (display ws blank_panel) (318, 0) = 0xF800" "pix (display ws blank_panel) (319, 0) = pix blank_panel (319, 0)"
    unfolding r(2) by (simp_all add: rectangle_def screen_def fresh_tft_def shown_def)
  then show ?thesis using r(1) by (auto simp: blank_panel_def)
qed

section \<open>Images in flash\<close>

lemma those_snoc: "those (xs @ [x]) = Option.bind (those xs) (\<lambda>ys. map_option (\<lambda>y. ys @ [y]) x)"
proof (induction xs)
  case Nil
  show ?case by (cases x) simp_all
next
  case (Cons a xs)
  then show ?case by (cases a; cases "those xs"; cases x) simp_all
qed

lemma blocks_joined:
  "off + n * k \<le> length data \<Longrightarrow> those (map (\<lambda>i. mem_read data (off + i * k) k) [0..<n]) =
     Some (map (\<lambda>i. take k (drop (off + i * k) data)) [0..<n])"
proof (induction n)
  case (Suc n)
  then show ?case by (simp add: those_snoc cmem)
qed simp

lemma concat_blocks: "concat (map (\<lambda>i. take k (drop (off + i * k) data)) [0..<n]) = take (n * k) (drop off data)"
proof (induction n)
  case (Suc n)
  then show ?case using take_add [of "n * k" k "drop off data"] by (simp add: add.commute)
qed simp

lemma display_pushColors:
  "reg p = TFT_RAMWR \<Longrightarrow> display (concat (map (\<lambda>b. pushColors b swap) bs)) p = fold store_pixel (map (shown swap) (concat bs)) p"
  by (induction bs arbitrary: p) (simp_all add: pushColors_shown)

lemma rows_joined:
  "dx + dw \<le> w \<Longrightarrow> dy + dh \<le> h \<Longrightarrow> 1 \<le> dh \<Longrightarrow> dx + dy * w + dw * dh \<le> w * (h :: nat)"
proof -
  assume a: "dx + dw \<le> w" "dy + dh \<le> h" "1 \<le> dh"
  then have "dx * 1 \<le> dx * dh" by (intro mult_le_mono2) simp
  then have "dx + dw * dh \<le> (dx + dw) * dh" by (simp add: add_mult_distrib)
  also have "\<dots> \<le> w * dh" using a by (intro mult_le_mono1) simp
  finally have "dx + dy * w + dw * dh \<le> w * (dy + dh)" by (simp add: add_mult_distrib2 mult.commute)
  also have "\<dots> \<le> w * h" using a by (intro mult_le_mono2) simp
  finally show ?thesis .
qed

lemma window_fits: "max 0 (- x) + (min (x + w) m - max 0 x) \<le> (w :: int)" "min (x + w) m - max 0 x \<le> m"
proof -
  have "max 0 (- x) - max 0 x = - x" "0 \<le> max 0 x" by auto
  then show "max 0 (- x) + (min (x + w) m - max 0 x) \<le> w" "min (x + w) m - max 0 x \<le> m"
    using min.cobounded1 [of "x + w" m] min.cobounded2 [of "x + w" m] by linarith+
qed

text \<open>
  The routine for images in flash sends the array from the first visible pixel on without a break: it shows the
  image if its whole width is visible (\<open>v = uint w\<close>), and otherwise each row starts where the one before it ended.
\<close>
theorem pushImage_flash_paints:
  assumes t: "coherent t p" and c: "coord x" "coord y" and w: "uint w \<le> 0x7FFF" "uint h \<le> 0x7FFF"
    and exact: "0 \<le> x \<or> uint w \<le> uint (tft_width t)" "0 \<le> y \<or> uint h \<le> uint (tft_height t)"
    and data: "unat w * unat h \<le> length data" and small: "uint (tft_width t) * uint (tft_height t) < 2 ^ 22"
  defines "v \<equiv> min (x + uint w) (uint (tft_width t)) - max 0 x"
  shows "\<exists>t' ws. pushImage_flash swapBytes x y w h data t = Some (t', ws) \<and> driven t t' (display ws p) \<and>
    pix (display ws p) = (\<lambda>(a, b). if (a, b) \<in> rectangle x y (uint w) (uint h) \<inter> screen t
      then shown (\<not> swapBytes) (data ! (nat (max 0 (- y)) * unat w + nat (max 0 (- x)) + nat (int b - max 0 y) * nat v + nat (int a - max 0 x)))
      else pix p (a, b))"
proof (rule crop_visible [OF assms(1-7) data order_refl])
  assume "crop x y w h t = None" "rectangle x y (uint w) (uint h) \<inter> screen t = {}"
  then show ?thesis using t by (auto simp: pushImage_flash_def driven_def fun_eq_iff)
next
  fix X Y dx dy dw dh
  assume crop: "crop x y w h t = Some (int X, int Y, int dx, int dy, int dw, int dh)" and d: "1 \<le> dw" "1 \<le> dh"
    "X + dw \<le> 0x7FFF" "Y + dh \<le> 0x7FFF" and start: "image_start (int dx) (int dy) w = dx + dy * unat w"
    and vis: "\<And>a b. (a, b) \<in> rectangle x y (uint w) (uint h) \<inter> screen t \<longleftrightarrow> X \<le> a \<and> a < X + dw \<and> Y \<le> b \<and> b < Y + dh"
  let ?off = "dx + dy * unat w" and ?n = "dw * dh"
  have val: "int X = max 0 x" "int Y = max 0 y" "int dx = max 0 (- x)" "int dy = max 0 (- y)"
    "int dw = v" "int dh = min (y + uint h) (uint (tft_height t)) - max 0 y"
    using crop crop_window [OF t c w] extent_exact [OF exact(1)] extent_exact [OF exact(2)]
    by (simp_all add: v_def split: if_splits)
  have "int dx + int dw \<le> uint w" "int dy + int dh \<le> uint h" and sz: "int dw \<le> uint (tft_width t)" "int dh \<le> uint (tft_height t)"
    unfolding val v_def by (rule window_fits)+
  then have fit: "dx + dw \<le> unat w" "dy + dh \<le> unat h" by (simp_all add: unat_eq_nat_uint del: nat_uint_eq)
  have "int dw * int dh \<le> uint (tft_width t) * uint (tft_height t)" using sz by (intro mult_mono) simp_all
  then have n: "?n div 64 < 2 ^ 16" using small by (simp add: div_less_iff_less_mult flip: of_nat_mult)
  have len: "?off + ?n \<le> length data" using rows_joined [OF fit d(2)] data by simp
  define nb where "nb = ?n div 64"
  have nbs: "nat (int dw * int dh) div 64 mod 2 ^ 16 = nb" "nat (int dw * int dh) mod 64 = ?n mod 64" "nb * 64 + ?n mod 64 = ?n"
    using n by (simp_all add: nb_def nat_mult_distrib)
  let ?set = "setAddrWindow (int X) (int Y) (int X + int dw - 1) (int Y + int dh - 1) t"
  let ?bs = "map (\<lambda>i. take 64 (drop (?off + i * 64) data)) [0..<nb]" and ?rest = "take (?n mod 64) (drop (?off + nb * 64) data)"
  let ?ws = "concat (map (\<lambda>b. pushColors b (\<not> swapBytes)) ?bs) @ (if ?n mod 64 \<noteq> 0 then pushColors ?rest (\<not> swapBytes) else [])"
  have res: "pushImage_flash swapBytes x y w h data t = Some (fst ?set, snd ?set @ ?ws)"
  proof -
    have b: "those (map (\<lambda>i. mem_read data (?off + i * 64) 64) [0..<nb]) = Some ?bs"
      by (rule blocks_joined) (use len nbs(3) in linarith)
    have r: "(if ?n mod 64 \<noteq> 0 then mem_read data (?off + nb * 64) (?n mod 64) else Some []) = Some ?rest"
      using len nbs(3) by (auto simp: cmem)
    show ?thesis
      unfolding pushImage_flash_def crop option.case prod.case Let_def start nbs(1,2) b r by (simp split: prod.split)
  qed
  let ?cs = "map (shown (\<not> swapBytes)) (take ?n (drop ?off data))"
  have "concat ?bs @ ?rest = take ?n (drop ?off data)"
    unfolding concat_blocks using take_add [of "nb * 64" "?n mod 64" "drop ?off data"] nbs(3) by (simp add: add.commute)
  then have ws: "\<forall>q. reg q = TFT_RAMWR \<longrightarrow> display ?ws q = fold store_pixel ?cs q"
  proof (intro allI impI)
    fix q :: Panel assume q: "reg q = TFT_RAMWR"
    have "display ?ws q = fold store_pixel (map (shown (\<not> swapBytes)) ?rest) (fold store_pixel (map (shown (\<not> swapBytes)) (concat ?bs)) q)"
      unfolding display_simps(3) display_pushColors [OF q] using q by (simp add: pushColors_shown)
    also have "\<dots> = fold store_pixel (map (shown (\<not> swapBytes)) (concat ?bs @ ?rest)) q" by simp
    finally show "display ?ws q = fold store_pixel ?cs q"
      using \<open>concat ?bs @ ?rest = take ?n (drop ?off data)\<close> by simp
  qed
  have "pix (display (snd ?set @ ?ws) p) = (\<lambda>(a, b). if int X \<le> int a \<and> int a < int X + int dw \<and> int Y \<le> int b \<and> int b < int Y + int dh
    then ?cs ! (nat (int b - int Y) * nat (int dw) + nat (int a - int X)) else pix p (a, b))"
    using d len by (intro window_image [OF t _ _ _ _ _ _ _ ws]) (auto simp: mult.commute)
  moreover have "?cs ! (nat (int b - int Y) * nat (int dw) + nat (int a - int X)) =
      shown (\<not> swapBytes) (data ! (nat (max 0 (- y)) * unat w + nat (max 0 (- x)) + nat (int b - max 0 y) * nat v + nat (int a - max 0 x)))"
    if "X \<le> a" "a < X + dw" "Y \<le> b" "b < Y + dh" for a b
  proof -
    have rc: "b - Y < dh" "a - X < dw" using that by auto
    then have "Suc (b - Y) * dw \<le> dh * dw" by (intro mult_le_mono1 Suc_leI)
    then have "(b - Y) * dw + (a - X) < ?n" using rc(2) unfolding mult_Suc mult.commute [of dw] by linarith
    then have "?cs ! ((b - Y) * dw + (a - X)) = shown (\<not> swapBytes) (data ! (?off + ((b - Y) * dw + (a - X))))"
      using len by simp
    moreover have "nat (int b - int Y) = b - Y" "nat (int a - int X) = a - X" using that by (simp_all add: nat_diff_distrib)
    ultimately show ?thesis by (simp add: val [symmetric] add.assoc add.left_commute)
  qed
  ultimately have "pix (display (snd ?set @ ?ws) p) = (\<lambda>(a, b). if (a, b) \<in> rectangle x y (uint w) (uint h) \<inter> screen t
      then shown (\<not> swapBytes) (data ! (nat (max 0 (- y)) * unat w + nat (max 0 (- x)) + nat (int b - max 0 y) * nat v + nat (int a - max 0 x)))
      else pix p (a, b))"
    unfolding vis by (auto simp: fun_eq_iff)
  then show ?thesis using res driven_setAddrWindow [OF t] by blast
qed

lemma pushImage_flash_paints_witness:
  "\<exists>t' ws. pushImage_flash False 319 0 2 2 [1, 2, 3, 4] fresh_tft = Some (t', ws) \<and>
     pix (display ws blank_panel) (319, 0) = 1 \<and> pix (display ws blank_panel) (319, 1) = 2"
proof -
  obtain t' ws where r: "pushImage_flash False 319 0 2 2 [1, 2, 3, 4] fresh_tft = Some (t', ws)"
    "pix (display ws blank_panel) = (\<lambda>(a, b). if (a, b) \<in> rectangle 319 0 (uint (2 :: u32)) (uint (2 :: u32)) \<inter> screen fresh_tft
      then shown (\<not> False) ([1, 2, 3, 4] ! (nat (max 0 (- 0)) * unat (2 :: u32) + nat (max 0 (- 319)) +
        nat (int b - max 0 0) * nat (min (319 + uint (2 :: u32)) (uint (tft_width fresh_tft)) - max 0 319) + nat (int a - max 0 319)))
      else pix blank_panel (a, b))"
    using pushImage_flash_paints [OF fresh_coherent, of 319 0 2 2 "[1, 2, 3, 4]" False]
    by (auto simp: coord_def fresh_tft_def)
  have "pix (display ws blank_panel) (319, 0) = 1" "pix (display ws blank_panel) (319, 1) = 2"
    unfolding r(2) by (simp_all add: rectangle_def screen_def fresh_tft_def shown_def)
  then show ?thesis using r(1) by auto
qed

end
