(* ===== verification/TftBits.thy ===== *)
theory TftBits
  imports TftPicture
begin

text \<open>
  The 1-bit images of \<open>TftImage\<close>: they are the 16-bit images of the two bitmap colours, with rows padded to whole
  bytes.
\<close>

section \<open>1-bit images\<close>

lemma mem_read_append:
  "mem_read m i (j + k) = Option.bind (mem_read m i j) (\<lambda>a. Option.bind (mem_read m (i + j) k) (\<lambda>b. Some (a @ b)))"
  by (auto simp: mem_read_def take_add add.commute add.left_commute)

lemma those_rd: "n \<noteq> 0 \<Longrightarrow> those (map (\<lambda>i. rd m (s + i)) [0..<n]) = mem_read m s n"
proof (induction n)
  case (Suc n)
  show ?case
  proof (cases "n = 0")
    case True
    then show ?thesis by (auto simp: rd_def mem_read_def take_Suc_conv_app_nth)
  next
    case False
    then show ?thesis using Suc.IH by (auto simp: those_snoc rd_def mem_read_def take_Suc_conv_app_nth)
  qed
qed simp

lemma rd_bits_of: "rd (bits_of data) k = map_option (\<lambda>byte. bit byte (7 - k mod 8)) (rd data (k div 8))"
  by (auto simp: rd_def bits_of_nth less_mult_imp_div_less div_less_iff_less_mult)

lemma and_multiple_of_8: "n < 2 ^ 16 \<Longrightarrow> (n :: nat) AND 0xFFF8 = n div 8 * 8"
proof -
  assume n: "n < 2 ^ 16"
  have m: "(0xFFF8 :: nat) = push_bit 3 (mask 13)" by (simp add: mask_eq_exp_minus_1 push_bit_eq_mult)
  have "n AND 0xFFF8 = push_bit 3 (take_bit 13 (drop_bit 3 n))"
    unfolding m by (rule bit_eqI) (auto simp: bit_simps)
  also have "take_bit 13 (drop_bit 3 n) = n div 8"
    using n by (simp add: drop_bit_eq_div take_bit_nat_eq_self less_mult_imp_div_less)
  finally show ?thesis by (simp add: push_bit_eq_mult)
qed

lemma padded_small: "unat w \<le> 0x7FFF \<Longrightarrow> unat (padded w) = (unat w + 7) div 8 * 8"
proof -
  assume w: "unat w \<le> 0x7FFF"
  then have "unat (w + 7) = unat w + 7" using unat_add_lem [of w 7] by simp
  then show ?thesis using w and_multiple_of_8 [of "unat w + 7"] by (simp add: padded_def unsigned_and_eq)
qed

lemma column_bit: "n < 2 ^ 31 \<Longrightarrow> unat (word_of_nat n AND (7 :: u32)) = n mod 8"
proof -
  have "mask 3 = (7 :: nat)" by (simp add: mask_eq_exp_minus_1)
  moreover assume "n < 2 ^ 31"
  ultimately show ?thesis using take_bit_eq_mask [of 3 n] by (simp add: unsigned_and_eq unat_of_nat take_bit_eq_mod)
qed

text \<open>The pixels of a row are consecutive bits of the image, and a row that leaves the image faults in both.\<close>

lemma bit_row_bits:
  assumes index: "\<And>xp. xp < 2 ^ 31 \<Longrightarrow> unat (index (word_of_nat xp)) = (xp + k) div 8" and k: "k mod 8 = 0"
  shows "0 < n \<Longrightarrow> dx + n < 2 ^ 31 \<Longrightarrow>
    bit_row data index (int dx) (int n) b = mem_read (bits_of data) (dx + k + 8 * b) n"
proof (induction n arbitrary: b rule: less_induct)
  case (less n)
  define m where "m = (if n < 8 then n else 8)"
  have m: "0 < m" "m \<le> n" using less.prems(1) by (simp_all add: m_def)
  have eq: "(let xp = u32_of (int dx) + word_of_nat i in map_option (\<lambda>byte. bit byte (7 - unat (xp AND 7))) (rd data (b + unat (index xp))))
      = rd (bits_of data) (dx + k + 8 * b + i)" if "i < m" for i
  proof -
    have xp: "u32_of (int dx) + word_of_nat i = word_of_nat (dx + i)" by (simp add: u32_of_def)
    have lt: "dx + i < 2 ^ 31" using that m(2) less.prems(2) by simp
    note a = column_bit [OF lt]
    from k obtain q where q: "k = 8 * q" by (metis dvd_def mod_0_imp_dvd)
    have "dx + k + 8 * b + i = (dx + i) + 8 * (q + b)" "dx + i + k = (dx + i) + 8 * q" by (simp_all add: q)
    then have "(dx + k + 8 * b + i) div 8 = b + (dx + i + k) div 8" "(dx + k + 8 * b + i) mod 8 = (dx + i) mod 8"
      using div_mult_self2 [of 8 "dx + i" "q + b"] div_mult_self2 [of 8 "dx + i" q] mod_mult_self2 [of "dx + i" 8 "q + b"]
      by (simp_all only:)
    then show ?thesis unfolding Let_def xp a index [OF lt] rd_bits_of by simp
  qed
  have "map (\<lambda>i. let xp = u32_of (int dx) + word_of_nat i
        in map_option (\<lambda>byte. bit byte (7 - unat (xp AND 7))) (rd data (b + unat (index xp)))) [0..<m]
      = map (\<lambda>i. rd (bits_of data) (dx + k + 8 * b + i)) [0..<m]"
    by (intro map_cong refl eq) simp
  then have pixels: "those (map (\<lambda>i. let xp = u32_of (int dx) + word_of_nat i
        in map_option (\<lambda>byte. bit byte (7 - unat (xp AND 7))) (rd data (b + unat (index xp)))) [0..<m])
      = mem_read (bits_of data) (dx + k + 8 * b) m"
    using m(1) those_rd [of m "bits_of data" "dx + k + 8 * b"] by (simp only:)
  have step: "bit_row data index (int dx) (int n) b = Option.bind (mem_read (bits_of data) (dx + k + 8 * b) m)
      (\<lambda>ps. Option.bind (bit_row data index (int dx) (int n - 8) (b + 1)) (\<lambda>rest. Some (ps @ rest)))"
  proof -
    have "(if int n < 8 then nat (int n) else 8) = m" by (simp add: m_def)
    then show ?thesis using less.prems(1) unfolding pixels [symmetric]
      by (subst bit_row.simps) (simp add: Let_def)
  qed
  show ?case
  proof (cases "n \<le> 8")
    case True
    then have "bit_row data index (int dx) (int n - 8) (b + 1) = Some []" by (subst bit_row.simps) simp
    moreover have "m = n" using True by (simp add: m_def)
    ultimately show ?thesis by (simp add: step)
  next
    case False
    then have m8: "int n - 8 = int (n - 8)" "m = 8" by (simp_all add: m_def)
    have "bit_row data index (int dx) (int (n - 8)) (b + 1) = mem_read (bits_of data) (dx + k + 8 * (b + 1)) (n - 8)"
      using False less.prems by (intro less.IH) auto
    moreover have "dx + k + 8 * (b + 1) = dx + k + 8 * b + 8" by simp
    ultimately have "bit_row data index (int dx) (int (n - 8)) (b + 1) = mem_read (bits_of data) (dx + k + 8 * b + 8) (n - 8)"
      by (simp only:)
    moreover have "n = 8 + (n - 8)" using False by simp
    ultimately show ?thesis
      unfolding step m8 using mem_read_append [of "bits_of data" "dx + k + 8 * b" 8 "n - 8"] by (simp only:)
  qed
qed

definition expand :: "u16 \<Rightarrow> u16 \<Rightarrow> u8 list \<Rightarrow> u16 list" where
  "expand fg bg data = map (\<lambda>b. if b then fg else bg) (bits_of data)"

lemma bit_pixel_shown: "bswap16 (bit_pixel color) = ucast color"
  by (rule bit_word_eqI) (auto simp: bswap16_def bit_pixel_def le_pair_def bit_simps)

lemma padded_again: "unat w \<le> 0x7FFF \<Longrightarrow> padded (padded w) = padded w"
proof -
  assume w: "unat w \<le> 0x7FFF"
  have lt: "unat (padded w) + 7 < 2 ^ 16" using w by (simp add: padded_small)
  then have "unat (padded w + 7) = unat (padded w) + 7" using unat_add_lem [of "padded w" 7] by simp
  then have "unat (padded (padded w)) = (unat (padded w) + 7) div 8 * 8"
    using and_multiple_of_8 [OF lt] by (simp add: padded_def [of "padded w"] unsigned_and_eq)
  also have "\<dots> = unat (padded w)" unfolding padded_small [OF w] by simp
  finally show ?thesis by (rule unsigned_word_eqI)
qed

text \<open>The offset of row \<open>dy\<close> in bits, for the two expressions of the code.\<close>

lemma row_offset:
  assumes "unat w \<le> 0x7FFF" "dy \<le> 0x7FFF"
  shows "unat (u32_of (int dy) * padded w) = dy * unat (padded w)" "dy * unat (padded w) mod 8 = 0" "dy * unat (padded w) < 2 ^ 31"
proof -
  have s: "unat (padded w) \<le> 0x8000" using assms(1) by (simp add: padded_small)
  then have "dy * unat (padded w) \<le> 0x7FFF * 0x8000" using assms(2) by (intro mult_le_mono)
  then show k: "dy * unat (padded w) < 2 ^ 31" by simp
  have "unat (u32_of (int dy)) = dy" using assms(2) by (subst u32_of_small) simp_all
  then show "unat (u32_of (int dy) * padded w) = dy * unat (padded w)"
    using k unat_mult_lem [of "u32_of (int dy)" "padded w"] by simp
  show "dy * unat (padded w) mod 8 = 0" using assms(1) by (simp add: padded_small)
qed

lemma unat_drop3: "unat (drop_bit 3 (w :: u32)) = unat w div 8"
proof -
  have "unat w < 2 ^ 32" using unsigned_less [of w] by simp
  then have "take_bit 32 (unat w) = unat w" by (rule take_bit_nat_eq_self)
  then show ?thesis unfolding unsigned_drop_bit_eq by (simp add: drop_bit_eq_div)
qed

lemma opaque_index:
  assumes "unat w \<le> 0x7FFF" "dy \<le> 0x7FFF" "xp < 2 ^ 31"
  shows "unat (drop_bit 3 (word_of_nat xp + u32_of (int dy) * padded w)) = (xp + dy * unat (padded w)) div 8"
proof -
  note r = row_offset [OF assms(1,2)]
  have x: "unat (word_of_nat xp :: u32) = xp" using assms(3) by (simp add: unat_of_nat)
  then have "unat (word_of_nat xp :: u32) + unat (u32_of (int dy) * padded w) < 2 ^ LENGTH(32)" using r(1,3) assms(3) by simp
  then have "unat (word_of_nat xp + u32_of (int dy) * padded w) = xp + dy * unat (padded w)"
    using unat_add_lem [of "word_of_nat xp :: u32" "u32_of (int dy) * padded w"] unfolding x r(1) by blast
  then show ?thesis by (simp add: unat_drop3)
qed

lemma transparent_index:
  assumes "unat w \<le> 0x7FFF" "dy \<le> 0x7FFF" "xp < 2 ^ 31"
  shows "unat (drop_bit 3 (word_of_nat xp) + drop_bit 3 (u32_of (int dy) * padded w)) = (xp + dy * unat (padded w)) div 8"
proof -
  note r = row_offset [OF assms(1,2)]
  let ?x = "word_of_nat xp :: u32"
  have "unat ?x = xp" using assms(3) by (simp add: unat_of_nat)
  then have p: "unat (drop_bit 3 ?x) = xp div 8" "unat (drop_bit 3 (u32_of (int dy) * padded w)) = (dy * unat (padded w)) div 8"
    by (simp_all add: unat_drop3 r(1))
  have "xp div 8 \<le> xp" "(dy * unat (padded w)) div 8 \<le> dy * unat (padded w)" by (rule div_le_dividend)+
  then have "xp div 8 + (dy * unat (padded w)) div 8 < 2 ^ LENGTH(32)" using assms(3) r(3) by simp
  then have "unat (drop_bit 3 ?x + drop_bit 3 (u32_of (int dy) * padded w)) = xp div 8 + (dy * unat (padded w)) div 8"
    using unat_add_lem [of "drop_bit 3 ?x" "drop_bit 3 (u32_of (int dy) * padded w)"] unfolding p by blast
  also have "\<dots> = (xp + dy * unat (padded w)) div 8" using r(2) by (simp add: div_add1_eq)
  finally show ?thesis .
qed

lemma expand_row:
  assumes "bit_row data index (int dx) (int dw) 0 = mem_read (bits_of data) off dw"
  shows "map_option (map (\<lambda>b. if b then fg else bg)) (bit_row data index (int dx) (int dw) 0) = mem_read (expand fg bg data) off dw"
  unfolding assms expand_def by (simp add: mem_read_def take_map drop_map)

lemma push_rows1_expand:
  assumes w: "unat w \<le> 0x7FF8" and d: "0 < dw" "dx + dw \<le> 0x7FFF"
  shows "dy + dh \<le> 0x7FFF \<Longrightarrow> push_rows1 fg bg data w (int dx) (int dy) (int dw) dh =
    push_rows (expand (ucast fg) (ucast bg) data) (dx + dy * unat (padded w)) (padded w) dw True dh"
  using w
proof (induction dh arbitrary: dy w)
  case (Suc dh)
  have w: "unat w \<le> 0x7FFF" using Suc.prems(2) by simp
  have dy: "dy \<le> 0x7FFF" using Suc.prems(1) by simp
  have row: "bit_row data (\<lambda>xp. drop_bit 3 (xp + u32_of (int dy) * padded w)) (int dx) (int dw) 0 =
      mem_read (bits_of data) (dx + dy * unat (padded w)) dw"
    using bit_row_bits [OF opaque_index [OF w dy] row_offset(2) [OF w dy], of dw dx data 0] d by simp
  have rest: "push_rows1 fg bg data (padded w) (int dx) (int dy + 1) (int dw) dh =
      push_rows (expand (ucast fg) (ucast bg) data) (dx + dy * unat (padded w) + unat (padded w)) (padded w) dw True dh"
  proof (cases "dh = 0")
    case False
    have "(unat w + 7) div 8 * 8 \<le> (0x7FF8 + 7) div 8 * 8" using Suc.prems(2) by (intro mult_le_mono1 div_le_mono) simp
    then have p: "unat (padded w) \<le> 0x7FF8" by (simp add: padded_small [OF w])
    show ?thesis using Suc.IH [OF _ p, of "Suc dy"] Suc.prems(1) by (simp add: padded_again [OF w] add.commute add.left_commute)
  qed simp
  show ?case
  proof (cases "mem_read (bits_of data) (dx + dy * unat (padded w)) dw")
    case None
    then show ?thesis using expand_row [OF row, of "ucast fg" "ucast bg"] by (simp add: row Let_def)
  next
    case (Some bs)
    have "pushColors (map (\<lambda>b. if b then bit_pixel fg else bit_pixel bg) bs) False =
        pushColors (map (\<lambda>b. if b then ucast fg else ucast bg) bs) True"
      by (auto simp: pushColors_def bit_pixel_shown)
    moreover have "mem_read (expand (ucast fg) (ucast bg) data) (dx + dy * unat (padded w)) dw =
        Some (map (\<lambda>b. if b then ucast fg else ucast bg) bs)"
      using expand_row [OF row, of "ucast fg" "ucast bg"] Some by (simp add: row)
    ultimately show ?thesis using Some rest by (simp add: row Let_def add.commute)
  qed
qed simp

text \<open>
  The transparent variant sends the runs of set bits with \<open>writeBlock\<close>; on the display this is the line of the
  16-bit routine with any other colour as the transparent one.
\<close>

lemma writeBlock_ignored: "reg p \<noteq> TFT_RAMWR \<Longrightarrow> display (writeBlock_loop c n) p = p"
proof (induction c n arbitrary: p rule: writeBlock_loop.induct)
  case (1 c n)
  then show ?case by (subst writeBlock_loop.simps) simp
qed

lemma pushColor_display: "n < 2 ^ 32 \<Longrightarrow> display (pushColor c n) p = display (pushColors (replicate n c) True) p"
  using writeBlock_loop_display [of p c n] writeBlock_ignored [of p c n]
  by (cases "reg p = TFT_RAMWR") (simp_all add: pushColor_def writeBlock_def pushColors_def unat_of_nat)

lemma transp_line1_display:
  assumes "fg \<noteq> tc"
  shows "np + length bs < 2 ^ 32 \<Longrightarrow> (move \<longrightarrow> np = 0) \<Longrightarrow> (\<not> move \<longrightarrow> np \<noteq> 0) \<Longrightarrow>
    (case transp_line1 fg xe y ye bs px move np t of (t1, ws1) \<Rightarrow>
     case transp_line True tc xe y ye (map (\<lambda>b. if b then fg else tc) bs) px move (replicate np fg) t of (t2, ws2) \<Rightarrow>
       t1 = t2 \<and> (\<forall>p. display ws1 p = display ws2 p))"
proof (induction bs arbitrary: px move np t)
  case Nil
  then show ?case using pushColor_display [of np fg] by simp
next
  case (Cons b bs)
  show ?case
  proof (cases b)
    case True
    obtain t' ws where m: "(if move then setAddrWindow px y xe ye t else (t, [])) = (t', ws)" by (metis surj_pair)
    have "replicate np fg @ [fg] = replicate (np + 1) fg" by (simp add: replicate_append_same)
    then show ?thesis
      using True m assms Cons.prems Cons.IH [of "np + 1" False "px + 1" t'] by (auto split: prod.splits)
  next
    case False
    show ?thesis
    proof (cases "np = 0")
      case True
      then have move using Cons.prems(3) by blast
      then show ?thesis using False True Cons.prems Cons.IH [of 0 True "px + 1" t] by (auto split: prod.splits)
    next
      case np: False
      then show ?thesis
        using False Cons.prems Cons.IH [of 0 True "px + 1" t] pushColor_display [of np fg] by (auto split: prod.splits)
    qed
  qed
qed

text \<open>The rows with a transparent colour, and that two results are the same on the display.\<close>

definition same_display :: "(Tft \<times> wire list) option \<Rightarrow> (Tft \<times> wire list) option \<Rightarrow> bool" where
  "same_display r s \<longleftrightarrow> (case r of None \<Rightarrow> s = None
     | Some (t, ws) \<Rightarrow> \<exists>ws'. s = Some (t, ws') \<and> (\<forall>p. display ws p = display ws' p))"

lemma transp_rows1_expand:
  assumes w: "unat w \<le> 0x7FF8" and d: "0 < dw" "dx + dw \<le> 0x7FFF" and tc: "fg \<noteq> tc"
  shows "dy + dh \<le> 0x7FFF \<Longrightarrow> same_display (transp_rows1 fg xe ye data (padded w) (int dx) (int dy) (int dw) x y dh t)
    (transp_rows True tc xe ye (expand fg tc data) (dx + dy * unat (padded w)) (padded w) dw x y dh t)"
proof (induction dh arbitrary: dy y t)
  case (Suc dh)
  have dy: "dy \<le> 0x7FFF" and w': "unat w \<le> 0x7FFF" using Suc.prems w by simp_all
  have row: "bit_row data (\<lambda>xp. drop_bit 3 xp + drop_bit 3 (u32_of (int dy) * padded w)) (int dx) (int dw) 0 =
      mem_read (bits_of data) (dx + dy * unat (padded w)) dw"
    using bit_row_bits [OF transparent_index [OF w' dy] row_offset(2) [OF w' dy], of dw dx data 0] d by simp
  show ?case
  proof (cases "mem_read (bits_of data) (dx + dy * unat (padded w)) dw")
    case None
    then show ?thesis using expand_row [OF row, of fg tc] by (simp add: row same_display_def)
  next
    case (Some bs)
    then have e: "mem_read (expand fg tc data) (dx + dy * unat (padded w)) dw = Some (map (\<lambda>b. if b then fg else tc) bs)"
      using expand_row [OF row, of fg tc] by (simp add: row)
    have "length bs = dw" using Some by (auto simp: mem_read_def split: if_splits)
    then obtain t1 ws1 ws2 where l: "transp_line1 fg xe y ye bs x True 0 t = (t1, ws1)"
      "transp_line True tc xe y ye (map (\<lambda>b. if b then fg else tc) bs) x True [] t = (t1, ws2)" "\<And>p. display ws1 p = display ws2 p"
      using transp_line1_display [OF tc, of 0 bs True xe y ye x t] d(2) by (auto split: prod.splits)
    have "same_display (transp_rows1 fg xe ye data (padded w) (int dx) (int (Suc dy)) (int dw) x (y + 1) dh t1)
        (transp_rows True tc xe ye (expand fg tc data) (dx + Suc dy * unat (padded w)) (padded w) dw x (y + 1) dh t1)"
      using Suc.prems by (intro Suc.IH) simp
    then show ?thesis
      using Some e l by (auto simp: row same_display_def add.commute add.left_commute split: option.splits Option.bind_splits)
  qed
qed (simp add: same_display_def)

lemma expand_length: "length (expand fg bg data) = 8 * length data"
  by (simp add: expand_def)

lemma visible_index:
  "\<forall>r<dh. off + r * s + dw \<le> n \<Longrightarrow> X \<le> a \<Longrightarrow> a < X + dw \<Longrightarrow> Y \<le> b \<Longrightarrow> b < Y + dh \<Longrightarrow> off + (b - Y) * s + (a - X) < (n :: nat)"
proof -
  assume "\<forall>r<dh. off + r * s + dw \<le> n" "X \<le> a" "a < X + dw" "Y \<le> b" "b < Y + dh"
  then have "off + (b - Y) * s + dw \<le> n" "a - X < dw" by auto
  then show ?thesis by linarith
qed

lemma expand_nth: "k < 8 * length data \<Longrightarrow> expand fg bg data ! k = (if bits_of data ! k then fg else bg)"
  by (simp add: expand_def)

section \<open>What a 1-bit image paints\<close>

lemma pushImage1_opaque:
  assumes t: "coherent t p" and c: "coord x" "coord y" and w: "uint w \<le> 0x7FF8" and h: "uint h \<le> 0x7FFF"
    and exact: "0 \<le> x \<or> uint w \<le> uint (tft_width t)" "0 \<le> y \<or> uint h \<le> uint (tft_height t)"
    and data: "unat (padded w) * unat h \<le> 8 * length data"
  shows "\<exists>t' ws. pushImage8 fg bg x y w h data False t = Some (t', ws) \<and> driven t t' (display ws p) \<and>
    pix (display ws p) = (\<lambda>(a, b). if (a, b) \<in> rectangle x y (uint w) (uint h) \<inter> screen t
      then if bits_of data ! (nat (int b - y) * unat (padded w) + nat (int a - x)) then ucast fg else ucast bg
      else pix p (a, b))"
proof -
  have w': "uint w \<le> 0x7FFF" "unat w \<le> 0x7FF8" "unat h \<le> 0x7FFF"
    using w h by (simp_all add: unat_eq_nat_uint del: nat_uint_eq)
  let ?s = "unat (padded w)" and ?data = "expand (ucast fg) (ucast bg) data"
  have stride: "unat w \<le> ?s" using w' by (simp add: padded_small)
  have len: "?s * unat h \<le> length ?data" using data by (simp add: expand_length)
  show ?thesis
  proof (rule crop_visible [OF t c w'(1) h exact len stride])
    assume "crop x y w h t = None" "rectangle x y (uint w) (uint h) \<inter> screen t = {}"
    then show ?thesis using t by (auto simp: pushImage8_def driven_def fun_eq_iff)
  next
    fix X Y dx dy dw dh
    assume crop: "crop x y w h t = Some (int X, int Y, int dx, int dy, int dw, int dh)" and d: "1 \<le> dw" "1 \<le> dh"
      "X + dw \<le> 0x7FFF" "Y + dh \<le> 0x7FFF" and fit: "dx + dw \<le> unat w" "dy + dh \<le> unat h"
      and rows: "\<forall>r<dh. dx + dy * ?s + r * ?s + dw \<le> length ?data"
      and vis: "\<And>a b. (a, b) \<in> rectangle x y (uint w) (uint h) \<inter> screen t \<longleftrightarrow> X \<le> a \<and> a < X + dw \<and> Y \<le> b \<and> b < Y + dh"
      and place: "\<And>a b. X \<le> a \<Longrightarrow> Y \<le> b \<Longrightarrow> nat (int b - y) * ?s + nat (int a - x) = dx + dy * ?s + (b - Y) * ?s + (a - X)"
    let ?set = "setAddrWindow (int X) (int Y) (int X + int dw - 1) (int Y + int dh - 1) t"
    obtain ws where ws: "push_rows ?data (dx + dy * ?s) (padded w) dw True dh = Some ws"
      "driven t (fst ?set) (display (snd ?set @ ws) p)"
      "pix (display (snd ?set @ ws) p) = (\<lambda>(a, b). if X \<le> a \<and> a < X + dw \<and> Y \<le> b \<and> b < Y + dh
         then shown True (?data ! (dx + dy * ?s + (b - Y) * ?s + (a - X))) else pix p (a, b))"
      by (rule push_rows_paints [OF t d rows])
    have "push_rows1 fg bg data w (int dx) (int dy) (int dw) dh = Some ws"
      using push_rows1_expand [OF w'(2), of dw dx dy dh fg bg data] ws(1) d fit w' by simp
    then have "pushImage8 fg bg x y w h data False t = Some (fst ?set, snd ?set @ ws)"
      using crop by (simp add: pushImage8_def split: prod.split)
    moreover have "dx + dy * ?s + (b - Y) * ?s + (a - X) < 8 * length data" if "X \<le> a" "a < X + dw" "Y \<le> b" "b < Y + dh" for a b
      using visible_index [OF rows that] by (simp add: expand_length)
    then have "pix (display (snd ?set @ ws) p) = (\<lambda>(a, b). if (a, b) \<in> rectangle x y (uint w) (uint h) \<inter> screen t
      then if bits_of data ! (nat (int b - y) * ?s + nat (int a - x)) then ucast fg else ucast bg else pix p (a, b))"
      unfolding ws(3) vis using place by (auto simp: fun_eq_iff shown_def expand_nth)
    ultimately show ?thesis using ws(2) by blast
  qed
qed

lemma pushImage1_transparent:
  assumes t: "coherent t p" and c: "coord x" "coord y" and w: "uint w \<le> 0x7FF8" and h: "uint h \<le> 0x7FFF"
    and exact: "0 \<le> x \<or> uint w \<le> uint (tft_width t)" "0 \<le> y \<or> uint h \<le> uint (tft_height t)"
    and data: "unat (padded w) * unat h \<le> 8 * length data"
  shows "\<exists>t' ws. pushImage8_transp fg x y w h data tcol False t = Some (t', ws) \<and> driven t t' (display ws p) \<and>
    pix (display ws p) = (\<lambda>(a, b). if (a, b) \<in> rectangle x y (uint w) (uint h) \<inter> screen t \<and>
        bits_of data ! (nat (int b - y) * unat (padded w) + nat (int a - x)) then ucast fg else pix p (a, b))"
proof -
  define fgc :: u16 where "fgc = ucast fg"
  define tc where "tc = fgc + 1"
  have tc: "fgc \<noteq> tc" by (simp add: tc_def)
  have w': "uint w \<le> 0x7FFF" "unat w \<le> 0x7FF8" "unat h \<le> 0x7FFF"
    using w h by (simp_all add: unat_eq_nat_uint del: nat_uint_eq)
  let ?s = "unat (padded w)" and ?data = "expand fgc tc data"
  have stride: "unat w \<le> ?s" using w' by (simp add: padded_small)
  have len: "?s * unat h \<le> length ?data" using data by (simp add: expand_length)
  show ?thesis
  proof (rule crop_visible [OF t c w'(1) h exact len stride])
    assume "crop x y w h t = None" "rectangle x y (uint w) (uint h) \<inter> screen t = {}"
    then show ?thesis using t by (auto simp: pushImage8_transp_def driven_def fun_eq_iff)
  next
    fix X Y dx dy dw dh
    assume crop: "crop x y w h t = Some (int X, int Y, int dx, int dy, int dw, int dh)" and d: "1 \<le> dw" "1 \<le> dh"
      "X + dw \<le> 0x7FFF" "Y + dh \<le> 0x7FFF" and fit: "dx + dw \<le> unat w" "dy + dh \<le> unat h"
      and rows: "\<forall>r<dh. dx + dy * ?s + r * ?s + dw \<le> length ?data"
      and vis: "\<And>a b. (a, b) \<in> rectangle x y (uint w) (uint h) \<inter> screen t \<longleftrightarrow> X \<le> a \<and> a < X + dw \<and> Y \<le> b \<and> b < Y + dh"
      and place: "\<And>a b. X \<le> a \<Longrightarrow> Y \<le> b \<Longrightarrow> nat (int b - y) * ?s + nat (int a - x) = dx + dy * ?s + (b - Y) * ?s + (a - X)"
    let ?rows1 = "transp_rows1 fgc (int (X + dw - 1)) (int (Y + dh - 1)) data (padded w) (int dx) (int dy) (int dw) (int X) (int Y) dh t"
    have e: "X + dw = Suc (X + dw - 1)" "Y + dh = Suc (Y + dh - 1)" "X + dw - 1 \<le> 0x7FFF" "Y + dh - 1 \<le> 0x7FFF"
      "int X + int dw - 1 = int (X + dw - 1)" "int Y + int dh - 1 = int (Y + dh - 1)"
      using d by simp_all
    obtain t' ws where r: "transp_rows True tc (int (X + dw - 1)) (int (Y + dh - 1)) ?data (dx + dy * ?s) (padded w) dw (int X) (int Y) dh t = Some (t', ws)"
      "driven t t' (display ws p)"
      "pix (display ws p) = (\<lambda>(a, b). let c = ?data ! (dx + dy * ?s + (b - Y) * ?s + (a - X)) in
         if X \<le> a \<and> a < X + dw \<and> Y \<le> b \<and> b < Y + dh \<and> c \<noteq> tc then shown True c else pix p (a, b))"
      using transp_rows_display [OF t rows e(1-4), of True tc] by blast
    have "same_display ?rows1 (Some (t', ws))"
      unfolding r(1) [symmetric] using d fit w' by (intro transp_rows1_expand tc) simp_all
    then obtain ws' where ws': "?rows1 = Some (t', ws')" "display ws' p = display ws p"
      by (auto simp: same_display_def split: option.splits)
    have "pushImage8_transp fg x y w h data tcol False t = Some (t', ws')"
      using crop ws'(1) by (simp only: pushImage8_transp_def fgc_def option.case prod.case e(5,6) nat_int if_False)
    moreover have "dx + dy * ?s + (b - Y) * ?s + (a - X) < 8 * length data" if "X \<le> a" "a < X + dw" "Y \<le> b" "b < Y + dh" for a b
      using visible_index [OF rows that] by (simp add: expand_length)
    then have "pix (display ws p) = (\<lambda>(a, b). if (a, b) \<in> rectangle x y (uint w) (uint h) \<inter> screen t \<and>
        bits_of data ! (nat (int b - y) * ?s + nat (int a - x)) then fgc else pix p (a, b))"
      unfolding r(3) vis using place tc by (auto simp: fun_eq_iff shown_def expand_nth Let_def)
    ultimately show ?thesis using r(2) ws'(2) unfolding fgc_def by force
  qed
qed

text \<open>
  C33.  A 1-bit image, its rows padded to whole bytes, that starts on the screen or is no larger than it, in either
  direction, and is at most \<open>0x7FF8\<close> wide and \<open>0x7FFF\<close> high is painted in the two bitmap colours where it is visible,
  and with the set bits only by the variant with a transparent colour; nothing else is painted and the array is read
  within its bounds.
\<close>
theorem pushImage1_paints:
  assumes t: "coherent t p" and c: "coord x" "coord y" and w: "uint w \<le> 0x7FF8" and h: "uint h \<le> 0x7FFF"
    and exact: "0 \<le> x \<or> uint w \<le> uint (tft_width t)" "0 \<le> y \<or> uint h \<le> uint (tft_height t)"
    and data: "unat (padded w) * unat h \<le> 8 * length data"
  defines "shape \<equiv> rectangle x y (uint w) (uint h) \<inter> screen t"
    and "set_at \<equiv> \<lambda>xy. bits_of data ! (nat (int (snd xy) - y) * unat (padded w) + nat (int (fst xy) - x))"
  shows "(\<exists>t' ws. pushImage8 fg bg x y w h data False t = Some (t', ws) \<and> driven t t' (display ws p) \<and>
      pix (display ws p) = (\<lambda>xy. if xy \<in> shape then if set_at xy then ucast fg else ucast bg else pix p xy)) \<and>
    (\<exists>t' ws. pushImage8_transp fg x y w h data tcol False t = Some (t', ws) \<and> driven t t' (display ws p) \<and>
      pix (display ws p) = (\<lambda>xy. if xy \<in> shape \<and> set_at xy then ucast fg else pix p xy))"
  using pushImage1_opaque [OF assms(1-8), of fg bg] pushImage1_transparent [OF assms(1-8), of fg tcol]
  unfolding shape_def set_at_def case_prod_unfold prod.collapse by blast

lemma pushImage1_paints_witness:
  "\<exists>t' ws. pushImage8 0xF800 0x001F 318 0 3 2 [0x40, 0x80] False fresh_tft = Some (t', ws) \<and>
     pix (display ws blank_panel) (318, 0) = 0x001F \<and> pix (display ws blank_panel) (319, 0) = 0xF800 \<and>
     pix (display ws blank_panel) (318, 1) = 0xF800"
proof -
  obtain t' ws where r: "pushImage8 0xF800 0x001F 318 0 3 2 [0x40, 0x80] False fresh_tft = Some (t', ws)"
    "pix (display ws blank_panel) = (\<lambda>xy. if xy \<in> rectangle 318 0 (uint (3 :: u32)) (uint (2 :: u32)) \<inter> screen fresh_tft
      then if bits_of [0x40, 0x80] ! (nat (int (snd xy) - 0) * unat (padded 3) + nat (int (fst xy) - 318))
        then ucast (0xF800 :: u32) else ucast (0x001F :: u32) else pix blank_panel xy)"
    using pushImage1_paints [OF fresh_coherent, of 318 0 3 2 "[0x40, 0x80]" "0xF800" "0x001F" 0]
    by (auto simp: coord_def fresh_tft_def padded_def)
  have "pix (display ws blank_panel) (318, 0) = 0x001F" "pix (display ws blank_panel) (319, 0) = 0xF800"
    "pix (display ws blank_panel) (318, 1) = 0xF800"
    unfolding r(2) by (simp_all add: rectangle_def screen_def fresh_tft_def padded_def bits_of_nth del: bits_of_simps)
  then show ?thesis using r(1) by blast
qed

end
