(* ===== verification/SpriteCells.thy ===== *)
theory SpriteCells
  imports SpriteDraw TftBits
begin

text \<open>
  The memory of a sprite.  Every pixel of a sprite has its own place in the block (\<open>place\<close>), and the routines
  that draw, each in its own way for the three depths, fill the places of their pixels and nothing else
  (\<open>filled\<close>).  \<open>sprite_ok\<close> is the invariant: the block has the size that the geometry needs.
\<close>

section \<open>Filling cells of a list\<close>

definition filled_cells :: "nat set \<Rightarrow> 'a \<Rightarrow> 'a list \<Rightarrow> 'a list \<Rightarrow> bool" where
  "filled_cells K v xs ys \<longleftrightarrow> length ys = length xs \<and> (\<forall>k<length xs. ys ! k = (if k \<in> K then v else xs ! k))"

lemma filled_cells_refl: "K \<inter> {..<length xs} = {} \<Longrightarrow> filled_cells K v xs xs"
  by (auto simp: filled_cells_def)

lemma filled_cells_trans:
  "filled_cells K v xs ys \<Longrightarrow> filled_cells L v ys zs \<Longrightarrow> filled_cells (K \<union> L) v xs zs"
  by (auto simp: filled_cells_def)

lemma filled_cells_write: "i < length xs \<Longrightarrow> \<exists>ys. wr xs i v = Some ys \<and> filled_cells {i} v xs ys"
  by (auto simp: filled_cells_def cmem nth_list_update)

lemma filled_cells_set:
  assumes "i + n \<le> length xs"
  shows "\<exists>ys. mem_write xs i (replicate n v) = Some ys \<and> filled_cells {i..<i + n} v xs ys"
  using assms by (auto simp: filled_cells_def cmem nth_append min_def)

text \<open>A loop each of whose steps fills its own cells.\<close>

lemma filled_cells_loop:
  assumes "\<And>i ys. i \<in> set is \<Longrightarrow> length ys = length xs \<Longrightarrow> \<exists>zs. f i ys = Some zs \<and> filled_cells (K i) v ys zs"
  shows "\<exists>ys. foldM f is xs = Some ys \<and> filled_cells (\<Union>i\<in>set is. K i) v xs ys"
  using assms
proof (induction "is" arbitrary: xs)
  case Nil
  then show ?case by (simp add: filled_cells_refl)
next
  case (Cons i "is")
  obtain ys where ys: "f i xs = Some ys" "filled_cells (K i) v xs ys"
    using Cons.prems [of i xs] by auto
  then have "length ys = length xs" by (simp add: filled_cells_def)
  then obtain zs where "foldM f is ys = Some zs" "filled_cells (\<Union>i\<in>set is. K i) v ys zs"
    using Cons.IH [of ys] Cons.prems by auto
  then show ?case using ys filled_cells_trans by fastforce
qed

text \<open>A row that is copied from a row that is already filled.\<close>

lemma filled_cells_copy:
  assumes "from + n \<le> length xs" "to + n \<le> length xs" and row: "\<forall>k. from \<le> k \<and> k < from + n \<longrightarrow> xs ! k = v"
  shows "\<exists>ys. move_cells xs to from n = Some ys \<and> filled_cells {to..<to + n} v xs ys"
proof -
  have "take n (drop from xs) = replicate n v"
    using assms(1) row by (intro nth_equalityI) auto
  then show ?thesis
    using filled_cells_set [OF assms(2), of v] assms(1) by (simp add: move_cells_def cmem)
qed

lemma filled_cells_rows:
  assumes "from + n \<le> length xs" "\<forall>j\<in>set js. to j + n \<le> length xs" and row: "\<forall>k. from \<le> k \<and> k < from + n \<longrightarrow> xs ! k = v"
  shows "\<exists>ys. foldM (\<lambda>j m. move_cells m (to j) from n) js xs = Some ys \<and> filled_cells (\<Union>j\<in>set js. {to j..<to j + n}) v xs ys"
  using assms
proof (induction js arbitrary: xs)
  case Nil
  then show ?case by (simp add: filled_cells_refl)
next
  case (Cons j js)
  obtain ys where ys: "move_cells xs (to j) from n = Some ys" "filled_cells {to j..<to j + n} v xs ys"
    using filled_cells_copy [of "from" n xs "to j" v] Cons.prems by auto
  then have "length ys = length xs" "\<forall>k. from \<le> k \<and> k < from + n \<longrightarrow> ys ! k = v"
    using Cons.prems by (auto simp: filled_cells_def)
  then obtain zs where "foldM (\<lambda>j m. move_cells m (to j) from n) js ys = Some zs"
    "filled_cells (\<Union>j\<in>set js. {to j..<to j + n}) v ys zs"
    using Cons.IH [of ys] Cons.prems by auto
  then show ?case using ys filled_cells_trans by fastforce
qed

section \<open>The invariant\<close>

text \<open>
  A 1-bit sprite is turned safely only when its frame is as wide as its rows and its two sizes are swapped when
  it lies on its side.
\<close>

definition bits_ok :: "sprite \<Rightarrow> bool" where
  "bits_ok s \<longleftrightarrow> 8 dvd bitwidth s \<and> 1 \<le> dwidth s \<and> 1 \<le> dheight s \<and> dwidth s \<le> bitwidth s \<and> bitwidth s < dwidth s + 8 \<and>
     bitwidth s \<le> 0x7FF8 \<and> dheight s \<le> 0x7FFF \<and>
     (if rotation s = 1 \<or> rotation s = 3 then iwidth s = dheight s \<and> iheight s = bitwidth s
      else iwidth s = bitwidth s \<and> iheight s = dheight s) \<and>
     (rotation s \<in> {1, 2, 3} \<longrightarrow> dwidth s = bitwidth s) \<and>
     frame s + nat (bitwidth s * dheight s) div 8 < length (img8 s)"

definition sprite_ok :: "sprite \<Rightarrow> bool" where
  "sprite_ok s \<longleftrightarrow> (created s \<longrightarrow> 1 \<le> iwidth s \<and> iwidth s \<le> 0x7FFF \<and> 1 \<le> iheight s \<and> iheight s \<le> 0x7FFF \<and>
     (if bpp s = 16 then length (img s) = nat (iwidth s * iheight s) + 1
      else if bpp s = 8 then frame s = 0 \<and> length (img8 s) = nat (iwidth s * iheight s) + 1
      else bpp s = 1 \<and> bits_ok s))"

definition inside :: "sprite \<Rightarrow> int \<Rightarrow> int \<Rightarrow> bool" where
  "inside s x y \<longleftrightarrow> 0 \<le> x \<and> x < iwidth s \<and> 0 \<le> y \<and> y < iheight s"


text \<open>Where a 1-bit sprite keeps a point: the rotation of the code.\<close>

definition turned :: "sprite \<Rightarrow> int \<Rightarrow> int \<Rightarrow> int \<times> int" where
  "turned s x y =
     (if rotation s = 1 then (dwidth s - y - 1, x)
      else if rotation s = 2 then (dwidth s - x - 1, dheight s - y - 1)
      else if rotation s = 3 then (y, dheight s - x - 1)
      else (x, y))"

text \<open>The place of a pixel: the cell, and for 1-bit sprites the bit of the frame.\<close>

definition place :: "sprite \<Rightarrow> int \<Rightarrow> int \<Rightarrow> nat" where
  "place s x y = (if bpp s = 1 then nat (fst (turned s x y) + snd (turned s x y) * bitwidth s) else nat (x + y * iwidth s))"

definition cells :: "sprite \<Rightarrow> nat" where
  "cells s = (if bpp s = 1 then nat (bitwidth s * dheight s) else nat (iwidth s * iheight s))"

definition content :: "sprite \<Rightarrow> nat \<Rightarrow> u16" where
  "content s k = (if bpp s = 16 then bswap16 (img s ! k) else if bpp s = 8 then color8to16 (img8 s ! k)
     else of_bool (bit (img8 s ! (frame s + k div 8)) (7 - k mod 8)))"

text \<open>What is left of a colour at the depth of the sprite.\<close>

definition stored :: "sprite \<Rightarrow> u32 \<Rightarrow> u16" where
  "stored s c = (if bpp s = 16 then bswap16 (swap_color c) else if bpp s = 8 then color8to16 (color_332 c) else of_bool (c \<noteq> 0))"

section \<open>Places\<close>

lemma row_cell:
  assumes "0 \<le> (x :: int)" "x < w" "0 \<le> y" "y < h"
  shows "0 \<le> x + y * w" "x + y * w < w * h"
proof -
  show "0 \<le> x + y * w" using assms by simp
  have "(y + 1) * w \<le> h * w" using assms by (intro mult_right_mono) auto
  then show "x + y * w < w * h" using assms(2) by (simp add: algebra_simps)
qed

lemma row_cell_inj:
  assumes "0 \<le> (x :: int)" "x < w" "0 \<le> x'" "x' < w" "x + y * w = x' + y' * w"
  shows "x = x'" "y = y'"
proof -
  have "x = (x + y * w) mod w" "x' = (x' + y' * w) mod w" using assms(1-4) by simp_all
  then show "x = x'" using assms(5) by simp
  then show "y = y'" using assms(1,2,5) by simp
qed

lemma turned_within:
  assumes "bits_ok s" "inside s x y"
  shows "0 \<le> fst (turned s x y)" "fst (turned s x y) < bitwidth s" "0 \<le> snd (turned s x y)" "snd (turned s x y) < dheight s"
  using assms by (auto simp: bits_ok_def inside_def turned_def split: if_splits)

lemma turned_inj:
  assumes "turned s x y = turned s x' y'"
  shows "x = x' \<and> y = y'"
  using assms by (auto simp: turned_def split: if_splits)

lemma place_within:
  assumes "sprite_ok s" "created s" "inside s x y"
  shows "place s x y < cells s"
proof (cases "bpp s = 1")
  case True
  then have "bits_ok s" using assms by (simp add: sprite_ok_def)
  then show ?thesis using True row_cell [OF turned_within [OF _ assms(3)]] by (simp add: place_def cells_def)
next
  case False
  have "0 \<le> x + y * iwidth s" "x + y * iwidth s < iwidth s * iheight s"
    using row_cell [of x "iwidth s" y "iheight s"] assms(3) by (simp_all add: inside_def)
  then show ?thesis using False by (simp add: place_def cells_def)
qed

lemma place_inj:
  assumes "sprite_ok s" "created s" "inside s x y" "inside s x' y'" "place s x y = place s x' y'"
  shows "x = x' \<and> y = y'"
proof (cases "bpp s = 1")
  case True
  then have b: "bits_ok s" using assms by (simp add: sprite_ok_def)
  note t = turned_within [OF b assms(3)] turned_within [OF b assms(4)]
  have "fst (turned s x y) + snd (turned s x y) * bitwidth s = fst (turned s x' y') + snd (turned s x' y') * bitwidth s"
    using assms(5) True row_cell(1) [OF t(1-4)] row_cell(1) [OF t(5-8)] by (simp add: place_def)
  then have "turned s x y = turned s x' y'" using row_cell_inj [OF t(1,2,5,6)] by (simp add: prod_eq_iff)
  then show ?thesis by (rule turned_inj)
next
  case False
  moreover have "0 \<le> x + y * iwidth s" "0 \<le> x' + y' * iwidth s"
    using assms(3,4) row_cell(1) [of x "iwidth s" y "iheight s"] row_cell(1) [of x' "iwidth s" y' "iheight s"]
    by (simp_all add: inside_def)
  ultimately have "x + y * iwidth s = x' + y' * iwidth s" using assms(5) by (simp add: place_def del: nat_add_distrib)
  then show ?thesis using row_cell_inj [of x "iwidth s" x' y y'] assms(3,4) by (simp add: inside_def)
qed

section \<open>What a drawing routine does to the memory\<close>

definition same_block :: "sprite \<Rightarrow> sprite \<Rightarrow> bool" where
  "same_block s s' \<longleftrightarrow> s' = s\<lparr>img := img s', img8 := img8 s'\<rparr> \<and> length (img s') = length (img s) \<and> length (img8 s') = length (img8 s)"

definition filled :: "nat set \<Rightarrow> u32 \<Rightarrow> sprite \<Rightarrow> sprite \<Rightarrow> bool" where
  "filled K c s s' \<longleftrightarrow> same_block s s' \<and> (\<forall>k<cells s. content s' k = (if k \<in> K then stored s c else content s k))"

lemma same_block_refl [simp]: "same_block s s"
  by (simp add: same_block_def)

lemma same_block_fields:
  assumes "same_block s s'"
  shows "bpp s' = bpp s" "created s' = created s" "frame s' = frame s" "iwidth s' = iwidth s" "iheight s' = iheight s"
    "dwidth s' = dwidth s" "dheight s' = dheight s" "bitwidth s' = bitwidth s" "rotation s' = rotation s"
    "length (img s') = length (img s)" "length (img8 s') = length (img8 s)"
    "win_xs s' = win_xs s" "win_ys s' = win_ys s" "win_xe s' = win_xe s" "win_ye s' = win_ye s"
    "xptr s' = xptr s" "yptr s' = yptr s" "scroll_x s' = scroll_x s" "scroll_y s' = scroll_y s"
    "scroll_w s' = scroll_w s" "scroll_h s' = scroll_h s" "scroll_color s' = scroll_color s"
proof -
  have e: "s' = s\<lparr>img := img s', img8 := img8 s'\<rparr>" using assms by (simp add: same_block_def)
  show "bpp s' = bpp s" "created s' = created s" "frame s' = frame s" "iwidth s' = iwidth s" "iheight s' = iheight s"
    "dwidth s' = dwidth s" "dheight s' = dheight s" "bitwidth s' = bitwidth s" "rotation s' = rotation s"
    "win_xs s' = win_xs s" "win_ys s' = win_ys s" "win_xe s' = win_xe s" "win_ye s' = win_ye s"
    "xptr s' = xptr s" "yptr s' = yptr s" "scroll_x s' = scroll_x s" "scroll_y s' = scroll_y s"
    "scroll_w s' = scroll_w s" "scroll_h s' = scroll_h s" "scroll_color s' = scroll_color s"
    by (subst e, simp)+
  show "length (img s') = length (img s)" "length (img8 s') = length (img8 s)" using assms by (simp_all add: same_block_def)
qed

lemma same_block_trans: "same_block s t \<Longrightarrow> same_block t u \<Longrightarrow> same_block s u"
  by (cases s, cases t, cases u) (simp add: same_block_def)

lemma same_block_derived:
  assumes "same_block s s'"
  shows "sprite_ok s' = sprite_ok s" "inside s' = inside s" "place s' = place s" "cells s' = cells s" "stored s' = stored s"
  using same_block_fields [OF assms]
  by (auto simp: sprite_ok_def bits_ok_def inside_def place_def turned_def cells_def stored_def fun_eq_iff)

lemma filled_refl: "filled {} c s s"
  by (simp add: filled_def)

lemma filled_trans:
  assumes "filled K c s t" "filled L c t u"
  shows "filled (K \<union> L) c s u"
proof -
  have b: "same_block s t" "same_block t u" using assms by (simp_all add: filled_def)
  show ?thesis using assms same_block_trans [OF b] same_block_derived [OF b(1)] by (auto simp: filled_def)
qed

lemma filled_loop:
  assumes ok: "sprite_ok s" and step: "\<And>i t. i \<in> set is \<Longrightarrow> same_block s t \<Longrightarrow> \<exists>u. f i t = Some u \<and> filled (K i) c t u"
  shows "\<exists>u. foldM f is s = Some u \<and> filled (\<Union>i\<in>set is. K i) c s u"
  using assms
proof (induction "is" arbitrary: s)
  case Nil
  then show ?case by (simp add: filled_refl)
next
  case (Cons i "is")
  obtain t where t: "f i s = Some t" "filled (K i) c s t" using Cons.prems(2) [of i s] by auto
  then have b: "same_block s t" by (simp add: filled_def)
  have "\<exists>u. foldM f is t = Some u \<and> filled (\<Union>i\<in>set is. K i) c t u"
    using Cons.prems same_block_derived(1) [OF b] same_block_trans [OF b] by (intro Cons.IH) auto
  then show ?case using t filled_trans by fastforce
qed

lemma filled_img:
  assumes "sprite_ok s" "created s" "bpp s = 16" "filled_cells K (swap_color c) (img s) m"
  shows "filled K c s (s\<lparr>img := m\<rparr>)"
proof -
  have "cells s \<le> length (img s)" using assms(1-3) by (simp add: sprite_ok_def cells_def)
  then show ?thesis using assms(3,4) by (auto simp: filled_def same_block_def filled_cells_def content_def stored_def)
qed

lemma filled_img8:
  assumes "sprite_ok s" "created s" "bpp s = 8" "filled_cells K (color_332 c) (img8 s) m"
  shows "filled K c s (s\<lparr>img8 := m\<rparr>)"
proof -
  have "cells s \<le> length (img8 s)" using assms(1-3) by (simp add: sprite_ok_def cells_def)
  then show ?thesis using assms(3,4) by (auto simp: filled_def same_block_def filled_cells_def content_def stored_def)
qed


section \<open>One pixel\<close>

lemma uint_u32_of: "0 \<le> i \<Longrightarrow> i < 2 ^ 32 \<Longrightarrow> uint (u32_of i) = i"
  by (simp add: u32_of_def uint_word_of_int)

lemma geometry_small: "sprite_ok s \<Longrightarrow> created s \<Longrightarrow> 1 \<le> iwidth s \<and> iwidth s \<le> 0x7FFF \<and> 1 \<le> iheight s \<and> iheight s \<le> 0x7FFF"
  by (simp add: sprite_ok_def)

lemma pixel_test:
  assumes "sprite_ok s" "created s"
  shows "\<not> (x \<ge> u32_of (iwidth s) \<or> y \<ge> u32_of (iheight s)) \<longleftrightarrow> inside s (uint x) (uint y)"
  using geometry_small [OF assms] by (simp add: inside_def not_le word_less_def uint_u32_of)

lemma cell_index:
  assumes "0 \<le> i" "i < 2 ^ 32" "i = a + b * w"
  shows "unat (u32_of a + u32_of b * u32_of w) = nat i"
proof -
  have "u32_of a + u32_of b * u32_of w = u32_of (a + b * w)" by (simp add: u32_of_def)
  then show ?thesis using assms u32_of_small by simp
qed

lemma u32_of_uint [simp]: "u32_of (uint x) = x"
  by (simp add: u32_of_def)

lemma area_small: "0 \<le> w \<Longrightarrow> w \<le> 0x7FFF \<Longrightarrow> 0 \<le> h \<Longrightarrow> h \<le> 0x7FFF \<Longrightarrow> w * h < (2 :: int) ^ 30"
  using mult_mono [of w "0x7FFF" h "0x7FFF"] by simp

lemma cell_index_inside:
  assumes "sprite_ok s" "created s" "inside s (uint x) (uint y)"
  shows "unat (x + y * u32_of (iwidth s)) = nat (uint x + uint y * iwidth s)"
    and "nat (uint x + uint y * iwidth s) < nat (iwidth s * iheight s)"
proof -
  have c: "0 \<le> uint x + uint y * iwidth s" "uint x + uint y * iwidth s < iwidth s * iheight s"
    using row_cell [of "uint x" "iwidth s" "uint y" "iheight s"] assms(3) by (simp_all add: inside_def)
  moreover have "iwidth s * iheight s < 2 ^ 30" using geometry_small [OF assms(1,2)] by (intro area_small) simp_all
  ultimately show "unat (x + y * u32_of (iwidth s)) = nat (uint x + uint y * iwidth s)"
    using cell_index [of "uint x + uint y * iwidth s" "uint x" "uint y" "iwidth s"] by simp
  show "nat (uint x + uint y * iwidth s) < nat (iwidth s * iheight s)" using c by simp
qed

lemma bit_128: "bit (128 :: u8) i \<longleftrightarrow> i = 7"
proof -
  have "(128 :: u8) = 2 ^ 7" by simp
  then show ?thesis by (simp only: bit_exp_iff) auto
qed

lemma bit_mask: "j < 8 \<Longrightarrow> bit (drop_bit j (128 :: u8)) i \<longleftrightarrow> i = 7 - j"
  by (simp only: bit_drop_bit_eq comp_apply bit_128) auto

lemma bit_write:
  assumes "i < length m" "j < 8"
  defines "b \<equiv> m ! i"
  shows "\<exists>m'. wr m i (if v then b OR drop_bit j 0x80 else b AND NOT (drop_bit j 0x80)) = Some m' \<and> length m' = length m \<and>
    (\<forall>k l. l < 8 \<longrightarrow> bit (m' ! k) (7 - l) = (if k = i \<and> l = j then v else bit (m ! k :: u8) (7 - l)))"
proof -
  have "l = j" if "7 - l = 7 - j" "l < 8" for l using that assms(2) by linarith
  then show ?thesis
    using assms by (auto simp: cmem nth_list_update bit_or_iff bit_and_iff bit_not_iff bit_mask simp del: bit_drop_bit_eq)
qed

text \<open>The bit that the 1-bit routines address, and the test of the reader.\<close>

lemma bit_index:
  assumes "bits_ok s" "inside s x y" and t: "turned s x y = (a, b)"
  shows "u32_of a + u32_of b * u32_of (bitwidth s) = u32_of (a + b * bitwidth s)"
    "0 \<le> a + b * bitwidth s" "a + b * bitwidth s < bitwidth s * dheight s" "bitwidth s * dheight s < 2 ^ 30"
    "(a + b * bitwidth s) mod 8 = a mod 8" "frame s + nat (a + b * bitwidth s) div 8 < length (img8 s)"
proof -
  show "u32_of a + u32_of b * u32_of (bitwidth s) = u32_of (a + b * bitwidth s)" by (simp add: u32_of_def)
  show c: "0 \<le> a + b * bitwidth s" "a + b * bitwidth s < bitwidth s * dheight s"
    using row_cell turned_within [OF assms(1,2)] t by simp_all
  show "bitwidth s * dheight s < 2 ^ 30" using assms(1) by (intro area_small) (auto simp: bits_ok_def)
  have "8 dvd b * bitwidth s" using assms(1) by (simp add: bits_ok_def)
  then show "(a + b * bitwidth s) mod 8 = a mod 8" by (metis mod_add_right_eq dvd_imp_mod_0 add.right_neutral)
  have "nat (a + b * bitwidth s) div 8 \<le> nat (bitwidth s * dheight s) div 8" using c by (intro div_le_mono) simp
  then show "frame s + nat (a + b * bitwidth s) div 8 < length (img8 s)" using assms(1) by (auto simp: bits_ok_def)
qed


text \<open>The places of the points of a set that the sprite has.\<close>

definition places :: "sprite \<Rightarrow> (int \<times> int) set \<Rightarrow> nat set" where
  "places s P = {place s x y | x y. (x, y) \<in> P \<and> inside s x y \<and> created s}"

lemma places_Un: "places s P \<union> places s Q = places s (P \<union> Q)"
  by (auto simp: places_def)

lemma places_UNION: "(\<Union>i\<in>I. places s (P i)) = places s (\<Union>i\<in>I. P i)"
  by (auto simp: places_def)

lemma places_same: "same_block s t \<Longrightarrow> places t P = places s P"
  using same_block_derived same_block_fields by (auto simp: places_def)

lemma places_empty: "\<forall>(x, y)\<in>P. \<not> inside s x y \<Longrightarrow> places s P = {}"
  by (auto simp: places_def)

definition drawn :: "(int \<times> int) set \<Rightarrow> u32 \<Rightarrow> sprite \<Rightarrow> sprite \<Rightarrow> bool" where
  "drawn P c s s' \<longleftrightarrow> filled (places s P) c s s'"

lemma drawn_nothing: "places s P = {} \<Longrightarrow> drawn P c s s"
  by (simp add: drawn_def filled_refl)

lemma drawn_same: "drawn P c s s' \<Longrightarrow> same_block s s'"
  by (simp add: drawn_def filled_def)

lemma drawn_trans: "drawn P c s t \<Longrightarrow> drawn Q c t u \<Longrightarrow> drawn (P \<union> Q) c s u"
  using filled_trans places_same [OF drawn_same, of P c s t] by (auto simp: drawn_def simp flip: places_Un)

lemma drawn_loop:
  assumes "sprite_ok s" "\<And>i t. i \<in> set is \<Longrightarrow> same_block s t \<Longrightarrow> \<exists>u. f i t = Some u \<and> drawn (P i) c t u"
  shows "\<exists>u. foldM f is s = Some u \<and> drawn (\<Union>i\<in>set is. P i) c s u"
proof -
  have "\<exists>u. foldM f is s = Some u \<and> filled (\<Union>i\<in>set is. places s (P i)) c s u"
    using assms(2) places_same by (intro filled_loop [OF assms(1)]) (fastforce simp: drawn_def)
  then show ?thesis by (simp add: drawn_def places_UNION)
qed

text \<open>Places as cells, for sixteen and eight bits.\<close>

lemma places_cells:
  assumes "bpp s \<noteq> 1"
  shows "places s P = {nat (x + y * iwidth s) | x y. (x, y) \<in> P \<and> inside s x y \<and> created s}"
  using assms by (auto simp: places_def place_def)

lemma unat_and_7: "unat (w AND 7) = unat (w :: u32) mod 8"
proof -
  have "unat w AND 7 = take_bit 3 (unat w)" by (simp only: take_bit_eq_mask) (simp add: mask_eq_exp_minus_1)
  then have "unat w AND 7 = unat w mod 8" by (simp add: take_bit_eq_mod)
  then show ?thesis by (simp add: unsigned_and_eq)
qed

lemma bits_drawn:
  assumes ok: "sprite_ok s" "created s" "bpp s = 1" and i: "inside s x y" and t: "turned s x y = (a, b)"
  defines "k \<equiv> u32_of a + u32_of b * u32_of (bitwidth s)"
  shows "\<exists>s'. (let i = frame s + unat (drop_bit 3 k); mask = drop_bit (unat (u32_of a AND 7)) 0x80
      in do {
        byte \<leftarrow> rd (img8 s) i;
        m \<leftarrow> wr (img8 s) i (if c \<noteq> 0 then byte OR mask else byte AND NOT mask);
        Some (s\<lparr>img8 := m\<rparr>)
      }) = Some s' \<and> filled {place s x y} c s s'"
proof -
  have bits: "bits_ok s" using ok by (simp add: sprite_ok_def)
  note n = bit_index [OF bits i t] and w = turned_within [OF bits i]
  define p where "p = place s x y"
  have p: "p = nat (a + b * bitwidth s)" using t ok(3) by (simp add: p_def place_def)
  have k: "unat k = p" unfolding k_def n(1) p using n(2-4) by (intro u32_of_small) simp_all
  have a: "0 \<le> a" "a < 0x7FF9" using w t bits by (auto simp: bits_ok_def)
  have j: "unat (u32_of a AND 7) = p mod 8"
    unfolding unat_and_7 p using a n(2,5) u32_of_small [of a] nat_mod_distrib [of a 8] nat_mod_distrib [of "a + b * bitwidth s" 8] by simp
  have i: "unat (drop_bit 3 k) = p div 8" by (simp add: drop_bit_eq_div unat_div k)
  have l: "frame s + p div 8 < length (img8 s)" using n(6) by (simp add: p)
  obtain m where m: "wr (img8 s) (frame s + p div 8) (if c \<noteq> 0 then img8 s ! (frame s + p div 8) OR drop_bit (p mod 8) 0x80
        else img8 s ! (frame s + p div 8) AND NOT (drop_bit (p mod 8) 0x80)) = Some m" "length m = length (img8 s)"
      "\<And>k l. l < 8 \<Longrightarrow> bit (m ! k) (7 - l) = (if k = frame s + p div 8 \<and> l = p mod 8 then c \<noteq> 0 else bit (img8 s ! k) (7 - l))"
    using bit_write [OF l, of "p mod 8" "c \<noteq> 0"] by auto
  have "k = p \<longleftrightarrow> frame s + k div 8 = frame s + p div 8 \<and> k mod 8 = p mod 8" for k
    by (metis add_left_cancel div_mult_mod_eq)
  then have "filled {p} c s (s\<lparr>img8 := m\<rparr>)"
    using ok(3) m(2,3) by (auto simp: filled_def same_block_def content_def stored_def)
  then show ?thesis using m(1) l unfolding Let_def j i p_def [symmetric] by (simp add: cmem)
qed

lemma spr_drawPixel_drawn:
  assumes ok: "sprite_ok s"
  shows "\<exists>s'. spr_drawPixel x y c s = Some s' \<and> drawn {(uint x, uint y)} c s s'"
proof (cases "inside s (uint x) (uint y) \<and> created s")
  case False
  then have "spr_drawPixel x y c s = Some s" using pixel_test [OF ok, of x y] by (auto simp: spr_drawPixel_def)
  moreover have "places s {(uint x, uint y)} = {}" using False by (auto simp: places_def)
  ultimately show ?thesis by (simp add: drawn_nothing)
next
  case True
  then have cr: "created s" and i: "inside s (uint x) (uint y)" by simp_all
  have test: "\<not> (x \<ge> u32_of (iwidth s) \<or> y \<ge> u32_of (iheight s) \<or> \<not> created s)" using pixel_test [OF ok cr, of x y] i cr by simp
  have P: "places s {(uint x, uint y)} = {place s (uint x) (uint y)}" using True by (auto simp: places_def)
  note idx = cell_index_inside [OF ok cr i]
  consider "bpp s = 16" | "bpp s = 8" | "bpp s = 1" using ok cr by (auto simp: sprite_ok_def split: if_splits)
  then show ?thesis
  proof cases
    case 1
    then have "nat (uint x + uint y * iwidth s) < length (img s)" using idx(2) ok cr by (simp add: sprite_ok_def)
    then show ?thesis
      using filled_cells_write [of _ "img s" "swap_color c"] filled_img [OF ok cr 1] test 1
      by (fastforce simp: spr_drawPixel_def idx(1) drawn_def P place_def)
  next
    case 2
    then have "nat (uint x + uint y * iwidth s) < length (img8 s)" "frame s = 0" using idx(2) ok cr by (simp_all add: sprite_ok_def)
    then show ?thesis
      using filled_cells_write [of _ "img8 s" "color_332 c"] filled_img8 [OF ok cr 2] test 2
      by (fastforce simp: spr_drawPixel_def idx(1) drawn_def P place_def)
  next
    case 3
    have "uint x < 2 ^ 16" using i geometry_small [OF ok cr] by (simp add: inside_def)
    then have "uint (ucast (ucast x :: u16) :: u32) = uint x" by (simp add: unsigned_ucast_eq take_bit_eq_mod uint_mod)
    then have tx: "ucast (ucast x :: u16) = x" by (rule word_uint_eqI)
    obtain a b where t: "turned s (uint x) (uint y) = (a, b)" by (metis surj_pair)
    have w: "(if rotation s = 1 then (u32_of (dwidth s) - y - 1, x) else if rotation s = 2 then (u32_of (dwidth s) - x - 1, u32_of (dheight s) - y - 1)
        else if rotation s = 3 then (y, u32_of (dheight s) - x - 1) else (x, y)) = (u32_of a, u32_of b)"
      using t by (auto simp: turned_def u32_of_def split: if_splits)
    show ?thesis
      using bits_drawn [OF ok cr 3 i t, of c] test 3 unfolding spr_drawPixel_def tx Let_def w drawn_def P by simp
  qed
qed


section \<open>Lines and rectangles\<close>

lemma clip_let:
  "(let (n, a) = (if a < 0 then (n + a, 0) else (n, a)); n = (if a + n > m then m - a else n) in F a n) =
     F (max 0 a) (min (a + n) m - max 0 a)" for a n m :: int
  by (auto simp: Let_def max_def min_def add.commute)

lemma depth_cases:
  assumes "sprite_ok s" "created s"
  obtains "bpp s = 16" "length (img s) = nat (iwidth s * iheight s) + 1"
    | "bpp s = 8" "frame s = 0" "length (img8 s) = nat (iwidth s * iheight s) + 1"
    | "bpp s = 1"
  using assms by (auto simp: sprite_ok_def split: if_splits)

lemma int_range: "{a..<a + n} = (\<lambda>i. a + int i) ` {..<nat n}" for a n :: int
proof (rule set_eqI)
  show "z \<in> {a..<a + n} \<longleftrightarrow> z \<in> (\<lambda>i. a + int i) ` {..<nat n}" for z
    by (auto simp: image_iff intro!: bexI [of _ "nat (z - a)"])
qed

text \<open>The places of points that are all on the sprite, for sixteen and eight bits.\<close>

lemma places_image:
  assumes "bpp s \<noteq> 1" "created s" "\<forall>i\<in>I. inside s (fst (g i)) (snd (g i))"
  shows "places s (g ` I) = (\<lambda>i. nat (fst (g i) + snd (g i) * iwidth s)) ` I"
proof -
  have "places s (g ` I) = (\<lambda>i. place s (fst (g i)) (snd (g i))) ` I"
  proof (intro set_eqI iffI)
    fix k assume "k \<in> places s (g ` I)"
    then obtain p where "p \<in> g ` I" "k = place s (fst p) (snd p)" unfolding places_def by fastforce
    then show "k \<in> (\<lambda>i. place s (fst (g i)) (snd (g i))) ` I" by blast
  next
    fix k assume "k \<in> (\<lambda>i. place s (fst (g i)) (snd (g i))) ` I"
    then obtain i where i: "i \<in> I" "k = place s (fst (g i)) (snd (g i))" by blast
    then have "(fst (g i), snd (g i)) \<in> g ` I" by simp
    then show "k \<in> places s (g ` I)" unfolding places_def using i assms(2,3) by blast
  qed
  then show ?thesis using assms(1) by (simp add: place_def)
qed

text \<open>One loop of single pixels, at each depth.\<close>

lemma pixel_loop:
  assumes ok: "sprite_ok s" "created s" and i: "\<forall>i<n. inside s (fst (g i)) (snd (g i))"
    and K: "\<And>i. i < n \<Longrightarrow> K i = nat (fst (g i) + snd (g i) * iwidth s)"
  shows "bpp s = 16 \<Longrightarrow> \<exists>m. foldM (\<lambda>i m. wr m (K i) (swap_color c)) [0..<n] (img s) = Some m \<and> drawn (g ` {..<n}) c s (s\<lparr>img := m\<rparr>)"
    and "bpp s = 8 \<Longrightarrow> \<exists>m. foldM (\<lambda>i m. wr m (frame s + K i) (color_332 c)) [0..<n] (img8 s) = Some m \<and> drawn (g ` {..<n}) c s (s\<lparr>img8 := m\<rparr>)"
    and "\<exists>t. foldM (\<lambda>i. spr_drawPixel (u32_of (fst (g i))) (u32_of (snd (g i))) c) [0..<n] s = Some t \<and> drawn (g ` {..<n}) c s t"
proof -
  have K': "K i < nat (iwidth s * iheight s)" if "i < n" for i
    using row_cell(2) [of "fst (g i)" "iwidth s" "snd (g i)" "iheight s"] row_cell(1) [of "fst (g i)" "iwidth s" "snd (g i)" "iheight s"]
      i K that by (auto simp: inside_def)
  have P: "places s (g ` {..<n}) = (\<Union>i\<in>set [0..<n]. {K i})" if "bpp s \<noteq> 1"
    using places_image [OF that ok(2), of "{..<n}" g] i K by auto
  show "\<exists>m. foldM (\<lambda>i m. wr m (K i) (swap_color c)) [0..<n] (img s) = Some m \<and> drawn (g ` {..<n}) c s (s\<lparr>img := m\<rparr>)" if b: "bpp s = 16"
  proof -
    have "length (img s) = nat (iwidth s * iheight s) + 1" using ok b by (simp add: sprite_ok_def)
    then have "\<exists>m. foldM (\<lambda>i m. wr m (K i) (swap_color c)) [0..<n] (img s) = Some m \<and> filled_cells (\<Union>i\<in>set [0..<n]. {K i}) (swap_color c) (img s) m"
      using K' by (intro filled_cells_loop filled_cells_write) fastforce
    then show ?thesis using filled_img [OF ok b] P b by (auto simp: drawn_def)
  qed
  show "\<exists>m. foldM (\<lambda>i m. wr m (frame s + K i) (color_332 c)) [0..<n] (img8 s) = Some m \<and> drawn (g ` {..<n}) c s (s\<lparr>img8 := m\<rparr>)" if b: "bpp s = 8"
  proof -
    have f: "frame s = 0" and l: "length (img8 s) = nat (iwidth s * iheight s) + 1" using ok b by (simp_all add: sprite_ok_def)
    from l have "\<exists>m. foldM (\<lambda>i m. wr m (K i) (color_332 c)) [0..<n] (img8 s) = Some m \<and> filled_cells (\<Union>i\<in>set [0..<n]. {K i}) (color_332 c) (img8 s) m"
      using K' by (intro filled_cells_loop filled_cells_write) fastforce
    then show ?thesis using filled_img8 [OF ok b] P b f by (auto simp: drawn_def)
  qed
  have "\<exists>t. foldM (\<lambda>i. spr_drawPixel (u32_of (fst (g i))) (u32_of (snd (g i))) c) [0..<n] s = Some t \<and> drawn (\<Union>i\<in>set [0..<n]. {g i}) c s t"
  proof (rule drawn_loop [OF ok(1)])
    fix j t assume j: "j \<in> set [0..<n]" and b: "same_block s t"
    then have "uint (u32_of (fst (g j))) = fst (g j)" "uint (u32_of (snd (g j))) = snd (g j)"
      using i geometry_small [OF ok] by (auto simp: inside_def intro!: uint_u32_of)
    then show "\<exists>u. spr_drawPixel (u32_of (fst (g j))) (u32_of (snd (g j))) c t = Some u \<and> drawn {g j} c t u"
      using spr_drawPixel_drawn [of t "u32_of (fst (g j))" "u32_of (snd (g j))" c] ok(1) same_block_derived(1) [OF b] by simp
  qed
  moreover have "(\<Union>i\<in>set [0..<n]. {g i}) = g ` {..<n}" by auto
  ultimately show "\<exists>t. foldM (\<lambda>i. spr_drawPixel (u32_of (fst (g i))) (u32_of (snd (g i))) c) [0..<n] s = Some t \<and> drawn (g ` {..<n}) c s t" by simp
qed

text \<open>Only the points on the sprite count.\<close>

lemma drawn_clip:
  assumes "drawn P c s s'" "\<And>x y. inside s x y \<Longrightarrow> created s \<Longrightarrow> (x, y) \<in> P \<longleftrightarrow> (x, y) \<in> Q"
  shows "drawn Q c s s'"
proof -
  have "places s P = places s Q" using assms(2) by (auto simp: places_def)
  then show ?thesis using assms(1) by (simp add: drawn_def)
qed

lemma spr_drawFastVLine_drawn:
  assumes ok: "sprite_ok s"
  shows "\<exists>s'. spr_drawFastVLine x y h c s = Some s' \<and> drawn ({x} \<times> {y..<y + h}) c s s'"
proof (cases "x < 0 \<or> x \<ge> iwidth s \<or> y \<ge> iheight s \<or> \<not> created s")
  case True
  then have "places s ({x} \<times> {y..<y + h}) = {}" by (auto simp: places_def inside_def)
  then show ?thesis using True by (auto simp: spr_drawFastVLine_def intro: drawn_nothing)
next
  case False
  define b n where "b = max 0 y" and "n = min (y + h) (iheight s) - max 0 y"
  let ?g = "\<lambda>i. (x, b + int i)"
  note def = spr_drawFastVLine_def [of x y h c s, unfolded clip_let, folded b_def n_def]
  have cr: "created s" using False by simp
  have sub: "j \<in> {b..<b + n} \<longleftrightarrow> j \<in> {y..<y + h}" if "0 \<le> j" "j < iheight s" for j
    using that by (auto simp: b_def n_def)
  have i: "\<forall>i<nat n. inside s (fst (?g i)) (snd (?g i))" using False by (auto simp: inside_def b_def n_def)
  have P: "?g ` {..<nat n} = {x} \<times> {b..<b + n}" unfolding int_range by auto
  have d: "drawn ({x} \<times> {y..<y + h}) c s s'" if "drawn (?g ` {..<nat n}) c s s'" for s'
    using that unfolding P by (rule drawn_clip) (use sub in \<open>simp add: inside_def mem_Times_iff\<close>)
  show ?thesis
  proof (cases "n < 1")
    case True
    then have "spr_drawFastVLine x y h c s = Some s" using False by (simp add: def)
    moreover have "drawn (?g ` {..<nat n}) c s s" using True by (auto intro: drawn_nothing simp: places_def)
    ultimately show ?thesis using d by blast
  next
    case n: False
    have K: "nat (x + iwidth s * b + int i * iwidth s) = nat (fst (?g i) + snd (?g i) * iwidth s)"
      "nat (x + iwidth s * (b + int i)) = nat (fst (?g i) + snd (?g i) * iwidth s)" for i
      by (simp_all add: algebra_simps)
    show ?thesis
      by (rule depth_cases [OF ok cr])
        (use d n False pixel_loop(1) [OF ok cr i K(1), of c] pixel_loop(2) [OF ok cr i K(2), of c]
          pixel_loop(3) [OF ok cr i K(1), of c] in \<open>fastforce simp: def\<close>)+
  qed
qed


lemma nat_image: "0 \<le> a \<Longrightarrow> (\<lambda>i. nat (a + int i)) ` {..<n} = {nat a..<nat a + n}"
proof (rule set_eqI)
  fix k assume a: "0 \<le> a"
  show "k \<in> (\<lambda>i. nat (a + int i)) ` {..<n} \<longleftrightarrow> k \<in> {nat a..<nat a + n}"
  proof
    assume "k \<in> {nat a..<nat a + n}"
    then have "k = nat (a + int (k - nat a))" "k - nat a < n" using a by auto
    then show "k \<in> (\<lambda>i. nat (a + int i)) ` {..<n}" by blast
  qed (use a in auto)
qed

text \<open>A row of pixels is a run of cells.\<close>

lemma row_places:
  assumes "sprite_ok s" "created s" "bpp s \<noteq> 1" "0 \<le> x" "0 \<le> n" "x + n \<le> iwidth s" "0 \<le> y" "y < iheight s"
  shows "places s ({x..<x + n} \<times> {y}) = {nat (iwidth s * y + x)..<nat (iwidth s * y + x) + nat n}"
    and "nat (iwidth s * y + x) + nat n \<le> nat (iwidth s * iheight s)"
proof -
  let ?g = "\<lambda>i. (x + int i, y)"
  have i: "\<forall>i\<in>{..<nat n}. inside s (fst (?g i)) (snd (?g i))" using assms(4-8) by (auto simp: inside_def)
  have P: "{x..<x + n} \<times> {y} = ?g ` {..<nat n}" unfolding int_range by auto
  have e: "x + int i + y * iwidth s = iwidth s * y + x + int i" for i by (simp add: algebra_simps)
  have pos: "0 \<le> iwidth s * y + x" using assms(4,7) geometry_small [OF assms(1,2)] by simp
  show "places s ({x..<x + n} \<times> {y}) = {nat (iwidth s * y + x)..<nat (iwidth s * y + x) + nat n}"
    unfolding P places_image [OF assms(3,2) i] fst_conv snd_conv e by (rule nat_image [OF pos])
  have "(y + 1) * iwidth s \<le> iheight s * iwidth s" using assms(8) geometry_small [OF assms(1,2)] by (intro mult_right_mono) auto
  then have "iwidth s * y + x + n \<le> iwidth s * iheight s" using assms(6) by (simp add: algebra_simps)
  then show "nat (iwidth s * y + x) + nat n \<le> nat (iwidth s * iheight s)" using assms(5) pos by (simp add: nat_add_distrib [symmetric])
qed

lemma spr_drawFastHLine_drawn:
  assumes ok: "sprite_ok s"
  shows "\<exists>s'. spr_drawFastHLine x y w c s = Some s' \<and> drawn ({x..<x + w} \<times> {y}) c s s'"
proof (cases "y < 0 \<or> x \<ge> iwidth s \<or> y \<ge> iheight s \<or> \<not> created s")
  case True
  then have "places s ({x..<x + w} \<times> {y}) = {}" by (auto simp: places_def inside_def)
  then show ?thesis using True by (auto simp: spr_drawFastHLine_def intro: drawn_nothing)
next
  case False
  define b n where "b = max 0 x" and "n = min (x + w) (iwidth s) - max 0 x"
  let ?g = "\<lambda>i. (b + int i, y)"
  note def = spr_drawFastHLine_def [of x y w c s, unfolded clip_let, folded b_def n_def]
  have cr: "created s" using False by simp
  have sub: "j \<in> {b..<b + n} \<longleftrightarrow> j \<in> {x..<x + w}" if "0 \<le> j" "j < iwidth s" for j
    using that by (auto simp: b_def n_def)
  have i: "\<forall>i<nat n. inside s (fst (?g i)) (snd (?g i))" using False by (auto simp: inside_def b_def n_def)
  have P: "?g ` {..<nat n} = {b..<b + n} \<times> {y}" unfolding int_range by auto
  have d: "drawn ({x..<x + w} \<times> {y}) c s s'" if "drawn ({b..<b + n} \<times> {y}) c s s'" for s'
    using that by (rule drawn_clip) (use sub in \<open>simp add: inside_def mem_Times_iff\<close>)
  show ?thesis
  proof (cases "n < 1")
    case True
    then have "spr_drawFastHLine x y w c s = Some s" using False by (simp add: def)
    moreover have "drawn ({b..<b + n} \<times> {y}) c s s" using True by (auto intro: drawn_nothing simp: places_def)
    ultimately show ?thesis using d by blast
  next
    case n: False
    have K: "nat (iwidth s * y + (b + int i)) = nat (fst (?g i) + snd (?g i) * iwidth s)" for i
      by (simp add: algebra_simps)
    note loops = pixel_loop(1) [OF ok cr i K, of c] pixel_loop(3) [OF ok cr i K, of c]
    have row: "0 \<le> b" "0 \<le> n" "b + n \<le> iwidth s" "0 \<le> y" "y < iheight s" using False n by (auto simp: b_def n_def)
    show ?thesis
    proof (rule depth_cases [OF ok cr])
      assume 8: "bpp s = 8" "frame s = 0" "length (img8 s) = nat (iwidth s * iheight s) + 1"
      have "bpp s \<noteq> 1" using 8 by simp
      note row = row_places [OF ok cr this row]
      obtain m where "mem_write (img8 s) (nat (iwidth s * y + b)) (replicate (nat n) (color_332 c)) = Some m"
        "filled_cells {nat (iwidth s * y + b)..<nat (iwidth s * y + b) + nat n} (color_332 c) (img8 s) m"
        using filled_cells_set [of "nat (iwidth s * y + b)" "nat n" "img8 s" "color_332 c"] row(2) 8(3) by auto
      then have "spr_drawFastHLine x y w c s = Some (s\<lparr>img8 := m\<rparr>)" "drawn ({b..<b + n} \<times> {y}) c s (s\<lparr>img8 := m\<rparr>)"
        using False n 8 filled_img8 [OF ok cr 8(1)] by (simp_all add: def drawn_def row(1))
      then show ?thesis using d by blast
    qed (use d n False loops in \<open>fastforce simp: def P\<close>)+
  qed
qed


lemma rows_product: "{x..<x + n} \<times> {y..<y + h} = (\<Union>j\<in>{..<nat h}. {x..<x + n} \<times> {y + int j})" for x y n h :: int
  using int_range [of y h] by auto

lemma fill_clipped_drawn:
  assumes ok: "sprite_ok s" "created s" and r: "0 \<le> x" "1 \<le> w" "x + w \<le> iwidth s" "0 \<le> y" "1 \<le> h" "y + h \<le> iheight s"
  shows "\<exists>s'. fill_clipped x y w h c s = Some s' \<and> drawn ({x..<x + w} \<times> {y..<y + h}) c s s'"
proof -
  let ?K = "\<lambda>j. {nat (iwidth s * y + x + int j * iwidth s)..<nat (iwidth s * y + x + int j * iwidth s) + nat w}"
  have e: "iwidth s * (y + int j) + x = iwidth s * y + x + int j * iwidth s" for j by (simp add: algebra_simps)
  have row: "places s ({x..<x + w} \<times> {y + int j}) = ?K j"
      "nat (iwidth s * y + x + int j * iwidth s) + nat w \<le> nat (iwidth s * iheight s)"
    if "j < nat h" "bpp s \<noteq> 1" for j
    using row_places [OF ok that(2) r(1) _ r(3), of "y + int j"] r that(1) unfolding e by auto
  have P: "places s ({x..<x + w} \<times> {y..<y + h}) = (\<Union>j\<in>{..<nat h}. ?K j)" if "bpp s \<noteq> 1"
    using row(1) [OF _ that] unfolding rows_product places_UNION [symmetric] by auto
  show ?thesis
  proof (rule depth_cases [OF ok])
    assume 16: "bpp s = 16" "length (img s) = nat (iwidth s * iheight s) + 1"
    then have b: "bpp s \<noteq> 1" by simp
    have 0: "nat (iwidth s * y + x) + nat w \<le> nat (iwidth s * iheight s)" using row(2) [OF _ b, of 0] r(5) by simp
    have "\<exists>m. foldM (\<lambda>i m. wr m (nat (iwidth s * y + x + int i)) (swap_color c)) [0..<nat w] (img s) = Some m \<and>
        filled_cells (\<Union>i\<in>set [0..<nat w]. {nat (iwidth s * y + x + int i)}) (swap_color c) (img s) m"
      using 0 16(2) by (intro filled_cells_loop filled_cells_write) auto
    moreover have "(\<Union>i\<in>set [0..<nat w]. {nat (iwidth s * y + x + int i)}) = (\<lambda>i. nat (iwidth s * y + x + int i)) ` {..<nat w}" by auto
    moreover have "\<dots> = ?K 0" using nat_image [of "iwidth s * y + x" "nat w"] r(1,4) geometry_small [OF ok] by simp
    ultimately obtain m where m: "foldM (\<lambda>i m. wr m (nat (iwidth s * y + x + int i)) (swap_color c)) [0..<nat w] (img s) = Some m"
      "filled_cells (?K 0) (swap_color c) (img s) m" by auto
    have len: "length m = length (img s)" using m(2) by (simp add: filled_cells_def)
    have fits: "\<forall>j\<in>set [1..<nat h]. nat (iwidth s * y + x + int j * iwidth s) + nat w \<le> length m"
      using row(2) [OF _ b] 16(2) len by (auto intro: le_SucI)
    have first: "nat (iwidth s * y + x) + nat w \<le> length m" using 0 16(2) len by simp
    have "\<forall>k. nat (iwidth s * y + x) \<le> k \<and> k < nat (iwidth s * y + x) + nat w \<longrightarrow> m ! k = swap_color c"
      using m(2) first len by (auto simp: filled_cells_def)
    then obtain m' where m': "foldM (\<lambda>j m. move_cells m (nat (iwidth s * y + x + int j * iwidth s)) (nat (iwidth s * y + x)) (nat w)) [1..<nat h] m = Some m'"
      "filled_cells (\<Union>j\<in>set [1..<nat h]. ?K j) (swap_color c) m m'"
      using filled_cells_rows [OF first fits] by blast
    have "{..<nat h} = insert 0 (set [1..<nat h])" using r(5) by auto
    then have "filled_cells (places s ({x..<x + w} \<times> {y..<y + h})) (swap_color c) (img s) m'"
      using filled_cells_trans [OF m(2) m'(2)] by (simp add: P [OF b])
    then show ?thesis
      using filled_img [OF ok 16(1)] m(1) m'(1) 16(1) by (simp add: fill_clipped_def drawn_def)
  next
    assume 8: "bpp s = 8" "frame s = 0" "length (img8 s) = nat (iwidth s * iheight s) + 1"
    then have b: "bpp s \<noteq> 1" by simp
    have "\<exists>m. foldM (\<lambda>j m. mem_write m (nat (iwidth s * y + x + int j * iwidth s)) (replicate (nat w) (color_332 c))) [0..<nat h] (img8 s) = Some m \<and>
        filled_cells (\<Union>j\<in>set [0..<nat h]. ?K j) (color_332 c) (img8 s) m"
      using 8(3) row(2) [OF _ b] by (intro filled_cells_loop filled_cells_set) fastforce
    then show ?thesis
      using filled_img8 [OF ok 8(1)] 8(1,2) P [OF b] by (auto simp: fill_clipped_def drawn_def atLeast0LessThan)
  next
    assume 1: "bpp s = 1"
    have "\<exists>t. foldM (\<lambda>j. foldM (\<lambda>i. spr_drawPixel (u32_of (x + int i)) (u32_of (y + int j)) c) [0..<nat w]) [0..<nat h] s = Some t \<and>
        drawn (\<Union>j\<in>set [0..<nat h]. {x..<x + w} \<times> {y + int j}) c s t"
    proof (rule drawn_loop [OF ok(1)])
      fix j t assume j: "j \<in> set [0..<nat h]" and t: "same_block s t"
      let ?g = "\<lambda>i. (x + int i, y + int j)"
      have i: "\<forall>i<nat w. inside t (fst (?g i)) (snd (?g i))" using j r same_block_fields [OF t] by (auto simp: inside_def)
      have ok': "sprite_ok t" "created t" using ok same_block_derived(1) [OF t] same_block_fields(2) [OF t] by simp_all
      have "?g ` {..<nat w} = {x..<x + w} \<times> {y + int j}" unfolding int_range by auto
      then show "\<exists>u. foldM (\<lambda>i. spr_drawPixel (u32_of (x + int i)) (u32_of (y + int j)) c) [0..<nat w] t = Some u \<and>
          drawn ({x..<x + w} \<times> {y + int j}) c t u"
        using pixel_loop(3) [OF ok' i refl, of c] by simp
    qed
    then show ?thesis using 1 by (simp add: fill_clipped_def rows_product atLeast0LessThan)
  qed
qed

lemma spr_fillRect_drawn:
  assumes ok: "sprite_ok s"
  shows "\<exists>s'. spr_fillRect x y w h c s = Some s' \<and> drawn (if y < 0 then {} else {x..<x + w} \<times> {y..<y + h}) c s s'"
proof -
  define b n k where "b = max 0 x" and "n = min (x + w) (iwidth s) - b" and "k = min (y + h) (iheight s) - y"
  have def: "spr_fillRect x y w h c s = (if \<not> created s \<or> y < 0 \<or> b \<ge> iwidth s \<or> y \<ge> iheight s \<or> n < 1 \<or> k < 1 then Some s
      else fill_clipped b y n k c s)"
    unfolding spr_fillRect_def b_def n_def k_def Let_def by (auto simp: max_def min_def add.commute)
  show ?thesis
  proof (cases "\<not> created s \<or> y < 0 \<or> b \<ge> iwidth s \<or> y \<ge> iheight s \<or> n < 1 \<or> k < 1")
    case True
    then have "places s (if y < 0 then {} else {x..<x + w} \<times> {y..<y + h}) = {}"
      by (auto simp: places_def inside_def b_def n_def k_def)
    then show ?thesis using def True by (auto intro: drawn_nothing)
  next
    case False
    then have "0 \<le> b" "1 \<le> n" "b + n \<le> iwidth s" "0 \<le> y" "1 \<le> k" "y + k \<le> iheight s" by (auto simp: b_def n_def k_def)
    then obtain s' where s': "fill_clipped b y n k c s = Some s'" "drawn ({b..<b + n} \<times> {y..<y + k}) c s s'"
      using fill_clipped_drawn [OF ok] False by blast
    have "drawn (if y < 0 then {} else {x..<x + w} \<times> {y..<y + h}) c s s'"
      using s'(2) by (rule drawn_clip) (use False in \<open>auto simp: inside_def b_def n_def k_def\<close>)
    then show ?thesis using s'(1) def False by auto
  qed
qed

end
