(* ===== verification/SpriteView.thy ===== *)
theory SpriteView
  imports SpriteCells
begin

text \<open>
  What a sprite shows after it was drawn on.  \<open>readPixel\<close> is the view of a sprite: a routine that draws changes
  it in the points it names, at every depth (\<open>drawn_reads\<close>), so the shapes of the display paint a sprite as
  they paint the screen; scrolling moves the view inside the scroll rectangle.
\<close>

section \<open>Reading pixels\<close>

lemma test_bit_7: "j < 8 \<Longrightarrow> drop_bit 7 (push_bit j (ucast b) AND 0x80) = (of_bool (bit (b :: u8) (7 - j)) :: u16)"
proof -
  assume j: "j < 8"
  have "(128 :: u16) = 2 ^ 7" by simp
  then have h: "bit (128 :: u16) i \<longleftrightarrow> i = 7" for i by (simp only: bit_exp_iff) auto
  have "bit (drop_bit 7 (push_bit j (ucast b) AND 128) :: u16) n = bit (of_bool (bit b (7 - j)) :: u16) n" for n
    using j unfolding bit_drop_bit_eq comp_apply bit_and_iff h by (auto simp: bit_push_bit_iff bit_ucast_iff bit_of_bool_iff bit_1_iff)
  then show ?thesis by (rule bit_eqI)
qed

lemma int_and_7: "x AND 7 = x mod (8 :: int)"
proof -
  have "x AND 7 = take_bit 3 x" by (simp only: take_bit_eq_mask) (simp add: mask_eq_exp_minus_1)
  then show ?thesis by (simp add: take_bit_eq_mod)
qed

lemma color8to16_0: "color8to16 0 = 0"
  by (simp add: color8to16_def)

lemma readPixel_content:
  assumes ok: "sprite_ok s" "created s" and i: "inside s x y"
  shows "readPixel x y s = Some (content s (place s x y))"
proof -
  have test: "\<not> (x < 0 \<or> x \<ge> iwidth s \<or> y < 0 \<or> y \<ge> iheight s \<or> \<not> created s)" using i ok(2) by (auto simp: inside_def)
  have c: "place s x y < cells s" by (rule place_within [OF ok i])
  show ?thesis
  proof (rule depth_cases [OF ok])
    assume "bpp s = 16" "length (img s) = nat (iwidth s * iheight s) + 1"
    then show ?thesis using test c by (simp add: readPixel_def content_def place_def cells_def rd_in)
  next
    assume "bpp s = 8" "frame s = 0" "length (img8 s) = nat (iwidth s * iheight s) + 1"
    then show ?thesis using test c color8to16_0 by (auto simp: readPixel_def content_def place_def cells_def rd_in)
  next
    assume 1: "bpp s = 1"
    then have bits: "bits_ok s" using ok by (simp add: sprite_ok_def)
    obtain a b where t: "turned s x y = (a, b)" by (metis surj_pair)
    note n = bit_index [OF bits i t] and w = turned_within [OF bits i]
    have tx: "x mod 2 ^ 16 = x" using i geometry_small [OF ok] by (auto simp: inside_def intro!: mod_pos_pos_trivial)
    have e: "(if rotation s = 1 then (dwidth s - y - 1, x) else if rotation s = 2 then (dwidth s - x - 1, dheight s - y - 1)
        else if rotation s = 3 then (y, dheight s - x - 1) else (x, y)) = (a, b)"
      using t by (simp add: turned_def)
    let ?k = "a + b * bitwidth s"
    have p: "place s x y = nat ?k" using t 1 by (simp add: place_def)
    have d: "drop_bit 3 ?k = int (nat ?k div 8)" using n(2) by (simp add: drop_bit_eq_div zdiv_int)
    have m: "nat (a AND 7) = nat ?k mod 8"
      unfolding int_and_7 using n(2,5) w t nat_mod_distrib [of ?k 8] by simp
    have r: "rd (img8 s) (nat (int (frame s) + drop_bit 3 ?k)) = Some (img8 s ! (frame s + nat ?k div 8))"
      using n(6) by (simp add: d rd_in nat_int_add)
    have "\<not> int (frame s) + drop_bit 3 ?k < 0" unfolding d by linarith
    then show ?thesis
      using test 1 r unfolding readPixel_def tx Let_def e content_def p
      by (simp add: m test_bit_7 del: drop_bit_and)
  qed
qed

lemma readPixel_outside: "\<not> (inside s x y \<and> created s) \<Longrightarrow> readPixel x y s = Some 0"
  unfolding readPixel_def by (rule if_P) (auto simp: inside_def)

text \<open>What a routine that draws changes for the reader.\<close>

lemma drawn_reads:
  assumes ok: "sprite_ok s" and d: "drawn P c s s'"
  shows "readPixel x y s' = (if (x, y) \<in> P \<and> inside s x y \<and> created s then Some (stored s c) else readPixel x y s)"
proof -
  have b: "same_block s s'" using d by (rule drawn_same)
  note f = same_block_fields [OF b] and g = same_block_derived [OF b]
  show ?thesis
  proof (cases "inside s x y \<and> created s")
    case True
    then have k: "place s x y < cells s" using place_within [OF ok] by blast
    have "(x, y) \<in> P" if in_P: "place s x y \<in> places s P"
    proof -
      obtain a b where "(a, b) \<in> P" "inside s a b" "place s x y = place s a b" using in_P unfolding places_def by blast
      then show ?thesis using place_inj [OF ok, of x y a b] True by simp
    qed
    then have "place s x y \<in> places s P \<longleftrightarrow> (x, y) \<in> P" using True unfolding places_def by blast
    then have "content s' (place s x y) = (if (x, y) \<in> P then stored s c else content s (place s x y))"
      using d k by (simp add: drawn_def filled_def)
    moreover have "readPixel x y s' = Some (content s' (place s' x y))"
      using True ok f(2) g by (intro readPixel_content) simp_all
    ultimately show ?thesis using True readPixel_content [OF ok, of x y] g by simp
  next
    case False
    then show ?thesis using f(2) g(2) readPixel_outside [of s x y] readPixel_outside [of s' x y] by auto
  qed
qed

section \<open>Shapes\<close>

text \<open>
  The calls with coordinates in range.  A rectangle must not start above the sprite: unlike the display,
  \<open>fillRect\<close> then draws nothing instead of clipping.
\<close>

fun spr_call_ok :: "call \<Rightarrow> bool" where
  "spr_call_ok (Pixel x y c) \<longleftrightarrow> coord x \<and> coord y"
| "spr_call_ok (HLine x y w c) \<longleftrightarrow> coord x \<and> coord y \<and> coord w"
| "spr_call_ok (VLine x y h c) \<longleftrightarrow> coord x \<and> coord y \<and> coord h"
| "spr_call_ok (Fill x y w h c) \<longleftrightarrow> coord x \<and> coord y \<and> coord w \<and> coord h \<and> 0 \<le> y"

lemma spr_call_drawn:
  assumes ok: "sprite_ok s" and k: "spr_call_ok k"
  shows "\<exists>s'. spr_call k s = Some s' \<and> drawn (set (call_points k)) (call_color k) s s'"
proof (cases k)
  case (Pixel x y c)
  obtain s' where s': "spr_drawPixel (u32_of x) (u32_of y) c s = Some s'" "drawn {(uint (u32_of x), uint (u32_of y))} c s s'"
    using spr_drawPixel_drawn [OF ok] by blast
  have e: "uint (u32_of z) = a \<longleftrightarrow> z = a" if "coord z" "0 \<le> a" "a < 0x7FFF" for z a
  proof (cases "0 \<le> z")
    case True
    then show ?thesis using that by (simp add: uint_u32_of coord_def)
  next
    case False
    have "u32_of (z + 2 ^ 32) = u32_of z" by (simp add: u32_of_def)
    then have "uint (u32_of z) = z + 2 ^ 32"
      using that(1) uint_u32_of [of "z + 2 ^ 32"] False by (simp add: coord_def)
    then show ?thesis using that False by (simp add: coord_def)
  qed
  have "drawn {(x, y)} c s s'"
    using s'(2)
  proof (rule drawn_clip)
    fix a b assume "inside s a b" "created s"
    then have "0 \<le> a" "a < 0x7FFF" "0 \<le> b" "b < 0x7FFF" using geometry_small [OF ok] by (auto simp: inside_def)
    then show "(a, b) \<in> {(uint (u32_of x), uint (u32_of y))} \<longleftrightarrow> (a, b) \<in> {(x, y)}"
      using e [of x a] e [of y b] k Pixel by auto
  qed
  then show ?thesis using s'(1) Pixel by simp
next
  case (HLine x y w c)
  have "set (call_points k) = {x..<x + w} \<times> {y}" by (auto simp: HLine)
  then show ?thesis using spr_drawFastHLine_drawn [OF ok, of x y w c] HLine by simp
next
  case (VLine x y h c)
  have "set (call_points k) = {x} \<times> {y..<y + h}" by (auto simp: VLine)
  then show ?thesis using spr_drawFastVLine_drawn [OF ok, of x y h c] VLine by simp
next
  case (Fill x y w h c)
  have "set (call_points k) = {x..<x + w} \<times> {y..<y + h}" by (auto simp: Fill)
  then show ?thesis using spr_fillRect_drawn [OF ok, of x y w h c] Fill k by simp
qed

lemma spr_calls_drawn:
  assumes "sprite_ok s" "\<forall>k\<in>set ks. spr_call_ok k \<and> call_color k = c"
  shows "\<exists>s'. spr_calls ks s = Some s' \<and> drawn (set (points ks)) c s s'"
proof -
  have "\<exists>u. foldM spr_call ks s = Some u \<and> drawn (\<Union>k\<in>set ks. set (call_points k)) c s u"
    using assms spr_call_drawn same_block_derived(1) by (intro drawn_loop) metis+
  moreover have "(\<Union>k\<in>set ks. set (call_points k)) = set (points ks)" by (simp add: points_def)
  ultimately show ?thesis by (simp add: spr_calls_def)
qed


text \<open>A 16-bit sprite keeps the colours that have sixteen bits.\<close>

lemma color_16: "c < 0x10000 \<Longrightarrow> ucast (ucast c :: u16) = (c :: u32)"
proof -
  assume "c < 0x10000"
  then have "uint c < 0x10000" by (simp add: word_less_def)
  then have "uint (ucast (ucast c :: u16) :: u32) = uint c" by (simp add: unsigned_ucast_eq take_bit_eq_mod uint_mod)
  then show ?thesis by (rule word_uint_eqI)
qed

lemma swap_color_ucast: "swap_color (ucast k) = bswap16 k"
  unfolding swap_color_def bswap16_def by (intro bit_eqI) (auto simp: bit_simps)

lemma bswap16_twice: "bswap16 (bswap16 k) = k"
proof (rule bit_word_eqI)
  show "bit (bswap16 (bswap16 k)) n = bit k n" if "n < LENGTH(16)" for n
    using that by (cases "n < 8") (auto simp: bswap16_def bit_simps)
qed

lemma stored_16: "bpp s = 16 \<Longrightarrow> c < 0x10000 \<Longrightarrow> stored s c = ucast c"
  using swap_color_ucast [of "ucast c"] by (simp add: stored_def color_16 bswap16_twice)

lemma even_color: "(ucast c :: u8) = ucast (drop_bit 8 c) \<Longrightarrow> c < 0x10000 \<Longrightarrow> le_pair (ucast c) (ucast c) = swap_color c"
proof -
  assume e: "(ucast c :: u8) = ucast (drop_bit 8 c)" and "c < 0x10000"
  then obtain k :: u16 where k: "c = ucast k" using color_16 [of c] by metis
  have "bit k n \<longleftrightarrow> bit k (n + 8)" if "n < 8" for n
  proof -
    have "bit (ucast c :: u8) n \<longleftrightarrow> bit (ucast (drop_bit 8 c) :: u8) n" by (simp add: e)
    then show ?thesis using that by (simp add: k bit_simps add.commute)
  qed
  note b = this
  have "le_pair (ucast c) (ucast c) = bswap16 k"
  proof (rule bit_word_eqI)
    fix n assume "n < LENGTH(16)"
    then have "n < 8 \<or> (\<exists>i. n = 8 + i \<and> i < 8)" by (auto intro!: exI [of _ "n - 8"])
    then consider "n < 8" | i where "n = 8 + i" "i < 8" by blast
    then show "bit (le_pair (ucast c) (ucast c)) n = bit (bswap16 k) n"
    proof cases
      case 1
      then show ?thesis using b [OF 1] by (simp add: le_pair_def bswap16_def k bit_simps add.commute)
    next
      case 2
      moreover have "\<not> bit k (16 + i)" using bit_imp_le_length [of k "16 + i"] by auto
      ultimately show ?thesis by (simp add: le_pair_def bswap16_def k bit_simps)
    qed
  qed
  then show ?thesis by (simp add: k swap_color_ucast)
qed

section \<open>The whole sprite\<close>

lemma places_all:
  assumes ok: "sprite_ok s" "created s" and r: "bpp s = 1 \<longrightarrow> rotation s \<notin> {1, 2, 3}"
  shows "places s UNIV = {..<cells s}"
proof (intro set_eqI iffI)
  fix k assume "k \<in> places s UNIV"
  then show "k \<in> {..<cells s}" using place_within [OF ok] by (auto simp: places_def)
next
  fix k assume k: "k \<in> {..<cells s}"
  let ?w = "iwidth s"
  have w: "1 \<le> ?w" using geometry_small [OF ok] by simp
  have c: "cells s = nat (?w * iheight s)" "place s x y = nat (x + y * ?w)" for x y
    using r ok by (auto simp: cells_def place_def sprite_ok_def bits_ok_def turned_def)
  have "int k < ?w * iheight s" using k c(1) by simp
  moreover have "int k div ?w * ?w \<le> int k" using w by (simp add: minus_mod_eq_div_mult [symmetric])
  moreover have "?w * iheight s \<le> int k div ?w * ?w" if "iheight s \<le> int k div ?w"
    using mult_right_mono [OF that, of ?w] w by (simp add: mult.commute)
  ultimately have "int k div ?w < iheight s" by linarith
  then have i: "inside s (int k mod ?w) (int k div ?w)" using w by (simp add: inside_def pos_imp_zdiv_nonneg_iff)
  moreover have "place s (int k mod ?w) (int k div ?w) = k" unfolding c(2) by simp
  ultimately show "k \<in> places s UNIV" using ok(2) unfolding places_def by force
qed

lemma fillSprite_drawn:
  assumes ok: "sprite_ok s" and c: "c < 0x10000" and r: "bpp s = 1 \<longrightarrow> rotation s \<notin> {1, 2, 3}"
  shows "\<exists>s'. fillSprite c s = Some s' \<and> drawn UNIV c s s'"
proof (cases "created s")
  case False
  then show ?thesis by (auto simp: fillSprite_def places_def intro!: drawn_nothing)
next
  case cr: True
  note all = places_all [OF ok cr r]
  show ?thesis
  proof (rule depth_cases [OF ok cr])
    assume 16: "bpp s = 16" "length (img s) = nat (iwidth s * iheight s) + 1"
    show ?thesis
    proof (cases "(ucast c :: u8) = ucast (drop_bit 8 c)")
      case True
      obtain m where "mem_write (img s) 0 (replicate (cells s) (swap_color c)) = Some m" "filled_cells {0..<cells s} (swap_color c) (img s) m"
        using filled_cells_set [of 0 "cells s" "img s" "swap_color c"] 16 by (auto simp: cells_def)
      then show ?thesis
        using filled_img [OF ok cr 16(1)] True 16(1) cr even_color [OF True c]
        by (auto simp: fillSprite_def drawn_def all cells_def atLeast0LessThan)
    next
      case False
      have "drawn UNIV c s s'" if "drawn ({0..<0 + iwidth s} \<times> {0..<0 + iheight s}) c s s'" for s'
        using that by (rule drawn_clip) (simp add: inside_def)
      then show ?thesis using False 16(1) cr spr_fillRect_drawn [OF ok, of 0 0 "iwidth s" "iheight s" c] by (auto simp: fillSprite_def)
    qed
  next
    assume 8: "bpp s = 8" "frame s = 0" "length (img8 s) = nat (iwidth s * iheight s) + 1"
    obtain m where "mem_write (img8 s) 0 (replicate (cells s) (color_332 c)) = Some m" "filled_cells {0..<cells s} (color_332 c) (img8 s) m"
      using filled_cells_set [of 0 "cells s" "img8 s" "color_332 c"] 8 by (auto simp: cells_def)
    then show ?thesis
      using filled_img8 [OF ok cr 8(1)] 8(1,2) cr by (auto simp: fillSprite_def drawn_def all cells_def atLeast0LessThan)
  next
    assume 1: "bpp s = 1"
    then have bits: "bits_ok s" and g: "iwidth s = bitwidth s" "iheight s = dheight s"
      using ok cr r by (auto simp: sprite_ok_def bits_ok_def)
    obtain q where q: "bitwidth s = 8 * q" using bits by (auto simp: bits_ok_def)
    define v :: u8 where "v = (if c \<noteq> 0 then 0xFF else 0)"
    define n where "n = nat (drop_bit 3 (iwidth s) * iheight s + 1)"
    have pos: "0 \<le> q * dheight s" using bits q by (auto simp: bits_ok_def)
    have b: "nat (bitwidth s * dheight s) = 8 * nat (q * dheight s)"
      using nat_mult_distrib [of 8 "q * dheight s"] by (simp add: q mult.assoc)
    have cells: "cells s = 8 * nat (q * dheight s)" using 1 b by (simp add: cells_def)
    have n: "n = nat (q * dheight s) + 1" using g q pos by (simp add: n_def drop_bit_eq_div)
    have "frame s + n \<le> length (img8 s)" using bits n b by (auto simp: bits_ok_def)
    then obtain m where m: "mem_write (img8 s) (frame s) (replicate n v) = Some m" "filled_cells {frame s..<frame s + n} v (img8 s) m"
      using filled_cells_set [of "frame s" n "img8 s" v] by auto
    have "bit v j \<longleftrightarrow> c \<noteq> 0" if "j < 8" for j
    proof -
      have "(0xFF :: u8) = - 1" by simp
      then have "bit (0xFF :: u8) j" using that by (simp only: bit_minus_1_iff possible_bit_word) simp
      then show ?thesis by (simp add: v_def)
    qed
    moreover have "frame s + k div 8 < length (img8 s) \<and> k div 8 < n" if "k < cells s" for k
      using that \<open>frame s + n \<le> length (img8 s)\<close> by (simp add: cells n div_less_iff_less_mult)
    ultimately have "filled {..<cells s} c s (s\<lparr>img8 := m\<rparr>)"
      using m(2) 1 by (auto simp: filled_def same_block_def content_def stored_def filled_cells_def)
    then show ?thesis using m(1) 1 cr by (auto simp: fillSprite_def n_def v_def drawn_def all)
  qed
qed


section \<open>A new sprite\<close>

definition scroll_ok :: "sprite \<Rightarrow> bool" where
  "scroll_ok s \<longleftrightarrow> 0 \<le> scroll_x s \<and> 0 \<le> scroll_y s \<and> 1 \<le> scroll_w s \<and> 1 \<le> scroll_h s \<and>
     scroll_x s + uint (scroll_w s) \<le> iwidth s \<and> scroll_y s + uint (scroll_h s) \<le> iheight s"

lemma unat_area: "1 \<le> w \<Longrightarrow> w \<le> 0x7FFF \<Longrightarrow> 1 \<le> h \<Longrightarrow> h \<le> 0x7FFF \<Longrightarrow> unat (u32_of (w * h + 1)) = nat (w * h) + 1"
  using area_small [of w h] u32_of_small [of "w * h + 1"] by (simp add: nat_add_distrib)

lemma padded_width: "1 \<le> w \<Longrightarrow> w \<le> 0x7FF8 \<Longrightarrow> int16_of ((w + 7) AND 0xFFF8) = (w + 7) div 8 * 8"
proof -
  assume w: "1 \<le> w" "w \<le> 0x7FF8"
  have "nat (w + 7) AND 0xFFF8 = nat (w + 7) div 8 * 8" using w by (intro and_multiple_of_8) simp
  moreover have "(w + 7) AND 0xFFF8 = int (nat (w + 7) AND 0xFFF8)"
    using w by (simp add: of_nat_and_eq)
  ultimately have "(w + 7) AND 0xFFF8 = (w + 7) div 8 * 8" using w by (simp add: zdiv_int)
  moreover have "0 \<le> (w + 7) div 8 * 8" "(w + 7) div 8 * 8 < 2 ^ 15" using w by simp_all
  moreover have "int16_of i = i" if "0 \<le> i" "i < 2 ^ 15" for i
    using that by (simp add: int16_of_def sint_uint uint_word_of_int signed_take_bit_int_eq_self)
  ultimately show ?thesis by simp
qed

lemma createSprite_ok:
  assumes s: "\<not> created s" "rotation s = 0" "bpp s \<in> {1, 8, 16}" and size: "w \<le> 0x7FF8" "h \<le> 0x7FFF"
    and res: "createSprite alloc w h frames s = (s', True)"
  shows "created s'" "sprite_ok s'" "scroll_ok s'" "bpp s' = bpp s" "rotation s' = 0" "1 \<le> w" "1 \<le> h" "dwidth s' = w" "dheight s' = h"
    "iwidth s' = (if bpp s = 1 then (w + 7) div 8 * 8 else w)" "iheight s' = h"
    "\<forall>c\<in>set (img s'). bpp s = 16 \<longrightarrow> c = 0" "\<forall>c\<in>set (img8 s'). bpp s \<noteq> 16 \<longrightarrow> c = 0"
    "win_xs s' = win_xs s" "win_ys s' = win_ys s" "win_xe s' = win_xe s" "win_ye s' = win_ye s" "xptr s' = xptr s" "yptr s' = yptr s"
proof -
  have wh: "1 \<le> w" "1 \<le> h" using res s(1) by (auto simp: createSprite_def split: if_splits)
  define f where "f = (if frames > 2 then 2 else if frames < 1 then 1 else frames)"
  have f: "1 \<le> uint f" "uint f \<le> 2" by (auto simp: f_def word_less_def)
  define q where "q = (w + 7) div 8"
  have q: "1 \<le> q" "q \<le> 0xFFF" "w \<le> 8 * q" "8 * q < w + 8" using wh size unfolding q_def by auto
  have a: "q * h < 2 ^ 30" using area_small [of q h] q wh size by simp
  have "uint f * q * h \<le> 2 * (q * h)" using f q wh by (simp add: mult.assoc mult_right_mono)
  moreover have "1 * (q * h) \<le> uint f * (q * h)" using f q wh by (intro mult_right_mono) auto
  moreover have "0 < q * h" using q wh by simp
  ultimately have n: "unat (u32_of (uint f * q * h + uint f)) = nat (uint f * q * h + uint f)" "q * h < uint f * q * h + uint f"
    using a f by (auto intro!: u32_of_small simp: mult.assoc)
  have b: "nat (8 * q * h) div 8 = nat (q * h)" using nat_mult_distrib [of 8 "q * h"] by (simp add: mult.assoc)
  have bits: "frame s + 0 = frame s \<and> nat (8 * q * h) div 8 < nat (uint f * q * h + uint f)"
    unfolding b using n(2) \<open>0 < q * h\<close> by simp
  note defs = createSprite_def f_def [symmetric] padded_width [OF wh(1) size(1)] q_def [symmetric] drop_bit_eq_div Let_def
  have u: "uint (u32_of w) = w" "uint (u32_of h) = h" "u32_of w \<ge> 1" "u32_of h \<ge> 1" "uint (u32_of w) \<le> 8 * q"
    using uint_u32_of wh size q by (simp_all add: word_le_def)
  from s(3) consider "bpp s = 16" | "bpp s = 8" | "bpp s = 1" by auto
  then have "created s' \<and> sprite_ok s' \<and> scroll_ok s' \<and> bpp s' = bpp s \<and> rotation s' = 0 \<and> dwidth s' = w \<and> dheight s' = h \<and>
    iwidth s' = (if bpp s = 1 then (w + 7) div 8 * 8 else w) \<and> iheight s' = h \<and>
    (\<forall>c\<in>set (img s'). bpp s = 16 \<longrightarrow> c = 0) \<and> (\<forall>c\<in>set (img8 s'). bpp s \<noteq> 16 \<longrightarrow> c = 0) \<and>
    win_xs s' = win_xs s \<and> win_ys s' = win_ys s \<and> win_xe s' = win_xe s \<and> win_ye s' = win_ye s \<and> xptr s' = xptr s \<and> yptr s' = yptr s"
  proof cases
    case 1
    have "s' = s\<lparr>iwidth := w, dwidth := w, bitwidth := w, iheight := h, dheight := h, scroll_x := 0, scroll_y := 0, scroll_w := u32_of w,
        scroll_h := u32_of h, scroll_color := 0, img := replicate (nat (w * h) + 1) 0, created := True\<rparr>"
      using res 1 s(1) wh size unat_area [OF wh(1) _ wh(2)] by (simp add: createSprite_def Let_def split: if_splits)
    then show ?thesis using 1 s(2) wh size u by (simp add: sprite_ok_def scroll_ok_def)
  next
    case 2
    have "s' = s\<lparr>iwidth := w, dwidth := w, bitwidth := w, iheight := h, dheight := h, scroll_x := 0, scroll_y := 0, scroll_w := u32_of w,
        scroll_h := u32_of h, scroll_color := 0, img8 := replicate (nat (w * h) + 1) 0, frame := 0, frame_2 := 0, created := True\<rparr>"
      using res 2 s(1) wh size unat_area [OF wh(1) _ wh(2)] by (simp add: createSprite_def Let_def split: if_splits)
    then show ?thesis using 2 s(2) wh size u by (simp add: sprite_ok_def scroll_ok_def)
  next
    case 3
    have "s' = s\<lparr>dwidth := w, iheight := h, dheight := h, scroll_x := 0, scroll_y := 0, scroll_w := u32_of w,
        scroll_h := u32_of h, scroll_color := 0, iwidth := 8 * q, bitwidth := 8 * q, img8 := replicate (nat (uint f * q * h + uint f)) 0, frame := 0, frame_2 := nat (q * h + 1), created := True\<rparr>"
      using res 3 s(1) wh n(1) by (simp add: defs mult.commute split: if_splits)
    then show ?thesis using 3 s(2) wh size u q bits by (simp add: sprite_ok_def scroll_ok_def bits_ok_def mult.commute)
  qed
  then show "created s'" "sprite_ok s'" "scroll_ok s'" "bpp s' = bpp s" "rotation s' = 0" "1 \<le> w" "1 \<le> h" "dwidth s' = w" "dheight s' = h"
    "iwidth s' = (if bpp s = 1 then (w + 7) div 8 * 8 else w)" "iheight s' = h"
    "\<forall>c\<in>set (img s'). bpp s = 16 \<longrightarrow> c = 0" "\<forall>c\<in>set (img8 s'). bpp s \<noteq> 16 \<longrightarrow> c = 0"
    "win_xs s' = win_xs s" "win_ys s' = win_ys s" "win_xe s' = win_xe s" "win_ye s' = win_ye s" "xptr s' = xptr s" "yptr s' = yptr s"
    using wh by simp_all
qed


text \<open>Neither the window nor the scroll rectangle matters for what is shown.\<close>

lemma view_fields:
  assumes "bpp t = bpp s" "created t = created s" "img t = img s" "img8 t = img8 s" "frame t = frame s" "rotation t = rotation s"
    "iwidth t = iwidth s" "iheight t = iheight s" "dwidth t = dwidth s" "dheight t = dheight s" "bitwidth t = bitwidth s"
  shows "readPixel x y t = readPixel x y s" "sprite_ok t = sprite_ok s" "inside t = inside s" "stored t = stored s"
  by (simp_all only: readPixel_def sprite_ok_def bits_ok_def inside_def stored_def fun_eq_iff assms simp_thms)


section \<open>Drawing shapes\<close>

text \<open>A small sprite for examples: what the memory held before does not matter.\<close>

definition raw_sprite :: sprite where
  "raw_sprite = \<lparr>bpp = 0, created = True, img = [], img8 = [], frame = 0, frame_2 = 0, iwidth = 7, iheight = 7, dwidth = 7, dheight = 7,
     bitwidth = 7, rotation = 3, win_xs = 7, win_ys = 7, win_xe = 7, win_ye = 7, xptr = 7, yptr = 7, scroll_x = 7, scroll_y = 7,
     scroll_w = 7, scroll_h = 7, scroll_color = 7, iswapBytes = True\<rparr>"

definition small_sprite :: "int \<Rightarrow> sprite" where
  "small_sprite depth = fst (createSprite (\<lambda>_. True) 4 3 1 (fst (setColorDepth (\<lambda>_. True) depth (TFT_eSprite raw_sprite))))"

lemma small_sprite_ok:
  assumes "depth \<in> {1, 8, 16}"
  shows "created (small_sprite depth)" "sprite_ok (small_sprite depth)" "bpp (small_sprite depth) = word_of_int depth"
    "iwidth (small_sprite depth) = (if depth = 1 then 8 else 4)" "iheight (small_sprite depth) = 3" "scroll_ok (small_sprite depth)"
    "rotation (small_sprite depth) = 0"
proof -
  let ?s = "fst (setColorDepth (\<lambda>_. True) depth (TFT_eSprite raw_sprite))"
  have s: "\<not> created ?s" "rotation ?s = 0" "bpp ?s = word_of_int depth" "bpp ?s \<in> {1, 8, 16}"
    using assms by (auto simp: setColorDepth_def TFT_eSprite_def Let_def)
  then have "createSprite (\<lambda>_. True) 4 3 1 ?s = (small_sprite depth, True)"
    unfolding small_sprite_def by (simp add: createSprite_def Let_def)
  note r = createSprite_ok [OF s(1,2,4) _ _ this]
  show "created (small_sprite depth)" "sprite_ok (small_sprite depth)" "bpp (small_sprite depth) = word_of_int depth"
    "iwidth (small_sprite depth) = (if depth = 1 then 8 else 4)" "iheight (small_sprite depth) = 3" "scroll_ok (small_sprite depth)"
    "rotation (small_sprite depth) = 0"
    using r assms s(3) by auto
qed

text \<open>
  The shapes of the display, made of pixels, lines and rectangles of one colour (with coordinates below \<open>2 ^ 30\<close>, and
  no rectangle starting above the sprite), paint a sprite at every depth: the points of the shape that are on the sprite
  show what is left of the colour, all others what they showed, and nothing outside the block is written.
\<close>
theorem sprite_shapes:
  assumes ok: "sprite_ok s" and ks: "\<forall>k\<in>set ks. spr_call_ok k \<and> call_color k = c"
  shows "\<exists>s'. spr_calls ks s = Some s' \<and> sprite_ok s' \<and>
    (\<forall>x y. readPixel x y s' = (if (x, y) \<in> set (points ks) \<and> inside s x y \<and> created s then Some (stored s c) else readPixel x y s))"
  using spr_calls_drawn [OF assms] drawn_reads [OF ok] same_block_derived(1) [OF drawn_same] ok by metis

lemma sprite_shapes_witness:
  "\<exists>s'. spr_calls [HLine (- 1) 1 3 0xF800, VLine 3 0 9 0xF800] (small_sprite 8) = Some s' \<and>
     readPixel 1 1 s' = Some 0xF800 \<and> readPixel 3 2 s' = Some 0xF800 \<and> readPixel 2 1 s' = readPixel 2 1 (small_sprite 8)"
proof -
  have ok: "8 \<in> {1, 8, 16 :: int}" by simp
  obtain s' where s': "spr_calls [HLine (- 1) 1 3 0xF800, VLine 3 0 9 0xF800] (small_sprite 8) = Some s'"
    "\<And>x y. readPixel x y s' = (if (x, y) \<in> set (points [HLine (- 1) 1 3 0xF800, VLine 3 0 9 0xF800]) \<and> inside (small_sprite 8) x y \<and>
      created (small_sprite 8) then Some (stored (small_sprite 8) 0xF800) else readPixel x y (small_sprite 8))"
    using sprite_shapes [OF small_sprite_ok(2) [OF ok], where ks = "[HLine (- 1) 1 3 0xF800, VLine 3 0 9 0xF800]" and c = "0xF800"] by (auto simp: coord_def)
  have "stored (small_sprite 8) 0xF800 = 0xF800" by (simp add: stored_def small_sprite_ok [OF ok] color_332_def color8to16_def)
  then show ?thesis using s'(1) by (auto simp: s'(2) inside_def small_sprite_ok [OF ok])
qed

end
