(* ===== verification/SpriteWindow.thy ===== *)
theory SpriteWindow
  imports SpriteView
begin

text \<open>
  The windows of a sprite: \<open>pushColor\<close> and \<open>writeColor\<close> stay in the block, which has one pixel more than the
  sprite for windows outside it, and colours that are pushed fill a window row by row.
\<close>

section \<open>Windows\<close>

text \<open>
  A window lies on the sprite, or is the pixel after the last one, which the block has for this purpose; the
  next pixel is in the window.
\<close>

definition window_ok :: "sprite \<Rightarrow> bool" where
  "window_ok s \<longleftrightarrow> 0 \<le> win_xs s \<and> win_xs s \<le> xptr s \<and> xptr s \<le> win_xe s \<and> 0 \<le> win_ys s \<and> win_ys s \<le> yptr s \<and> yptr s \<le> win_ye s \<and>
     (win_xe s < iwidth s \<and> win_ye s < iheight s \<or> win_xe s = 0 \<and> win_ys s = iheight s \<and> win_ye s = iheight s)"

lemma same_window: "same_block s t \<Longrightarrow> window_ok t = window_ok s"
  using same_block_fields [of s t] by (simp add: window_ok_def)

lemma setWindow_eq:
  "setWindow x0 y0 x1 y1 s =
     (if max 0 (min x0 x1) \<ge> iwidth s \<or> max 0 (min y0 y1) \<ge> iheight s
      then s\<lparr>win_xs := 0, win_ys := iheight s, win_xe := 0, win_ye := iheight s, xptr := 0, yptr := iheight s\<rparr>
      else s\<lparr>win_xs := max 0 (min x0 x1), win_ys := max 0 (min y0 y1), win_xe := min (max 0 (max x0 x1)) (iwidth s - 1),
        win_ye := min (max 0 (max y0 y1)) (iheight s - 1), xptr := max 0 (min x0 x1), yptr := max 0 (min y0 y1)\<rparr>)"
proof -
  have "(if b < a then (b, a) else (a, b)) = (min a b, max a b)" "(if a < 0 then 0 else a) = max 0 a"
    "(if a \<ge> m then m - 1 else a) = min a (m - 1)" for a b m :: int
    by auto
  note e = this
  show ?thesis unfolding setWindow_def e Let_def prod.case by (simp only: if_distrib [of "case_prod _"] split: if_split) auto
qed

lemma setWindow_fields [simp]:
  "bpp (setWindow x0 y0 x1 y1 s) = bpp s" "created (setWindow x0 y0 x1 y1 s) = created s" "img (setWindow x0 y0 x1 y1 s) = img s"
  "img8 (setWindow x0 y0 x1 y1 s) = img8 s" "frame (setWindow x0 y0 x1 y1 s) = frame s" "rotation (setWindow x0 y0 x1 y1 s) = rotation s"
  "iwidth (setWindow x0 y0 x1 y1 s) = iwidth s" "iheight (setWindow x0 y0 x1 y1 s) = iheight s"
  "dwidth (setWindow x0 y0 x1 y1 s) = dwidth s" "dheight (setWindow x0 y0 x1 y1 s) = dheight s" "bitwidth (setWindow x0 y0 x1 y1 s) = bitwidth s"
  "scroll_x (setWindow x0 y0 x1 y1 s) = scroll_x s" "scroll_y (setWindow x0 y0 x1 y1 s) = scroll_y s"
  "scroll_w (setWindow x0 y0 x1 y1 s) = scroll_w s" "scroll_h (setWindow x0 y0 x1 y1 s) = scroll_h s" "scroll_color (setWindow x0 y0 x1 y1 s) = scroll_color s"
  by (simp_all add: setWindow_eq)

lemma setWindow_ok: "1 \<le> iwidth s \<Longrightarrow> 1 \<le> iheight s \<Longrightarrow> window_ok (setWindow x0 y0 x1 y1 s)"
  by (cases "max 0 (min x0 x1) \<ge> iwidth s \<or> max 0 (min y0 y1) \<ge> iheight s") (auto simp: setWindow_eq window_ok_def)

lemma next_pixel_fields [simp]:
  "bpp (next_pixel s) = bpp s" "created (next_pixel s) = created s" "img (next_pixel s) = img s" "img8 (next_pixel s) = img8 s"
  "frame (next_pixel s) = frame s" "rotation (next_pixel s) = rotation s" "iwidth (next_pixel s) = iwidth s" "iheight (next_pixel s) = iheight s"
  "dwidth (next_pixel s) = dwidth s" "dheight (next_pixel s) = dheight s" "bitwidth (next_pixel s) = bitwidth s"
  "scroll_x (next_pixel s) = scroll_x s" "scroll_y (next_pixel s) = scroll_y s" "scroll_w (next_pixel s) = scroll_w s"
  "scroll_h (next_pixel s) = scroll_h s" "scroll_color (next_pixel s) = scroll_color s"
  "win_xs (next_pixel s) = win_xs s" "win_ys (next_pixel s) = win_ys s" "win_xe (next_pixel s) = win_xe s" "win_ye (next_pixel s) = win_ye s"
  by (simp_all add: next_pixel_def Let_def)

lemma next_pixel_ok: "window_ok s \<Longrightarrow> window_ok (next_pixel s)"
  by (auto simp: window_ok_def next_pixel_def Let_def)

lemma filled_beyond: "filled K c s t \<Longrightarrow> (\<And>k. k < cells s \<Longrightarrow> k \<in> K \<longleftrightarrow> k \<in> L) \<Longrightarrow> filled L c s t"
  by (auto simp: filled_def)

lemma window_cell:
  assumes ok: "sprite_ok s" "created s" and w: "window_ok s"
  defines "k \<equiv> nat (xptr s + yptr s * iwidth s)"
  shows "k < nat (iwidth s * iheight s) + 1" "inside s (xptr s) (yptr s) \<or> k = nat (iwidth s * iheight s) \<and> yptr s = iheight s"
proof -
  have "k < nat (iwidth s * iheight s) + 1 \<and> (inside s (xptr s) (yptr s) \<or> k = nat (iwidth s * iheight s) \<and> yptr s = iheight s)"
  proof (cases "inside s (xptr s) (yptr s)")
    case True
    then show ?thesis using row_cell [of "xptr s" "iwidth s" "yptr s" "iheight s"] by (simp add: inside_def k_def)
  next
    case False
    then have "xptr s = 0" "yptr s = iheight s" using w by (auto simp: window_ok_def inside_def)
    then show ?thesis by (simp add: mult.commute k_def)
  qed
  then show "k < nat (iwidth s * iheight s) + 1" "inside s (xptr s) (yptr s) \<or> k = nat (iwidth s * iheight s) \<and> yptr s = iheight s"
    by simp_all
qed

lemma writeColor_safe:
  assumes ok: "sprite_ok s" "created s" and w: "window_ok s"
  shows "\<exists>t. writeColor c s = Some (next_pixel t) \<and> same_block s t"
proof -
  note k = window_cell(1) [OF ok w]
  show ?thesis
  proof (rule depth_cases [OF ok])
    assume "bpp s = 16" "length (img s) = nat (iwidth s * iheight s) + 1"
    then show ?thesis using k ok(2) by (auto simp: writeColor_def wr_in same_block_def)
  next
    assume "bpp s = 8" "frame s = 0" "length (img8 s) = nat (iwidth s * iheight s) + 1"
    then show ?thesis using k ok(2) by (auto simp: writeColor_def wr_in same_block_def)
  next
    assume "bpp s = 1"
    then show ?thesis
      using spr_drawPixel_drawn [OF ok(1), of "u32_of (xptr s)" "u32_of (yptr s)" "ucast c"] ok(2) drawn_same
      by (fastforce simp: writeColor_def)
  qed
qed

lemma spr_pushColor_drawn:
  assumes ok: "sprite_ok s" "created s" and w: "window_ok s"
  shows "\<exists>t. spr_pushColor c s = Some (next_pixel t) \<and> drawn {(xptr s, yptr s)} c s t"
proof -
  let ?k = "nat (xptr s + yptr s * iwidth s)"
  have geo: "1 \<le> iwidth s" "iwidth s \<le> 0x7FFF" "1 \<le> iheight s" "iheight s \<le> 0x7FFF" using geometry_small [OF ok] by simp_all
  have pos: "0 \<le> xptr s" "0 \<le> yptr s" "xptr s < 2 ^ 32" "yptr s < 2 ^ 32" using w geo by (auto simp: window_ok_def)
  note k = window_cell [OF ok w]
  have P: "places s {(xptr s, yptr s)} = (if inside s (xptr s) (yptr s) then {place s (xptr s) (yptr s)} else {})"
    using ok(2) by (auto simp: places_def)
  have d: "drawn {(xptr s, yptr s)} c s t" if "filled {?k} c s t" "bpp s \<noteq> 1" for t
  proof (cases "inside s (xptr s) (yptr s)")
    case True
    then show ?thesis using that by (simp add: drawn_def P place_def)
  next
    case False
    then have "?k = cells s" using k that(2) unfolding cells_def by auto
    then show ?thesis using that(1) False unfolding drawn_def P by (auto intro: filled_beyond)
  qed
  show ?thesis
  proof (rule depth_cases [OF ok])
    assume b: "bpp s = 16" "length (img s) = nat (iwidth s * iheight s) + 1"
    obtain m where "wr (img s) ?k (swap_color c) = Some m" "filled_cells {?k} (swap_color c) (img s) m"
      using filled_cells_write [of ?k "img s" "swap_color c"] k b(2) by auto
    then show ?thesis using b(1) ok(2) d [OF filled_img [OF ok b(1)]] by (auto simp: spr_pushColor_def)
  next
    assume b: "bpp s = 8" "frame s = 0" "length (img8 s) = nat (iwidth s * iheight s) + 1"
    obtain m where "wr (img8 s) ?k (color_332 c) = Some m" "filled_cells {?k} (color_332 c) (img8 s) m"
      using filled_cells_write [of ?k "img8 s" "color_332 c"] k b(3) by auto
    then show ?thesis using b(1,2) ok(2) d [OF filled_img8 [OF ok b(1)]] by (auto simp: spr_pushColor_def)
  next
    assume b: "bpp s = 1"
    then show ?thesis
      using spr_drawPixel_drawn [OF ok(1), of "u32_of (xptr s)" "u32_of (yptr s)" c] ok(2) uint_u32_of pos
      by (auto simp: spr_pushColor_def)
  qed
qed


text \<open>A run of one colour is the same as single pushes of it.\<close>

lemma spr_pushColor_raw:
  assumes "c < 0x10000" "bpp s = b" "created s"
  shows "writeColor (if b = 16 then swap_color c else if b = 8 then ucast (color_332 c) else ucast c) s = spr_pushColor c s"
proof -
  have "ucast (ucast (color_332 c) :: u16) = color_332 c" by (rule bit_eqI) (auto simp: bit_simps)
  then show ?thesis using assms by (auto simp: writeColor_def spr_pushColor_def color_16)
qed

text \<open>
  What \<open>pushColor\<close> keeps, and the pixel it is at after \<open>n\<close> colours.
\<close>

definition pushed_at :: "sprite \<Rightarrow> nat \<Rightarrow> sprite \<Rightarrow> bool" where
  "pushed_at s n t \<longleftrightarrow> sprite_ok t \<and> created t \<and> window_ok t \<and> bpp t = bpp s \<and> inside t = inside s \<and> stored t = stored s \<and>
     win_xs t = win_xs s \<and> win_ys t = win_ys s \<and> win_xe t = win_xe s \<and> win_ye t = win_ye s \<and>
     xptr t = win_xs s + int (n mod nat (win_xe s - win_xs s + 1)) \<and>
     yptr t = win_ys s + int (n div nat (win_xe s - win_xs s + 1))"

definition window_point :: "sprite \<Rightarrow> nat \<Rightarrow> int \<times> int" where
  "window_point s n = (win_xs s + int (n mod nat (win_xe s - win_xs s + 1)), win_ys s + int (n div nat (win_xe s - win_xs s + 1)))"

lemma pushColor_step:
  assumes p: "pushed_at s n t"
  shows "\<exists>u. spr_pushColor c t = Some u \<and>
    (Suc n < nat (win_xe s - win_xs s + 1) * nat (win_ye s - win_ys s + 1) \<longrightarrow> pushed_at s (Suc n) u) \<and>
    (\<forall>x y. readPixel x y u = (if (x, y) = window_point s n \<and> inside s x y then Some (stored s c) else readPixel x y t))"
proof -
  let ?w = "nat (win_xe s - win_xs s + 1)"
  have t: "sprite_ok t" "created t" "window_ok t" using p by (simp_all add: pushed_at_def)
  obtain v where v: "spr_pushColor c t = Some (next_pixel v)" "drawn {(xptr t, yptr t)} c t v"
    using spr_pushColor_drawn [OF t] by blast
  have b: "same_block t v" using v(2) by (rule drawn_same)
  note f = same_block_fields [OF b] and g = same_block_derived [OF b]
  define r q where "r = n mod ?w" and "q = n div ?w"
  have w: "0 < ?w" "int ?w = win_xe s - win_xs s + 1" using t(3) p by (auto simp: window_ok_def pushed_at_def)
  have v': "xptr v = win_xs s + int r" "yptr v = win_ys s + int q" "win_xs v = win_xs s" "win_ys v = win_ys s"
    "win_xe v = win_xe s" "win_ye v = win_ye s"
    using p f by (simp_all add: pushed_at_def r_def q_def)
  have r: "r < ?w" using w(1) by (simp add: r_def)
  have next_mod: "Suc n mod ?w = (if Suc r = ?w then 0 else Suc r)" unfolding r_def by (rule mod_Suc)
  have next_div: "Suc n div ?w = (if Suc r = ?w then Suc q else q)"
    using div_Suc [of n ?w] next_mod by (simp add: q_def)
  have view: "readPixel x y (next_pixel v) = readPixel x y v" "sprite_ok (next_pixel v) = sprite_ok v"
    "inside (next_pixel v) = inside v" "stored (next_pixel v) = stored v" for x y
    by (rule view_fields; simp)+
  have "pushed_at s (Suc n) (next_pixel v)" if n: "Suc n < ?w * nat (win_ye s - win_ys s + 1)"
  proof -
    have "Suc n div ?w < nat (win_ye s - win_ys s + 1)" using n by (simp add: less_mult_imp_div_less mult.commute)
    then have h: "int (Suc n div ?w) < win_ye s - win_ys s + 1" by linarith
    have at: "xptr (next_pixel v) = win_xs s + int (Suc n mod ?w) \<and> yptr (next_pixel v) = win_ys s + int (Suc n div ?w)"
    proof (cases "Suc r = ?w")
      case True
      then have "int r = win_xe s - win_xs s" using w(2) by linarith
      then show ?thesis using True h unfolding next_mod next_div by (simp add: next_pixel_def v' Let_def)
    next
      case False
      then have "int r < win_xe s - win_xs s" using w(2) r by linarith
      then show ?thesis using False unfolding next_mod next_div by (simp add: next_pixel_def v' Let_def)
    qed
    then show ?thesis using p f g view t same_window [OF b] next_pixel_ok by (simp add: pushed_at_def)
  qed
  moreover have "readPixel x y (next_pixel v) = (if (x, y) = window_point s n \<and> inside s x y then Some (stored s c) else readPixel x y t)" for x y
    using drawn_reads [OF t(1) v(2), of x y] p t(2) unfolding view by (auto simp: pushed_at_def window_point_def)
  ultimately show ?thesis using v(1) by blast
qed

text \<open>The number of a pixel in the window, row by row.\<close>

definition window_index :: "sprite \<Rightarrow> int \<Rightarrow> int \<Rightarrow> nat" where
  "window_index s x y = nat (y - win_ys s) * nat (win_xe s - win_xs s + 1) + nat (x - win_xs s)"

definition in_window :: "sprite \<Rightarrow> int \<Rightarrow> int \<Rightarrow> bool" where
  "in_window s x y \<longleftrightarrow> win_xs s \<le> x \<and> x \<le> win_xe s \<and> win_ys s \<le> y \<and> y \<le> win_ye s"

lemma window_point_iff:
  assumes "n < nat (win_xe s - win_xs s + 1) * nat (win_ye s - win_ys s + 1)"
  shows "(x, y) = window_point s n \<longleftrightarrow> in_window s x y \<and> window_index s x y = n"
proof -
  let ?w = "nat (win_xe s - win_xs s + 1)" and ?h = "nat (win_ye s - win_ys s + 1)"
  have w: "0 < ?w" using assms by (cases "?w = 0") simp_all
  show ?thesis
  proof
    assume e: "(x, y) = window_point s n"
    have "n mod ?w < ?w" "n div ?w < ?h" using w assms by (simp_all add: less_mult_imp_div_less mult.commute)
    then have "int (n mod ?w) \<le> win_xe s - win_xs s" "int (n div ?w) \<le> win_ye s - win_ys s" by linarith+
    then show "in_window s x y \<and> window_index s x y = n"
      using e by (simp add: window_point_def in_window_def window_index_def)
  next
    assume e: "in_window s x y \<and> window_index s x y = n"
    then have "nat (x - win_xs s) < ?w" by (auto simp: in_window_def)
    then have "n mod ?w = nat (x - win_xs s)" "n div ?w = nat (y - win_ys s)" using e by (auto simp: window_index_def)
    then show "(x, y) = window_point s n" using e by (simp add: window_point_def in_window_def)
  qed
qed

lemma raster:
  assumes s: "pushed_at s 0 s" "win_xe s < iwidth s" "win_ye s < iheight s"
  shows "length cs \<le> nat (win_xe s - win_xs s + 1) * nat (win_ye s - win_ys s + 1) \<Longrightarrow>
    \<exists>t. foldM spr_pushColor cs s = Some t \<and>
      (length cs < nat (win_xe s - win_xs s + 1) * nat (win_ye s - win_ys s + 1) \<longrightarrow> pushed_at s (length cs) t) \<and>
      (\<forall>x y. readPixel x y t = (if in_window s x y \<and> window_index s x y < length cs
        then Some (stored s (cs ! window_index s x y)) else readPixel x y s))"
proof (induction cs rule: rev_induct)
  case Nil
  then show ?case using s by simp
next
  case (snoc c cs)
  let ?n = "nat (win_xe s - win_xs s + 1) * nat (win_ye s - win_ys s + 1)"
  have n: "length cs < ?n" using snoc.prems by simp
  then obtain t where t: "foldM spr_pushColor cs s = Some t" "pushed_at s (length cs) t"
    "\<And>x y. readPixel x y t = (if in_window s x y \<and> window_index s x y < length cs then Some (stored s (cs ! window_index s x y)) else readPixel x y s)"
    using snoc.IH by auto
  obtain u where u: "spr_pushColor c t = Some u" "Suc (length cs) < ?n \<longrightarrow> pushed_at s (Suc (length cs)) u"
    "\<And>x y. readPixel x y u = (if (x, y) = window_point s (length cs) \<and> inside s x y then Some (stored s c) else readPixel x y t)"
    using pushColor_step [OF t(2), of c] by blast
  have "inside s x y" if "in_window s x y" for x y
    using that s by (auto simp: inside_def in_window_def pushed_at_def window_ok_def)
  then have "readPixel x y u = (if in_window s x y \<and> window_index s x y < length (cs @ [c])
      then Some (stored s ((cs @ [c]) ! window_index s x y)) else readPixel x y s)" for x y
    unfolding u(3) t(3) window_point_iff [OF n] by (auto simp: nth_append)
  then show ?case using t(1) u(1,2) by (simp add: foldM_append)
qed

text \<open>
  Colours that are pushed into a window inside a sprite fill it row by row from its top left corner, at every depth,
  and the rest of the sprite keeps what it shows.
\<close>
theorem sprite_raster:
  assumes ok: "sprite_ok s" "created s" and win: "0 \<le> x0" "x0 \<le> x1" "x1 < iwidth s" "0 \<le> y0" "y0 \<le> y1" "y1 < iheight s"
    and n: "length cs \<le> nat (x1 - x0 + 1) * nat (y1 - y0 + 1)"
  shows "\<exists>s'. foldM spr_pushColor cs (setWindow x0 y0 x1 y1 s) = Some s' \<and>
    (\<forall>x y. readPixel x y s' =
      (let k = nat (y - y0) * nat (x1 - x0 + 1) + nat (x - x0)
       in if x0 \<le> x \<and> x \<le> x1 \<and> y0 \<le> y \<and> y \<le> y1 \<and> k < length cs then Some (stored s (cs ! k)) else readPixel x y s))"
proof -
  let ?s = "setWindow x0 y0 x1 y1 s"
  have w: "win_xs ?s = x0" "win_xe ?s = x1" "win_ys ?s = y0" "win_ye ?s = y1" "xptr ?s = x0" "yptr ?s = y0"
    using win by (simp_all add: setWindow_eq)
  have v: "readPixel x y ?s = readPixel x y s" "sprite_ok ?s = sprite_ok s" "stored ?s = stored s" for x y
    by (rule view_fields; simp)+
  have "window_ok ?s" using win by (intro setWindow_ok) simp_all
  then have "pushed_at ?s 0 ?s" using ok v w by (simp add: pushed_at_def)
  from raster [OF this, of cs] show ?thesis
    using n win unfolding w v by (auto simp: in_window_def window_index_def w Let_def)
qed

end
