(* ===== verification/SpriteScroll.thy ===== *)
theory SpriteScroll
  imports SpriteWindow
begin

text \<open>
  Scrolling a sprite moves what it shows inside the scroll rectangle and fills the gap.  The lines are moved one
  by one in the order in which no line is overwritten before it was copied (\<open>move_rows\<close>).
\<close>

section \<open>Moving lines\<close>

lemma move_lines_loop:
  fixes m :: "'a list"
  shows "move_lines iw base w h tp fp m =
     foldM (\<lambda>i m. move_cells m (base + unat (tp + word_of_nat i * iw)) (base + unat (fp + word_of_nat i * iw)) w) [0..<h] m"
proof (induction h arbitrary: tp fp m)
  case (Suc h)
  have "[0..<Suc h] = 0 # map Suc [0..<h]" by (simp add: map_Suc_upt upt_conv_Cons del: upt_Suc)
  moreover have "foldM (\<lambda>i m. move_cells m (base + unat (tp + word_of_nat i * iw)) (base + unat (fp + word_of_nat i * iw)) w) (map Suc [0..<h]) =
      (move_lines iw base w h (tp + iw) (fp + iw) :: 'a list \<Rightarrow> _)"
    by (rule ext) (unfold Suc.IH foldM_map, simp add: algebra_simps)
  ultimately show ?case by (simp del: upt_Suc)
qed simp

lemma move_cells_in:
  assumes "d + w \<le> length xs" "f + w \<le> length xs"
  shows "\<exists>ys. move_cells xs d f w = Some ys \<and> length ys = length xs \<and>
    (\<forall>k<length xs. ys ! k = (if d \<le> k \<and> k < d + w then xs ! (f + (k - d)) else xs ! k))"
proof -
  let ?row = "take w (drop f xs)"
  have "length ?row = w" using assms(2) by simp
  then have "move_cells xs d f w = Some (take d xs @ ?row @ drop (d + w) xs)"
    using assms by (simp add: move_cells_def mem_read_in mem_write_in)
  then show ?thesis using assms \<open>length ?row = w\<close> by (auto simp: nth_append)
qed

text \<open>Lines that are not overwritten before they are copied arrive as they were.\<close>

lemma move_rows:
  assumes "\<And>i. i < n \<Longrightarrow> d i + w \<le> length xs" "\<And>i. i < n \<Longrightarrow> f i + w \<le> length xs"
    and ord: "\<And>i j. i < j \<Longrightarrow> j < n \<Longrightarrow> (d i + w \<le> f j \<or> f j + w \<le> d i) \<and> (d i + w \<le> d j \<or> d j + w \<le> d i)"
  shows "\<exists>ys. foldM (\<lambda>i m. move_cells m (d i) (f i) w) [0..<n] xs = Some ys \<and> length ys = length xs \<and>
    (\<forall>i<n. \<forall>c<w. ys ! (d i + c) = xs ! (f i + c)) \<and>
    (\<forall>k<length xs. (\<forall>i<n. k < d i \<or> d i + w \<le> k) \<longrightarrow> ys ! k = xs ! k)"
  using assms
proof (induction n)
  case (Suc n)
  obtain ys where ys: "foldM (\<lambda>i m. move_cells m (d i) (f i) w) [0..<n] xs = Some ys" "length ys = length xs"
    "\<forall>i<n. \<forall>c<w. ys ! (d i + c) = xs ! (f i + c)" "\<forall>k<length xs. (\<forall>i<n. k < d i \<or> d i + w \<le> k) \<longrightarrow> ys ! k = xs ! k"
    using Suc.IH Suc.prems by fastforce
  have fits: "d n + w \<le> length ys" "f n + w \<le> length ys" using Suc.prems(1,2) [of n] ys(2) by simp_all
  obtain zs where zs: "move_cells ys (d n) (f n) w = Some zs" "length zs = length ys"
    "\<forall>k<length ys. zs ! k = (if d n \<le> k \<and> k < d n + w then ys ! (f n + (k - d n)) else ys ! k)"
    using move_cells_in [OF fits] by blast
  have src: "ys ! (f n + c) = xs ! (f n + c)" if "c < w" for c
  proof -
    have "f n + c < d i \<or> d i + w \<le> f n + c" if "i < n" for i using Suc.prems(3) [OF that] \<open>c < w\<close> by auto
    moreover have "f n + c < length xs" using fits(2) ys(2) that by simp
    ultimately show ?thesis using ys(4) by blast
  qed
  have "zs ! (d i + c) = xs ! (f i + c)" if "i < Suc n" "c < w" for i c
  proof (cases "i = n")
    case True
    then show ?thesis using zs(3) fits(1) src [OF that(2)] that(2) by simp
  next
    case False
    then have i: "i < n" using that(1) by simp
    have "d i + c < length ys" using Suc.prems(1) [OF that(1)] that(2) ys(2) by simp
    moreover have "d i + w \<le> d n \<or> d n + w \<le> d i" using Suc.prems(3) [OF i] by blast
    then have "\<not> (d n \<le> d i + c \<and> d i + c < d n + w)" using that(2) by auto
    ultimately show ?thesis using zs(3) ys(3) i that(2) by auto
  qed
  moreover have "zs ! k = xs ! k" if "k < length xs" "\<forall>i<Suc n. k < d i \<or> d i + w \<le> k" for k
    using that zs(3) ys(2,4) by auto
  ultimately show ?case using ys(1,2) zs(1,2) by (simp add: foldM_append)
qed simp


section \<open>The cells of a scroll\<close>

lemma u32_of_sums:
  "u32_of a + u32_of b = u32_of (a + b)" "u32_of a - u32_of b = u32_of (a - b)" "u32_of a * u32_of b = u32_of (a * b)"
  "word_of_nat n = u32_of (int n)" "(1 :: u32) = u32_of 1"
  by (simp_all add: u32_of_def)

text \<open>The rows a scroll copies, in the order of the code: \<open>to_row\<close> is where the \<open>i\<close>-th line goes.\<close>

definition to_row :: "int \<Rightarrow> int \<Rightarrow> int \<Rightarrow> nat \<Rightarrow> int" where
  "to_row sy sh dy i = (if dy \<le> 0 then sy + int i else sy + sh - 1 - int i)"

lemma cell_order:
  assumes "0 \<le> (x :: int)" "x + w \<le> W" "0 \<le> x'" "0 \<le> w" "y < y'" "0 \<le> y"
  shows "nat (x + y * W) + nat w \<le> nat (x' + y' * W)"
proof -
  have "(y + 1) * W \<le> y' * W" using assms by (intro mult_right_mono) auto
  then have "x + y * W + w \<le> x' + y' * W" using assms(2,3) by (simp add: algebra_simps)
  moreover have "0 \<le> y * W" using assms by simp
  ultimately show ?thesis using assms(1,4) by linarith
qed

lemma scroll_cells:
  fixes xs :: "'a list"
  assumes R: "0 \<le> sx" "0 \<le> sy" "sx + sw \<le> W" "sy + sh \<le> H" "W \<le> 0x7FFF" "H \<le> 0x7FFF" and d: "\<bar>dx\<bar> < sw" "\<bar>dy\<bar> < sh"
    and len: "b + nat (W * H) \<le> length xs"
  defines "tx \<equiv> sx + max 0 dx" and "fx \<equiv> sx + max 0 (- dx)" and "w \<equiv> sw - \<bar>dx\<bar>" and "h \<equiv> sh - \<bar>dy\<bar>"
    and "row \<equiv> to_row sy sh dy"
  shows "\<exists>ys. foldM (\<lambda>i m. move_cells m (b + nat (tx + row i * W)) (b + nat (fx + (row i - dy) * W)) (nat w)) [0..<nat h] xs = Some ys \<and>
    length ys = length xs \<and>
    (\<forall>x y. 0 \<le> x \<and> x < W \<and> 0 \<le> y \<and> y < H \<longrightarrow>
      ys ! (b + nat (x + y * W)) =
        xs ! (b + (if tx \<le> x \<and> x < tx + w \<and> (\<exists>i<nat h. y = row i) then nat (x - dx + (y - dy) * W) else nat (x + y * W))))"
proof -
  let ?d = "\<lambda>i. b + nat (tx + row i * W)" and ?f = "\<lambda>i. b + nat (fx + (row i - dy) * W)"
  have x: "0 \<le> tx" "0 \<le> fx" "tx + w \<le> W" "fx + w \<le> W" "1 \<le> w" "1 \<le> h" using R d by (auto simp: tx_def fx_def w_def h_def)
  have row: "0 \<le> row i" "row i < H" "0 \<le> row i - dy" "row i - dy < H" if "i < nat h" for i
    using R d that by (auto simp: row_def to_row_def h_def split: if_splits)
  have fit: "b + nat (a + r * W) + nat w \<le> length xs" if "0 \<le> a" "a + w \<le> W" "0 \<le> r" "r < H" for a r
    using cell_order [of a w W 0 r H] that x(5) len by (simp add: mult.commute)
  have "\<exists>ys. foldM (\<lambda>i m. move_cells m (?d i) (?f i) (nat w)) [0..<nat h] xs = Some ys \<and> length ys = length xs \<and>
    (\<forall>i<nat h. \<forall>c<nat w. ys ! (?d i + c) = xs ! (?f i + c)) \<and>
    (\<forall>k<length xs. (\<forall>i<nat h. k < ?d i \<or> ?d i + nat w \<le> k) \<longrightarrow> ys ! k = xs ! k)"
  proof (rule move_rows)
    show "?d i + nat w \<le> length xs" "?f i + nat w \<le> length xs" if "i < nat h" for i
      using fit x row [OF that] by simp_all
    fix i j assume ij: "i < j" "j < nat h"
    then have r: "row i < row j - dy \<or> row j - dy < row i" "row i < row j \<or> row j < row i"
      by (auto simp: row_def to_row_def)
    have "i < nat h" using ij by simp
    note ri = row [OF this] and rj = row [OF ij(2)]
    show "(?d i + nat w \<le> ?f j \<or> ?f j + nat w \<le> ?d i) \<and> (?d i + nat w \<le> ?d j \<or> ?d j + nat w \<le> ?d i)"
      using r cell_order [of tx w W fx "row i" "row j - dy"] cell_order [of fx w W tx "row j - dy" "row i"]
        cell_order [of tx w W tx "row i" "row j"] cell_order [of tx w W tx "row j" "row i"] x ri rj by auto
  qed
  then obtain ys where ys: "foldM (\<lambda>i m. move_cells m (?d i) (?f i) (nat w)) [0..<nat h] xs = Some ys" "length ys = length xs"
    "\<And>i c. i < nat h \<Longrightarrow> c < nat w \<Longrightarrow> ys ! (?d i + c) = xs ! (?f i + c)"
    "\<And>k. k < length xs \<Longrightarrow> (\<forall>i<nat h. k < ?d i \<or> ?d i + nat w \<le> k) \<Longrightarrow> ys ! k = xs ! k" by blast
  have "ys ! (b + nat (x + y * W)) =
      xs ! (b + (if tx \<le> x \<and> x < tx + w \<and> (\<exists>i<nat h. y = row i) then nat (x - dx + (y - dy) * W) else nat (x + y * W)))"
    if xy: "0 \<le> x" "x < W" "0 \<le> y" "y < H" for x y
  proof (cases "tx \<le> x \<and> x < tx + w \<and> (\<exists>i<nat h. y = row i)")
    case True
    then obtain i where i: "i < nat h" "y = row i" by blast
    have "0 \<le> row i * W" "0 \<le> (row i - dy) * W" using row [OF i(1)] xy by simp_all
    moreover have "fx - tx = - dx" by (simp add: tx_def fx_def)
    ultimately have "nat (x + y * W) = nat (tx + row i * W) + nat (x - tx)" "nat (x - dx + (y - dy) * W) = nat (fx + (row i - dy) * W) + nat (x - tx)"
      using True x i(2) by (auto simp: nat_add_distrib [symmetric] simp del: nat_add_distrib)
    then show ?thesis using True ys(3) [OF i(1), of "nat (x - tx)"] by (simp add: add.assoc)
  next
    case False
    have "nat (x + y * W) < nat (W * H)" using row_cell [OF xy] by simp
    then have "b + nat (x + y * W) < length xs" using len by linarith
    moreover have "b + nat (x + y * W) < ?d i \<or> ?d i + nat w \<le> b + nat (x + y * W)" if i: "i < nat h" for i
    proof (cases y "row i" rule: linorder_cases)
      case less
      then have "nat (x + y * W) + nat 1 \<le> nat (tx + row i * W)" using xy x by (intro cell_order) simp_all
      then show ?thesis by linarith
    next
      case greater
      then show ?thesis using cell_order [of tx w W x "row i" y] row [OF i] xy x by simp
    next
      case equal
      then have "x < tx \<or> tx + w \<le> x" using False i by auto
      moreover have z: "0 \<le> row i * W" using row [OF i] xy by simp
      moreover have "nat (x + row i * W) < nat (tx + row i * W)" if "x < tx" using that z xy(1) by linarith
      moreover have "nat (tx + row i * W) + nat w \<le> nat (x + row i * W)" if "tx + w \<le> x" using that z x by linarith
      ultimately show ?thesis unfolding equal by linarith
    qed
    ultimately show ?thesis using ys(4) by (simp add: if_not_P [OF False])
  qed
  then show ?thesis using ys(1,2) by blast
qed

text \<open>The arguments of the loop as the integers they stand for.\<close>

lemma scroll_row_index:
  assumes "0 \<le> x" "x < W" "0 \<le> y" "y < H" "W \<le> 0x7FFF" "H \<le> 0x7FFF" "y = r + k * int i"
  shows "unat (u32_of x + u32_of r * u32_of W + word_of_nat i * u32_of (k * W)) = nat (x + y * W)"
proof -
  have "u32_of x + u32_of r * u32_of W + word_of_nat i * u32_of (k * W) = u32_of (x + y * W)"
    unfolding u32_of_sums assms(7) by (simp add: algebra_simps)
  moreover have "0 \<le> x + y * W" "x + y * W < W * H" using row_cell assms by simp_all
  moreover have "W * H < 2 ^ 30" using assms by (intro area_small) simp_all
  ultimately show ?thesis by (simp add: u32_of_small)
qed

text \<open>\<open>scroll\<close> with the lines it moves, on the list of cells.\<close>

definition scroll_lines :: "sprite \<Rightarrow> int \<Rightarrow> int \<Rightarrow> nat \<Rightarrow> 'a list \<Rightarrow> 'a list option" where
  "scroll_lines s dx dy base m =
     (let row = to_row (scroll_y s) (uint (scroll_h s)) dy
      in foldM (\<lambda>i m. move_cells m (base + nat (scroll_x s + max 0 dx + row i * iwidth s))
           (base + nat (scroll_x s + max 0 (- dx) + (row i - dy) * iwidth s)) (nat (uint (scroll_w s) - \<bar>dx\<bar>)))
         [0..<nat (uint (scroll_h s) - \<bar>dy\<bar>)] m)"

definition fill_gap :: "sprite \<Rightarrow> int \<Rightarrow> int \<Rightarrow> sprite \<Rightarrow> sprite option" where
  "fill_gap s dx dy t =
     (let sx = scroll_x s; sy = scroll_y s; sw = uint (scroll_w s); sh = uint (scroll_h s); color = scroll_color s
      in do {
        t \<leftarrow> (if dx > 0 then spr_fillRect sx sy dx sh color t else Some t);
        t \<leftarrow> (if dx < 0 then spr_fillRect (sx + sw + dx) sy (- dx) sh color t else Some t);
        t \<leftarrow> (if dy > 0 then spr_fillRect sx sy sw dy color t else Some t);
        if dy < 0 then spr_fillRect sx (sy + sh + dy) sw (- dy) color t else Some t
      })"

lemma scroll_int:
  assumes ok: "sprite_ok s" "created s" "scroll_ok s" and d: "\<bar>dx\<bar> \<le> 0x8000" "\<bar>dy\<bar> \<le> 0x8000"
  shows "scroll dx dy s =
    (if \<bar>dx\<bar> \<ge> uint (scroll_w s) \<or> \<bar>dy\<bar> \<ge> uint (scroll_h s)
     then spr_fillRect (scroll_x s) (scroll_y s) (uint (scroll_w s)) (uint (scroll_h s)) (scroll_color s) s
     else if bpp s = 16 then Option.bind (scroll_lines s dx dy 0 (img s)) (\<lambda>m. fill_gap s dx dy (s\<lparr>img := m\<rparr>))
     else if bpp s = 8 then Option.bind (scroll_lines s dx dy (frame s) (img8 s)) (\<lambda>m. fill_gap s dx dy (s\<lparr>img8 := m\<rparr>))
     else Some s)"
proof -
  define sw sh where "sw = uint (scroll_w s)" and "sh = uint (scroll_h s)"
  have W: "1 \<le> iwidth s" "iwidth s \<le> 0x7FFF" "iheight s \<le> 0x7FFF" using geometry_small [OF ok(1,2)] by simp_all
  have R: "0 \<le> scroll_x s" "0 \<le> scroll_y s" "scroll_x s + sw \<le> iwidth s" "scroll_y s + sh \<le> iheight s"
    using ok(3) by (simp_all add: scroll_ok_def sw_def sh_def)
  have pos: "0 \<le> sw" "0 \<le> sh" by (simp_all add: sw_def sh_def)
  have w: "scroll_w s = u32_of sw" "scroll_h s = u32_of sh" by (simp_all add: sw_def sh_def)
  have sint: "sint (scroll_w s) = sw" "sint (scroll_h s) = sh"
    using R W by (simp_all add: sw_def sh_def sint_small)
  have test: "u32_of \<bar>dx\<bar> \<ge> scroll_w s \<longleftrightarrow> \<bar>dx\<bar> \<ge> sw" "u32_of \<bar>dy\<bar> \<ge> scroll_h s \<longleftrightarrow> \<bar>dy\<bar> \<ge> sh"
    using d by (simp_all add: word_le_def uint_u32_of sw_def sh_def)
  show ?thesis
  proof (cases "\<bar>dx\<bar> \<ge> sw \<or> \<bar>dy\<bar> \<ge> sh")
    case True
    then show ?thesis by (simp add: scroll_def test sint flip: sw_def sh_def)
  next
    case False
    define r k where "r = to_row (scroll_y s) sh dy 0" and "k = (if dy \<le> 0 then 1 else - 1 :: int)"
    let ?tx = "scroll_x s + max 0 dx" and ?fx = "scroll_x s + max 0 (- dx)" and ?row = "to_row (scroll_y s) sh dy"
    have row: "?row i = r + k * int i" for i by (simp add: to_row_def r_def k_def)
    have x: "(if dx \<le> 0 then (u32_of (scroll_x s), u32_of (scroll_x s) - u32_of dx) else (u32_of (scroll_x s) + u32_of dx, u32_of (scroll_x s))) =
        (u32_of ?tx, u32_of ?fx)"
      by (simp add: u32_of_sums)
    have y: "(if dy \<le> 0 then (u32_of (scroll_y s), u32_of (iwidth s), u32_of (scroll_y s) - u32_of dy)
        else (u32_of (scroll_y s) + scroll_h s - 1, u32_of (- iwidth s), u32_of (scroll_y s) + scroll_h s - 1 - u32_of dy)) =
        (u32_of r, u32_of (k * iwidth s), u32_of (r - dy))"
      by (simp add: w u32_of_sums r_def k_def to_row_def)
    have n: "unat (scroll_w s - u32_of \<bar>dx\<bar>) = nat (sw - \<bar>dx\<bar>)" "unat (scroll_h s - u32_of \<bar>dy\<bar>) = nat (sh - \<bar>dy\<bar>)"
      unfolding w u32_of_sums using False R W by (auto intro!: u32_of_small)
    have lines: "move_lines (u32_of (k * iwidth s)) base (nat (sw - \<bar>dx\<bar>)) (nat (sh - \<bar>dy\<bar>))
        (u32_of ?tx + u32_of r * u32_of (iwidth s)) (u32_of ?fx + u32_of (r - dy) * u32_of (iwidth s)) m = scroll_lines s dx dy base m"
      for base and m :: "'b list"
      unfolding move_lines_loop scroll_lines_def Let_def sw_def [symmetric] sh_def [symmetric]
    proof (rule foldM_cong)
      fix i and u :: "'b list" assume "i \<in> set [0..<nat (sh - \<bar>dy\<bar>)]"
      then have i: "0 \<le> ?row i" "?row i < iheight s" "0 \<le> ?row i - dy" "?row i - dy < iheight s" "0 \<le> ?tx" "?tx < iwidth s" "0 \<le> ?fx" "?fx < iwidth s"
        using R False by (auto simp: to_row_def)
      have "unat (u32_of ?tx + u32_of r * u32_of (iwidth s) + word_of_nat i * u32_of (k * iwidth s)) = nat (?tx + ?row i * iwidth s)"
        "unat (u32_of ?fx + u32_of (r - dy) * u32_of (iwidth s) + word_of_nat i * u32_of (k * iwidth s)) = nat (?fx + (?row i - dy) * iwidth s)"
        using i W row by (auto intro!: scroll_row_index)
      then show "move_cells u (base + unat (u32_of ?tx + u32_of r * u32_of (iwidth s) + word_of_nat i * u32_of (k * iwidth s)))
          (base + unat (u32_of ?fx + u32_of (r - dy) * u32_of (iwidth s) + word_of_nat i * u32_of (k * iwidth s))) (nat (sw - \<bar>dx\<bar>)) =
        move_cells u (base + nat (?tx + ?row i * iwidth s)) (base + nat (?fx + (?row i - dy) * iwidth s)) (nat (sw - \<bar>dx\<bar>))"
        by simp
    qed simp_all
    have far: "sint (u32_of (scroll_x s) + scroll_w s + u32_of dx) = scroll_x s + sw + dx" "sint (u32_of (scroll_y s) + scroll_h s + u32_of dy) = scroll_y s + sh + dy"
      unfolding w u32_of_sums using False R W by (auto simp: sint_small uint_u32_of)
    show ?thesis
      unfolding scroll_def Let_def test x y prod.case n lines fill_gap_def sint far sw_def [symmetric] sh_def [symmetric] by (rule refl)
  qed
qed


section \<open>What scrolling shows\<close>

definition scroll_area :: "sprite \<Rightarrow> (int \<times> int) set" where
  "scroll_area s = {scroll_x s..<scroll_x s + uint (scroll_w s)} \<times> {scroll_y s..<scroll_y s + uint (scroll_h s)}"

lemma scroll_source:
  assumes d: "\<bar>dx\<bar> < uint (scroll_w s)" "\<bar>dy\<bar> < uint (scroll_h s)"
  shows "scroll_x s + max 0 dx \<le> x \<and> x < scroll_x s + max 0 dx + (uint (scroll_w s) - \<bar>dx\<bar>) \<and>
      (\<exists>i<nat (uint (scroll_h s) - \<bar>dy\<bar>). y = to_row (scroll_y s) (uint (scroll_h s)) dy i) \<longleftrightarrow>
    (x, y) \<in> scroll_area s \<and> (x - dx, y - dy) \<in> scroll_area s"
proof -
  have "(\<exists>i<nat (uint (scroll_h s) - \<bar>dy\<bar>). y = to_row (scroll_y s) (uint (scroll_h s)) dy i) \<longleftrightarrow>
      scroll_y s + max 0 dy \<le> y \<and> y < scroll_y s + max 0 dy + (uint (scroll_h s) - \<bar>dy\<bar>)" (is "?rows \<longleftrightarrow> ?range")
  proof
    assume ?range
    then have "y = to_row (scroll_y s) (uint (scroll_h s)) dy
        (nat (if dy \<le> 0 then y - scroll_y s else scroll_y s + uint (scroll_h s) - 1 - y))"
      by (auto simp: to_row_def)
    moreover have "nat (if dy \<le> 0 then y - scroll_y s else scroll_y s + uint (scroll_h s) - 1 - y) < nat (uint (scroll_h s) - \<bar>dy\<bar>)"
      using \<open>?range\<close> by auto
    ultimately show ?rows by blast
  qed (auto simp: to_row_def)
  then show ?thesis by (auto simp: scroll_area_def)
qed

lemma scroll_lines_cells:
  fixes xs :: "'a list"
  assumes ok: "sprite_ok s" "created s" "scroll_ok s" and d: "\<bar>dx\<bar> < uint (scroll_w s)" "\<bar>dy\<bar> < uint (scroll_h s)"
    and len: "base + nat (iwidth s * iheight s) \<le> length xs"
  shows "\<exists>ys. scroll_lines s dx dy base xs = Some ys \<and> length ys = length xs \<and>
    (\<forall>x y. inside s x y \<longrightarrow> ys ! (base + nat (x + y * iwidth s)) =
      xs ! (base + (if (x, y) \<in> scroll_area s \<and> (x - dx, y - dy) \<in> scroll_area s
        then nat (x - dx + (y - dy) * iwidth s) else nat (x + y * iwidth s))))"
  using scroll_cells [OF _ _ _ _ _ _ d len, of "scroll_x s" "scroll_y s"] ok(3) geometry_small [OF ok(1,2)]
  unfolding scroll_source [OF d] scroll_lines_def Let_def scroll_ok_def inside_def by simp

lemma scroll_area_inside: "scroll_ok s \<Longrightarrow> (x, y) \<in> scroll_area s \<Longrightarrow> inside s x y"
  by (auto simp: scroll_ok_def scroll_area_def inside_def)

lemma scroll_lines_reads:
  assumes ok: "sprite_ok s" "created s" "scroll_ok s" and d: "\<bar>dx\<bar> < uint (scroll_w s)" "\<bar>dy\<bar> < uint (scroll_h s)"
  defines "shifted \<equiv> \<lambda>t. same_block s t \<and> (\<forall>x y. inside s x y \<longrightarrow> readPixel x y t =
      (if (x, y) \<in> scroll_area s \<and> (x - dx, y - dy) \<in> scroll_area s then readPixel (x - dx) (y - dy) s else readPixel x y s))"
  shows "bpp s = 16 \<Longrightarrow> \<exists>m. scroll_lines s dx dy 0 (img s) = Some m \<and> shifted (s\<lparr>img := m\<rparr>)"
    and "bpp s = 8 \<Longrightarrow> \<exists>m. scroll_lines s dx dy (frame s) (img8 s) = Some m \<and> shifted (s\<lparr>img8 := m\<rparr>)"
proof -
  have reads: "shifted t" if t: "same_block s t" "bpp s \<noteq> 1" and c: "\<And>x y. inside s x y \<Longrightarrow> content t (nat (x + y * iwidth s)) =
      content s (if (x, y) \<in> scroll_area s \<and> (x - dx, y - dy) \<in> scroll_area s then nat (x - dx + (y - dy) * iwidth s) else nat (x + y * iwidth s))" for t
    using t c ok same_block_derived [OF t(1)] same_block_fields [OF t(1)] scroll_area_inside [OF ok(3)]
    by (simp add: shifted_def readPixel_content place_def)
  show "\<exists>m. scroll_lines s dx dy 0 (img s) = Some m \<and> shifted (s\<lparr>img := m\<rparr>)" if b: "bpp s = 16"
  proof -
    have "0 + nat (iwidth s * iheight s) \<le> length (img s)" using ok b by (simp add: sprite_ok_def)
    from scroll_lines_cells [OF ok d this] b show ?thesis
      by (auto simp: same_block_def content_def intro!: reads)
  qed
  show "\<exists>m. scroll_lines s dx dy (frame s) (img8 s) = Some m \<and> shifted (s\<lparr>img8 := m\<rparr>)" if b: "bpp s = 8"
  proof -
    have f: "frame s = 0" and "frame s + nat (iwidth s * iheight s) \<le> length (img8 s)" using ok b by (simp_all add: sprite_ok_def)
    from scroll_lines_cells [OF ok d this(2)] b f show ?thesis
      by (auto simp: same_block_def content_def intro!: reads)
  qed
qed


lemma fill_if:
  assumes "sprite_ok t" "p \<Longrightarrow> 0 \<le> y"
  shows "\<exists>u. (if p then spr_fillRect x y w h c t else Some t) = Some u \<and> drawn (if p then {x..<x + w} \<times> {y..<y + h} else {}) c t u \<and> sprite_ok u"
proof (cases p)
  case True
  then obtain u where "spr_fillRect x y w h c t = Some u" "drawn ({x..<x + w} \<times> {y..<y + h}) c t u"
    using spr_fillRect_drawn [OF assms(1), of x y w h c] assms(2) by auto
  then show ?thesis using True assms(1) same_block_derived(1) [OF drawn_same] by fastforce
qed (use assms(1) in \<open>simp add: drawn_nothing places_def\<close>)

lemma fill_gap_drawn:
  assumes t: "sprite_ok t" and s: "scroll_ok s" and d: "\<bar>dx\<bar> < uint (scroll_w s)" "\<bar>dy\<bar> < uint (scroll_h s)"
  shows "\<exists>u. fill_gap s dx dy t = Some u \<and>
    drawn {(x, y). (x, y) \<in> scroll_area s \<and> (x - dx, y - dy) \<notin> scroll_area s} (scroll_color s) t u"
proof -
  let ?sx = "scroll_x s" and ?sy = "scroll_y s" and ?sw = "uint (scroll_w s)" and ?sh = "uint (scroll_h s)" and ?c = "scroll_color s"
  define A B C D where "A = (if dx > 0 then {?sx..<?sx + dx} \<times> {?sy..<?sy + ?sh} else {})"
    and "B = (if dx < 0 then {?sx + ?sw + dx..<?sx + ?sw + dx + - dx} \<times> {?sy..<?sy + ?sh} else {})"
    and "C = (if dy > 0 then {?sx..<?sx + ?sw} \<times> {?sy..<?sy + dy} else {})"
    and "D = (if dy < 0 then {?sx..<?sx + ?sw} \<times> {?sy + ?sh + dy..<?sy + ?sh + dy + - dy} else {})"
  have y: "0 \<le> ?sy" "0 \<le> ?sy + ?sh + dy" using s d by (auto simp: scroll_ok_def)
  obtain a where a: "(if dx > 0 then spr_fillRect ?sx ?sy dx ?sh ?c t else Some t) = Some a" "drawn A ?c t a" "sprite_ok a"
    using fill_if [OF t, of "dx > 0" ?sy ?sx dx ?sh ?c] y unfolding A_def by blast
  obtain b where b: "(if dx < 0 then spr_fillRect (?sx + ?sw + dx) ?sy (- dx) ?sh ?c a else Some a) = Some b" "drawn B ?c a b" "sprite_ok b"
    using fill_if [OF a(3), of "dx < 0" ?sy "?sx + ?sw + dx" "- dx" ?sh ?c] y unfolding B_def by blast
  obtain c where c: "(if dy > 0 then spr_fillRect ?sx ?sy ?sw dy ?c b else Some b) = Some c" "drawn C ?c b c" "sprite_ok c"
    using fill_if [OF b(3), of "dy > 0" ?sy ?sx ?sw dy ?c] y unfolding C_def by blast
  obtain u where u: "(if dy < 0 then spr_fillRect ?sx (?sy + ?sh + dy) ?sw (- dy) ?c c else Some c) = Some u" "drawn D ?c c u" "sprite_ok u"
    using fill_if [OF c(3), of "dy < 0" "?sy + ?sh + dy" ?sx ?sw "- dy" ?c] y unfolding D_def by blast
  have "fill_gap s dx dy t = Some u" unfolding fill_gap_def Let_def by (simp only: a(1) b(1) c(1) u(1) Option.bind.simps)
  moreover have "drawn (A \<union> B \<union> C \<union> D) ?c t u"
    by (rule drawn_trans [OF drawn_trans [OF drawn_trans [OF a(2) b(2)] c(2)] u(2)])
  moreover have "A \<union> B \<union> C \<union> D = {(x, y). (x, y) \<in> scroll_area s \<and> (x - dx, y - dy) \<notin> scroll_area s}"
    using d by (auto simp: A_def B_def C_def D_def scroll_area_def split: if_splits)
  ultimately show ?thesis by simp
qed

lemma scroll_reads:
  assumes ok: "sprite_ok s" "created s" "scroll_ok s" and b: "bpp s \<noteq> 1" and d: "\<bar>dx\<bar> \<le> 0x8000" "\<bar>dy\<bar> \<le> 0x8000"
  shows "\<exists>s'. scroll dx dy s = Some s' \<and> same_block s s' \<and>
    (\<forall>x y. readPixel x y s' =
      (if (x, y) \<in> scroll_area s
       then if (x - dx, y - dy) \<in> scroll_area s then readPixel (x - dx) (y - dy) s else Some (stored s (scroll_color s))
       else readPixel x y s))"
proof (cases "\<bar>dx\<bar> \<ge> uint (scroll_w s) \<or> \<bar>dy\<bar> \<ge> uint (scroll_h s)")
  case True
  have y: "\<not> scroll_y s < 0" using ok(3) by (simp add: scroll_ok_def)
  obtain s' where s': "spr_fillRect (scroll_x s) (scroll_y s) (uint (scroll_w s)) (uint (scroll_h s)) (scroll_color s) s = Some s'"
    "drawn (scroll_area s) (scroll_color s) s s'"
    using spr_fillRect_drawn [OF ok(1), of "scroll_x s" "scroll_y s" "uint (scroll_w s)" "uint (scroll_h s)" "scroll_color s"] y
    by (auto simp: scroll_area_def)
  have "(x - dx, y - dy) \<notin> scroll_area s" if "(x, y) \<in> scroll_area s" for x y
    using that True by (auto simp: scroll_area_def)
  then show ?thesis
    using scroll_int [OF ok d] True s'(1) drawn_reads [OF ok(1) s'(2)] drawn_same [OF s'(2)] ok
      scroll_area_inside [OF ok(3)] by auto
next
  case False
  then have d': "\<bar>dx\<bar> < uint (scroll_w s)" "\<bar>dy\<bar> < uint (scroll_h s)" by auto
  note reads = scroll_lines_reads [OF ok d']
  obtain t where t: "scroll dx dy s = fill_gap s dx dy t" "same_block s t"
    "\<And>x y. inside s x y \<Longrightarrow> readPixel x y t =
      (if (x, y) \<in> scroll_area s \<and> (x - dx, y - dy) \<in> scroll_area s then readPixel (x - dx) (y - dy) s else readPixel x y s)"
  proof (rule depth_cases [OF ok(1,2)])
    assume 16: "bpp s = 16"
    then show thesis using that reads(1) scroll_int [OF ok d] False by auto
  next
    assume 8: "bpp s = 8"
    then show thesis using that reads(2) scroll_int [OF ok d] False by auto
  qed (use b in simp)
  have t_ok: "sprite_ok t" "stored t = stored s" "inside t = inside s" "created t"
    using same_block_derived [OF t(2)] same_block_fields(2) [OF t(2)] ok by simp_all
  obtain u where u: "fill_gap s dx dy t = Some u"
    "drawn {(x, y). (x, y) \<in> scroll_area s \<and> (x - dx, y - dy) \<notin> scroll_area s} (scroll_color s) t u"
    using fill_gap_drawn [OF t_ok(1) ok(3) d'] by blast
  have "readPixel x y t = Some 0" "readPixel x y s = Some 0" if "\<not> inside s x y" for x y
    using that readPixel_outside [of _ x y] t_ok(3) by simp_all
  then have "readPixel x y u = (if (x, y) \<in> scroll_area s
       then if (x - dx, y - dy) \<in> scroll_area s then readPixel (x - dx) (y - dy) s else Some (stored s (scroll_color s))
       else readPixel x y s)" for x y
    using drawn_reads [OF t_ok(1) u(2), of x y] t(3) [of x y] t_ok scroll_area_inside [OF ok(3)] by (cases "inside s x y") auto
  then show ?thesis using t(1) u(1) same_block_trans [OF t(2) drawn_same [OF u(2)]] by simp
qed


text \<open>
  C38.  Scrolling a 16-bit or 8-bit sprite with its scroll rectangle inside it moves what the rectangle shows by \<open>dx\<close>
  and \<open>dy\<close> (any \<open>int16_t\<close>), whatever the direction and also where source and target overlap; pixels that nothing moves to take the fill colour, and what
  lies outside the rectangle stays.
\<close>
theorem sprite_scroll:
  assumes ok: "sprite_ok s" "created s" "scroll_ok s" and b: "bpp s \<noteq> 1" and d: "\<bar>dx\<bar> \<le> 0x8000" "\<bar>dy\<bar> \<le> 0x8000"
  shows "\<exists>s'. scroll dx dy s = Some s' \<and> sprite_ok s' \<and>
    (\<forall>x y. readPixel x y s' =
      (if (x, y) \<in> scroll_area s
       then if (x - dx, y - dy) \<in> scroll_area s then readPixel (x - dx) (y - dy) s else Some (stored s (scroll_color s))
       else readPixel x y s))"
  using scroll_reads [OF assms] same_block_derived(1) ok(1) by metis

section \<open>The scroll rectangle\<close>

lemma setScrollRect_fields [simp]:
  "bpp (setScrollRect x y w h c s) = bpp s" "created (setScrollRect x y w h c s) = created s" "img (setScrollRect x y w h c s) = img s"
  "img8 (setScrollRect x y w h c s) = img8 s" "frame (setScrollRect x y w h c s) = frame s" "rotation (setScrollRect x y w h c s) = rotation s"
  "iwidth (setScrollRect x y w h c s) = iwidth s" "iheight (setScrollRect x y w h c s) = iheight s"
  "dwidth (setScrollRect x y w h c s) = dwidth s" "dheight (setScrollRect x y w h c s) = dheight s" "bitwidth (setScrollRect x y w h c s) = bitwidth s"
  "win_xs (setScrollRect x y w h c s) = win_xs s" "win_ys (setScrollRect x y w h c s) = win_ys s" "win_xe (setScrollRect x y w h c s) = win_xe s"
  "win_ye (setScrollRect x y w h c s) = win_ye s" "xptr (setScrollRect x y w h c s) = xptr s" "yptr (setScrollRect x y w h c s) = yptr s"
  by (simp_all add: setScrollRect_def Let_def)

text \<open>One extent of the rectangle, clipped to the sprite.\<close>

lemma scroll_extent:
  assumes "0 \<le> x" "x < m" "m \<le> 0x7FFF" "uint w < 2 ^ 31"
  shows "uint (if u32_of x + w > u32_of m then u32_of (m - x) else w) = min (uint w) (m - x)"
proof -
  have "u32_of x + w = u32_of (x + uint w)" by (simp add: u32_of_def)
  moreover have "uint (u32_of (x + uint w)) = x + uint w" using assms by (intro uint_u32_of) simp_all
  ultimately have "u32_of x + w > u32_of m \<longleftrightarrow> x + uint w > m" using assms by (simp add: word_less_def uint_u32_of)
  then show ?thesis using assms by (auto simp: uint_u32_of)
qed

lemma setScrollRect_ok:
  assumes ok: "sprite_ok s" "scroll_ok s" and w: "uint w < 2 ^ 31" "uint h < 2 ^ 31"
  shows "scroll_ok (setScrollRect x y w h c s)"
proof (cases "x \<ge> iwidth s \<or> y \<ge> iheight s \<or> \<not> created s")
  case True
  then show ?thesis using ok by (auto simp: setScrollRect_def)
next
  case False
  define a b where "a = max 0 x" and "b = max 0 y"
  have ab: "(if x < 0 then 0 else x) = a" "(if y < 0 then 0 else y) = b" by (auto simp: a_def b_def)
  have r: "0 \<le> a" "a < iwidth s" "0 \<le> b" "b < iheight s" "iwidth s \<le> 0x7FFF" "iheight s \<le> 0x7FFF"
    using False geometry_small [OF ok(1)] by (auto simp: a_def b_def)
  note e = scroll_extent [OF r(1,2,5) w(1)] scroll_extent [OF r(3,4,6) w(2)]
  define w' h' where "w' = (if u32_of a + w > u32_of (iwidth s) then u32_of (iwidth s - a) else w)"
    and "h' = (if u32_of b + h > u32_of (iheight s) then u32_of (iheight s - b) else h)"
  have def: "setScrollRect x y w h c s = (if w' < 1 \<or> h' < 1 then s
      else s\<lparr>scroll_x := a, scroll_y := b, scroll_w := w', scroll_h := h', scroll_color := ucast c\<rparr>)"
    unfolding setScrollRect_def Let_def ab w'_def h'_def using False by simp
  have e: "uint w' = min (uint w) (iwidth s - a)" "uint h' = min (uint h) (iheight s - b)" unfolding w'_def h'_def by (rule e)+
  show ?thesis
  proof (cases "w' < 1 \<or> h' < 1")
    case True
    then show ?thesis using ok(2) by (simp add: def)
  next
    case False
    then have "1 \<le> w'" "1 \<le> h'" unfolding not_less de_Morgan_disj by blast+
    moreover have "uint w' \<le> iwidth s - a" "uint h' \<le> iheight s - b" unfolding e by (rule min.cobounded2)+
    ultimately show ?thesis using False r by (simp add: def scroll_ok_def)
  qed
qed

lemma sprite_scroll_witness:
  "\<exists>s'. scroll 1 (- 1) (setScrollRect 1 0 9 2 0xF800 (small_sprite 16)) = Some s' \<and>
     readPixel 1 0 s' = Some 0xF800 \<and> readPixel 2 1 s' = Some 0xF800 \<and>
     readPixel 3 0 s' = readPixel 2 1 (small_sprite 16) \<and> readPixel 0 0 s' = readPixel 0 0 (small_sprite 16)"
proof -
  have 16: "16 \<in> {1, 8, 16 :: int}" by simp
  note small = small_sprite_ok [OF 16]
  define s where "s = setScrollRect 1 0 9 2 0xF800 (small_sprite 16)"
  have "s = (small_sprite 16)\<lparr>scroll_x := 1, scroll_y := 0, scroll_w := 3, scroll_h := 2, scroll_color := 0xF800\<rparr>"
    by (simp add: s_def setScrollRect_def small u32_of_def)
  then have area: "scroll_area s = {1..<4} \<times> {0..<2}" "scroll_color s = 0xF800" by (simp_all add: scroll_area_def)
  have view: "readPixel x y s = readPixel x y (small_sprite 16)" "sprite_ok s" "bpp s = 16" "created s" for x y
    using view_fields [of s "small_sprite 16"] small by (simp_all add: s_def)
  have "scroll_ok s" using setScrollRect_ok [OF small(2,6), of 9 2] by (simp add: s_def)
  then obtain s' where s': "scroll 1 (- 1) s = Some s'"
    "\<And>x y. readPixel x y s' = (if (x, y) \<in> scroll_area s then if (x - 1, y - - 1) \<in> scroll_area s then readPixel (x - 1) (y - - 1) s
       else Some (stored s (scroll_color s)) else readPixel x y s)"
    using sprite_scroll [of s 1 "- 1"] view by auto
  have "stored s 0xF800 = 0xF800" using stored_16 [of s "0xF800"] view by simp
  then show ?thesis using s'(1) unfolding s_def [symmetric] by (simp add: s'(2) area view(1))
qed

end
