(* ===== verification/SpriteSafe.thy ===== *)
theory SpriteSafe
  imports SpriteScroll
begin

text \<open>
  A new sprite can be drawn on with any sequence of its operations without an access outside its block; and the
  two ways in which the code leaves the block after all.
\<close>

section \<open>Sequences of operations\<close>

datatype sprite_op =
    Draw call
  | FillAll u32
  | Window int int int int
  | Push u32
  | PushRun u32 u16
  | Write u16
  | ScrollRect int int u32 u32 u16
  | Scroll int int

fun run_op :: "sprite_op \<Rightarrow> sprite \<Rightarrow> sprite option" where
  "run_op (Draw k) s = spr_call k s"
| "run_op (FillAll c) s = fillSprite c s"
| "run_op (Window x0 y0 x1 y1) s = Some (setWindow x0 y0 x1 y1 s)"
| "run_op (Push c) s = spr_pushColor c s"
| "run_op (PushRun c n) s = spr_pushColor_len c n s"
| "run_op (Write c) s = writeColor c s"
| "run_op (ScrollRect x y w h c) s = Some (setScrollRect x y w h c s)"
| "run_op (Scroll dx dy) s = scroll dx dy s"

definition run_ops :: "sprite_op list \<Rightarrow> sprite \<Rightarrow> sprite option" where
  "run_ops = foldM run_op"

text \<open>
  Coordinates whose sums fit in \<open>int32_t\<close>, colours of sixteen bits, the 16-bit distances of \<open>scroll\<close>, and no
  sizes that are negative numbers as \<open>uint32_t\<close>.
\<close>

fun call_small :: "call \<Rightarrow> bool" where
  "call_small (Pixel x y c) \<longleftrightarrow> coord x \<and> coord y"
| "call_small (HLine x y w c) \<longleftrightarrow> coord x \<and> coord y \<and> coord w"
| "call_small (VLine x y h c) \<longleftrightarrow> coord x \<and> coord y \<and> coord h"
| "call_small (Fill x y w h c) \<longleftrightarrow> coord x \<and> coord y \<and> coord w \<and> coord h"

fun op_ok :: "sprite_op \<Rightarrow> bool" where
  "op_ok (Draw k) \<longleftrightarrow> call_small k"
| "op_ok (FillAll c) \<longleftrightarrow> c < 0x10000"
| "op_ok (ScrollRect x y w h c) \<longleftrightarrow> uint w < 2 ^ 31 \<and> uint h < 2 ^ 31"
| "op_ok (Scroll dx dy) \<longleftrightarrow> \<bar>dx\<bar> \<le> 0x8000 \<and> \<bar>dy\<bar> \<le> 0x8000"
| "op_ok _ \<longleftrightarrow> True"

definition steady :: "sprite \<Rightarrow> bool" where
  "steady s \<longleftrightarrow> sprite_ok s \<and> created s \<and> window_ok s \<and> scroll_ok s \<and> rotation s = 0"

lemma same_scroll: "same_block s t \<Longrightarrow> scroll_ok t = scroll_ok s"
  using same_block_fields [of s t] by (simp add: scroll_ok_def)

lemma steady_same: "steady s \<Longrightarrow> same_block s t \<Longrightarrow> steady t"
  using same_block_fields [of s t] same_block_derived [of s t] same_window [of s t] same_scroll [of s t] by (simp add: steady_def)

lemma steady_next: "steady s \<Longrightarrow> steady (next_pixel s)"
  using view_fields(2) [of "next_pixel s" s] next_pixel_ok [of s] by (simp add: steady_def scroll_ok_def)

lemma steady_drawn: "steady s \<Longrightarrow> \<exists>t. r = Some t \<and> drawn P c s t \<Longrightarrow> \<exists>t. r = Some t \<and> steady t"
  using steady_same drawn_same by blast

lemma spr_call_steady: "steady s \<Longrightarrow> \<exists>t. spr_call k s = Some t \<and> steady t"
proof -
  assume s: "steady s"
  then have ok: "sprite_ok s" by (simp add: steady_def)
  show ?thesis
  proof (cases k)
    case (Pixel x y c)
    then show ?thesis using steady_drawn [OF s spr_drawPixel_drawn [OF ok]] by simp
  next
    case (HLine x y w c)
    then show ?thesis using steady_drawn [OF s spr_drawFastHLine_drawn [OF ok]] by simp
  next
    case (VLine x y h c)
    then show ?thesis using steady_drawn [OF s spr_drawFastVLine_drawn [OF ok]] by simp
  next
    case (Fill x y w h c)
    then show ?thesis using steady_drawn [OF s spr_fillRect_drawn [OF ok]] by simp
  qed
qed

lemma writeColor_steady: "steady s \<Longrightarrow> \<exists>t. writeColor c s = Some t \<and> steady t"
proof -
  assume s: "steady s"
  then obtain t where "writeColor c s = Some (next_pixel t)" "same_block s t"
    using writeColor_safe [of s c] by (auto simp: steady_def)
  then show ?thesis using steady_next [OF steady_same [OF s]] by blast
qed

lemma scroll_steady:
  assumes s: "steady s" and d: "\<bar>dx\<bar> \<le> 0x8000" "\<bar>dy\<bar> \<le> 0x8000"
  shows "\<exists>t. scroll dx dy s = Some t \<and> steady t"
proof -
  have ok: "sprite_ok s" "created s" "scroll_ok s" using s by (simp_all add: steady_def)
  show ?thesis
  proof (cases "bpp s = 1")
    case True
    then show ?thesis using scroll_int [OF ok d] steady_drawn [OF s spr_fillRect_drawn [OF ok(1)]] s by auto
  next
    case False
    then show ?thesis using scroll_reads [OF ok _ d] steady_same [OF s] by blast
  qed
qed

lemma run_op_steady:
  assumes s: "steady s" and op: "op_ok op"
  shows "\<exists>t. run_op op s = Some t \<and> steady t"
proof -
  have ok: "sprite_ok s" "created s" "window_ok s" "scroll_ok s" "rotation s = 0" using s by (simp_all add: steady_def)
  show ?thesis
  proof (cases op)
    case (Draw k)
    then show ?thesis using spr_call_steady [OF s] by simp
  next
    case (FillAll c)
    then show ?thesis using steady_drawn [OF s fillSprite_drawn [OF ok(1)]] op ok(5) by simp
  next
    case (Window x0 y0 x1 y1)
    then show ?thesis
      using view_fields(2) [of "setWindow x0 y0 x1 y1 s" s] setWindow_ok [of s x0 y0 x1 y1] geometry_small [OF ok(1,2)] s
      by (simp add: steady_def scroll_ok_def)
  next
    case (Push c)
    obtain t where "spr_pushColor c s = Some (next_pixel t)" "same_block s t"
      using spr_pushColor_drawn [OF ok(1-3), of c] drawn_same by blast
    then show ?thesis using Push steady_next [OF steady_same [OF s]] by simp
  next
    case (PushRun c n)
    have "\<exists>t. foldM (\<lambda>_. writeColor p) xs s = Some t \<and> steady t" for p and xs :: "nat list"
      using s writeColor_steady by (intro foldM_total) blast+
    then show ?thesis using PushRun ok(2) by (simp add: spr_pushColor_len_def Let_def)
  next
    case (Write c)
    then show ?thesis using writeColor_steady [OF s] by simp
  next
    case (ScrollRect x y w h c)
    then show ?thesis
      using view_fields(2) [of "setScrollRect x y w h c s" s] setScrollRect_ok [OF ok(1,4)] op s
      by (simp add: steady_def window_ok_def)
  next
    case (Scroll dx dy)
    then show ?thesis using scroll_steady [OF s] op by simp
  qed
qed

lemma run_ops_steady: "steady s \<Longrightarrow> \<forall>op\<in>set ops. op_ok op \<Longrightarrow> \<exists>t. run_ops ops s = Some t \<and> steady t"
  unfolding run_ops_def by (intro foldM_total) (use run_op_steady in blast)+

lemma new_sprite_steady:
  assumes new: "createSprite alloc w h frames (fst (setColorDepth alloc b (TFT_eSprite raw))) = (s, True)"
    and size: "w \<le> 0x7FF8" "h \<le> 0x7FFF"
  shows "steady s"
proof -
  let ?s = "fst (setColorDepth alloc b (TFT_eSprite raw))"
  have s: "\<not> created ?s" "rotation ?s = 0" "bpp ?s \<in> {1, 8, 16}"
    "win_xs ?s = 0" "win_ys ?s = 0" "win_xe ?s = 0" "win_ye ?s = 0" "xptr ?s = 0" "yptr ?s = 0"
    by (simp_all add: setColorDepth_def TFT_eSprite_def Let_def)
  note r = createSprite_ok [OF s(1-3) size new]
  have "1 \<le> iwidth s" "1 \<le> iheight s" using geometry_small [OF r(2,1)] by simp_all
  then show ?thesis using r s by (simp add: steady_def window_ok_def)
qed

text \<open>
  C39.  No sequence of drawing operations on a new sprite, in rotation 0 and at most \<open>0x7FF8\<close> wide and \<open>0x7FFF\<close> high,
  reads or writes outside the block that was allocated for it: every pixel, line, rectangle, fill, window, pushed
  colour and scroll returns, on and off the sprite, for coordinates and sizes below \<open>2 ^ 30\<close>, any 16-bit distance and
  colours of sixteen bits in \<open>fillSprite\<close>.
\<close>
theorem sprite_never_overruns:
  assumes new: "createSprite alloc w h frames (fst (setColorDepth alloc b (TFT_eSprite raw))) = (s, True)"
    and size: "w \<le> 0x7FF8" "h \<le> 0x7FFF" and ops: "\<forall>op\<in>set ops. op_ok op"
  shows "\<exists>s'. run_ops ops s = Some s'"
  using run_ops_steady [OF new_sprite_steady [OF new size] ops] by blast

lemma sprite_never_overruns_witness:
  "\<exists>s'. run_ops [Window 2 1 90 90, PushRun 0xF800 500, Push 7, Draw (Fill (- 5) 0 99 2 9), Window 60 60 70 70, Push 3,
     ScrollRect 1 (- 1) 2 8 5, Scroll 1 (- 1)] (small_sprite 1) = Some s'"
proof -
  have "createSprite (\<lambda>_. True) 4 3 1 (fst (setColorDepth (\<lambda>_. True) 1 (TFT_eSprite raw_sprite))) = (small_sprite 1, True)"
    by (simp add: small_sprite_def createSprite_def setColorDepth_def TFT_eSprite_def Let_def)
  from sprite_never_overruns [OF this] show ?thesis by (simp add: coord_def)
qed


section \<open>Where the code leaves the block\<close>

text \<open>
  A window outlives its sprite: \<open>createSprite\<close> sets the scroll rectangle of the new sprite but not the window,
  so the next colour pushed to a sprite that replaces a larger one is written behind its block.
\<close>
theorem window_outlives_sprite:
  assumes s: "created s" "rotation s = 0" "bpp s \<in> {8, 16}" and size: "w \<le> 0x7FF8" "h \<le> 0x7FFF"
    and new: "createSprite alloc w h frames (deleteSprite s) = (s', True)"
    and ptr: "0 \<le> xptr s" "0 \<le> yptr s" "xptr s + yptr s * w > w * h"
  shows "spr_pushColor c s' = None"
proof -
  have d: "\<not> created (deleteSprite s)" "rotation (deleteSprite s) = 0" "bpp (deleteSprite s) = bpp s"
    "xptr (deleteSprite s) = xptr s" "yptr (deleteSprite s) = yptr s"
    using s by (simp_all add: deleteSprite_def)
  have b: "bpp (deleteSprite s) \<in> {1, 8, 16}" using d(3) s(3) by auto
  note r = createSprite_ok [OF d(1,2) b size new, unfolded d]
  have "bpp s \<noteq> 1" using s(3) by auto
  then have w: "iwidth s' = w" using r(10) by simp
  have "0 \<le> w * h" using r(6,7) by simp
  then have n: "nat (w * h) < nat (xptr s + yptr s * w)" using ptr by linarith
  then have "length (img s') \<le> nat (xptr s + yptr s * w)" if "bpp s = 16"
    using r(1,2,4,11) w that n by (simp add: sprite_ok_def del: zless_nat_conj)
  moreover have "length (img8 s') \<le> frame s' + nat (xptr s + yptr s * w)" if "bpp s = 8"
    using r(1,2,4,11) w that n by (simp add: sprite_ok_def del: zless_nat_conj)
  ultimately show ?thesis using s(3) r(1,4,18,19) w by (auto simp: spr_pushColor_def wr_out)
qed

lemma window_outlives_sprite_witness:
  "spr_pushColor 7 (fst (createSprite (\<lambda>_. True) 2 1 1 (deleteSprite (setWindow 3 2 3 2 (small_sprite 16))))) = None"
proof -
  have 16: "16 \<in> {1, 8, 16 :: int}" by simp
  note small = small_sprite_ok [OF 16]
  let ?s = "setWindow 3 2 3 2 (small_sprite 16)"
  have "xptr ?s = 3" "yptr ?s = 2" by (simp_all add: setWindow_eq small)
  moreover have "createSprite (\<lambda>_. True) 2 1 1 (deleteSprite ?s) = (fst (createSprite (\<lambda>_. True) 2 1 1 (deleteSprite ?s)), True)"
    by (simp add: createSprite_def deleteSprite_def small Let_def)
  ultimately show ?thesis using window_outlives_sprite [of ?s 2 1 "\<lambda>_. True" 1] small by simp
qed

text \<open>
  Choosing rotation 0, the one it has, exchanges the sizes of a 1-bit sprite that is wider than high: points
  below it are no longer clipped, and drawing one is an access behind its only frame.
\<close>
theorem landscape_sprite_faults:
  assumes ok: "sprite_ok s" "created s" "bpp s = 1" "rotation s = 0" and wide: "dheight s + 2 \<le> bitwidth s"
    and one: "length (img8 s) = frame s + nat (bitwidth s * dheight s) div 8 + 1"
  shows "spr_drawPixel 0 (u32_of (bitwidth s - 1)) c (setRotation 0 s) = None"
proof -
  let ?w = "bitwidth s" and ?h = "dheight s"
  have bits: "bits_ok s" using ok by (simp add: sprite_ok_def)
  then obtain q where q: "?w = 8 * q" by (auto simp: bits_ok_def)
  have g: "1 \<le> ?h" "?h \<le> 0x7FFF" "?w \<le> 0x7FF8" "iwidth s = ?w" "iheight s = ?h" using bits ok(4) by (auto simp: bits_ok_def)
  have r: "setRotation 0 s = s\<lparr>rotation := 0, iwidth := ?h, iheight := ?w\<rparr>"
    using wide g by (simp add: setRotation_def swap_size_def Let_def)
  have "(?w - 1) * ?w = 8 * ((?w - 1) * q)" by (simp add: q)
  moreover have "(?w - 1) * ?w < 2 ^ 32" using area_small [of "?w - 1" ?w] wide g by simp
  moreover have "u32_of (?w - 1) * u32_of ?w = u32_of ((?w - 1) * ?w)" by (simp add: u32_of_def)
  ultimately have "unat (u32_of (?w - 1) * u32_of ?w) = nat (8 * ((?w - 1) * q))"
    using wide g q u32_of_small [of "(?w - 1) * ?w"] by simp
  then have idx: "unat (drop_bit 3 (u32_of (?w - 1) * u32_of ?w)) = nat ((?w - 1) * q)"
    using nat_mult_distrib [of 8 "(?w - 1) * q"] by (simp add: drop_bit_eq_div unat_div)
  have e: "?w * ?h = 8 * (?h * q)" by (simp add: q)
  have "nat (?w * ?h) = 8 * nat (?h * q)" unfolding e using nat_mult_distrib [of 8 "?h * q"] by simp
  then have len: "length (img8 s) = frame s + nat (?h * q) + 1" using one by simp
  have "(?h + 1) * q \<le> (?w - 1) * q" using wide g q by (intro mult_right_mono) auto
  then have "?h * q + 1 \<le> (?w - 1) * q" using wide g q by (simp add: algebra_simps)
  moreover have "0 \<le> ?h * q" using g q wide by simp
  moreover have "nat a + 1 \<le> nat b" if "a + 1 \<le> b" "0 \<le> a" for a b :: int using that by linarith
  ultimately have "nat (?h * q) + 1 \<le> nat ((?w - 1) * q)" by blast
  moreover have "\<not> (0 \<ge> u32_of ?h)" "\<not> (u32_of (?w - 1) \<ge> u32_of ?w)"
    using wide g by (simp_all add: word_le_def uint_u32_of)
  ultimately show ?thesis using ok len by (simp add: spr_drawPixel_def r idx rd_out Let_def)
qed

lemma landscape_sprite_faults_witness: "spr_drawPixel 0 7 1 (setRotation 0 (small_sprite 1)) = None"
proof -
  have 1: "1 \<in> {1, 8, 16 :: int}" by simp
  have s: "bitwidth (small_sprite 1) = 8" "dheight (small_sprite 1) = 3" "frame (small_sprite 1) = 0" "length (img8 (small_sprite 1)) = 4"
    by (simp_all add: small_sprite_def createSprite_def setColorDepth_def TFT_eSprite_def Let_def int16_of_def u32_of_def)
  show ?thesis using landscape_sprite_faults [of "small_sprite 1" 1] small_sprite_ok [OF 1] s by (simp add: u32_of_def)
qed

end
