(* ===== verification/SpriteShow.thy ===== *)
theory SpriteShow
  imports SpriteSafe
begin

text \<open>
  A sprite on the display: pushing it shows what \<open>readPixel\<close> reads from it, at every depth, so drawing on a
  sprite of the size of the screen and pushing it is the same as drawing on the screen.
\<close>

section \<open>Pushing a sprite\<close>

text \<open>A sprite that was not turned.\<close>

definition upright :: "sprite \<Rightarrow> bool" where
  "upright s \<longleftrightarrow> rotation s = 0 \<and> (bpp s \<noteq> 1 \<longrightarrow> dwidth s = iwidth s \<and> dheight s = iheight s)"

text \<open>The colour of the display for what a sprite reads: a 1-bit sprite is shown in the two bitmap colours.\<close>

definition display_color :: "u32 \<Rightarrow> u32 \<Rightarrow> sprite \<Rightarrow> u16 \<Rightarrow> u16" where
  "display_color fg bg s c = (if bpp s = 1 then if c \<noteq> 0 then ucast fg else ucast bg else c)"

lemma nat_cell: "0 \<le> x \<Longrightarrow> 0 \<le> y \<Longrightarrow> 0 \<le> w \<Longrightarrow> nat (x + y * w) = nat y * nat w + nat x"
  by (simp add: nat_add_distrib nat_mult_distrib)

lemma unat_u32_of: "0 \<le> i \<Longrightarrow> i \<le> 0x7FFF \<Longrightarrow> unat (u32_of i) = nat i"
  by (simp add: u32_of_small)

lemma rectangle_offsets:
  "(a, b) \<in> rectangle x y w h \<Longrightarrow> 0 \<le> int a - x \<and> int a - x < w \<and> 0 \<le> int b - y \<and> int b - y < h"
  by (auto simp: rectangle_def)

lemma bits_padded:
  assumes "bits_ok s"
  shows "unat (padded (u32_of (dwidth s))) = nat (bitwidth s)"
proof -
  obtain q where q: "bitwidth s = 8 * q" using assms by (auto simp: bits_ok_def)
  have "1 \<le> dwidth s" "dwidth s \<le> 8 * q" "8 * q < dwidth s + 8" "8 * q \<le> 0x7FF8" using assms q by (simp_all add: bits_ok_def)
  moreover from this have "(dwidth s + 7) div 8 = q" by simp
  moreover have "nat (dwidth s + 7) div 8 = nat ((dwidth s + 7) div 8)" using calculation by (simp add: nat_div_distrib)
  ultimately show ?thesis by (simp add: padded_small unat_u32_of q nat_add_distrib nat_mult_distrib)
qed

lemma upright_reads:
  assumes s: "sprite_ok s" "created s" "upright s" "bpp s \<noteq> 1" and ab: "(a, b) \<in> rectangle x y (iwidth s) (iheight s)"
  shows "the (readPixel (int a - x) (int b - y) s) = content s (nat (int b - y) * nat (iwidth s) + nat (int a - x))"
    and "nat (int b - y) * nat (iwidth s) + nat (int a - x) < nat (iwidth s * iheight s)"
proof -
  have size: "1 \<le> iwidth s" "1 \<le> iheight s" using geometry_small [OF s(1,2)] by simp_all
  have i: "inside s (int a - x) (int b - y)" using rectangle_offsets [OF ab] by (simp add: inside_def)
  then have p: "place s (int a - x) (int b - y) = nat (int b - y) * nat (iwidth s) + nat (int a - x)"
    using s(4) size by (simp add: place_def nat_cell inside_def)
  show "the (readPixel (int a - x) (int b - y) s) = content s (nat (int b - y) * nat (iwidth s) + nat (int a - x))"
    using readPixel_content [OF s(1,2) i] p by simp
  show "nat (int b - y) * nat (iwidth s) + nat (int a - x) < nat (iwidth s * iheight s)"
    using place_within [OF s(1,2) i] s(4) unfolding p by (simp add: cells_def)
qed

lemma pushSprite_16:
  assumes t: "coherent t p" and c: "coord x" "coord y" and s: "sprite_ok s" "created s" "upright s" "bpp s = 16"
    and exact: "0 \<le> x \<or> dwidth s \<le> uint (tft_width t)" "0 \<le> y \<or> dheight s \<le> uint (tft_height t)"
  shows "\<exists>t' ws. pushSprite False fg bg x y s t = Some (t', ws) \<and> driven t t' (display ws p) \<and>
    pix (display ws p) = (\<lambda>(a, b). if (a, b) \<in> rectangle x y (dwidth s) (dheight s) \<inter> screen t
      then display_color fg bg s (the (readPixel (int a - x) (int b - y) s)) else pix p (a, b))"
proof -
  have size: "1 \<le> iwidth s" "iwidth s \<le> 0x7FFF" "1 \<le> iheight s" "iheight s \<le> 0x7FFF" using geometry_small [OF s(1,2)] by simp_all
  have area: "unat (u32_of (iwidth s)) * unat (u32_of (iheight s)) = nat (iwidth s * iheight s)"
    using size by (simp add: unat_u32_of nat_mult_distrib)
  have len: "length (img s) = nat (iwidth s * iheight s) + 1" and b: "bpp s \<noteq> 1" using s by (simp_all add: sprite_ok_def)
  have d: "dwidth s = iwidth s" "dheight s = iheight s" using s(3) b by (simp_all add: upright_def)
  note reads = upright_reads [OF s(1-3) b]
  show ?thesis
    using pushImage_visible [OF t c, of "u32_of (iwidth s)" "u32_of (iheight s)" "img s" False] exact s(4) len s(2) size area d
    by (auto simp: pushSprite_def uint_u32_of unat_u32_of shown_def display_color_def reads(1) content_def fun_eq_iff)
qed

lemma pushSprite_8:
  assumes t: "coherent t p" and c: "coord x" "coord y" and s: "sprite_ok s" "created s" "upright s" "bpp s = 8"
    and exact: "0 \<le> x \<or> dwidth s \<le> uint (tft_width t)" "0 \<le> y \<or> dheight s \<le> uint (tft_height t)"
  shows "\<exists>t' ws. pushSprite False fg bg x y s t = Some (t', ws) \<and> driven t t' (display ws p) \<and>
    pix (display ws p) = (\<lambda>(a, b). if (a, b) \<in> rectangle x y (dwidth s) (dheight s) \<inter> screen t
      then display_color fg bg s (the (readPixel (int a - x) (int b - y) s)) else pix p (a, b))"
proof -
  have size: "1 \<le> iwidth s" "iwidth s \<le> 0x7FFF" "1 \<le> iheight s" "iheight s \<le> 0x7FFF" using geometry_small [OF s(1,2)] by simp_all
  have area: "unat (u32_of (iwidth s)) * unat (u32_of (iheight s)) = nat (iwidth s * iheight s)"
    using size by (simp add: unat_u32_of nat_mult_distrib)
  have len: "length (img8 s) = nat (iwidth s * iheight s) + 1" "frame s = 0" and b: "bpp s \<noteq> 1" using s by (simp_all add: sprite_ok_def)
  have d: "dwidth s = iwidth s" "dheight s = iheight s" using s(3) b by (simp_all add: upright_def)
  note reads = upright_reads [OF s(1-3) b]
  let ?data = "map color8to16 (img8 s)"
  have "pushSprite False fg bg x y s t = pushImage True x y (u32_of (iwidth s)) (u32_of (iheight s)) ?data t"
    using s(2,4) len d pushImage8_colors [where data = "img8 s"] by (simp add: pushSprite_def)
  moreover have "?data ! (nat (int b - y) * nat (iwidth s) + nat (int a - x)) =
      color8to16 (img8 s ! (nat (int b - y) * nat (iwidth s) + nat (int a - x)))" if "(a, b) \<in> rectangle x y (iwidth s) (iheight s)" for a b
    using reads(2) [OF that] len(1) by (intro nth_map) simp
  ultimately show ?thesis
    using pushImage_visible [OF t c, of "u32_of (iwidth s)" "u32_of (iheight s)" ?data True] exact s(4) len size area d
    by (auto simp: uint_u32_of unat_u32_of shown_def display_color_def reads(1) content_def fun_eq_iff)
qed

lemma pushSprite_1:
  assumes t: "coherent t p" and c: "coord x" "coord y" and s: "sprite_ok s" "created s" "upright s" "bpp s = 1"
    and exact: "0 \<le> x \<or> dwidth s \<le> uint (tft_width t)" "0 \<le> y \<or> dheight s \<le> uint (tft_height t)"
  shows "\<exists>t' ws. pushSprite False fg bg x y s t = Some (t', ws) \<and> driven t t' (display ws p) \<and>
    pix (display ws p) = (\<lambda>(a, b). if (a, b) \<in> rectangle x y (dwidth s) (dheight s) \<inter> screen t
      then display_color fg bg s (the (readPixel (int a - x) (int b - y) s)) else pix p (a, b))"
proof -
  have 1: "bpp s = 1" and bits: "bits_ok s" and rot: "rotation s = 0" using s by (simp_all add: sprite_ok_def upright_def)
  have geo: "1 \<le> dwidth s" "dwidth s \<le> 0x7FF8" "1 \<le> dheight s" "dheight s \<le> 0x7FFF" "dwidth s \<le> bitwidth s"
    "iwidth s = bitwidth s" "iheight s = dheight s" "frame s + nat (bitwidth s * dheight s) div 8 < length (img8 s)"
    using bits rot by (auto simp: bits_ok_def)
  let ?data = "drop (frame s) (img8 s)"
  have k: "nat (int b - y) * nat (bitwidth s) + nat (int a - x) < nat (bitwidth s * dheight s)"
    "the (readPixel (int a - x) (int b - y) s) = of_bool (bits_of ?data ! (nat (int b - y) * nat (bitwidth s) + nat (int a - x)))"
    if ab: "(a, b) \<in> rectangle x y (dwidth s) (dheight s)" for a b
  proof -
    let ?k = "nat (int b - y) * nat (bitwidth s) + nat (int a - x)"
    have i: "inside s (int a - x) (int b - y)" using rectangle_offsets [OF ab] geo by (simp add: inside_def)
    have p: "place s (int a - x) (int b - y) = ?k"
      using 1 rot i geo by (simp add: place_def turned_def nat_cell inside_def)
    show c: "?k < nat (bitwidth s * dheight s)" using place_within [OF s(1,2) i] 1 unfolding p by (simp add: cells_def)
    then have "?k < 8 * length ?data" using geo(8) by (simp add: less_diff_conv2) linarith
    then have "bits_of ?data ! ?k = bit (img8 s ! (frame s + ?k div 8)) (7 - ?k mod 8)"
      using geo(8) by (subst bits_of_nth) (simp_all add: nth_drop)
    then show "the (readPixel (int a - x) (int b - y) s) = of_bool (bits_of ?data ! ?k)"
      unfolding readPixel_content [OF s(1,2) i] p using 1 by (simp add: content_def)
  qed
  have "unat (padded (u32_of (dwidth s))) * unat (u32_of (dheight s)) \<le> 8 * length ?data"
    using geo bits_padded [OF bits] by (simp add: unat_u32_of nat_mult_distrib)
  then show ?thesis
    using pushImage1_opaque [OF t c, of "u32_of (dwidth s)" "u32_of (dheight s)" ?data fg bg] exact 1 s(2) geo k bits_padded [OF bits]
    by (auto simp: pushSprite_def uint_u32_of unat_u32_of display_color_def fun_eq_iff)
qed

lemma pushSprite_visible:
  assumes t: "coherent t p" and c: "coord x" "coord y" and s: "sprite_ok s" "created s" "upright s"
    and exact: "0 \<le> x \<or> dwidth s \<le> uint (tft_width t)" "0 \<le> y \<or> dheight s \<le> uint (tft_height t)"
  shows "\<exists>t' ws. pushSprite False fg bg x y s t = Some (t', ws) \<and> driven t t' (display ws p) \<and>
    pix (display ws p) = (\<lambda>(a, b). if (a, b) \<in> rectangle x y (dwidth s) (dheight s) \<inter> screen t
      then display_color fg bg s (the (readPixel (int a - x) (int b - y) s)) else pix p (a, b))"
  by (rule depth_cases [OF s(1,2)]; rule pushSprite_16 [OF t c s _ exact] pushSprite_8 [OF t c s _ exact] pushSprite_1 [OF t c s _ exact]; assumption)

text \<open>
  C37.  Pushing a sprite that is not rotated, and that starts on the screen or is no larger than it in either direction,
  shows on the display what \<open>readPixel\<close> reads from it, at sixteen, eight and one bit per pixel, in the part of it that
  is on the screen, and changes nothing else, if the display does not swap bytes; the block is read within its bounds.
\<close>
theorem pushSprite_shows:
  assumes t: "coherent t p" and c: "coord x" "coord y" and s: "sprite_ok s" "created s" "upright s"
    and exact: "0 \<le> x \<or> dwidth s \<le> uint (tft_width t)" "0 \<le> y \<or> dheight s \<le> uint (tft_height t)"
  shows "\<exists>t' ws. pushSprite False fg bg x y s t = Some (t', ws) \<and> driven t t' (display ws p) \<and>
    pix (display ws p) = (\<lambda>(a, b). if (a, b) \<in> rectangle x y (dwidth s) (dheight s) \<inter> screen t
      then display_color fg bg s (the (readPixel (int a - x) (int b - y) s)) else pix p (a, b))"
  by (rule pushSprite_visible [OF assms])

lemma small_sprite_upright:
  assumes "depth \<in> {1, 8, 16}"
  shows "upright (small_sprite depth)" "dwidth (small_sprite depth) = 4" "dheight (small_sprite depth) = 3"
  using assms by (auto simp: upright_def small_sprite_def createSprite_def setColorDepth_def TFT_eSprite_def Let_def)

text \<open>
  The example draws a point on a new 1-bit sprite and pushes it so that only its right half is on the screen.
\<close>

lemma pushSprite_shows_witness:
  "\<exists>s t' ws. spr_calls [Pixel 3 1 1] (small_sprite 1) = Some s \<and> pushSprite False 0xF800 0x001F (- 2) 5 s fresh_tft = Some (t', ws) \<and>
     pix (display ws blank_panel) (1, 6) = 0xF800 \<and> pix (display ws blank_panel) (5, 6) = 0"
proof -
  have 1: "1 \<in> {1, 8, 16 :: int}" by simp
  note small = small_sprite_ok [OF 1] small_sprite_upright [OF 1]
  obtain s where s: "spr_calls [Pixel 3 1 1] (small_sprite 1) = Some s" "drawn (set (points [Pixel 3 1 1])) 1 (small_sprite 1) s"
    using spr_calls_drawn [OF small(2), where ks = "[Pixel 3 1 1]" and c = 1] by (auto simp: coord_def)
  note b = same_block_fields [OF drawn_same [OF s(2)]] same_block_derived [OF drawn_same [OF s(2)]]
  have r: "readPixel 3 1 s = Some 1"
    using drawn_reads [OF small(2) s(2), of 3 1] small by (simp add: inside_def stored_def)
  have ok: "sprite_ok s" "created s" "upright s" using b small by (simp_all add: upright_def)
  obtain t' ws where p: "pushSprite False 0xF800 0x001F (- 2) 5 s fresh_tft = Some (t', ws)"
    "pix (display ws blank_panel) = (\<lambda>(x, y). if (x, y) \<in> rectangle (- 2) 5 (dwidth s) (dheight s) \<inter> screen fresh_tft
      then display_color 0xF800 0x001F s (the (readPixel (int x - - 2) (int y - 5) s)) else pix blank_panel (x, y))"
    using pushSprite_shows [OF fresh_coherent _ _ ok, of "- 2" 5 "0xF800" "0x001F"] b small by (auto simp: coord_def fresh_tft_def)
  have "pix (display ws blank_panel) (1, 6) = 0xF800" "pix (display ws blank_panel) (5, 6) = pix blank_panel (5, 6)"
    unfolding p(2) using b small r by (simp_all add: rectangle_def screen_def fresh_tft_def display_color_def)
  then show ?thesis using s(1) p(1) by (auto simp: blank_panel_def)
qed

section \<open>Drawing on a sprite instead of the screen\<close>

lemma call_ok_sprite: "call_ok k \<Longrightarrow> spr_call_ok k"
  by (cases k) simp_all

text \<open>
  A shape drawn on a 16-bit sprite that holds what the screen shows, and then pushed to the screen, leaves the
  display as if the shape had been drawn on it directly.
\<close>
theorem sprite_as_buffer:
  assumes t: "coherent t p" and s: "sprite_ok s" "created s" "upright s" "bpp s = 16"
    and size: "dwidth s = uint (tft_width t)" "dheight s = uint (tft_height t)"
    and copy: "\<forall>(a, b)\<in>screen t. readPixel (int a) (int b) s = Some (pix p (a, b))"
    and ks: "\<forall>k\<in>set ks. call_ok k \<and> call_color k = c" and c: "c < 0x10000"
    and direct: "run_calls ks t = (t1, ws1)"
  shows "\<exists>s' t2 ws2. spr_calls ks s = Some s' \<and> pushSprite False fg bg 0 0 s' t = Some (t2, ws2) \<and>
    pix (display ws2 p) = pix (display ws1 p)"
proof -
  obtain s' where s': "spr_calls ks s = Some s'" "drawn (set (points ks)) c s s'"
    using spr_calls_drawn [OF s(1), where ks = ks and c = c] ks call_ok_sprite by blast
  note b = same_block_fields [OF drawn_same [OF s'(2)]] same_block_derived [OF drawn_same [OF s'(2)]]
  have ok: "sprite_ok s'" "created s'" "upright s'" using b s by (simp_all add: upright_def)
  have z: "coord 0" by (simp add: coord_def)
  obtain t2 ws2 where p2: "pushSprite False fg bg 0 0 s' t = Some (t2, ws2)"
    "pix (display ws2 p) = (\<lambda>(a, b). if (a, b) \<in> rectangle 0 0 (dwidth s') (dheight s') \<inter> screen t
      then display_color fg bg s' (the (readPixel (int a - 0) (int b - 0) s')) else pix p (a, b))"
    using pushSprite_visible [OF t z z ok, of fg bg] by auto
  have p1: "painted (visible t (points ks)) (ucast c) p (display ws1 p)" using run_calls_paint [OF t ks direct] by simp
  have "pix (display ws2 p) (a, b) = pix (display ws1 p) (a, b)" for a b
  proof (cases "(a, b) \<in> screen t")
    case True
    then have "inside s (int a) (int b)" using size s by (auto simp: inside_def screen_def upright_def)
    then have "the (readPixel (int a) (int b) s') = (if (int a, int b) \<in> set (points ks) then ucast c else pix p (a, b))"
      using drawn_reads [OF s(1) s'(2), of "int a" "int b"] copy True s stored_16 [OF s(4) c] by auto
    moreover have "(a, b) \<in> rectangle 0 0 (dwidth s') (dheight s')" using True size b by (auto simp: rectangle_def screen_def)
    ultimately show ?thesis using p1 p2(2) True b s by (simp add: painted_def visible_def display_color_def)
  next
    case False
    then show ?thesis using p1 p2(2) by (simp add: painted_def visible_def)
  qed
  then have "pix (display ws2 p) = pix (display ws1 p)" by auto
  then show ?thesis using s'(1) p2(1) by blast
qed

text \<open>A new 16-bit sprite of the size of the screen is black.\<close>

definition screen_sprite :: sprite where
  "screen_sprite = fst (createSprite (\<lambda>_. True) 320 240 1 (TFT_eSprite raw_sprite))"

lemma screen_sprite_ok:
  "sprite_ok screen_sprite" "created screen_sprite" "upright screen_sprite" "bpp screen_sprite = 16"
  "dwidth screen_sprite = 320" "dheight screen_sprite = 240" "inside screen_sprite x y \<Longrightarrow> readPixel x y screen_sprite = Some 0"
proof -
  let ?s = "TFT_eSprite raw_sprite"
  have s: "\<not> created ?s" "rotation ?s = 0" "bpp ?s \<in> {1, 8, 16}" "bpp ?s = 16" by (simp_all add: TFT_eSprite_def)
  have "createSprite (\<lambda>_. True) 320 240 1 ?s = (screen_sprite, True)"
    unfolding screen_sprite_def by (simp add: createSprite_def s Let_def)
  note r = createSprite_ok [OF s(1-3) _ _ this, unfolded s(4), simplified]
  show ok: "sprite_ok screen_sprite" "created screen_sprite" "bpp screen_sprite = 16" "dwidth screen_sprite = 320" "dheight screen_sprite = 240"
    by (rule r)+
  show "upright screen_sprite" using r by (simp add: upright_def)
  assume i: "inside screen_sprite x y"
  have "place screen_sprite x y < length (img screen_sprite)"
    using place_within [OF ok(1,2) i] ok(1-3) by (simp add: cells_def sprite_ok_def)
  then have "img screen_sprite ! place screen_sprite x y = 0" using r(12) by (simp add: nth_mem)
  then show "readPixel x y screen_sprite = Some 0"
    using readPixel_content [OF ok(1,2) i] ok(3) by (simp add: content_def bswap16_def)
qed

lemma sprite_as_buffer_witness:
  "\<exists>s' t2 ws2. spr_calls [HLine 5 5 9 0xF800, Pixel 1 1 0xF800] screen_sprite = Some s' \<and>
    pushSprite False 1 0 0 0 s' fresh_tft = Some (t2, ws2) \<and>
    pix (display ws2 blank_panel) = pix (display (snd (run_calls [HLine 5 5 9 0xF800, Pixel 1 1 0xF800] fresh_tft)) blank_panel)"
proof (rule sprite_as_buffer [OF fresh_coherent screen_sprite_ok(1-4), where c = "0xF800"])
  show "\<forall>(a, b)\<in>screen fresh_tft. readPixel (int a) (int b) screen_sprite = Some (pix blank_panel (a, b))"
  proof clarify
    fix a b assume ab: "(a, b) \<in> screen fresh_tft"
    have "iwidth screen_sprite = 320" "iheight screen_sprite = 240" using screen_sprite_ok(3-6) by (simp_all add: upright_def)
    then have "inside screen_sprite (int a) (int b)" using ab by (simp add: screen_def fresh_tft_def inside_def)
    then show "readPixel (int a) (int b) screen_sprite = Some (pix blank_panel (a, b))"
      using screen_sprite_ok(7) by (simp add: blank_panel_def)
  qed
  show "run_calls [HLine 5 5 9 0xF800, Pixel 1 1 0xF800] fresh_tft =
      (fst (run_calls [HLine 5 5 9 0xF800, Pixel 1 1 0xF800] fresh_tft), snd (run_calls [HLine 5 5 9 0xF800, Pixel 1 1 0xF800] fresh_tft))"
    by simp
qed (simp_all add: screen_sprite_ok fresh_tft_def coord_def word_less_def)

end
