(* ===== verification/StreamParse.thy ===== *)
theory StreamParse
  imports WStringText
begin

text \<open>
  The class \<open>Stream\<close> of \<open>components/arduino/cores/esp32/Stream.cpp\<close>: reading numbers, texts and blocks from a
  source that derived classes provide.  The virtual functions \<open>read\<close> and \<open>peek\<close> and the clock are the fields
  of a record; a source that faults is \<open>None\<close>.  \<open>_timeout\<close> is an argument, \<open>_startMillis\<close> is used within
  one call only.  Loops that end only if the source or the clock makes them are partial functions.  \<open>parseFloat\<close>
  computes on floating-point numbers and is left out.
\<close>

section \<open>Sources\<close>

record 's source =
  src_read :: "'s \<Rightarrow> (int \<times> 's) option"
  src_peek :: "'s \<Rightarrow> (int \<times> 's) option"
  src_millis :: "'s \<Rightarrow> u32 \<times> 's"

text \<open>The loop of \<open>timedRead\<close> and of \<open>timedPeek\<close>.\<close>

partial_function (option) timed_loop ::
    "('s \<Rightarrow> (int \<times> 's) option) \<Rightarrow> ('s \<Rightarrow> u32 \<times> 's) \<Rightarrow> u32 \<Rightarrow> u32 \<Rightarrow> 's \<Rightarrow> (int \<times> 's) option" where
  "timed_loop get millis start timeout s =
     do {
       (c, s) \<leftarrow> get s;
       if c \<ge> 0 then Some (c, s)
       else
         let (now, s) = millis s
         in if now - start < timeout then timed_loop get millis start timeout s else Some (- 1, s)
     }"

definition timedRead :: "'s source \<Rightarrow> u32 \<Rightarrow> 's \<Rightarrow> (int \<times> 's) option" where
  "timedRead io timeout s =
     (let (start, s) = src_millis io s in timed_loop (src_read io) (src_millis io) start timeout s)"

definition timedPeek :: "'s source \<Rightarrow> u32 \<Rightarrow> 's \<Rightarrow> (int \<times> 's) option" where
  "timedPeek io timeout s =
     (let (start, s) = src_millis io s in timed_loop (src_peek io) (src_millis io) start timeout s)"

definition code :: "char \<Rightarrow> int" where
  "code c = of_char c"

text \<open>The conversion of an \<open>int\<close> to \<open>char\<close>, which has no sign on this machine.\<close>

definition to_char :: "int \<Rightarrow> char" where
  "to_char c = char_of (nat (c mod 256))"

section \<open>Finding texts\<close>

partial_function (option) findUntil_loop ::
    "'s source \<Rightarrow> u32 \<Rightarrow> char list \<Rightarrow> nat \<Rightarrow> char list \<Rightarrow> nat \<Rightarrow> nat \<Rightarrow> nat \<Rightarrow> 's \<Rightarrow> (bool \<times> 's) option" where
  "findUntil_loop io timeout target targetLen terminator termLen index termIndex s =
     do {
       (c, s) \<leftarrow> timedRead io timeout s;
       if c > 0 then
         do {
           t \<leftarrow> rd target index;
           let index = (if c \<noteq> code t then 0 else index);
           t \<leftarrow> rd target index;
           if c = code t \<and> index + 1 \<ge> targetLen then Some (True, s)
           else
             let index = (if c = code t then index + 1 else index)
             in if termLen > 0 then
                  do {
                    u \<leftarrow> rd terminator termIndex;
                    if c = code u then
                      (if termIndex + 1 \<ge> termLen then Some (False, s)
                       else findUntil_loop io timeout target targetLen terminator termLen index (termIndex + 1) s)
                    else findUntil_loop io timeout target targetLen terminator termLen index 0 s
                  }
                else findUntil_loop io timeout target targetLen terminator termLen index 0 s
         }
       else Some (False, s)
     }"

definition findUntil_len ::
    "'s source \<Rightarrow> u32 \<Rightarrow> char list \<Rightarrow> nat \<Rightarrow> char list \<Rightarrow> nat \<Rightarrow> 's \<Rightarrow> (bool \<times> 's) option" where
  "findUntil_len io timeout target targetLen terminator termLen s =
     do {
       t \<leftarrow> rd target 0;
       if t = NUL then Some (True, s)
       else findUntil_loop io timeout target targetLen terminator termLen 0 0 s
     }"

text \<open>The overloads; a C string lies in memory with its terminator.\<close>

definition findUntil :: "'s source \<Rightarrow> u32 \<Rightarrow> string \<Rightarrow> string \<Rightarrow> 's \<Rightarrow> (bool \<times> 's) option" where
  "findUntil io timeout target terminator s =
     findUntil_len io timeout (target @ [NUL]) (length target) (terminator @ [NUL]) (length terminator) s"

definition find_text :: "'s source \<Rightarrow> u32 \<Rightarrow> string \<Rightarrow> 's \<Rightarrow> (bool \<times> 's) option" where
  "find_text io timeout target s = findUntil io timeout target [] s"

definition find_len :: "'s source \<Rightarrow> u32 \<Rightarrow> char list \<Rightarrow> nat \<Rightarrow> 's \<Rightarrow> (bool \<times> 's) option" where
  "find_len io timeout target n s = findUntil_len io timeout target n [] 0 s"

section \<open>Numbers\<close>

partial_function (option) peekNextDigit :: "'s source \<Rightarrow> u32 \<Rightarrow> 's \<Rightarrow> (int \<times> 's) option" where
  "peekNextDigit io timeout s =
     do {
       (c, s) \<leftarrow> timedPeek io timeout s;
       if c < 0 then Some (c, s)
       else if c = code CHR ''-'' then Some (c, s)
       else if code CHR ''0'' \<le> c \<and> c \<le> code CHR ''9'' then Some (c, s)
       else do { (_, s) \<leftarrow> src_read io s; peekNextDigit io timeout s }
     }"

definition NO_SKIP_CHAR :: char where
  "NO_SKIP_CHAR = char_of (1 :: nat)"

text \<open>\<open>long\<close> has 32 bits.  The sum is taken from left to right, and an overflow of a part is a failure.\<close>

definition digit_step :: "int \<Rightarrow> int \<Rightarrow> int option" where
  "digit_step value c =
     do { v \<leftarrow> s32 (value * 10); v \<leftarrow> s32 (v + c); s32 (v - code CHR ''0'') }"

partial_function (option) parseInt_loop ::
    "'s source \<Rightarrow> u32 \<Rightarrow> char \<Rightarrow> bool \<Rightarrow> int \<Rightarrow> int \<Rightarrow> 's \<Rightarrow> (int \<times> 's) option" where
  "parseInt_loop io timeout skipChar isNegative value c s =
     do {
       (isNegative, value) \<leftarrow>
         (if c = code skipChar then Some (isNegative, value)
          else if c = code CHR ''-'' then Some (True, value)
          else if code CHR ''0'' \<le> c \<and> c \<le> code CHR ''9'' then map_option (Pair isNegative) (digit_step value c)
          else Some (isNegative, value));
       (_, s) \<leftarrow> src_read io s;
       (c, s) \<leftarrow> timedPeek io timeout s;
       if code CHR ''0'' \<le> c \<and> c \<le> code CHR ''9'' \<or> c = code skipChar
       then parseInt_loop io timeout skipChar isNegative value c s
       else Some (if isNegative then - value else value, s)
     }"

definition parseInt_skip :: "'s source \<Rightarrow> u32 \<Rightarrow> char \<Rightarrow> 's \<Rightarrow> (int \<times> 's) option" where
  "parseInt_skip io timeout skipChar s =
     do {
       (c, s) \<leftarrow> peekNextDigit io timeout s;
       if c < 0 then Some (0, s) else parseInt_loop io timeout skipChar False 0 c s
     }"

definition parseInt :: "'s source \<Rightarrow> u32 \<Rightarrow> 's \<Rightarrow> (int \<times> 's) option" where
  "parseInt io timeout s = parseInt_skip io timeout NO_SKIP_CHAR s"

section \<open>Blocks and texts\<close>

text \<open>The loops with a buffer: \<open>n\<close> is the number of bytes still wanted.\<close>

fun readBytes_loop :: "'s source \<Rightarrow> u32 \<Rightarrow> nat \<Rightarrow> char list \<Rightarrow> nat \<Rightarrow> 's \<Rightarrow> (nat \<times> char list \<times> 's) option" where
  "readBytes_loop io timeout 0 buffer count s = Some (count, buffer, s)"
| "readBytes_loop io timeout (Suc n) buffer count s =
     do {
       (c, s) \<leftarrow> timedRead io timeout s;
       if c < 0 then Some (count, buffer, s)
       else do { buffer \<leftarrow> wr buffer count (to_char c); readBytes_loop io timeout n buffer (count + 1) s }
     }"

definition readBytes :: "'s source \<Rightarrow> u32 \<Rightarrow> char list \<Rightarrow> nat \<Rightarrow> 's \<Rightarrow> (nat \<times> char list \<times> 's) option" where
  "readBytes io timeout buffer n s = readBytes_loop io timeout n buffer 0 s"

fun readBytesUntil_loop :: "'s source \<Rightarrow> u32 \<Rightarrow> char \<Rightarrow> nat \<Rightarrow> char list \<Rightarrow> nat \<Rightarrow> 's \<Rightarrow> (nat \<times> char list \<times> 's) option" where
  "readBytesUntil_loop io timeout terminator 0 buffer index s = Some (index, buffer, s)"
| "readBytesUntil_loop io timeout terminator (Suc n) buffer index s =
     do {
       (c, s) \<leftarrow> timedRead io timeout s;
       if c < 0 \<or> c = code terminator then Some (index, buffer, s)
       else do { buffer \<leftarrow> wr buffer index (to_char c); readBytesUntil_loop io timeout terminator n buffer (index + 1) s }
     }"

definition readBytesUntil :: "'s source \<Rightarrow> u32 \<Rightarrow> char \<Rightarrow> char list \<Rightarrow> nat \<Rightarrow> 's \<Rightarrow> (nat \<times> char list \<times> 's) option" where
  "readBytesUntil io timeout terminator buffer n s =
     (if n < 1 then Some (0, buffer, s) else readBytesUntil_loop io timeout terminator n buffer 0 s)"

text \<open>
  The loop of \<open>readString\<close> and of \<open>readStringUntil\<close>, which tests for the terminator as well.  A character for
  which there is no memory is dropped: the result of \<open>+=\<close> is not looked at.
\<close>

partial_function (option) readString_loop ::
    "'s source \<Rightarrow> u32 \<Rightarrow> (nat \<Rightarrow> bool) \<Rightarrow> (nat \<Rightarrow> char) \<Rightarrow> char option \<Rightarrow> String \<Rightarrow> int \<Rightarrow> 's \<Rightarrow> (String \<times> 's) option" where
  "readString_loop io timeout heap junk terminator ret c s =
     (if c \<ge> 0 \<and> (case terminator of None \<Rightarrow> True | Some t \<Rightarrow> c \<noteq> code t) then
        do {
          (_, ret) \<leftarrow> concat_char heap junk (to_char c) ret;
          (c, s) \<leftarrow> timedRead io timeout s;
          readString_loop io timeout heap junk terminator ret c s
        }
      else Some (ret, s))"

definition readString :: "'s source \<Rightarrow> u32 \<Rightarrow> (nat \<Rightarrow> bool) \<Rightarrow> (nat \<Rightarrow> char) \<Rightarrow> 's \<Rightarrow> (String \<times> 's) option" where
  "readString io timeout heap junk s =
     do { (c, s) \<leftarrow> timedRead io timeout s; readString_loop io timeout heap junk None init c s }"

definition readStringUntil :: "'s source \<Rightarrow> u32 \<Rightarrow> (nat \<Rightarrow> bool) \<Rightarrow> (nat \<Rightarrow> char) \<Rightarrow> char \<Rightarrow> 's \<Rightarrow> (String \<times> 's) option" where
  "readStringUntil io timeout heap junk terminator s =
     do { (c, s) \<leftarrow> timedRead io timeout s; readString_loop io timeout heap junk (Some terminator) init c s }"

declare timed_loop.simps [code] findUntil_loop.simps [code] peekNextDigit.simps [code] parseInt_loop.simps [code]
  readString_loop.simps [code]

end
