(* ===== verification/StreamLaws.thy ===== *)
theory StreamLaws
  imports StreamParse
begin

text \<open>
  What the operations of \<open>StreamParse\<close> rely on of a source, as a locale, and what they compute from the bytes that
  are to come: searches as the scan of a text, numbers as the value of their digits, texts up to a terminator.
\<close>

section \<open>References on texts\<close>

text \<open>What \<open>timedRead\<close> returns if \<open>xs\<close> is to come.\<close>

fun next_code :: "string \<Rightarrow> int" where
  "next_code [] = - 1"
| "next_code (c # cs) = code c"

lemma code_int: "code c = int (of_char c)"
  by (simp add: code_def of_nat_of_char)

lemma code_nonneg [simp]: "0 \<le> code c" "\<not> code c < 0" "code c \<noteq> - 1" "\<not> code c \<le> - 1"
  by (simp_all add: code_int)

lemma code_eq [simp]: "code c = code d \<longleftrightarrow> c = d"
  by (simp add: code_int)

lemma code_pos [simp]: "0 < code c \<longleftrightarrow> c \<noteq> NUL"
proof -
  have "code NUL = 0" by (simp add: code_def)
  then show ?thesis by (metis code_eq code_nonneg(1) order_less_le)
qed

lemma to_char_code [simp]: "to_char (code c) = c"
proof -
  have "(of_char c :: nat) < 256" by simp
  then show ?thesis by (simp add: to_char_def code_int)
qed

lemma code_digit: "code CHR ''0'' \<le> code c \<and> code c \<le> code CHR ''9'' \<longleftrightarrow> is_digit c"
  by (simp add: code_int is_digit_def)

text \<open>The search of \<open>findUntil\<close>: \<open>i\<close> and \<open>j\<close> characters of the two texts have been matched.\<close>

fun scan :: "string \<Rightarrow> string \<Rightarrow> nat \<Rightarrow> nat \<Rightarrow> string \<Rightarrow> bool \<times> string" where
  "scan xs ts i j [] = (False, [])"
| "scan xs ts i j (c # cs) =
     (if c = NUL then (False, cs)
      else
        let i = (if c \<noteq> xs ! i then 0 else i)
        in if c = xs ! i \<and> i + 1 \<ge> length xs then (True, cs)
           else
             let i = (if c = xs ! i then i + 1 else i)
             in if ts \<noteq> [] then
                  if c = ts ! j then (if j + 1 \<ge> length ts then (False, cs) else scan xs ts i (j + 1) cs)
                  else scan xs ts i 0 cs
                else scan xs ts i 0 cs)"

text \<open>The number at the start of a text, after everything that is neither a digit nor a minus sign.\<close>

definition skip_to_number :: "string \<Rightarrow> string" where
  "skip_to_number cs = dropWhile (\<lambda>c. \<not> is_digit c \<and> c \<noteq> CHR ''-'') cs"

definition number_at :: "string \<Rightarrow> int \<times> string" where
  "number_at cs =
     (case skip_to_number cs of [] \<Rightarrow> (0, [])
      | c # cs \<Rightarrow>
          if c = CHR ''-'' then (- int (digits_value (takeWhile is_digit cs)), dropWhile is_digit cs)
          else (int (digits_value (takeWhile is_digit (c # cs))), dropWhile is_digit (c # cs)))"

text \<open>The loop over digits, and when it overflows.\<close>

definition value_from :: "nat \<Rightarrow> string \<Rightarrow> nat" where
  "value_from n ds = foldl (\<lambda>n c. 10 * n + (of_char c - 48)) n ds"

lemma value_from_simps [simp]:
  "value_from n [] = n" "value_from n (c # ds) = value_from (10 * n + (of_char c - 48)) ds"
  by (simp_all add: value_from_def)

lemma value_from_ge: "n \<le> value_from n ds"
proof (induction ds arbitrary: n)
  case (Cons c ds)
  have "n \<le> 10 * n + (of_char c - 48)" by simp
  also have "\<dots> \<le> value_from (10 * n + (of_char c - 48)) ds" by (rule Cons.IH)
  finally show ?case by simp
qed simp

lemma value_from_0: "value_from 0 ds = digits_value ds"
  by (simp add: value_from_def digits_value_def)

lemma digit_step_value:
  assumes "is_digit c"
  shows "digit_step (int n) (code c) =
    (if 10 * n + (of_char c - 48) + 48 < 2 ^ 31 then Some (int (10 * n + (of_char c - 48))) else None)"
  using assms by (auto simp: digit_step_def code_int s32_def is_digit_def of_nat_diff)

lemma digits_run:
  "\<forall>c\<in>set ds. is_digit c \<Longrightarrow> ds \<noteq> [] \<Longrightarrow> foldM (\<lambda>c v. digit_step v (code c)) ds (int n) =
     (if value_from n ds + 48 < 2 ^ 31 then Some (int (value_from n ds)) else None)"
proof (induction ds arbitrary: n)
  case (Cons c ds)
  let ?n = "10 * n + (of_char c - 48)"
  show ?case
  proof (cases "?n + 48 < 2 ^ 31")
    case True
    then show ?thesis using Cons by (cases "ds = []") (simp_all add: digit_step_value del: of_nat_add of_nat_mult)
  next
    case False
    then have "\<not> value_from ?n ds + 48 < 2 ^ 31" using value_from_ge [of ?n ds] by linarith
    then show ?thesis using False Cons.prems(1) by (simp add: digit_step_value)
  qed
qed simp

section \<open>The interface\<close>

text \<open>
  A source whose bytes to come are \<open>content\<close>: within the timeout \<open>timedRead\<close> and \<open>timedPeek\<close> deliver the next one,
  or report that there is none, and \<open>read\<close> takes a byte that was peeked.
\<close>

locale byte_source =
  fixes io :: "'s source" and timeout :: u32 and content :: "'s \<Rightarrow> string" and ok :: "'s \<Rightarrow> bool"
  assumes timed_read: "ok s \<Longrightarrow> \<exists>s'. timedRead io timeout s = Some (next_code (content s), s') \<and> ok s' \<and> content s' = tl (content s)"
    and timed_peek: "ok s \<Longrightarrow> \<exists>s'. timedPeek io timeout s = Some (next_code (content s), s') \<and> ok s' \<and> content s' = content s"
    and read_peeked: "ok s \<Longrightarrow> timedPeek io timeout s = Some (c, s') \<Longrightarrow> c \<ge> 0 \<Longrightarrow>
      \<exists>s''. src_read io s' = Some (c, s'') \<and> ok s'' \<and> content s'' = tl (content s')"
begin

lemma findUntil_scan:
  assumes "xs \<noteq> []" "take (length xs) m = xs" "take (length ts) n = ts"
  shows "ok s \<Longrightarrow> i < length xs \<Longrightarrow> ts = [] \<or> j < length ts \<Longrightarrow>
    \<exists>s'. findUntil_loop io timeout m (length xs) n (length ts) i j s = Some (fst (scan xs ts i j (content s)), s') \<and>
      ok s' \<and> content s' = snd (scan xs ts i j (content s))"
proof (induction "content s" arbitrary: s i j)
  case Nil
  then show ?case using timed_read [of s] by (subst findUntil_loop.simps) auto
next
  case (Cons c cs)
  obtain s1 where s1: "timedRead io timeout s = Some (code c, s1)" "ok s1" "content s1 = cs"
    using timed_read [OF Cons.prems(1)] Cons.hyps(2) by (metis list.sel(3) next_code.simps(2))
  have mem: "rd m k = Some (xs ! k)" if "k < length xs" for k
    using that assms(2) by (metis length_take min_less_iff_conj nth_take rd_in)
  have mem2: "rd n k = Some (ts ! k)" if "k < length ts" for k
    using that assms(3) by (metis length_take min_less_iff_conj nth_take rd_in)
  have z: "0 < length xs" using assms(1) by simp
  define i' where "i' = (if c \<noteq> xs ! i then 0 else i)"
  have i': "i' < length xs" using Cons.prems(2) z by (simp add: i'_def)
  define i2 where "i2 = (if c = xs ! i' then i' + 1 else i')"
  have IH: "\<exists>s'. findUntil_loop io timeout m (length xs) n (length ts) k l s1 = Some (fst (scan xs ts k l cs), s') \<and>
      ok s' \<and> content s' = snd (scan xs ts k l cs)" if "k < length xs" "ts = [] \<or> l < length ts" for k l
    using Cons.hyps(1) [of s1 k l] s1 that by simp
  show ?case
  proof (cases "c = NUL \<or> c = xs ! i' \<and> i' + 1 \<ge> length xs")
    case True
    then show ?thesis using s1 Cons.hyps(2) [symmetric] mem [OF Cons.prems(2)] mem [OF i']
      by (subst findUntil_loop.simps, cases "c = xs ! i") (auto simp: i'_def)
  next
    case False
    then have i2: "i2 < length xs" using i' by (auto simp: i2_def)
    have u: "ts \<noteq> [] \<Longrightarrow> rd n j = Some (ts ! j)" using Cons.prems(3) mem2 by blast
    let ?loop = "\<lambda>k l. findUntil_loop io timeout m (length xs) n (length ts) k l s1"
    have loop: "findUntil_loop io timeout m (length xs) n (length ts) i j s =
        (if ts \<noteq> [] then if c = ts ! j then if j + 1 \<ge> length ts then Some (False, s1) else ?loop i2 (j + 1) else ?loop i2 0
         else ?loop i2 0)"
      using False s1(1) u mem [OF Cons.prems(2)] mem [OF i']
      by (subst findUntil_loop.simps, cases "c = xs ! i"; cases "c = xs ! 0") (simp_all add: i'_def i2_def)
    have scan: "scan xs ts i j (content s) =
        (if ts \<noteq> [] then if c = ts ! j then if j + 1 \<ge> length ts then (False, cs) else scan xs ts i2 (j + 1) cs else scan xs ts i2 0 cs
         else scan xs ts i2 0 cs)"
      using False by (cases "c = xs ! i"; cases "c = xs ! 0") (simp_all add: Cons.hyps(2) [symmetric] i'_def i2_def)
    consider "ts \<noteq> []" "c = ts ! j" "j + 1 \<ge> length ts" | "ts \<noteq> []" "c = ts ! j" "j + 1 < length ts" | "ts = [] \<or> c \<noteq> ts ! j"
      by linarith
    then show ?thesis
    proof cases
      case 1
      then show ?thesis using s1 by (simp add: loop scan)
    next
      case 2
      then show ?thesis using IH [OF i2, of "j + 1"] by (simp add: loop scan)
    next
      case 3
      then show ?thesis using IH [OF i2, of 0] by (auto simp: loop scan)
    qed
  qed
qed

text \<open>A state in which a byte has just been peeked.\<close>

lemma after_peek:
  assumes "ok s" "content s = c # cs"
  obtains s1 s2 where "timedPeek io timeout s = Some (code c, s1)" "ok s1" "content s1 = c # cs"
    "src_read io s1 = Some (code c, s2)" "ok s2" "content s2 = cs"
proof -
  obtain s1 where s1: "timedPeek io timeout s = Some (code c, s1)" "ok s1" "content s1 = c # cs"
    using timed_peek [OF assms(1)] assms(2) by auto
  then show thesis using read_peeked [OF assms(1) s1(1)] that by auto
qed

lemma peekNextDigit_skips:
  "ok s \<Longrightarrow> \<exists>s'. peekNextDigit io timeout s = Some (next_code (skip_to_number (content s)), s') \<and> ok s' \<and>
     content s' = skip_to_number (content s) \<and>
     (skip_to_number (content s) \<noteq> [] \<longrightarrow> (\<exists>s0. ok s0 \<and> timedPeek io timeout s0 = Some (next_code (skip_to_number (content s)), s')))"
proof (induction "content s" arbitrary: s)
  case Nil
  then show ?case using timed_peek [of s] by (subst peekNextDigit.simps) (auto simp: skip_to_number_def)
next
  case (Cons c cs)
  obtain s1 s2 where s1: "timedPeek io timeout s = Some (code c, s1)" "ok s1" "content s1 = c # cs"
    and s2: "src_read io s1 = Some (code c, s2)" "ok s2" "content s2 = cs"
    using after_peek [OF Cons.prems] Cons.hyps(2) by metis
  show ?case
  proof (cases "is_digit c \<or> c = CHR ''-''")
    case True
    then have "skip_to_number (content s) = c # cs" by (auto simp: skip_to_number_def Cons.hyps(2) [symmetric])
    then show ?thesis using True s1 Cons.prems by (subst peekNextDigit.simps) (auto simp: code_digit)
  next
    case False
    then have "skip_to_number (content s) = skip_to_number cs" by (auto simp: skip_to_number_def Cons.hyps(2) [symmetric])
    moreover have "peekNextDigit io timeout s = peekNextDigit io timeout s2"
      using False s1(1) s2(1) by (subst peekNextDigit.simps) (auto simp: code_digit)
    ultimately show ?thesis using Cons.hyps(1) [of s2] s2 by simp
  qed
qed

text \<open>The loop over the digits that follow the first character.\<close>

lemma parseInt_loop_digits:
  "\<lbrakk>ok s0; timedPeek io timeout s0 = Some (code c, s); ok s; content s = c # cs; NO_SKIP_CHAR \<notin> set (c # cs);
     is_digit c \<or> c = CHR ''-''\<rbrakk> \<Longrightarrow>
    (case Option.bind (if c = CHR ''-'' then Some num else digit_step num (code c))
        (foldM (\<lambda>c v. digit_step v (code c)) (takeWhile is_digit cs)) of
      None \<Rightarrow> parseInt_loop io timeout NO_SKIP_CHAR neg num (code c) s = None
    | Some v \<Rightarrow> \<exists>s'. parseInt_loop io timeout NO_SKIP_CHAR neg num (code c) s = Some (if neg \<or> c = CHR ''-'' then - v else v, s') \<and>
        ok s' \<and> content s' = dropWhile is_digit cs)"
proof (induction cs arbitrary: s0 s c neg num)
  case (Cons d cs)
  obtain s1 where s1: "src_read io s = Some (code c, s1)" "ok s1" "content s1 = d # cs"
    using read_peeked [OF Cons.prems(1,2)] Cons.prems(4) by auto
  obtain s2 where s2: "timedPeek io timeout s1 = Some (code d, s2)" "ok s2" "content s2 = d # cs"
    using timed_peek [OF s1(2)] s1(3) by auto
  define neg' where "neg' = (neg \<or> c = CHR ''-'')"
  have skip: "c \<noteq> NO_SKIP_CHAR" "d \<noteq> NO_SKIP_CHAR" "NO_SKIP_CHAR \<notin> set (d # cs)" using Cons.prems(5) by auto
  have nd: "\<not> is_digit CHR ''-''" by (simp add: is_digit_def)
  have step: "parseInt_loop io timeout NO_SKIP_CHAR neg num (code c) s =
    Option.bind (if c = CHR ''-'' then Some num else digit_step num (code c)) (\<lambda>v.
      if is_digit d then parseInt_loop io timeout NO_SKIP_CHAR neg' v (code d) s2 else Some (if neg' then - v else v, s2))"
    using Cons.prems(6) skip nd s1(1) s2(1)
    by (subst parseInt_loop.simps) (auto simp: code_digit neg'_def split: Option.bind_split)
  show ?case
  proof (cases "if c = CHR ''-'' then Some num else digit_step num (code c)")
    case None
    then show ?thesis by (simp add: step)
  next
    case (Some v)
    show ?thesis
    proof (cases "is_digit d")
      case True
      then have d: "d \<noteq> CHR ''-''" using nd by auto
      have "parseInt_loop io timeout NO_SKIP_CHAR neg num (code c) s = parseInt_loop io timeout NO_SKIP_CHAR neg' v (code d) s2"
        using True by (simp add: step Some)
      then show ?thesis
        using Cons.IH [OF s1(2) s2(1) s2(2) s2(3) skip(3), where neg = neg' and num = v] True d
        unfolding Some neg'_def [symmetric] by (cases neg') (simp_all split: option.splits)
    next
      case False
      then show ?thesis using s2 Some by (simp add: step neg'_def)
    qed
  qed
next
  case Nil
  obtain s1 where s1: "src_read io s = Some (code c, s1)" "ok s1" "content s1 = []"
    using read_peeked [OF Nil.prems(1,2)] Nil.prems(4) by auto
  obtain s2 where s2: "timedPeek io timeout s1 = Some (- 1, s2)" "ok s2" "content s2 = []"
    using timed_peek [OF s1(2)] s1(3) by auto
  have nd: "\<not> is_digit CHR ''-''" by (simp add: is_digit_def)
  have "parseInt_loop io timeout NO_SKIP_CHAR neg num (code c) s =
    Option.bind (if c = CHR ''-'' then Some num else digit_step num (code c)) (\<lambda>v.
      Some (if neg \<or> c = CHR ''-'' then - v else v, s2))"
    using Nil.prems(5,6) nd s1(1) s2(1) code_nonneg(3)
    by (subst parseInt_loop.simps) (auto simp: code_digit eq_commute [of "- 1"] split: Option.bind_split)
  then show ?case using s2 by (auto split: option.split)
qed

lemma parseInt_reads:
  assumes s: "ok s" "NO_SKIP_CHAR \<notin> set (content s)"
  shows "(case number_at (content s) of (v, rest) \<Rightarrow>
    if \<bar>v\<bar> + 48 < 2 ^ 31 then \<exists>s'. parseInt io timeout s = Some (v, s') \<and> ok s' \<and> content s' = rest
    else parseInt io timeout s = None)"
proof -
  obtain s1 where p: "peekNextDigit io timeout s = Some (next_code (skip_to_number (content s)), s1)" "ok s1"
    "content s1 = skip_to_number (content s)"
    and p0: "skip_to_number (content s) \<noteq> [] \<Longrightarrow> \<exists>s0. ok s0 \<and> timedPeek io timeout s0 = Some (next_code (skip_to_number (content s)), s1)"
    using peekNextDigit_skips [OF s(1)] by blast
  show ?thesis
  proof (cases "skip_to_number (content s)")
    case Nil
    then show ?thesis using p by (simp add: number_at_def parseInt_def parseInt_skip_def)
  next
    case (Cons c cs)
    obtain s0 where s0: "ok s0" "timedPeek io timeout s0 = Some (code c, s1)" using p0 Cons by auto
    have c: "is_digit c \<or> c = CHR ''-''"
      using Cons hd_dropWhile [of "\<lambda>c. \<not> is_digit c \<and> c \<noteq> CHR ''-''" "content s"] by (auto simp: skip_to_number_def)
    have skip: "NO_SKIP_CHAR \<notin> set (c # cs)"
      using s(2) Cons set_dropWhileD [of _ "\<lambda>c. \<not> is_digit c \<and> c \<noteq> CHR ''-''" "content s"]
      by (auto simp: skip_to_number_def)
    have eq: "parseInt io timeout s = parseInt_loop io timeout NO_SKIP_CHAR False 0 (code c) s1"
      using p(1) Cons by (simp add: parseInt_def parseInt_skip_def)
    note loop = parseInt_loop_digits [OF s0 p(2) p(3) [unfolded Cons] skip c, where neg = False and num = 0]
    have nd: "\<not> is_digit CHR ''-''" by (simp add: is_digit_def)
    have ds: "\<forall>c\<in>set (takeWhile is_digit cs). is_digit c" by (auto dest: set_takeWhileD)
    show ?thesis
    proof (cases "c = CHR ''-''")
      case True
      have "foldM (\<lambda>c v. digit_step v (code c)) (takeWhile is_digit cs) 0 =
          (if digits_value (takeWhile is_digit cs) + 48 < 2 ^ 31 then Some (int (digits_value (takeWhile is_digit cs))) else None)"
        using digits_run [OF ds, of 0]
        by (cases "takeWhile is_digit cs = []") (simp_all add: value_from_0, simp add: digits_value_def)
      then show ?thesis using loop True Cons by (auto simp: eq number_at_def split: if_splits)
    next
      case False
      then have d: "is_digit c" using c by blast
      have "Option.bind (digit_step 0 (code c)) (foldM (\<lambda>c v. digit_step v (code c)) (takeWhile is_digit cs)) =
          (if digits_value (c # takeWhile is_digit cs) + 48 < 2 ^ 31 then Some (int (digits_value (c # takeWhile is_digit cs))) else None)"
        using digits_run [of "c # takeWhile is_digit cs" 0] d ds
        by (simp add: value_from_0 del: value_from_simps)
      then show ?thesis using loop False d Cons by (auto simp: eq number_at_def split: if_splits)
    qed
  qed
qed

lemma readBytes_takes:
  "ok s \<Longrightarrow> k + n \<le> length buffer \<Longrightarrow> \<exists>s'. readBytes_loop io timeout n buffer k s =
     Some (k + length (take n (content s)), take k buffer @ take n (content s) @ drop (k + length (take n (content s))) buffer, s') \<and>
     ok s' \<and> content s' = drop n (content s)"
proof (induction n arbitrary: s k buffer)
  case (Suc n)
  obtain s1 where s1: "timedRead io timeout s = Some (next_code (content s), s1)" "ok s1" "content s1 = tl (content s)"
    using timed_read [OF Suc.prems(1)] by blast
  show ?case
  proof (cases "content s")
    case Nil
    then show ?thesis using s1 by simp
  next
    case (Cons c cs)
    have k: "k < length buffer" "k + 1 + n \<le> length (buffer[k := c])" using Suc.prems(2) by simp_all
    obtain s' where "readBytes_loop io timeout n (buffer[k := c]) (k + 1) s1 =
        Some (k + 1 + length (take n cs), take (k + 1) (buffer[k := c]) @ take n cs @ drop (k + 1 + length (take n cs)) (buffer[k := c]), s')"
      "ok s'" "content s' = drop n cs"
      using Suc.IH [OF s1(2) k(2)] s1(3) Cons by auto
    moreover have "take (k + 1) (buffer[k := c]) = take k buffer @ [c]" using k(1) by (simp add: take_Suc_conv_app_nth)
    ultimately show ?thesis using s1(1) Cons k(1) by (simp add: wr_in)
  qed
qed simp

lemma readBytesUntil_takes:
  "ok s \<Longrightarrow> k + n \<le> length buffer \<Longrightarrow> xs = take n (takeWhile (\<lambda>c. c \<noteq> t) (content s)) \<Longrightarrow>
     \<exists>s'. readBytesUntil_loop io timeout t n buffer k s = Some (k + length xs, take k buffer @ xs @ drop (k + length xs) buffer, s') \<and>
       ok s' \<and> content s' = drop (length xs + (if length xs < n then 1 else 0)) (content s)"
proof (induction n arbitrary: s k buffer xs)
  case (Suc n)
  obtain s1 where s1: "timedRead io timeout s = Some (next_code (content s), s1)" "ok s1" "content s1 = tl (content s)"
    using timed_read [OF Suc.prems(1)] by blast
  show ?case
  proof (cases "content s")
    case Nil
    then show ?thesis using s1 Suc.prems(3) by simp
  next
    case (Cons c cs)
    show ?thesis
    proof (cases "c = t")
      case True
      then show ?thesis using s1 Cons Suc.prems(3) by simp
    next
      case False
      define ys where "ys = take n (takeWhile (\<lambda>c. c \<noteq> t) cs)"
      have xs: "xs = c # ys" using False Cons Suc.prems(3) by (simp add: ys_def)
      have k: "k < length buffer" "k + 1 + n \<le> length (buffer[k := c])" using Suc.prems(2) by simp_all
      obtain s' where "readBytesUntil_loop io timeout t n (buffer[k := c]) (k + 1) s1 =
          Some (k + 1 + length ys, take (k + 1) (buffer[k := c]) @ ys @ drop (k + 1 + length ys) (buffer[k := c]), s')"
        "ok s'" "content s' = drop (length ys + (if length ys < n then 1 else 0)) cs"
        using Suc.IH [OF s1(2) k(2), of ys] s1(3) Cons ys_def by auto
      moreover have "take (k + 1) (buffer[k := c]) = take k buffer @ [c]" using k(1) by (simp add: take_Suc_conv_app_nth)
      ultimately show ?thesis using s1(1) Cons k(1) False by (simp add: wr_in xs)
    qed
  qed
qed simp

text \<open>With enough memory the text up to the terminator is returned and the terminator is taken from the source.\<close>

lemma readString_loop_takes:
  assumes heap: "\<And>n. heap n"
  shows "ok s0 \<Longrightarrow> timedRead io timeout s0 = Some (next_code xs, s) \<Longrightarrow> ok s \<Longrightarrow> content s = tl xs \<Longrightarrow> is_cstr xs \<Longrightarrow> represents ret x \<Longrightarrow>
    \<exists>ret' s'. readString_loop io timeout heap junk terminator ret (next_code xs) s = Some (ret', s') \<and>
      represents ret' (x @ takeWhile (\<lambda>c. terminator \<noteq> Some c) xs) \<and> ok s' \<and> content s' = tl (dropWhile (\<lambda>c. terminator \<noteq> Some c) xs)"
proof (induction xs arbitrary: s0 s ret x)
  case Nil
  then show ?case by (subst readString_loop.simps) simp
next
  case (Cons c xs)
  show ?case
  proof (cases "terminator = Some c")
    case True
    then show ?thesis using Cons.prems by (subst readString_loop.simps) simp
  next
    case False
    have c: "c \<noteq> NUL" "is_cstr xs" using Cons.prems(5) by simp_all
    then have "cstr [c, NUL] = [c]" by (simp add: cstr_def)
    then obtain ret1 where ret1: "concat_char heap junk c ret = Some (True, ret1)" "represents ret1 (x @ [c])"
      using concat_adds [OF Cons.prems(6), of "[c]" heap junk] c heap by (auto simp: concat_char_def split: if_splits)
    obtain s1 where s1: "timedRead io timeout s = Some (next_code xs, s1)" "ok s1" "content s1 = tl xs"
      using timed_read [OF Cons.prems(3)] Cons.prems(4) by auto
    have "readString_loop io timeout heap junk terminator ret (next_code (c # xs)) s =
        readString_loop io timeout heap junk terminator ret1 (next_code xs) s1"
      using False ret1(1) s1(1) by (subst readString_loop.simps) (auto split: option.split)
    then show ?thesis using Cons.IH [OF Cons.prems(3) s1 c(2) ret1(2)] False by simp
  qed
qed

lemma readStringUntil_takes:
  assumes "ok s" "is_cstr (content s)" "\<And>n. heap n"
  shows "\<exists>ret s'. readStringUntil io timeout heap junk t s = Some (ret, s') \<and>
    represents ret (takeWhile (\<lambda>c. c \<noteq> t) (content s)) \<and> ok s' \<and> content s' = tl (dropWhile (\<lambda>c. c \<noteq> t) (content s))"
proof -
  obtain s1 where s1: "timedRead io timeout s = Some (next_code (content s), s1)" "ok s1" "content s1 = tl (content s)"
    using timed_read [OF assms(1)] by blast
  show ?thesis
    using readString_loop_takes [where heap = heap and junk = junk and terminator = "Some t" and ret = init and x = "[]", OF assms(3,1) s1 assms(2)] s1(1)
    by (simp add: readStringUntil_def eq_commute [of t])
qed

lemma readString_takes:
  assumes "ok s" "is_cstr (content s)" "\<And>n. heap n"
  shows "\<exists>ret s'. readString io timeout heap junk s = Some (ret, s') \<and> represents ret (content s) \<and> ok s' \<and> content s' = []"
proof -
  obtain s1 where s1: "timedRead io timeout s = Some (next_code (content s), s1)" "ok s1" "content s1 = tl (content s)"
    using timed_read [OF assms(1)] by blast
  have all: "dropWhile (\<lambda>c. True) xs = []" "takeWhile (\<lambda>c. True) xs = xs" for xs :: string
    by (induction xs) simp_all
  show ?thesis
    using readString_loop_takes [where heap = heap and junk = junk and terminator = None and ret = init and x = "[]", OF assms(3,1) s1 assms(2)] s1(1)
    by (simp add: readString_def all)
qed

end

section \<open>What the search finds\<close>

text \<open>The step of the index: what is matched stays a suffix of what has been read.\<close>

lemma scan_index:
  assumes "i < length xs" "i' = (if c \<noteq> xs ! i then 0 else i)" "i2 = (if c = xs ! i' then i' + 1 else i')"
  shows "\<exists>zs. take i xs @ [c] = zs @ take i2 xs" "i2 \<le> length xs"
proof -
  have t: "take (Suc k) xs = take k xs @ [xs ! k]" if "k < length xs" for k
    using that by (rule take_Suc_conv_app_nth)
  have z: "0 < length xs" using assms(1) by linarith
  consider "i2 = 0" | "i2 = 1" "c = xs ! 0" | "i2 = Suc i" "c = xs ! i" using assms(2,3) by (auto split: if_splits)
  then show "\<exists>zs. take i xs @ [c] = zs @ take i2 xs"
    using t [OF z] t [OF assms(1)] by cases auto
  show "i2 \<le> length xs" using assms z by (auto split: if_splits)
qed

lemma scan_sound:
  "xs \<noteq> [] \<Longrightarrow> i < length xs \<Longrightarrow> scan xs ts i j cs = (True, rest) \<Longrightarrow> \<exists>ys. take i xs @ cs = ys @ xs @ rest"
proof (induction cs arbitrary: i j)
  case (Cons c cs)
  define i' where "i' = (if c \<noteq> xs ! i then 0 else i)"
  define i2 where "i2 = (if c = xs ! i' then i' + 1 else i')"
  obtain zs where zs: "take i xs @ [c] = zs @ take i2 xs" and le: "i2 \<le> length xs"
    using scan_index [OF Cons.prems(2) i'_def i2_def] by blast
  have zs: "take i xs @ c # cs = zs @ take i2 xs @ cs" using zs by (metis append.assoc append_Cons append_Nil)
  have i': "i' < length xs" using Cons.prems(1,2) by (simp add: i'_def)
  show ?case
  proof (cases "c = xs ! i' \<and> i' + 1 \<ge> length xs")
    case True
    then have "cs = rest" using Cons.prems(3) by (cases "c = xs ! i") (auto simp: i'_def split: if_splits)
    moreover have "i2 = length xs" using True i' by (simp add: i2_def)
    ultimately have "cs = rest" "i2 = length xs" by simp_all
    then show ?thesis using zs by auto
  next
    case False
    then have i2: "i2 < length xs" using i' by (auto simp: i2_def)
    obtain l where "scan xs ts i2 l cs = (True, rest)"
      using Cons.prems(3) False unfolding i2_def i'_def by (simp add: Let_def split: if_splits)
    then obtain ys where "take i2 xs @ cs = ys @ xs @ rest" using Cons.IH [OF Cons.prems(1) i2] by blast
    then show ?thesis using zs by (metis append.assoc)
  qed
qed simp

definition first_match :: "string \<Rightarrow> string \<Rightarrow> bool \<times> string" where
  "first_match xs zs = (case strstr zs xs of None \<Rightarrow> (False, []) | Some k \<Rightarrow> (True, drop (k + length xs) zs))"

lemma first_match_shift:
  assumes "\<And>j. j < k \<Longrightarrow> \<not> occurs_at xs zs j" "k \<le> length zs"
  shows "first_match xs zs = first_match xs (drop k zs)"
proof (cases "strstr (drop k zs) xs")
  case None
  have "\<not> occurs_at xs zs j" for j
  proof (cases "j < k")
    case False
    then show ?thesis using None occurs_at_drop [OF assms(2), of xs "j - k"] by (simp add: strstr_None)
  qed (rule assms(1))
  then have "strstr zs xs = None" by (simp add: strstr_None)
  then show ?thesis using None by (simp add: first_match_def)
next
  case (Some j)
  then have "occurs_at xs zs (k + j)" "\<And>l. l < j \<Longrightarrow> \<not> occurs_at xs zs (k + l)"
    by (auto simp: strstr_Some occurs_at_drop [OF assms(2)])
  moreover have "\<not> occurs_at xs zs l" if "l < k + j" for l
  proof (cases "l < k")
    case False
    then show ?thesis using calculation(2) [of "l - k"] that by auto
  qed (rule assms(1))
  ultimately have "strstr zs xs = Some (k + j)" by (simp add: strstr_Some)
  then show ?thesis using Some by (simp add: first_match_def add.commute add.left_commute)
qed

lemma occurs_at_nth: "occurs_at xs zs j \<Longrightarrow> k < length xs \<Longrightarrow> zs ! (j + k) = xs ! k"
proof -
  assume o: "occurs_at xs zs j" and k: "k < length xs"
  then obtain r where "drop j zs = xs @ r" by (auto simp: occurs_at_def prefix_def)
  then have "drop j zs ! k = xs ! k" using k by (simp add: nth_append)
  then show ?thesis using o by (simp add: occurs_at_def)
qed

lemma scan_first:
  assumes xs: "xs \<noteq> []" "hd xs \<notin> set (tl xs)"
  shows "is_cstr cs \<Longrightarrow> i < length xs \<Longrightarrow> scan xs [] i 0 cs = first_match xs (take i xs @ cs)"
proof (induction cs arbitrary: i)
  case Nil
  have "\<not> occurs_at xs (take i xs) j" for j
    using Nil.prems(2) prefix_length_le [of xs "drop j (take i xs)"] by (auto simp: occurs_at_def)
  then have "strstr (take i xs) xs = None" by (simp add: strstr_None)
  then show ?case by (simp add: first_match_def)
next
  case (Cons c cs)
  have z: "0 < length xs" and h: "xs ! 0 = hd xs" using xs(1) by (simp_all add: hd_conv_nth)
  have fresh: "xs ! j \<noteq> xs ! 0" if "0 < j" "j < length xs" for j
    using that xs unfolding h by (metis in_set_conv_nth length_tl less_diff_conv nth_tl Suc_pred' Suc_eq_plus1 add.commute)
  have t: "take (Suc i) xs = take i xs @ [xs ! i]" using Cons.prems(2) by (rule take_Suc_conv_app_nth)
  have c: "c \<noteq> NUL" "is_cstr cs" using Cons.prems(1) by simp_all
  let ?zs = "take i xs @ c # cs"
  have at: "?zs ! j = (if j < i then xs ! j else if j = i then c else cs ! (j - i - 1))" for j
    using Cons.prems(2) by (auto simp: nth_append nth_Cons')
  show ?case
  proof (cases "c = xs ! i")
    case True
    show ?thesis
    proof (cases "i + 1 = length xs")
      case last: True
      then have zs: "?zs = xs @ cs" using t True by simp
      have "strstr ?zs xs = Some 0" unfolding zs by (simp add: strstr_Some occurs_at_def)
      moreover have "length xs - i = Suc 0" using last by simp
      ultimately show ?thesis using True last c Cons.prems(2) by (simp add: first_match_def)
    next
      case False
      then show ?thesis using Cons.IH [OF c(2), of "i + 1"] True c t Cons.prems(2) by simp
    qed
  next
    case False
    have skip: "\<not> occurs_at xs ?zs j" if "j < i" for j
    proof
      assume o: "occurs_at xs ?zs j"
      show False
      proof (cases "j = 0")
        case True
        then show False using occurs_at_nth [OF o, of i] Cons.prems(2) at [of i] \<open>c \<noteq> xs ! i\<close> by simp
      next
        case False
        then show False using occurs_at_nth [OF o, of 0] z at [of j] that fresh [of j] Cons.prems(2) by simp
      qed
    qed
    have skip': "first_match xs ?zs = first_match xs (c # cs)"
      using first_match_shift [of i xs ?zs] skip Cons.prems(2) by simp
    show ?thesis
    proof (cases "c = xs ! 0")
      case True
      then have "i \<noteq> 0" using False by metis
      then have "i \<noteq> 0" "1 < length xs" using Cons.prems(2) by linarith+
      moreover have "take (Suc 0) xs = [xs ! 0]" using take_Suc_conv_app_nth [of 0 xs] z by simp
      ultimately show ?thesis using Cons.IH [OF c(2), of 1] True False c skip' by simp
    next
      case other: False
      have "\<not> occurs_at xs (c # cs) 0"
      proof
        assume "occurs_at xs (c # cs) 0"
        then show False using other xs(1) h by (cases xs) (auto simp: occurs_at_def)
      qed
      then have "first_match xs (c # cs) = first_match xs cs"
        using first_match_shift [of 1 xs "c # cs"] by simp
      then show ?thesis using Cons.IH [OF c(2), of 0] False other c z skip' by simp
    qed
  qed
qed

end
