(* ===== verification/PrintText.thy ===== *)
theory PrintText
  imports StreamParse
begin

text \<open>
  The class \<open>Print\<close> of \<open>components/arduino/cores/esp32/Print.cpp\<close>: texts and numbers to a sink that derived classes
  provide, and the sink and source \<open>StreamString\<close> of \<open>StreamString.cpp\<close>, a string that is written at its end and
  read from its front.  A virtual \<open>write\<close> is a field of a record; it returns how many bytes were taken.
  Floating-point numbers, \<open>printf\<close> and the formatting of times (calls to the C library) are left out.
\<close>

section \<open>Sinks\<close>

record 's sink =
  snk_write :: "char \<Rightarrow> 's \<Rightarrow> (nat \<times> 's) option"
  snk_write_buf :: "string \<Rightarrow> 's \<Rightarrow> (nat \<times> 's) option"

text \<open>The default of the second function in terms of the first.\<close>

fun write_each :: "(char \<Rightarrow> 's \<Rightarrow> (nat \<times> 's) option) \<Rightarrow> string \<Rightarrow> 's \<Rightarrow> (nat \<times> 's) option" where
  "write_each put [] s = Some (0, s)"
| "write_each put (c # cs) s = do { (n, s) \<leftarrow> put c s; (k, s) \<leftarrow> write_each put cs s; Some (n + k, s) }"

section \<open>Numbers\<close>

text \<open>The digits are written from the end of a buffer of 33 bytes to its front; \<open>str\<close> is the place of the last one.\<close>

function number_loop :: "char list \<Rightarrow> nat \<Rightarrow> nat \<Rightarrow> nat \<Rightarrow> (char list \<times> nat) option" where
  "number_loop blk str n base =
     (if base < 2 then None
      else
        let m = n; n = n div base; c = m - base * n
        in if str = 0 then None
           else do {
             blk \<leftarrow> wr blk (str - 1) (if c < 10 then char_of (c + 48) else char_of (c + 65 - 10));
             if n \<noteq> 0 then number_loop blk (str - 1) n base else Some (blk, str - 1)
           })"
  by pat_completeness auto
termination by (relation "measure (\<lambda>(blk, str, n, base). n)") (auto intro!: div_less_dividend gr0I)

declare number_loop.simps [simp del]

definition printNumber :: "'s sink \<Rightarrow> (nat \<Rightarrow> char) \<Rightarrow> u32 \<Rightarrow> u8 \<Rightarrow> 's \<Rightarrow> (nat \<times> 's) option" where
  "printNumber snk junk n base s =
     do {
       blk \<leftarrow> wr (map junk [0..<33]) 32 NUL;
       let base = (if base < 2 then 10 else base);
       (blk, str) \<leftarrow> number_loop blk 32 (unat n) (unat base);
       text \<leftarrow> c_string blk str;
       snk_write_buf snk text s
     }"

text \<open>The overloads for \<open>long\<close> and \<open>unsigned long\<close>; the others convert to one of them.\<close>

definition print_long :: "'s sink \<Rightarrow> (nat \<Rightarrow> char) \<Rightarrow> int \<Rightarrow> int \<Rightarrow> 's \<Rightarrow> (nat \<times> 's) option" where
  "print_long snk junk n base s =
     (if base = 0 then snk_write snk (to_char n) s
      else if base = 10 then
        if n < 0 then
          do {
            (t, s) \<leftarrow> snk_write snk CHR ''-'' s;
            n \<leftarrow> s32 (- n);
            (k, s) \<leftarrow> printNumber snk junk (word_of_int n) 10 s;
            Some (k + t, s)
          }
        else printNumber snk junk (word_of_int n) 10 s
      else printNumber snk junk (word_of_int n) (word_of_int base) s)"

definition print_ulong :: "'s sink \<Rightarrow> (nat \<Rightarrow> char) \<Rightarrow> u32 \<Rightarrow> int \<Rightarrow> 's \<Rightarrow> (nat \<times> 's) option" where
  "print_ulong snk junk n base s =
     (if base = 0 then snk_write snk (to_char (uint n)) s else printNumber snk junk n (word_of_int base) s)"

definition print_uchar :: "'s sink \<Rightarrow> (nat \<Rightarrow> char) \<Rightarrow> u8 \<Rightarrow> int \<Rightarrow> 's \<Rightarrow> (nat \<times> 's) option" where
  "print_uchar snk junk b base s = print_ulong snk junk (ucast b) base s"

definition print_int :: "'s sink \<Rightarrow> (nat \<Rightarrow> char) \<Rightarrow> int \<Rightarrow> int \<Rightarrow> 's \<Rightarrow> (nat \<times> 's) option" where
  "print_int snk junk n base s = print_long snk junk n base s"

definition print_uint :: "'s sink \<Rightarrow> (nat \<Rightarrow> char) \<Rightarrow> u32 \<Rightarrow> int \<Rightarrow> 's \<Rightarrow> (nat \<times> 's) option" where
  "print_uint snk junk n base s = print_ulong snk junk n base s"

section \<open>Texts and lines\<close>

definition print_char :: "'s sink \<Rightarrow> char \<Rightarrow> 's \<Rightarrow> (nat \<times> 's) option" where
  "print_char snk c s = snk_write snk c s"

text \<open>\<open>write(str)\<close> for a C string, or nothing for a null pointer.\<close>

definition print_cstr :: "'s sink \<Rightarrow> string option \<Rightarrow> 's \<Rightarrow> (nat \<times> 's) option" where
  "print_cstr snk cp s = (case cp of None \<Rightarrow> Some (0, s) | Some cs \<Rightarrow> snk_write_buf snk cs s)"

definition println :: "'s sink \<Rightarrow> 's \<Rightarrow> (nat \<times> 's) option" where
  "println snk s = print_cstr snk (Some [char_of (13 :: nat), char_of (10 :: nat)]) s"

definition then_line :: "'s sink \<Rightarrow> ('s \<Rightarrow> (nat \<times> 's) option) \<Rightarrow> 's \<Rightarrow> (nat \<times> 's) option" where
  "then_line snk pr s = do { (n, s) \<leftarrow> pr s; (k, s) \<leftarrow> println snk s; Some (n + k, s) }"

definition println_cstr :: "'s sink \<Rightarrow> string option \<Rightarrow> 's \<Rightarrow> (nat \<times> 's) option" where
  "println_cstr snk cp s = then_line snk (print_cstr snk cp) s"

definition println_char :: "'s sink \<Rightarrow> char \<Rightarrow> 's \<Rightarrow> (nat \<times> 's) option" where
  "println_char snk c s = then_line snk (print_char snk c) s"

definition println_uchar :: "'s sink \<Rightarrow> (nat \<Rightarrow> char) \<Rightarrow> u8 \<Rightarrow> int \<Rightarrow> 's \<Rightarrow> (nat \<times> 's) option" where
  "println_uchar snk junk b base s = then_line snk (print_uchar snk junk b base) s"

definition println_int :: "'s sink \<Rightarrow> (nat \<Rightarrow> char) \<Rightarrow> int \<Rightarrow> int \<Rightarrow> 's \<Rightarrow> (nat \<times> 's) option" where
  "println_int snk junk n base s = then_line snk (print_int snk junk n base) s"

definition println_uint :: "'s sink \<Rightarrow> (nat \<Rightarrow> char) \<Rightarrow> u32 \<Rightarrow> int \<Rightarrow> 's \<Rightarrow> (nat \<times> 's) option" where
  "println_uint snk junk n base s = then_line snk (print_uint snk junk n base) s"

definition println_long :: "'s sink \<Rightarrow> (nat \<Rightarrow> char) \<Rightarrow> int \<Rightarrow> int \<Rightarrow> 's \<Rightarrow> (nat \<times> 's) option" where
  "println_long snk junk n base s = then_line snk (print_long snk junk n base) s"

definition println_ulong :: "'s sink \<Rightarrow> (nat \<Rightarrow> char) \<Rightarrow> u32 \<Rightarrow> int \<Rightarrow> 's \<Rightarrow> (nat \<times> 's) option" where
  "println_ulong snk junk n base s = then_line snk (print_ulong snk junk n base) s"

section \<open>Strings as streams\<close>

definition ss_write_buf :: "(nat \<Rightarrow> bool) \<Rightarrow> (nat \<Rightarrow> char) \<Rightarrow> string \<Rightarrow> String \<Rightarrow> (nat \<times> String) option" where
  "ss_write_buf heap junk data s =
     (if length data \<noteq> 0 then
        do {
          (ok, s) \<leftarrow> reserve heap junk (len s + length data + 1) s;
          if ok then
            do {
              m \<leftarrow> buf s;
              m \<leftarrow> mem_write m (len s) data;
              m \<leftarrow> wr m (len s + length data) NUL;
              Some (length data, s\<lparr>len := len s + length data, buf := Some m\<rparr>)
            }
          else Some (0, s)
        }
      else Some (0, s))"

definition ss_write :: "(nat \<Rightarrow> bool) \<Rightarrow> (nat \<Rightarrow> char) \<Rightarrow> char \<Rightarrow> String \<Rightarrow> (nat \<times> String) option" where
  "ss_write heap junk c s = do { (ok, s) \<leftarrow> concat_char heap junk c s; Some (if ok then 1 else 0, s) }"

definition ss_available :: "String \<Rightarrow> nat" where
  "ss_available s = len s"

definition ss_read :: "String \<Rightarrow> (int \<times> String) option" where
  "ss_read s =
     (if len s \<noteq> 0 then do { c \<leftarrow> charAt s 0; s \<leftarrow> remove 0 1 s; Some (code c, s) } else Some (- 1, s))"

definition ss_peek :: "String \<Rightarrow> int option" where
  "ss_peek s = (if len s \<noteq> 0 then do { c \<leftarrow> charAt s 0; Some (code c) } else Some (- 1))"

definition ss_sink :: "(nat \<Rightarrow> bool) \<Rightarrow> (nat \<Rightarrow> char) \<Rightarrow> String sink" where
  "ss_sink heap junk = \<lparr>snk_write = ss_write heap junk, snk_write_buf = ss_write_buf heap junk\<rparr>"

section \<open>What is written\<close>

text \<open>The digits of a number in a base, and that the buffer has room for them in every base.\<close>

fun digits_in :: "nat \<Rightarrow> nat \<Rightarrow> string" where
  "digits_in b n =
     (let d = (if n mod b < 10 then char_of (n mod b + 48) else char_of (n mod b + 55))
      in if b < 2 \<or> n < b then [d] else digits_in b (n div b) @ [d])"

declare digits_in.simps [simp del]

lemma digits_in_length: "2 \<le> b \<Longrightarrow> n < 2 ^ k \<Longrightarrow> 0 < k \<Longrightarrow> length (digits_in b n) \<le> k"
proof (induction b n arbitrary: k rule: digits_in.induct)
  case (1 b n)
  show ?case
  proof (cases "n < b")
    case True
    then show ?thesis using "1.prems" by (subst digits_in.simps) (simp add: Let_def)
  next
    case False
    have "k \<noteq> 1"
    proof
      assume "k = 1"
      then show False using False "1.prems" by simp
    qed
    then obtain l where l: "k = Suc l" "0 < l" using "1.prems"(3) by (cases k) auto
    have "n div b \<le> n div 2" using "1.prems"(1) by (rule div_le_mono2 [rotated]) simp
    also have "\<dots> < 2 ^ l" using "1.prems"(2) l by (simp add: div_less_iff_less_mult)
    finally have "length (digits_in b (n div b)) \<le> l" using "1.IH" [OF refl] "1.prems"(1) False l(2) by simp
    then show ?thesis using False "1.prems"(1) l(1) by (subst digits_in.simps) (simp add: Let_def)
  qed
qed

lemma digits_in_dec: "digits_in 10 n = dec n"
proof (induction n rule: dec.induct)
  case (1 n)
  then show ?case by (subst digits_in.simps, subst dec.simps) (auto simp: digit_char_def add.commute)
qed

lemma number_loop_digits:
  "2 \<le> b \<Longrightarrow> length (digits_in b n) \<le> length xs \<Longrightarrow>
     number_loop (xs @ ys) (length xs) n b =
       Some (take (length xs - length (digits_in b n)) xs @ digits_in b n @ ys, length xs - length (digits_in b n))"
proof (induction b n arbitrary: xs ys rule: digits_in.induct)
  case (1 b n)
  define d :: char where "d = (if n mod b < 10 then char_of (n mod b + 48) else char_of (n mod b + 65 - 10))"
  have digits: "digits_in b n = (if n < b then [d] else digits_in b (n div b) @ [d])"
    using "1.prems"(1) by (subst digits_in.simps) (simp add: d_def add.commute)
  have "length xs \<noteq> 0" using "1.prems"(2) by (auto simp: digits split: if_splits)
  then obtain zs z where xs: "xs = zs @ [z]" by (cases xs rule: rev_cases) auto
  have c: "n - b * (n div b) = n mod b" by (simp add: minus_mult_div_eq_mod)
  have w: "wr (xs @ ys) (length xs - 1) d = Some (zs @ d # ys)" by (simp add: xs wr_def list_update_append)
  have "number_loop (xs @ ys) (length xs) n b =
      (if n div b \<noteq> 0 then number_loop (zs @ d # ys) (length zs) (n div b) b else Some (zs @ d # ys, length zs))"
    using "1.prems"(1) w unfolding number_loop.simps [of "xs @ ys"] Let_def c d_def [symmetric] by (simp add: xs)
  moreover have "n div b \<noteq> 0 \<longleftrightarrow> \<not> n < b" using "1.prems"(1) by (simp add: div_eq_0_iff)
  ultimately show ?case
    using "1.IH" [OF refl, of zs "d # ys"] "1.prems" by (cases "n < b") (simp_all add: digits xs)
qed

lemma digits_in_cstr: "2 \<le> b \<Longrightarrow> b \<le> 200 \<Longrightarrow> is_cstr (digits_in b n)"
proof (induction b n rule: digits_in.induct)
  case (1 b n)
  have m: "n mod b < 200" using "1.prems" by (meson less_le_trans mod_less_divisor zero_less_numeral less_trans)
  have nz: "char_of k \<noteq> NUL" if "0 < k" "k < 256" for k :: nat
  proof
    assume "char_of k = NUL"
    then have "of_char (char_of k :: char) = (0 :: nat)" by simp
    then show False using that by simp
  qed
  have "is_cstr [if n mod b < 10 then char_of (n mod b + 48) else char_of (n mod b + 55)]"
    using nz [of "n mod b + 48"] nz [of "n mod b + 55"] m by (simp add: is_cstr_def eq_commute)
  then show ?case using "1.IH" [OF refl] "1.prems" by (subst digits_in.simps) (auto simp: Let_def)
qed

text \<open>\<open>printNumber\<close> hands the digits to the sink, for every base up to 200.\<close>

lemma printNumber_digits:
  assumes "unat base \<le> 200"
  shows "printNumber snk junk n base s = snk_write_buf snk (digits_in (if base < 2 then 10 else unat base) (unat n)) s"
proof -
  define b where "b = unat (if base < 2 then 10 else base)"
  have b: "2 \<le> b" "b \<le> 200"
    using assms by (auto simp: b_def word_less_nat_alt)
  let ?xs = "map junk [0..<32]"
  let ?ds = "digits_in b (unat n)"
  have "unat n < 2 ^ 32" using unsigned_less [of n] by simp
  then have l: "length ?ds \<le> length ?xs" using digits_in_length [OF b(1), of "unat n" 32] by simp
  have "wr (map junk [0..<33]) 32 NUL = Some (?xs @ [NUL])" by (simp add: wr_def list_update_append upt_rec)
  moreover have "number_loop (?xs @ [NUL]) 32 (unat n) b = Some (take (32 - length ?ds) ?xs @ ?ds @ [NUL], 32 - length ?ds)"
    using number_loop_digits [OF b(1) l, of "[NUL]"] by simp
  moreover have "c_string (take (32 - length ?ds) ?xs @ ?ds @ [NUL]) (32 - length ?ds) = Some ?ds"
    using c_string_0 [OF digits_in_cstr [OF b], of "unat n" "[]"] l by (simp add: c_string_def)
  ultimately have "printNumber snk junk n base s = snk_write_buf snk ?ds s"
    unfolding printNumber_def Let_def b_def [symmetric] by simp
  then show ?thesis by (cases "base < 2") (simp_all add: b_def)
qed

end
