(* ===== verification/Cbuf.thy ===== *)
theory Cbuf
  imports Prelude
begin

text \<open>
  The ring buffer of \<open>components/arduino/cores/esp32/cbuf.cpp\<close>.  Its pointers are indices into the
  allocated block, so \<open>_bufend - _buf\<close> is \<open>_size\<close>; \<open>memcpy\<close> and every access fail outside the block.
  The contents of memory fresh from \<open>new\<close> are the argument \<open>junk\<close>.  Sizes are natural numbers: the model is
  the code's as long as \<open>size_t\<close> does not wrap.
\<close>

section \<open>The buffer\<close>

record cbuf =
  cb_size :: nat       \<comment> \<open>\<open>_size\<close>, one more than fits in the buffer\<close>
  cb_buf :: "u8 list"
  cb_begin :: nat
  cb_end :: nat

definition new_cbuf :: "(nat \<Rightarrow> u8) \<Rightarrow> nat \<Rightarrow> cbuf" where
  "new_cbuf junk sz = \<lparr>cb_size = sz + 1, cb_buf = map junk [0..<sz + 1], cb_begin = 0, cb_end = 0\<rparr>"

definition wrap_if_bufend :: "cbuf \<Rightarrow> nat \<Rightarrow> nat" where
  "wrap_if_bufend b p = (if p = cb_size b then 0 else p)"

definition cb_empty :: "cbuf \<Rightarrow> bool" where
  "cb_empty b \<longleftrightarrow> cb_begin b = cb_end b"

definition cb_full :: "cbuf \<Rightarrow> bool" where
  "cb_full b \<longleftrightarrow> wrap_if_bufend b (cb_end b + 1) = cb_begin b"

definition cb_available :: "cbuf \<Rightarrow> nat" where
  "cb_available b =
     (if cb_end b \<ge> cb_begin b then cb_end b - cb_begin b else cb_size b - (cb_begin b - cb_end b))"

definition cb_room :: "cbuf \<Rightarrow> nat" where
  "cb_room b =
     (if cb_end b \<ge> cb_begin b then cb_size b - (cb_end b - cb_begin b) - 1 else cb_begin b - cb_end b - 1)"

definition cb_peek_char :: "cbuf \<Rightarrow> int option" where
  "cb_peek_char b = (if cb_empty b then Some (-1) else map_option uint (rd (cb_buf b) (cb_begin b)))"

definition cb_peek :: "nat \<Rightarrow> cbuf \<Rightarrow> u8 list option" where
  "cb_peek sz b =
     (let n = (if sz < cb_available b then sz else cb_available b)
      in if cb_end b < cb_begin b \<and> n > cb_size b - cb_begin b then
           (let top_size = cb_size b - cb_begin b in
            Option.bind (mem_read (cb_buf b) (cb_begin b) top_size) (\<lambda>top.
            Option.bind (mem_read (cb_buf b) 0 (n - top_size)) (\<lambda>rest. Some (top @ rest))))
         else mem_read (cb_buf b) (cb_begin b) n)"

definition cb_read_char :: "cbuf \<Rightarrow> (int \<times> cbuf) option" where
  "cb_read_char b =
     (if cb_empty b then Some (-1, b)
      else Option.bind (rd (cb_buf b) (cb_begin b)) (\<lambda>c.
        Some (uint c, b\<lparr>cb_begin := wrap_if_bufend b (cb_begin b + 1)\<rparr>)))"

definition cb_read :: "nat \<Rightarrow> cbuf \<Rightarrow> (u8 list \<times> cbuf) option" where
  "cb_read sz b =
     (let n = (if sz < cb_available b then sz else cb_available b)
      in if cb_end b < cb_begin b \<and> n > cb_size b - cb_begin b then
           (let top_size = cb_size b - cb_begin b in
            Option.bind (mem_read (cb_buf b) (cb_begin b) top_size) (\<lambda>top.
            Option.bind (mem_read (cb_buf b) 0 (n - top_size)) (\<lambda>rest.
            Some (top @ rest, b\<lparr>cb_begin := wrap_if_bufend b (n - top_size)\<rparr>))))
         else
           Option.bind (mem_read (cb_buf b) (cb_begin b) n) (\<lambda>cs.
           Some (cs, b\<lparr>cb_begin := wrap_if_bufend b (cb_begin b + n)\<rparr>)))"

definition cb_write_char :: "u8 \<Rightarrow> cbuf \<Rightarrow> (nat \<times> cbuf) option" where
  "cb_write_char c b =
     (if cb_full b then Some (0, b)
      else Option.bind (wr (cb_buf b) (cb_end b) c) (\<lambda>m.
        Some (1, b\<lparr>cb_buf := m, cb_end := wrap_if_bufend b (cb_end b + 1)\<rparr>)))"

text \<open>\<open>write(src, size)\<close> with \<open>size\<close> the length of \<open>src\<close>.\<close>

definition cb_write :: "u8 list \<Rightarrow> cbuf \<Rightarrow> (nat \<times> cbuf) option" where
  "cb_write src b =
     (let n = (if length src < cb_room b then length src else cb_room b)
      in if cb_end b \<ge> cb_begin b \<and> n > cb_size b - cb_end b then
           (let top_size = cb_size b - cb_end b in
            Option.bind (mem_write (cb_buf b) (cb_end b) (take top_size src)) (\<lambda>m.
            Option.bind (mem_write m 0 (take (n - top_size) (drop top_size src))) (\<lambda>m.
            Some (n, b\<lparr>cb_buf := m, cb_end := wrap_if_bufend b (n - top_size)\<rparr>))))
         else
           Option.bind (mem_write (cb_buf b) (cb_end b) (take n src)) (\<lambda>m.
           Some (n, b\<lparr>cb_buf := m, cb_end := wrap_if_bufend b (cb_end b + n)\<rparr>)))"

definition cb_flush :: "cbuf \<Rightarrow> cbuf" where
  "cb_flush b = b\<lparr>cb_begin := 0, cb_end := 0\<rparr>"

definition cb_remove :: "nat \<Rightarrow> cbuf \<Rightarrow> nat \<times> cbuf" where
  "cb_remove sz b =
     (if sz \<ge> cb_available b then (0, cb_flush b)
      else
        let n = (if sz < cb_available b then sz else cb_available b);
            (p, n) = (if cb_end b < cb_begin b \<and> n > cb_size b - cb_begin b
                      then (0, n - (cb_size b - cb_begin b)) else (cb_begin b, n));
            b' = b\<lparr>cb_begin := wrap_if_bufend b (p + n)\<rparr>
        in (cb_available b', b'))"

definition cb_resize :: "(nat \<Rightarrow> u8) \<Rightarrow> nat \<Rightarrow> cbuf \<Rightarrow> (nat \<times> cbuf) option" where
  "cb_resize junk newSize b =
     (let bytes_available = cb_available b;
          newSize = newSize + 1
      in if newSize < bytes_available \<or> newSize = cb_size b then Some (cb_size b, b)
         else
           Option.bind (cb_read bytes_available b) (\<lambda>(cs, b).
           Option.bind (mem_write (map junk [0..<newSize]) 0 cs) (\<lambda>newbuf.
           Option.bind (mem_write newbuf bytes_available (replicate (newSize - bytes_available) 0)) (\<lambda>newbuf.
           Some (newSize, b\<lparr>cb_buf := newbuf, cb_begin := 0, cb_end := bytes_available, cb_size := newSize\<rparr>)))))"

definition cb_resizeAdd :: "(nat \<Rightarrow> u8) \<Rightarrow> nat \<Rightarrow> cbuf \<Rightarrow> (nat \<times> cbuf) option" where
  "cb_resizeAdd junk addSize b = cb_resize junk (cb_size b + addSize) b"

section \<open>The queue it implements\<close>

definition cb_inv :: "cbuf \<Rightarrow> bool" where
  "cb_inv b \<longleftrightarrow> cb_size b = length (cb_buf b) \<and> cb_begin b < cb_size b \<and> cb_end b < cb_size b"

definition cb_contents :: "cbuf \<Rightarrow> u8 list" where
  "cb_contents b =
     (if cb_begin b \<le> cb_end b then take (cb_end b - cb_begin b) (drop (cb_begin b) (cb_buf b))
      else drop (cb_begin b) (cb_buf b) @ take (cb_end b) (cb_buf b))"

text \<open>The buffer as one circle: the byte \<open>i\<close> places behind the first one.\<close>

lemma cb_available_contents: "cb_inv b \<Longrightarrow> cb_available b = length (cb_contents b)"
  by (auto simp: cb_inv_def cb_available_def cb_contents_def)

lemma cb_room_contents: "cb_inv b \<Longrightarrow> cb_room b = cb_size b - 1 - length (cb_contents b)"
  by (auto simp: cb_inv_def cb_room_def cb_contents_def)

lemma cb_contents_bound: "cb_inv b \<Longrightarrow> length (cb_contents b) \<le> cb_size b - 1"
  by (auto simp: cb_inv_def cb_contents_def)

lemma new_cbuf_correct: "cb_inv (new_cbuf junk n)" "cb_contents (new_cbuf junk n) = []" "cb_size (new_cbuf junk n) = n + 1"
  by (simp_all add: new_cbuf_def cb_inv_def cb_contents_def)

text \<open>A read of more than there is reads what there is; so a read of at most that is enough.\<close>

lemma cb_read_min: "cb_read n b = cb_read (min n (cb_available b)) b"
  by (auto simp: cb_read_def Let_def min_def)

lemma cb_read_le:
  assumes b: "cb_inv b" and n: "n \<le> length (cb_contents b)"
  shows "\<exists>b'. cb_read n b = Some (take n (cb_contents b), b') \<and> cb_inv b' \<and> cb_contents b' = drop n (cb_contents b)
    \<and> cb_size b' = cb_size b"
proof -
  have if_n: "(if n < cb_available b then n else cb_available b) = n" using n cb_available_contents [OF b] by auto
  show ?thesis
  proof (cases "cb_begin b \<le> cb_end b")
    case True
    then have "n \<le> cb_end b - cb_begin b" using n by (simp add: cb_contents_def)
    then show ?thesis using b True
      by (auto simp: cb_read_def if_n Let_def cb_inv_def cb_contents_def mem_read_def wrap_if_bufend_def drop_take add.commute min_def)
  next
    case False
    then show ?thesis using b n
      by (cases "n \<le> cb_size b - cb_begin b")
        (auto simp: cb_read_def if_n Let_def cb_inv_def cb_contents_def mem_read_def wrap_if_bufend_def drop_take add.commute)
  qed
qed

lemma cb_read_correct:
  assumes "cb_inv b"
  shows "\<exists>b'. cb_read n b = Some (take n (cb_contents b), b') \<and> cb_inv b' \<and> cb_contents b' = drop n (cb_contents b)
    \<and> cb_size b' = cb_size b"
proof -
  let ?n = "min n (cb_available b)"
  have "?n \<le> length (cb_contents b)" "take ?n (cb_contents b) = take n (cb_contents b)" "drop ?n (cb_contents b) = drop n (cb_contents b)"
    using cb_available_contents [OF assms] by (auto simp: min_def)
  then show ?thesis using cb_read_le [OF assms, of ?n] unfolding cb_read_min [of n b] by simp
qed

lemma cb_peek_correct:
  assumes "cb_inv b"
  shows "cb_peek n b = Some (take n (cb_contents b))"
proof -
  have "cb_peek n b = map_option fst (cb_read n b)"
  proof (cases "cb_end b < cb_begin b \<and> (if n < cb_available b then n else cb_available b) > cb_size b - cb_begin b")
    case True
    then show ?thesis unfolding cb_peek_def cb_read_def Let_def if_P [OF True]
      by (auto simp only: map_option_case option.case prod.sel fst_conv split: Option.bind_split)
  next
    case False
    then show ?thesis unfolding cb_peek_def cb_read_def Let_def if_not_P [OF False]
      by (auto simp only: map_option_case option.case prod.sel fst_conv split: Option.bind_split)
  qed
  then show ?thesis using cb_read_correct [OF assms, of n] by auto
qed

lemma cb_read_char_correct:
  assumes "cb_inv b"
  shows "case cb_contents b of [] \<Rightarrow> cb_read_char b = Some (-1, b) \<and> cb_peek_char b = Some (-1)
    | c # cs \<Rightarrow> cb_peek_char b = Some (uint c) \<and>
       (\<exists>b'. cb_read_char b = Some (uint c, b') \<and> cb_inv b' \<and> cb_contents b' = cs \<and> cb_size b' = cb_size b)"
proof (cases "cb_contents b")
  case Nil
  then have "cb_empty b" using assms by (auto simp: cb_contents_def cb_empty_def cb_inv_def split: if_splits)
  then show ?thesis using Nil by (simp add: cb_read_char_def cb_peek_char_def)
next
  case (Cons c cs)
  have ne: "\<not> cb_empty b" using Cons by (auto simp: cb_contents_def cb_empty_def)
  have c: "rd (cb_buf b) (cb_begin b) = Some c"
  proof -
    have "cb_contents b \<noteq> []" using Cons by simp
    then have "cb_contents b ! 0 = cb_buf b ! cb_begin b" "cb_begin b < length (cb_buf b)"
      using assms unfolding cb_contents_def cb_inv_def by (auto simp: nth_append split: if_splits)
    then show ?thesis using Cons by (simp add: rd_in)
  qed
  have len: "1 \<le> length (cb_contents b)" using Cons by simp
  obtain b' where b': "cb_read 1 b = Some ([c], b')" "cb_inv b'" "cb_contents b' = cs" "cb_size b' = cb_size b"
    using cb_read_correct [OF assms, of 1] Cons by auto
  have "b' = b\<lparr>cb_begin := wrap_if_bufend b (cb_begin b + 1)\<rparr>"
  proof -
    have one: "(if 1 < cb_available b then 1 else cb_available b) = 1" "(cb_size b - cb_begin b < 1) = False"
      using len cb_available_contents [OF assms] assms by (auto simp: cb_inv_def)
    show ?thesis using b'(1) unfolding cb_read_def one Let_def by (auto split: Option.bind_splits)
  qed
  then show ?thesis using Cons ne c b' by (auto simp: cb_read_char_def cb_peek_char_def)
qed

lemma cb_write_correct:
  assumes b: "cb_inv b"
  shows "\<exists>b'. cb_write xs b = Some (min (length xs) (cb_size b - 1 - length (cb_contents b)), b') \<and> cb_inv b' \<and>
    cb_contents b' = cb_contents b @ take (cb_size b - 1 - length (cb_contents b)) xs \<and> cb_size b' = cb_size b"
proof -
  define n where "n = min (length xs) (cb_size b - 1 - length (cb_contents b))"
  have if_n: "(if length xs < cb_room b then length xs else cb_room b) = n"
    by (simp add: n_def cb_room_contents [OF b])
  have take_n: "take (cb_size b - 1 - length (cb_contents b)) xs = take n xs" by (auto simp: n_def min_def)
  have len: "n \<le> length xs" "n \<le> cb_room b" unfolding n_def cb_room_contents [OF b] by simp_all
  show ?thesis
  proof (cases "cb_begin b \<le> cb_end b")
    case True
    then have room: "n \<le> cb_size b - (cb_end b - cb_begin b) - 1" using len by (simp add: cb_room_def)
    show ?thesis
    proof (cases "n > cb_size b - cb_end b")
      case wrap: True
      then show ?thesis unfolding n_def [symmetric] take_n using True b room len(1)
        by (auto simp: cb_write_def if_n Let_def cb_inv_def cb_contents_def mem_write_def wrap_if_bufend_def add.commute)
          (simp_all add: take_add [symmetric] drop_take)
    next
      case False
      then show ?thesis unfolding n_def [symmetric] take_n using True b room len(1)
        by (auto simp: cb_write_def if_n Let_def cb_inv_def cb_contents_def mem_write_def wrap_if_bufend_def add.commute)
          (simp_all add: drop_take)
    qed
  next
    case False
    then have room: "n \<le> cb_begin b - cb_end b - 1" using len by (simp add: cb_room_def)
    show ?thesis unfolding n_def [symmetric] take_n using False b room len(1)
      by (auto simp: cb_write_def if_n Let_def cb_inv_def cb_contents_def mem_write_def wrap_if_bufend_def add.commute)
  qed
qed

lemma cb_write_char_correct:
  assumes b: "cb_inv b"
  shows "\<exists>b'. cb_write_char c b = Some (if length (cb_contents b) < cb_size b - 1 then 1 else 0, b') \<and> cb_inv b' \<and>
    cb_contents b' = cb_contents b @ (if length (cb_contents b) < cb_size b - 1 then [c] else []) \<and> cb_size b' = cb_size b"
proof -
  have full: "cb_full b \<longleftrightarrow> \<not> length (cb_contents b) < cb_size b - 1"
    using b by (auto simp: cb_full_def wrap_if_bufend_def cb_inv_def cb_contents_def)
  show ?thesis
  proof (cases "cb_full b")
    case False
    then have "1 \<le> cb_room b" using full cb_room_contents [OF b] by simp
    then have one: "(if length [c] < cb_room b then length [c] else cb_room b) = 1" "(1 > cb_size b - cb_end b) = False"
      using b by (auto simp: cb_inv_def)
    have "cb_write_char c b = cb_write [c] b"
      using False b unfolding cb_write_char_def cb_write_def Let_def one
      by (simp add: wr_def mem_write_def cb_inv_def upd_conv_take_nth_drop)
    then show ?thesis using cb_write_correct [OF b, of "[c]"] False full by auto
  qed (use b full in \<open>simp add: cb_write_char_def\<close>)
qed

lemma cb_flush_correct: "cb_inv b \<Longrightarrow> cb_inv (cb_flush b) \<and> cb_contents (cb_flush b) = [] \<and> cb_size (cb_flush b) = cb_size b"
  by (auto simp: cb_flush_def cb_inv_def cb_contents_def)

lemma cb_remove_correct:
  assumes b: "cb_inv b"
  shows "\<exists>b'. cb_remove n b = (length (cb_contents b) - n, b') \<and> cb_inv b' \<and> cb_contents b' = drop n (cb_contents b)
    \<and> cb_size b' = cb_size b"
proof (cases "n \<ge> cb_available b")
  case True
  then show ?thesis using b cb_flush_correct [OF b] cb_available_contents [OF b] by (simp add: cb_remove_def)
next
  case False
  then have n: "n \<le> length (cb_contents b)" using cb_available_contents [OF b] by simp
  have if_n: "(if n < cb_available b then n else cb_available b) = n" using False by simp
  obtain b' where b': "cb_read n b = Some (take n (cb_contents b), b')" "cb_inv b'" "cb_contents b' = drop n (cb_contents b)"
      "cb_size b' = cb_size b" using cb_read_le [OF b n] by blast
  have "cb_remove n b = (cb_available b', b')"
    using b'(1) False unfolding cb_read_def cb_remove_def Let_def if_n
    by (auto split: if_splits Option.bind_splits prod.splits)
  then show ?thesis using b' cb_available_contents [OF b'(2)] by simp
qed

lemma cb_resize_correct:
  assumes b: "cb_inv b" and n: "length (cb_contents b) \<le> n"
  shows "\<exists>b'. cb_resize junk n b = Some (n + 1, b') \<and> cb_inv b' \<and> cb_contents b' = cb_contents b \<and> cb_size b' = n + 1"
proof (cases "n + 1 = cb_size b")
  case True
  then show ?thesis using b by (simp add: cb_resize_def)
next
  case False
  obtain b1 where b1: "cb_read (cb_available b) b = Some (cb_contents b, b1)"
    using cb_read_correct [OF b, of "cb_available b"] cb_available_contents [OF b] by auto
  let ?buf = "cb_contents b @ replicate (n + 1 - length (cb_contents b)) 0"
  have "mem_write (map junk [0..<n + 1]) 0 (cb_contents b) = Some (cb_contents b @ drop (length (cb_contents b)) (map junk [0..<n + 1]))"
    using n by (simp add: mem_write_def del: upt_Suc)
  moreover have "mem_write (cb_contents b @ drop (length (cb_contents b)) (map junk [0..<n + 1])) (length (cb_contents b))
      (replicate (n + 1 - length (cb_contents b)) 0) = Some ?buf"
    using n by (simp add: mem_write_def del: upt_Suc)
  ultimately have "cb_resize junk n b = Some (n + 1, b1\<lparr>cb_buf := ?buf, cb_begin := 0, cb_end := length (cb_contents b), cb_size := n + 1\<rparr>)"
    using False n b1 cb_available_contents [OF b] by (simp add: cb_resize_def Let_def del: upt_Suc)
  then show ?thesis using n by (simp add: cb_inv_def cb_contents_def)
qed

section \<open>A bounded queue of bytes\<close>

text \<open>
  What a user of the buffer relies on: a write appends what there is room for and says how much that
  was, a read takes from the front.  The laws speak of the bytes in the queue only, not of the ring.
\<close>

datatype queue_op = Put "u8 list" | Get nat

locale byte_queue =
  fixes ok :: "'q \<Rightarrow> bool"
    and bytes :: "'q \<Rightarrow> u8 list"
    and capacity :: "'q \<Rightarrow> nat"
    and put :: "u8 list \<Rightarrow> 'q \<Rightarrow> (nat \<times> 'q) option"
    and get :: "nat \<Rightarrow> 'q \<Rightarrow> (u8 list \<times> 'q) option"
  assumes put: "ok q \<Longrightarrow> \<exists>q'. put xs q = Some (min (length xs) (capacity q - length (bytes q)), q') \<and> ok q' \<and>
      bytes q' = bytes q @ take (capacity q - length (bytes q)) xs \<and> capacity q' = capacity q"
    and get: "ok q \<Longrightarrow> \<exists>q'. get n q = Some (take n (bytes q), q') \<and> ok q' \<and> bytes q' = drop n (bytes q) \<and>
      capacity q' = capacity q"
    and bound: "ok q \<Longrightarrow> length (bytes q) \<le> capacity q"
begin

text \<open>A sequence of operations: the bytes taken in, the bytes given out, and the queue left.\<close>

fun run :: "queue_op list \<Rightarrow> 'q \<Rightarrow> (u8 list \<times> u8 list \<times> 'q) option" where
  "run [] q = Some ([], [], q)"
| "run (Put xs # ops) q = Option.bind (put xs q) (\<lambda>(n, q).
     Option.bind (run ops q) (\<lambda>(ins, outs, q). Some (take n xs @ ins, outs, q)))"
| "run (Get n # ops) q = Option.bind (get n q) (\<lambda>(ys, q).
     Option.bind (run ops q) (\<lambda>(ins, outs, q). Some (ins, ys @ outs, q)))"

lemma fifo:
  "ok q \<Longrightarrow> \<exists>ins outs q'. run ops q = Some (ins, outs, q') \<and> ok q' \<and> bytes q @ ins = outs @ bytes q' \<and>
     capacity q' = capacity q"
proof (induction ops arbitrary: q)
  case (Cons k ops)
  show ?case
  proof (cases k)
    case (Put xs)
    let ?r = "capacity q - length (bytes q)"
    obtain q1 where q1: "put xs q = Some (min (length xs) ?r, q1)" "ok q1" "bytes q1 = bytes q @ take ?r xs"
        "capacity q1 = capacity q" using put [OF Cons.prems] by blast
    have "take (min (length xs) ?r) xs = take ?r xs" by (auto simp: min_def)
    then show ?thesis using Cons.IH [OF q1(2)] q1 by (auto simp: Put)
  next
    case (Get n)
    obtain q1 where q1: "get n q = Some (take n (bytes q), q1)" "ok q1" "bytes q1 = drop n (bytes q)"
        "capacity q1 = capacity q" using get [OF Cons.prems] by blast
    obtain ins outs q' where r: "run ops q1 = Some (ins, outs, q')" "ok q'" "bytes q1 @ ins = outs @ bytes q'"
        "capacity q' = capacity q1" using Cons.IH [OF q1(2)] by blast
    have "bytes q @ ins = take n (bytes q) @ outs @ bytes q'" by (metis append.assoc append_take_drop_id q1(3) r(3))
    then show ?thesis using q1 r by (simp add: Get)
  qed
qed simp

lemma room_for_all:
  assumes "ok q" "length (bytes q) + length xs \<le> capacity q"
  shows "\<exists>q'. put xs q = Some (length xs, q') \<and> ok q' \<and> bytes q' = bytes q @ xs \<and> capacity q' = capacity q"
  using put [OF assms(1), of xs] assms(2) by (auto simp: min_def)

end

interpretation cb: byte_queue cb_inv cb_contents "\<lambda>b. cb_size b - 1" cb_write cb_read
proof unfold_locales
  fix q :: cbuf and xs n
  assume q: "cb_inv q"
  show "\<exists>q'. cb_write xs q = Some (min (length xs) (cb_size q - 1 - length (cb_contents q)), q') \<and> cb_inv q' \<and>
      cb_contents q' = cb_contents q @ take (cb_size q - 1 - length (cb_contents q)) xs \<and> cb_size q' - 1 = cb_size q - 1"
    using cb_write_correct [OF q, of xs] by auto
  show "\<exists>q'. cb_read n q = Some (take n (cb_contents q), q') \<and> cb_inv q' \<and> cb_contents q' = drop n (cb_contents q) \<and>
      cb_size q' - 1 = cb_size q - 1"
    using cb_read_correct [OF q, of n] by auto
  show "length (cb_contents q) \<le> cb_size q - 1" by (rule cb_contents_bound [OF q])
qed

section \<open>Properties\<close>

text \<open>
  C12.  A ring buffer made by \<open>cbuf(n)\<close> is a queue of \<open>n\<close> bytes: after any sequence of writes and
  reads, none of which leaves the allocated block, the bytes that were accepted are exactly the bytes
  read followed by the bytes still in the buffer, in order.
\<close>

theorem cbuf_is_fifo:
  "\<exists>ins outs b. cb.run ops (new_cbuf junk n) = Some (ins, outs, b) \<and> ins = outs @ cb_contents b \<and>
     cb_available b = length (cb_contents b) \<and> cb_room b + cb_available b = n"
proof -
  obtain ins outs b where r: "cb.run ops (new_cbuf junk n) = Some (ins, outs, b)" "cb_inv b"
      "cb_contents (new_cbuf junk n) @ ins = outs @ cb_contents b" "cb_size b - 1 = cb_size (new_cbuf junk n) - 1"
    using cb.fifo [OF new_cbuf_correct(1)] by blast
  have "cb_room b + cb_available b = n"
    using cb.bound [OF r(2)] r(4) by (simp add: cb_room_contents [OF r(2)] cb_available_contents [OF r(2)] new_cbuf_correct)
  then show ?thesis using r cb_available_contents [OF r(2)] by (simp add: new_cbuf_correct)
qed

text \<open>
  \<open>resize\<close> accepts a size one smaller than the number of bytes in the buffer: nothing is lost, but
  the end pointer is left at the end of the block, the buffer does not count as full, and the next
  \<open>write\<close> stores outside the block.
\<close>

theorem cbuf_resize_overflow:
  assumes "cb_inv b" and "cb_contents b \<noteq> []"
  shows "\<exists>b'. cb_resize junk (length (cb_contents b) - 1) b = Some (length (cb_contents b), b') \<and>
    cb_contents b' = cb_contents b \<and> \<not> cb_full b' \<and> cb_write_char c b' = None"
proof -
  let ?k = "length (cb_contents b)"
  have k: "1 \<le> ?k" "?k - 1 + 1 = ?k" "?k \<noteq> cb_size b"
    using assms cb_contents_bound [OF assms(1)] by (cases "cb_contents b"; auto simp: cb_inv_def)+
  obtain b1 where b1: "cb_read (cb_available b) b = Some (cb_contents b, b1)"
    using cb_read_correct [OF assms(1), of "cb_available b"] cb_available_contents [OF assms(1)] by auto
  have "mem_write (map junk [0..<?k]) 0 (cb_contents b) = Some (cb_contents b)" by (simp add: mem_write_def)
  then have "cb_resize junk (?k - 1) b = Some (?k, b1\<lparr>cb_buf := cb_contents b, cb_begin := 0, cb_end := ?k, cb_size := ?k\<rparr>)"
    using k b1 cb_available_contents [OF assms(1)] by (simp add: cb_resize_def Let_def mem_write_def)
  then show ?thesis using k
    by (auto simp: cb_contents_def [of "b1\<lparr>cb_buf := cb_contents b, cb_begin := 0, cb_end := ?k, cb_size := ?k\<rparr>"]
        cb_full_def wrap_if_bufend_def cb_write_char_def wr_def)
qed

theorem cbuf_resize_overflow_witness:
  "\<exists>b'. cb_resize (\<lambda>_. 0) 1 \<lparr>cb_size = 5, cb_buf = [1, 2, 3, 4, 5], cb_begin = 1, cb_end = 3\<rparr> = Some (2, b') \<and>
     cb_contents b' = [2, 3] \<and> cb_write_char 7 b' = None"
  using cbuf_resize_overflow [of "\<lparr>cb_size = 5, cb_buf = [1, 2, 3, 4, 5], cb_begin = 1, cb_end = 3\<rparr>" "\<lambda>_. 0" 7]
  by (auto simp: cb_inv_def cb_contents_def)

end
