(* ===== verification/WifiUdp.thy ===== *)
theory WifiUdp
  imports Cbuf
begin

text \<open>
  The datagram buffers of \<open>components/arduino/libraries/WiFi/src/WiFiUdp.cpp\<close>.  The sockets of lwIP are
  not part of the program: the number a call of \<open>socket\<close> returns, whether \<open>sendto\<close> succeeds and what
  \<open>recvfrom\<close> delivers are arguments, and every call of \<open>sendto\<close> is recorded in \<open>sent\<close> with its
  destination and payload.  The multicast options of the socket and the log are left out.
\<close>

section \<open>State\<close>

record WiFiUDP =
  udp_server :: int
  server_port :: u16
  remote_ip :: u32
  remote_port :: u16
  multicast_ip :: u32
  tx_buffer :: "u8 list option"
  tx_buffer_len :: nat
  rx_buffer :: "cbuf option"
  sent :: "(u32 \<times> u16 \<times> u8 list) list"

definition new_WiFiUDP :: WiFiUDP where
  "new_WiFiUDP = \<lparr>udp_server = -1, server_port = 0, remote_ip = 0, remote_port = 0, multicast_ip = 0,
     tx_buffer = None, tx_buffer_len = 0, rx_buffer = None, sent = []\<rparr>"

definition udp_stop :: "WiFiUDP \<Rightarrow> WiFiUDP" where
  "udp_stop u =
     (let u = u\<lparr>tx_buffer := None, tx_buffer_len := 0, rx_buffer := None\<rparr>
      in if udp_server u = -1 then u
         else (if multicast_ip u \<noteq> 0 then u\<lparr>multicast_ip := 0\<rparr> else u)\<lparr>udp_server := -1\<rparr>)"

text \<open>\<open>begin\<close>: \<open>sock\<close> is what \<open>socket\<close> returns, \<open>opt\<close> and \<open>bound\<close> whether the two next calls succeed.\<close>

definition udp_begin :: "(nat \<Rightarrow> u8) \<Rightarrow> int \<Rightarrow> bool \<Rightarrow> bool \<Rightarrow> u16 \<Rightarrow> WiFiUDP \<Rightarrow> nat \<times> WiFiUDP" where
  "udp_begin junk sock opt bound port u =
     (let u = (udp_stop u)\<lparr>server_port := port, tx_buffer := Some (map junk [0..<1460]), udp_server := sock\<rparr>
      in if sock = -1 then (0, u)
         else if \<not> opt then (0, udp_stop u)
         else if \<not> bound then (0, udp_stop u)
         else (1, u))"

section \<open>Sending\<close>

definition beginPacket_again :: "(nat \<Rightarrow> u8) \<Rightarrow> int \<Rightarrow> WiFiUDP \<Rightarrow> nat \<times> WiFiUDP" where
  "beginPacket_again junk sock u =
     (if remote_port u = 0 then (0, u)
      else
        let u = (case tx_buffer u of None \<Rightarrow> u\<lparr>tx_buffer := Some (map junk [0..<1460])\<rparr> | Some _ \<Rightarrow> u);
            u = u\<lparr>tx_buffer_len := 0\<rparr>
        in if udp_server u \<noteq> -1 then (1, u)
           else let u = u\<lparr>udp_server := sock\<rparr> in (if sock = -1 then 0 else 1, u))"

definition beginPacket :: "(nat \<Rightarrow> u8) \<Rightarrow> int \<Rightarrow> u32 \<Rightarrow> u16 \<Rightarrow> WiFiUDP \<Rightarrow> nat \<times> WiFiUDP" where
  "beginPacket junk sock ip port u = beginPacket_again junk sock (u\<lparr>remote_ip := ip, remote_port := port\<rparr>)"

definition beginMulticastPacket :: "(nat \<Rightarrow> u8) \<Rightarrow> int \<Rightarrow> WiFiUDP \<Rightarrow> nat \<times> WiFiUDP" where
  "beginMulticastPacket junk sock u =
     (if server_port u = 0 \<or> multicast_ip u = 0 then (0, u)
      else beginPacket_again junk sock (u\<lparr>remote_ip := multicast_ip u, remote_port := server_port u\<rparr>))"

text \<open>\<open>endPacket\<close> reads the first \<open>tx_buffer_len\<close> bytes of the buffer; without one there is nothing to read.\<close>

definition endPacket :: "bool \<Rightarrow> WiFiUDP \<Rightarrow> (nat \<times> WiFiUDP) option" where
  "endPacket ok u =
     Option.bind (case tx_buffer u of None \<Rightarrow> (if tx_buffer_len u = 0 then Some [] else None)
        | Some m \<Rightarrow> mem_read m 0 (tx_buffer_len u)) (\<lambda>payload.
     Some (if ok then 1 else 0, u\<lparr>sent := sent u @ [(remote_ip u, remote_port u, payload)]\<rparr>))"

definition udp_write :: "(nat \<Rightarrow> bool) \<Rightarrow> u8 \<Rightarrow> WiFiUDP \<Rightarrow> (nat \<times> WiFiUDP) option" where
  "udp_write net data u =
     Option.bind
       (if tx_buffer_len u = 1460
        then map_option (\<lambda>(_, u). u\<lparr>tx_buffer_len := 0\<rparr>) (endPacket (net (length (sent u))) u)
        else Some u) (\<lambda>u.
     Option.bind (tx_buffer u) (\<lambda>m.
     Option.bind (wr m (tx_buffer_len u) data) (\<lambda>m.
     Some (1, u\<lparr>tx_buffer := Some m, tx_buffer_len := tx_buffer_len u + 1\<rparr>))))"

definition udp_write_all :: "(nat \<Rightarrow> bool) \<Rightarrow> u8 list \<Rightarrow> WiFiUDP \<Rightarrow> (nat \<times> WiFiUDP) option" where
  "udp_write_all net buffer u =
     map_option (\<lambda>u. (length buffer, u))
       (foldM (\<lambda>i u. Option.bind (rd buffer i) (\<lambda>c. map_option snd (udp_write net c u))) [0..<length buffer] u)"

section \<open>Receiving\<close>

text \<open>\<open>recv\<close> is what \<open>recvfrom\<close> delivers, at most 1460 bytes, or \<open>None\<close> when it fails.\<close>

definition parsePacket :: "(nat \<Rightarrow> u8) \<Rightarrow> (u8 list \<times> u32 \<times> u16) option \<Rightarrow> WiFiUDP \<Rightarrow> (nat \<times> WiFiUDP) option" where
  "parsePacket junk recv u =
     (case rx_buffer u of
        Some _ \<Rightarrow> Some (0, u)
      | None \<Rightarrow>
          (case recv of
             None \<Rightarrow> Some (0, u)
           | Some (buf, ip, port) \<Rightarrow>
               Option.bind (cb_write buf (new_cbuf junk (length buf))) (\<lambda>(_, b).
               Some (length buf, u\<lparr>remote_ip := ip, remote_port := port, rx_buffer := Some b\<rparr>))))"

definition udp_available :: "WiFiUDP \<Rightarrow> nat" where
  "udp_available u = (case rx_buffer u of None \<Rightarrow> 0 | Some b \<Rightarrow> cb_available b)"

text \<open>The buffer is given up when it is empty.\<close>

definition drop_empty :: "cbuf \<Rightarrow> WiFiUDP \<Rightarrow> WiFiUDP" where
  "drop_empty b u = u\<lparr>rx_buffer := (if cb_available b = 0 then None else Some b)\<rparr>"

definition udp_read_char :: "WiFiUDP \<Rightarrow> (int \<times> WiFiUDP) option" where
  "udp_read_char u =
     (case rx_buffer u of None \<Rightarrow> Some (-1, u)
      | Some b \<Rightarrow> map_option (\<lambda>(c, b). (c, drop_empty b u)) (cb_read_char b))"

definition udp_read :: "nat \<Rightarrow> WiFiUDP \<Rightarrow> (u8 list \<times> WiFiUDP) option" where
  "udp_read len u =
     (case rx_buffer u of None \<Rightarrow> Some ([], u)
      | Some b \<Rightarrow> map_option (\<lambda>(cs, b). (cs, drop_empty b u)) (cb_read len b))"

definition udp_peek :: "WiFiUDP \<Rightarrow> int option" where
  "udp_peek u = (case rx_buffer u of None \<Rightarrow> Some (-1) | Some b \<Rightarrow> cb_peek_char b)"

definition udp_flush :: "WiFiUDP \<Rightarrow> WiFiUDP" where
  "udp_flush u = u\<lparr>rx_buffer := None\<rparr>"

section \<open>What is sent\<close>

text \<open>The transmit buffer: its block and the bytes collected in it.\<close>

definition tx_ok :: "WiFiUDP \<Rightarrow> bool" where
  "tx_ok u \<longleftrightarrow> (\<exists>m. tx_buffer u = Some m \<and> length m = 1460) \<and> tx_buffer_len u \<le> 1460"

definition tx_pending :: "WiFiUDP \<Rightarrow> u8 list" where
  "tx_pending u = (case tx_buffer u of None \<Rightarrow> [] | Some m \<Rightarrow> take (tx_buffer_len u) m)"

text \<open>The payloads of a list of datagrams to one destination, all of them full.\<close>

definition datagrams :: "WiFiUDP \<Rightarrow> u8 list list \<Rightarrow> (u32 \<times> u16 \<times> u8 list) list" where
  "datagrams u ps = map (\<lambda>p. (remote_ip u, remote_port u, p)) ps"

definition same_peer :: "WiFiUDP \<Rightarrow> WiFiUDP \<Rightarrow> bool" where
  "same_peer u v \<longleftrightarrow> remote_ip v = remote_ip u \<and> remote_port v = remote_port u"

lemma endPacket_correct:
  assumes "tx_ok u"
  shows "endPacket ok u = Some (if ok then 1 else 0, u\<lparr>sent := sent u @ datagrams u [tx_pending u]\<rparr>)"
  using assms by (auto simp: tx_ok_def endPacket_def mem_read_def datagrams_def tx_pending_def)

lemma udp_write_correct:
  assumes "tx_ok u"
  shows "\<exists>u' ps. udp_write net c u = Some (1, u') \<and> tx_ok u' \<and> same_peer u u' \<and> sent u' = sent u @ datagrams u ps \<and>
    (\<forall>p\<in>set ps. length p = 1460) \<and> concat ps @ tx_pending u' = tx_pending u @ [c]"
proof -
  obtain m where m: "tx_buffer u = Some m" "length m = 1460" using assms by (auto simp: tx_ok_def)
  have ne: "m \<noteq> []" using m(2) by auto
  show ?thesis
  proof (cases "tx_buffer_len u = 1460")
    case True
    obtain n where n: "endPacket (net (length (sent u))) u = Some (n, u\<lparr>sent := sent u @ datagrams u [tx_pending u]\<rparr>)"
      using endPacket_correct [OF assms] by blast
    let ?u = "u\<lparr>sent := sent u @ datagrams u [tx_pending u], tx_buffer_len := 1, tx_buffer := Some (m[0 := c])\<rparr>"
    have "udp_write net c u = Some (1, ?u)"
      using True n m ne by (simp add: udp_write_def wr_def)
    moreover have "tx_pending ?u = [c]" using m by (cases m) (auto simp: tx_pending_def)
    ultimately show ?thesis using True m ne
      by (intro exI [of _ ?u] exI [of _ "[tx_pending u]"]) (simp add: tx_ok_def same_peer_def, simp add: tx_pending_def)
  next
    case False
    then have lt: "tx_buffer_len u < 1460" using assms by (simp add: tx_ok_def)
    let ?u = "u\<lparr>tx_buffer := Some (m[tx_buffer_len u := c]), tx_buffer_len := tx_buffer_len u + 1\<rparr>"
    have "udp_write net c u = Some (1, ?u)" using lt m by (simp add: udp_write_def wr_def)
    moreover have "tx_pending ?u = tx_pending u @ [c]" using lt m by (simp add: tx_pending_def take_Suc_conv_app_nth)
    ultimately show ?thesis using lt m
      by (intro exI [of _ ?u] exI [of _ "[]"]) (simp add: tx_ok_def same_peer_def datagrams_def)
  qed
qed

lemma udp_write_all_correct:
  assumes "tx_ok u"
  shows "\<exists>u' ps. udp_write_all net xs u = Some (length xs, u') \<and> tx_ok u' \<and> same_peer u u' \<and> sent u' = sent u @ datagrams u ps \<and>
    (\<forall>p\<in>set ps. length p = 1460) \<and> concat ps @ tx_pending u' = tx_pending u @ xs"
proof -
  have "\<exists>u' ps. foldM (\<lambda>c u. map_option snd (udp_write net c u)) xs u = Some u' \<and> tx_ok u' \<and> same_peer u u' \<and>
      sent u' = sent u @ datagrams u ps \<and> (\<forall>p\<in>set ps. length p = 1460) \<and> concat ps @ tx_pending u' = tx_pending u @ xs"
    using assms
  proof (induction xs arbitrary: u)
    case Nil
    then show ?case by (intro exI [of _ u] exI [of _ "[]"]) (simp add: same_peer_def datagrams_def)
  next
    case (Cons c xs)
    obtain v ps where v: "udp_write net c u = Some (1, v)" "tx_ok v" "same_peer u v" "sent v = sent u @ datagrams u ps"
        "\<forall>p\<in>set ps. length p = 1460" "concat ps @ tx_pending v = tx_pending u @ [c]"
      using udp_write_correct [OF Cons.prems] by blast
    obtain w qs where w: "foldM (\<lambda>c u. map_option snd (udp_write net c u)) xs v = Some w" "tx_ok w" "same_peer v w"
        "sent w = sent v @ datagrams v qs" "\<forall>p\<in>set qs. length p = 1460" "concat qs @ tx_pending w = tx_pending v @ xs"
      using Cons.IH [OF v(2)] by blast
    have "concat (ps @ qs) @ tx_pending w = tx_pending u @ c # xs"
      using v(6) w(6) by (metis append.assoc append_Cons append_Nil concat_append)
    moreover have "datagrams u ps @ datagrams v qs = datagrams u (ps @ qs)"
      using v(3) by (simp add: datagrams_def same_peer_def)
    ultimately show ?case using v w by (intro exI [of _ w] exI [of _ "ps @ qs"]) (auto simp: same_peer_def)
  qed
  moreover have "foldM (\<lambda>i u. Option.bind (rd xs i) (\<lambda>c. map_option snd (udp_write net c u))) [0..<length xs] u
      = foldM (\<lambda>c u. map_option snd (udp_write net c u)) xs u"
    by (rule foldM_nth) (simp add: rd_in)
  ultimately show ?thesis by (auto simp: udp_write_all_def)
qed

text \<open>
  C16.  A packet that is begun, written and ended reaches the socket whole, however long it is:
  \<open>write\<close> and \<open>endPacket\<close> stay inside the transmit buffer and return, \<open>write\<close> with the number of bytes
  it was given and \<open>endPacket\<close> with what the last \<open>sendto\<close> said; the payloads handed to \<open>sendto\<close>
  after \<open>beginPacket\<close>, all for the address it was given, are together exactly the bytes written;
  each is at most 1460 bytes, and all but the last are 1460.
\<close>

theorem udp_sends_data:
  assumes "beginPacket junk sock ip port u = (1, u1)" and "\<And>m. tx_buffer u = Some m \<Longrightarrow> length m = 1460"
  shows "\<exists>u2 u3 ps. udp_write_all net xs u1 = Some (length xs, u2) \<and>
    endPacket ok u2 = Some (if ok then 1 else 0, u3) \<and>
    sent u3 = sent u @ map (\<lambda>p. (ip, port, p)) ps \<and> concat ps = xs \<and>
    ps \<noteq> [] \<and> (\<forall>p\<in>set (butlast ps). length p = 1460) \<and> length (last ps) \<le> 1460"
proof -
  have u1: "tx_ok u1" "tx_pending u1 = []" "remote_ip u1 = ip" "remote_port u1 = port" "sent u1 = sent u"
    using assms(1,2) unfolding beginPacket_def beginPacket_again_def
    by (auto simp: tx_ok_def tx_pending_def Let_def split: if_splits option.splits)
  obtain u2 ps where u2: "udp_write_all net xs u1 = Some (length xs, u2)" "tx_ok u2" "same_peer u1 u2"
      "sent u2 = sent u1 @ datagrams u1 ps" "\<forall>p\<in>set ps. length p = 1460" "concat ps @ tx_pending u2 = tx_pending u1 @ xs"
    using udp_write_all_correct [OF u1(1)] by blast
  let ?u3 = "u2\<lparr>sent := sent u2 @ datagrams u2 [tx_pending u2]\<rparr>"
  have "endPacket ok u2 = Some (if ok then 1 else 0, ?u3)" using u2(2) by (rule endPacket_correct)
  moreover have "sent ?u3 = sent u @ map (\<lambda>p. (ip, port, p)) (ps @ [tx_pending u2])"
    using u2(3,4) u1 by (simp add: datagrams_def same_peer_def)
  moreover have "length (tx_pending u2) \<le> 1460" using u2(2) by (auto simp: tx_ok_def tx_pending_def)
  ultimately show ?thesis using u2(1,5,6) u1(2)
    by (intro exI [of _ u2] exI [of _ ?u3] exI [of _ "ps @ [tx_pending u2]"]) simp
qed

text \<open>Two thousand bytes: they leave in more than one datagram.\<close>

theorem udp_sends_data_witness:
  "\<exists>u2 u3 ps. udp_write_all (\<lambda>_. True) (replicate 2000 7) (snd (beginPacket (\<lambda>_. 0) 3 7 80 new_WiFiUDP)) = Some (2000, u2) \<and>
     endPacket True u2 = Some (1, u3) \<and> sent u3 = map (\<lambda>p. (7, 80, p)) ps \<and> concat ps = replicate 2000 7 \<and> 2 \<le> length ps"
proof -
  define u1 where "u1 = snd (beginPacket (\<lambda>_. 0) 3 7 80 new_WiFiUDP)"
  have b: "beginPacket (\<lambda>_. 0) 3 7 80 new_WiFiUDP = (1, u1)"
    by (simp add: u1_def beginPacket_def beginPacket_again_def new_WiFiUDP_def del: upt_Suc)
  have new: "tx_buffer new_WiFiUDP = None" "sent new_WiFiUDP = []" by (simp_all add: new_WiFiUDP_def)
  have "\<And>m. tx_buffer new_WiFiUDP = Some m \<Longrightarrow> length m = 1460" by (simp add: new(1))
  from udp_sends_data [OF b this, of "\<lambda>_. True" "replicate 2000 7" True] obtain u2 u3 ps where
    ps: "udp_write_all (\<lambda>_. True) (replicate 2000 7) u1 = Some (length (replicate 2000 (7 :: u8)), u2)"
      "endPacket True u2 = Some (1, u3)"
      "sent u3 = map (\<lambda>p. (7, 80, p)) ps" "concat ps = replicate 2000 7" "ps \<noteq> []" "length (last ps) \<le> 1460"
    unfolding new(2) by auto
  have "2 \<le> length ps"
  proof (rule ccontr)
    assume "\<not> 2 \<le> length ps"
    then obtain p where "ps = [p]" using ps(5) by (cases ps) (auto simp: Suc_le_eq)
    with ps(4,6) show False by auto
  qed
  with ps(1-4) show ?thesis unfolding u1_def [symmetric] by auto
qed

section \<open>What is received\<close>

text \<open>A program that reads a packet in pieces of its own choice.\<close>

fun udp_reads :: "nat list \<Rightarrow> WiFiUDP \<Rightarrow> (u8 list \<times> WiFiUDP) option" where
  "udp_reads [] u = Some ([], u)"
| "udp_reads (n # ns) u = Option.bind (udp_read n u) (\<lambda>(cs, u).
     Option.bind (udp_reads ns u) (\<lambda>(ds, u). Some (cs @ ds, u)))"

definition rx_holds :: "u8 list \<Rightarrow> WiFiUDP \<Rightarrow> bool" where
  "rx_holds cs u \<longleftrightarrow> (case rx_buffer u of None \<Rightarrow> cs = [] | Some b \<Rightarrow> cb_inv b \<and> cb_contents b = cs \<and> cs \<noteq> [])"

lemma udp_read_holds:
  assumes "rx_holds cs u"
  shows "\<exists>u'. udp_read n u = Some (take n cs, u') \<and> rx_holds (drop n cs) u'"
proof (cases "rx_buffer u")
  case None
  then show ?thesis using assms by (auto simp: rx_holds_def udp_read_def)
next
  case (Some b)
  then have b: "cb_inv b" "cb_contents b = cs" using assms by (auto simp: rx_holds_def)
  obtain b' where b': "cb_read n b = Some (take n cs, b')" "cb_inv b'" "cb_contents b' = drop n cs"
    using cb.get [OF b(1), of n] b(2) by auto
  then show ?thesis using Some cb_available_contents [OF b'(2)]
    by (auto simp: rx_holds_def udp_read_def drop_empty_def)
qed

lemma udp_reads_holds:
  "rx_holds cs u \<Longrightarrow> \<exists>u'. udp_reads ns u = Some (take (sum_list ns) cs, u') \<and> rx_holds (drop (sum_list ns) cs) u'"
proof (induction ns arbitrary: cs u)
  case (Cons n ns)
  obtain v where v: "udp_read n u = Some (take n cs, v)" "rx_holds (drop n cs) v"
    using udp_read_holds [OF Cons.prems] by blast
  show ?case using Cons.IH [OF v(2)] v(1) by (auto simp: take_add add.commute)
qed simp

lemma parsePacket_holds:
  assumes "rx_buffer u = None" "buf \<noteq> []"
  shows "\<exists>u'. parsePacket junk (Some (buf, ip, port)) u = Some (length buf, u') \<and> rx_holds buf u' \<and>
    remote_ip u' = ip \<and> remote_port u' = port"
proof -
  have "length (cb_contents (new_cbuf junk (length buf))) + length buf \<le> cb_size (new_cbuf junk (length buf)) - 1"
    by (simp add: new_cbuf_correct)
  from cb.room_for_all [OF new_cbuf_correct(1) this] obtain b where
    "cb_write buf (new_cbuf junk (length buf)) = Some (length buf, b)" "cb_inv b" "cb_contents b = buf"
    by (auto simp: new_cbuf_correct)
  then show ?thesis using assms by (simp add: parsePacket_def rx_holds_def)
qed

text \<open>
  A datagram that \<open>parsePacket\<close> accepts can be read in pieces of any sizes: the pieces are the
  payload in order, nothing is read twice or lost, and the buffer is given up exactly when the whole
  payload has been read, so that the next datagram can be received.
\<close>

theorem udp_receives_data:
  assumes "rx_buffer u = None" and "buf \<noteq> []" and "parsePacket junk (Some (buf, ip, port)) u = Some (n, u1)"
  shows "n = length buf \<and> udp_available u1 = length buf \<and>
    (\<exists>u2. udp_reads ns u1 = Some (take (sum_list ns) buf, u2) \<and> udp_available u2 = length buf - sum_list ns \<and>
      (rx_buffer u2 = None \<longleftrightarrow> length buf \<le> sum_list ns))"
proof -
  have u1: "n = length buf" "rx_holds buf u1"
    using parsePacket_holds [OF assms(1,2), of junk ip port] assms(3) by auto
  have avail: "udp_available v = length cs" "rx_buffer v = None \<longleftrightarrow> cs = []" if "rx_holds cs v" for cs v
    using that cb_available_contents by (auto simp: rx_holds_def udp_available_def split: option.splits)
  show ?thesis using udp_reads_holds [OF u1(2), of ns] u1 avail by fastforce
qed

theorem udp_receives_data_witness:
  "\<exists>u1 u2. parsePacket (\<lambda>_. 0) (Some ([1, 2, 3], 7, 80)) new_WiFiUDP = Some (3, u1) \<and>
     udp_reads [1, 2] u1 = Some ([1, 2, 3], u2) \<and> rx_buffer u2 = None"
proof -
  have "rx_buffer new_WiFiUDP = None" by (simp add: new_WiFiUDP_def)
  moreover obtain u1 where "parsePacket (\<lambda>_. 0) (Some ([1, 2, 3], 7, 80)) new_WiFiUDP = Some (3, u1)"
    using parsePacket_holds [OF calculation, of "[1, 2, 3]" "\<lambda>_. 0" 7 80] by auto
  ultimately show ?thesis using udp_receives_data [of new_WiFiUDP "[1, 2, 3]" "\<lambda>_. 0" 7 80 3 u1 "[1, 2]"] by auto
qed

text \<open>
  An empty datagram blocks the socket: \<open>parsePacket\<close> stores it and returns 0, the value for
  ``no packet'', and from then on every call returns 0 without receiving, whatever arrives, until the
  program reads or flushes although nothing is available.
\<close>

theorem udp_empty_datagram_blocks:
  assumes "rx_buffer u = None"
  shows "\<exists>u1. parsePacket junk (Some ([], ip, port)) u = Some (0, u1) \<and> udp_available u1 = 0 \<and>
    foldM (\<lambda>recv u. map_option snd (parsePacket junk recv u)) recvs u1 = Some u1 \<and>
    (\<forall>recv. parsePacket junk recv u1 = Some (0, u1))"
proof -
  obtain b where b: "cb_write [] (new_cbuf junk 0) = Some (0, b)" "cb_inv b" "cb_contents b = []"
    using cb.put [OF new_cbuf_correct(1), of "[]" junk 0] by (auto simp: new_cbuf_correct)
  define u1 where "u1 = u\<lparr>remote_ip := ip, remote_port := port, rx_buffer := Some b\<rparr>"
  have "parsePacket junk (Some ([], ip, port)) u = Some (0, u1)"
    using assms b(1) by (simp add: parsePacket_def u1_def)
  moreover have again: "parsePacket junk recv u1 = Some (0, u1)" for recv by (simp add: parsePacket_def u1_def)
  moreover have "foldM (\<lambda>recv u. map_option snd (parsePacket junk recv u)) recvs u1 = Some u1"
    by (induction recvs) (simp_all add: again)
  moreover have "udp_available u1 = 0" using cb_available_contents [OF b(2)] b(3) by (simp add: u1_def udp_available_def)
  ultimately show ?thesis by blast
qed

theorem udp_empty_datagram_blocks_witness:
  "\<exists>u1. parsePacket (\<lambda>_. 0) (Some ([], 7, 80)) new_WiFiUDP = Some (0, u1) \<and>
     parsePacket (\<lambda>_. 0) (Some ([1, 2, 3], 7, 80)) u1 = Some (0, u1)"
proof -
  have "rx_buffer new_WiFiUDP = None" by (simp add: new_WiFiUDP_def)
  from udp_empty_datagram_blocks [OF this, of "\<lambda>_. 0" 7 80 "[]"] show ?thesis by blast
qed

end
