(* ===== verification/StreamText.thy ===== *)
theory StreamText
  imports StreamLaws PrintText WifiUdp
begin

text \<open>
  The sources of the repository for the operations of \<open>StreamParse\<close>: strings and received datagrams.  Both deliver
  what they hold at once and nothing afterwards; the clock advances by a millisecond with every reading.  What is
  searched, parsed, read and printed on them is stated here.
\<close>

section \<open>Sources that do not wait\<close>

definition clocked :: "('a \<Rightarrow> (int \<times> 'a) option) \<Rightarrow> ('a \<Rightarrow> int option) \<Rightarrow> ('a \<times> u32) source" where
  "clocked get look =
     \<lparr>src_read = (\<lambda>(a, t). map_option (\<lambda>(c, a). (c, (a, t))) (get a)),
      src_peek = (\<lambda>(a, t). map_option (\<lambda>c. (c, (a, t))) (look a)),
      src_millis = (\<lambda>(a, t). (t, (a, t + 1)))\<rparr>"

locale immediate_source =
  fixes get :: "'a \<Rightarrow> (int \<times> 'a) option" and look :: "'a \<Rightarrow> int option" and timeout :: u32
    and holds :: "'a \<Rightarrow> string" and good :: "'a \<Rightarrow> bool"
  assumes get: "good a \<Longrightarrow> \<exists>a'. get a = Some (next_code (holds a), a') \<and> good a' \<and> holds a' = tl (holds a)"
    and look: "good a \<Longrightarrow> look a = Some (next_code (holds a))"
begin

text \<open>An empty source is polled until the time is over.\<close>

lemma polls_until_timeout:
  assumes poll: "\<And>a t. good a \<Longrightarrow> holds a = [] \<Longrightarrow> \<exists>a'. poll (a, t) = Some (- 1, (a', t)) \<and> good a' \<and> holds a' = []"
  shows "good a \<Longrightarrow> holds a = [] \<Longrightarrow>
    \<exists>a' t'. timed_loop poll (\<lambda>(a, t). (t, (a, t + 1))) start timeout (a, t) = Some (- 1, (a', t')) \<and> good a' \<and> holds a' = []"
proof (induction "unat timeout - unat (t - start)" arbitrary: a t rule: less_induct)
  case less
  obtain a1 where a1: "poll (a, t) = Some (- 1, (a1, t))" "good a1" "holds a1 = []" using poll [OF less.prems] by blast
  show ?case
  proof (cases "t - start < timeout")
    case True
    have small: "unat timeout < 2 ^ 32" using unsigned_less [of timeout] by simp
    have "unat (t - start) < unat timeout" using True by (simp add: word_less_nat_alt)
    moreover have "unat (t + 1 - start) = unat (t - start) + 1"
    proof -
      have e: "t + 1 - start = (t - start) + 1" by simp
      have "unat (t - start) + unat (1 :: u32) < 2 ^ LENGTH(32)"
        using \<open>unat (t - start) < unat timeout\<close> small by simp
      then have "unat ((t - start) + 1) = unat (t - start) + unat (1 :: u32)" using unat_add_lem [of "t - start" 1] by blast
      then show ?thesis unfolding e by simp
    qed
    ultimately have "unat timeout - unat (t + 1 - start) < unat timeout - unat (t - start)" by linarith
    then obtain a' t' where "timed_loop poll (\<lambda>(a, t). (t, (a, t + 1))) start timeout (a1, t + 1) = Some (- 1, (a', t'))"
      "good a'" "holds a' = []"
      using less.hyps a1 by blast
    then show ?thesis using a1(1) True by (subst timed_loop.simps) auto
  next
    case False
    then show ?thesis using a1 by (subst timed_loop.simps) auto
  qed
qed

lemma timedRead_now:
  assumes a: "good a"
  shows "\<exists>a' t'. timedRead (clocked get look) timeout (a, t) = Some (next_code (holds a), (a', t')) \<and> good a' \<and> holds a' = tl (holds a)"
proof (cases "holds a")
  case Nil
  have "\<exists>a'. (\<lambda>(a, t). map_option (\<lambda>(c, a). (c, (a, t))) (get a)) (a, t) = Some (- 1, (a', t)) \<and> good a' \<and> holds a' = []"
    if "good a" "holds a = []" for a :: 'a and t :: u32
    using get [of a] that by auto
  from polls_until_timeout [OF this a Nil, of t "t + 1"] show ?thesis using Nil by (simp add: timedRead_def clocked_def)
next
  case (Cons d ds)
  then show ?thesis using get [OF a] by (auto simp: timedRead_def clocked_def timed_loop.simps)
qed

lemma timedPeek_now:
  assumes a: "good a"
  shows "\<exists>a' t'. timedPeek (clocked get look) timeout (a, t) = Some (next_code (holds a), (a', t')) \<and> good a' \<and> holds a' = holds a"
proof (cases "holds a")
  case Nil
  have "\<exists>a'. (\<lambda>(a, t). map_option (\<lambda>c. (c, (a, t))) (look a)) (a, t) = Some (- 1, (a', t)) \<and> good a' \<and> holds a' = []"
    if "good a" "holds a = []" for a :: 'a and t :: u32
    using look [of a] that by auto
  from polls_until_timeout [OF this a Nil, of t "t + 1"] show ?thesis using Nil by (simp add: timedPeek_def clocked_def)
next
  case (Cons d ds)
  then show ?thesis using look [OF a] a by (auto simp: timedPeek_def clocked_def timed_loop.simps)
qed

end

sublocale immediate_source \<subseteq> byte_source "clocked get look" timeout "holds \<circ> fst" "good \<circ> fst"
proof
  fix s :: "'a \<times> u32" and c s'
  obtain a t where s: "s = (a, t)" by (metis surj_pair)
  assume "(good \<circ> fst) s"
  then have a: "good a" by (simp add: s)
  show "\<exists>s'. timedRead (clocked get look) timeout s = Some (next_code ((holds \<circ> fst) s), s') \<and> (good \<circ> fst) s' \<and>
      (holds \<circ> fst) s' = tl ((holds \<circ> fst) s)"
    using timedRead_now [OF a, of t] by (auto simp: s)
  show "\<exists>s'. timedPeek (clocked get look) timeout s = Some (next_code ((holds \<circ> fst) s), s') \<and> (good \<circ> fst) s' \<and>
      (holds \<circ> fst) s' = (holds \<circ> fst) s"
    using timedPeek_now [OF a, of t] by (auto simp: s)
  assume peeked: "timedPeek (clocked get look) timeout s = Some (c, s')" "c \<ge> 0"
  then obtain a' t' where s': "s' = (a', t')" "c = next_code (holds a)" "good a'" "holds a' = holds a"
    using timedPeek_now [OF a, of t] by (auto simp: s)
  then show "\<exists>s''. src_read (clocked get look) s' = Some (c, s'') \<and> (good \<circ> fst) s'' \<and> (holds \<circ> fst) s'' = tl ((holds \<circ> fst) s')"
    using get [OF s'(3)] by (auto simp: clocked_def)
qed

section \<open>Strings as sources\<close>

definition text_in :: "String \<Rightarrow> string" where
  "text_in s = (case buf s of None \<Rightarrow> [] | Some m \<Rightarrow> take (len s) m)"

definition is_text :: "String \<Rightarrow> bool" where
  "is_text s \<longleftrightarrow> represents s (text_in s)"

lemma represents_text_in: "represents s x \<Longrightarrow> text_in s = x \<and> is_text s"
proof -
  assume s: "represents s x"
  have "text_in s = x"
  proof (cases "buf s")
    case None
    then show ?thesis using represents_None [OF s None] by (simp add: text_in_def)
  next
    case (Some m)
    then obtain rest where "m = x @ NUL # rest" using represents_Some [OF s Some] by blast
    then show ?thesis using Some represents_len [OF s] by (simp add: text_in_def)
  qed
  then show ?thesis using s by (simp add: is_text_def)
qed

lemma string_source:
  assumes "is_text s"
  shows "\<exists>s'. ss_read s = Some (next_code (text_in s), s') \<and> is_text s' \<and> text_in s' = tl (text_in s)"
    and "ss_peek s = Some (next_code (text_in s))"
proof -
  have s: "represents s (text_in s)" using assms by (simp add: is_text_def)
  note l = represents_len [OF s]
  show "\<exists>s'. ss_read s = Some (next_code (text_in s), s') \<and> is_text s' \<and> text_in s' = tl (text_in s)"
  proof (cases "text_in s")
    case Nil
    then show ?thesis using l assms by (simp add: ss_read_def)
  next
    case (Cons c cs)
    obtain s' where s': "remove 0 1 s = Some s'" "represents s' cs" using remove_removes [OF s, of 0 1] Cons by auto
    have "charAt s 0 = Some c"
      using represents_buf [OF s] represents_Some [OF s] l Cons by (fastforce simp: charAt_def rd_def)
    then show ?thesis using s' represents_text_in [OF s'(2)] Cons l by (auto simp: ss_read_def)
  qed
  show "ss_peek s = Some (next_code (text_in s))"
  proof (cases "text_in s")
    case Nil
    then show ?thesis using l by (simp add: ss_peek_def)
  next
    case (Cons c cs)
    have "charAt s 0 = Some c"
      using represents_buf [OF s] represents_Some [OF s] l Cons by (fastforce simp: charAt_def rd_def)
    then show ?thesis using Cons l by (simp add: ss_peek_def)
  qed
qed

interpretation ss: immediate_source ss_read ss_peek timeout text_in is_text for timeout
  by unfold_locales (use string_source in auto)

interpretation string_bytes: byte_source "clocked ss_read ss_peek" timeout "text_in \<circ> fst" "is_text \<circ> fst" for timeout
  by unfold_locales

abbreviation string_stream :: "(String \<times> u32) source" where
  "string_stream \<equiv> clocked ss_read ss_peek"

section \<open>Searching a stream\<close>

text \<open>
  C22.  \<open>find\<close> on a stream returns: if it reports the text then the text was there and the stream continues behind it;
  and if the first character of the text occurs in it only once, it finds the first occurrence, or reads the whole
  stream when there is none.
\<close>
theorem stream_find:
  assumes s: "represents s x" and y: "y \<noteq> []" "is_cstr y"
  shows "\<exists>found s' t'. find_text string_stream timeout y (s, t) = Some (found, (s', t')) \<and>
    (\<exists>rest. represents s' rest \<and> (found \<longrightarrow> (\<exists>before. x = before @ y @ rest)) \<and>
      (hd y \<notin> set (tl y) \<longrightarrow> (case strstr x y of None \<Rightarrow> \<not> found \<and> rest = []
         | Some k \<Rightarrow> found \<and> rest = drop (k + length y) x)))"
proof -
  have t: "text_in s = x" "is_text s" using represents_text_in [OF s] by simp_all
  have "find_text string_stream timeout y (s, t) = findUntil_loop string_stream timeout (y @ [NUL]) (length y) [NUL] (length []) 0 0 (s, t)"
    using y by (cases y) (simp_all add: find_text_def findUntil_def findUntil_len_def rd_def)
  then obtain s' where s': "find_text string_stream timeout y (s, t) = Some (fst (scan y [] 0 0 x), s')"
    "is_text (fst s')" "text_in (fst s') = snd (scan y [] 0 0 x)"
    using ss.findUntil_scan [where timeout = timeout and xs = y and m = "y @ [NUL]" and ts = "[]" and n = "[NUL]" and s = "(s, t)" and i = 0 and j = 0] y t by auto
  obtain found rest where scan: "scan y [] 0 0 x = (found, rest)" by (metis surj_pair)
  have "found \<Longrightarrow> \<exists>before. x = before @ y @ rest"
    using scan_sound [of y 0 "[]" 0 x rest] y(1) scan by auto
  moreover have "hd y \<notin> set (tl y) \<Longrightarrow> (found, rest) = first_match y x"
    using scan_first [of y x 0] y(1) scan represents_cstr [OF s] by simp
  then have "hd y \<notin> set (tl y) \<Longrightarrow> (case strstr x y of None \<Rightarrow> \<not> found \<and> rest = []
         | Some k \<Rightarrow> found \<and> rest = drop (k + length y) x)"
    by (auto simp: first_match_def split: option.splits)
  moreover have "represents (fst s') rest" using s'(2,3) scan by (simp add: is_text_def)
  ultimately show ?thesis using s'(1) scan by (metis fst_conv prod.collapse)
qed

lemma stream_find_witness:
  "\<exists>s' t'. find_text string_stream 1000 ''b='' (sample ''a=1;b=2'' 0, 7) = Some (True, (s', t')) \<and> represents s' ''2''"
proof -
  have "strstr ''a=1;b=2'' ''b='' = Some 4" by code_simp
  then show ?thesis
    using stream_find [of "sample ''a=1;b=2'' 0" "''a=1;b=2''" "''b=''" 1000 7] represents_sample [of "''a=1;b=2''" 0]
    by (auto simp: eval_nat_numeral)
qed

text \<open>
  The search gives up a partial match altogether when it fails: \<open>aab\<close> is not found in \<open>aaab\<close>, although it is
  there, and the whole stream is read.
\<close>
theorem find_misses:
  "\<exists>s' t'. find_text string_stream timeout ''aab'' (sample ''aaab'' 0, t) = Some (False, (s', t')) \<and> represents s' [] \<and>
     occurs_at ''aab'' ''aaab'' 1"
proof -
  have t: "text_in (sample ''aaab'' 0) = ''aaab''" "is_text (sample ''aaab'' 0)"
    using represents_text_in [OF represents_sample [of "''aaab''" 0]] by simp_all
  have scan: "scan ''aab'' [] 0 0 ''aaab'' = (False, [])" by code_simp
  have "find_text string_stream timeout ''aab'' (sample ''aaab'' 0, t) =
      findUntil_loop string_stream timeout (''aab'' @ [NUL]) (length ''aab'') [NUL] (length []) 0 0 (sample ''aaab'' 0, t)"
    by (simp add: find_text_def findUntil_def findUntil_len_def rd_def)
  then obtain s' where "find_text string_stream timeout ''aab'' (sample ''aaab'' 0, t) = Some (False, s')" "is_text (fst s')" "text_in (fst s') = []"
    using ss.findUntil_scan [where timeout = timeout and xs = "''aab''" and m = "''aab'' @ [NUL]" and ts = "[]" and n = "[NUL]"
        and s = "(sample ''aaab'' 0, t)" and i = 0 and j = 0] t scan by auto
  moreover have "occurs_at ''aab'' ''aaab'' 1" by (simp add: occurs_at_def)
  ultimately show ?thesis by (metis is_text_def prod.collapse)
qed

section \<open>Reading numbers\<close>

text \<open>
  C23.  \<open>parseInt\<close> returns the number at the start of the stream, after everything that is neither a digit nor a minus
  sign, and leaves the stream behind its last digit; 0 if there is none.  From 48 below the largest number on it
  overflows: the character is added before 48 is subtracted.
\<close>
theorem stream_parseInt:
  assumes s: "represents s x" and x: "NO_SKIP_CHAR \<notin> set x"
  shows "case number_at x of (v, rest) \<Rightarrow>
    if \<bar>v\<bar> + 48 < 2 ^ 31 then \<exists>s' t'. parseInt string_stream timeout (s, t) = Some (v, (s', t')) \<and> represents s' rest
    else parseInt string_stream timeout (s, t) = None"
proof -
  have t: "text_in s = x" "is_text s" using represents_text_in [OF s] by simp_all
  obtain v rest where v: "number_at x = (v, rest)" by (metis surj_pair)
  show ?thesis
    using ss.parseInt_reads [where timeout = timeout and s = "(s, t)"] t x unfolding v by (auto simp: v is_text_def)
qed

lemma stream_parseInt_witness:
  "(\<exists>s' t'. parseInt string_stream 1000 (sample ''t=-12C'' 0, 7) = Some (- 12, (s', t')) \<and> represents s' ''C'') \<and>
   parseInt string_stream 1000 (sample ''2147483647'' 0, 7) = None"
proof -
  have n: "number_at ''t=-12C'' = (- 12, ''C'')" "number_at ''2147483647'' = (2147483647, [])"
    by (simp_all add: number_at_def skip_to_number_def is_digit_def digits_value_def)
  have skip: "NO_SKIP_CHAR \<notin> set ''t=-12C''" "NO_SKIP_CHAR \<notin> set ''2147483647''"
    by code_simp+
  have s: "represents (sample ''t=-12C'' 0) ''t=-12C''" "represents (sample ''2147483647'' 0) ''2147483647''"
    by (rule represents_sample, simp)+
  show ?thesis
    using stream_parseInt [OF s(1) skip(1), of 1000 7] stream_parseInt [OF s(2) skip(2), of 1000 7]
    unfolding n prod.case by simp
qed

section \<open>Printing to a stream\<close>

lemma ss_write_buf_appends:
  assumes s: "represents s x" and y: "is_cstr y" "y \<noteq> []" and heap: "\<And>n. heap n"
  shows "\<exists>s'. ss_write_buf heap junk y s = Some (length y, s') \<and> represents s' (x @ y)"
proof -
  obtain r s1 where r: "reserve heap junk (len s + length y + 1) s = Some (r, s1)" "represents s1 x" "r"
    "buf s1 \<noteq> None" "len s + length y + 1 \<le> capacity s1"
    using reserve_meets [OF s, of heap junk "len s + length y + 1"] heap by blast
  then obtain m where m: "buf s1 = Some m" by blast
  obtain rest where rest: "m = x @ NUL # rest" "capacity s1 = length x + length rest"
    using represents_Some [OF r(2) m] by blast
  have l: "len s = length x" "len s1 = length x" using represents_len s r(2) by blast+
  have fits: "length y < length rest" using r(5) rest(2) l by simp
  have w: "mem_write m (length x) y = Some (x @ y @ drop (length y) (NUL # rest))"
    using rest fits by (simp add: cmem)
  obtain c cs where c: "drop (length y) (NUL # rest) = c # cs" using fits by (cases "drop (length y) (NUL # rest)") auto
  have "wr (x @ y @ c # cs) (length x + length y) NUL = Some (x @ y @ NUL # cs)"
    by (simp add: wr_def list_update_append)
  then have "ss_write_buf heap junk y s =
      Some (length y, s1\<lparr>len := length x + length y, buf := Some (x @ y @ NUL # cs)\<rparr>)" (is "_ = Some (_, ?s)")
    using r m w c l y(2) by (simp add: ss_write_buf_def)
  moreover have "length cs = length rest - length y" using arg_cong [OF c, of length] fits by simp
  then have "represents ?s (x @ y)"
    using represents_cstr [OF s] y(1) rest(2) fits by (intro representsI [where rest = cs]) simp_all
  ultimately show ?thesis by blast
qed

lemma ss_write_appends:
  assumes s: "represents s x" and c: "c \<noteq> NUL" and heap: "\<And>n. heap n"
  shows "\<exists>s'. ss_write heap junk c s = Some (1, s') \<and> represents s' (x @ [c])"
proof -
  have "cstr [c, NUL] = [c]" using c by (simp add: cstr_def)
  then show ?thesis using concat_adds [OF s, of "[c]" heap junk] c heap by (auto simp: ss_write_def concat_char_def split: if_splits)
qed

lemma unat_of_int_small: "0 \<le> k \<Longrightarrow> k < 2 ^ 32 \<Longrightarrow> unat (word_of_int k :: u32) = nat k"
  by (simp add: unat_eq_nat_uint uint_word_of_int del: nat_uint_eq)

lemma print_long_appends:
  assumes s: "represents s x" and n: "- (2 ^ 31) < n" "n < 2 ^ 31" and heap: "\<And>k. heap k"
  shows "\<exists>s'. print_long (ss_sink heap junk) junk n 10 s = Some (length (dec_int n), s') \<and> represents s' (x @ dec_int n)"
proof (cases "n < 0")
  case True
  obtain s1 where s1: "ss_write heap junk CHR ''-'' s = Some (1, s1)" "represents s1 (x @ ''-'')"
    using ss_write_appends [OF s, of "CHR ''-''" heap junk] heap by auto
  obtain s2 where s2: "ss_write_buf heap junk (dec (nat (- n))) s1 = Some (length (dec (nat (- n))), s2)"
    "represents s2 ((x @ ''-'') @ dec (nat (- n)))"
    using ss_write_buf_appends [OF s1(2), of "dec (nat (- n))" heap junk] heap by auto
  have u: "unat (word_of_int (- n) :: u32) = nat (- n)"
    using True n by (intro unat_of_int_small) simp_all
  show ?thesis
    using True n s1 s2 printNumber_digits [of 10 "ss_sink heap junk" junk "word_of_int (- n)" s1] u
    by (simp add: print_long_def s32_def ss_sink_def digits_in_dec dec_int_def)
next
  case False
  obtain s2 where s2: "ss_write_buf heap junk (dec (nat n)) s = Some (length (dec (nat n)), s2)" "represents s2 (x @ dec (nat n))"
    using ss_write_buf_appends [OF s, of "dec (nat n)" heap junk] heap by auto
  have u: "unat (word_of_int n :: u32) = nat n"
    using False n by (intro unat_of_int_small) simp_all
  show ?thesis
    using False s2 printNumber_digits [of 10 "ss_sink heap junk" junk "word_of_int n" s] u
    by (simp add: print_long_def ss_sink_def digits_in_dec dec_int_def)
qed

lemma number_at_dec_int:
  assumes x: "\<forall>c\<in>set x. \<not> is_digit c \<and> c \<noteq> CHR ''-''" and y: "y = [] \<or> \<not> is_digit (hd y)"
  shows "number_at (x @ dec_int n @ y) = (n, y)"
proof -
  have d: "takeWhile is_digit (dec k @ y) = dec k" "dropWhile is_digit (dec k @ y) = y" for k
    using is_digit_dec [of _ k] y by (cases y; simp add: takeWhile_append2 dropWhile_append2)+
  have nd: "\<not> is_digit CHR ''-''" by (simp add: is_digit_def)
  have skip: "skip_to_number (x @ dec_int n @ y) = dec_int n @ y"
  proof -
    have "is_digit (hd (dec k))" for k by (rule is_digit_dec [of _ k]) simp
    then have "dropWhile (\<lambda>c. \<not> is_digit c \<and> c \<noteq> CHR ''-'') (dec k @ y) = dec k @ y" for k
      by (cases "dec k") (auto dest: arg_cong [where f = hd], metis list.sel(1))
    then show ?thesis using x by (simp add: skip_to_number_def dropWhile_append2 dec_int_def)
  qed
  show ?thesis
  proof (cases "n < 0")
    case True
    then show ?thesis unfolding number_at_def skip using d by (simp add: dec_int_def digits_value_dec)
  next
    case False
    then obtain c cs where c: "dec (nat n) = c # cs" by (cases "dec (nat n)") auto
    have "is_digit c" using is_digit_dec [of c "nat n"] c by simp
    then have "c \<noteq> CHR ''-''" using nd by auto
    then show ?thesis using d [of "nat n"] False c digits_value_dec [of "nat n"] 
      unfolding number_at_def skip by (simp add: dec_int_def)
  qed
qed

text \<open>
  C24.  A number printed to a stream is the number that \<open>parseInt\<close> reads from it, if it is at least 48 below the
  bound \<open>2 ^ 31\<close> (in absolute value, closer numbers overflow the sum in \<open>parseInt\<close>) and the memory for the string
  never runs out: whatever text without digits and minus signs stands before it is skipped, and the stream is empty
  afterwards.
\<close>
theorem print_then_parse:
  assumes s: "represents s x" and x: "\<forall>c\<in>set x. \<not> is_digit c \<and> c \<noteq> CHR ''-'' \<and> c \<noteq> NO_SKIP_CHAR"
    and n: "\<bar>n\<bar> + 48 < 2 ^ 31" and heap: "\<forall>k. heap k"
  shows "\<exists>s1 s2 t'. print_long (ss_sink heap junk) junk n 10 s = Some (length (dec_int n), s1) \<and> represents s1 (x @ dec_int n) \<and>
    parseInt string_stream timeout (s1, t) = Some (n, (s2, t')) \<and> represents s2 []"
proof -
  have "\<bar>n\<bar> < 2 ^ 31" using n by simp
  then have n': "- (2 ^ 31) < n" "n < 2 ^ 31" unfolding abs_less_iff by linarith+
  obtain s1 where s1: "print_long (ss_sink heap junk) junk n 10 s = Some (length (dec_int n), s1)" "represents s1 (x @ dec_int n)"
    using print_long_appends [where heap = heap and junk = junk and n = n, OF s] n' heap by blast
  have d: "NO_SKIP_CHAR \<notin> set (dec k)" for k
    using is_digit_dec [of NO_SKIP_CHAR k] by (auto simp: is_digit_def NO_SKIP_CHAR_def)
  have skip: "NO_SKIP_CHAR \<notin> set (x @ dec_int n)"
  proof -
    have "NO_SKIP_CHAR \<noteq> CHR ''-''" by code_simp
    then show ?thesis using x d by (auto simp: dec_int_def)
  qed
  have "number_at (x @ dec_int n) = (n, [])" using number_at_dec_int [of x "[]" n] x by simp
  moreover have t: "text_in s1 = x @ dec_int n" "is_text s1" using represents_text_in [OF s1(2)] by simp_all
  ultimately have "\<exists>s'. parseInt string_stream timeout (s1, t) = Some (n, s') \<and> is_text (fst s') \<and> text_in (fst s') = []"
    using ss.parseInt_reads [where timeout = timeout and s = "(s1, t)"] skip n by simp
  then show ?thesis using s1 by (metis is_text_def prod.collapse)
qed

lemma print_then_parse_witness:
  "\<exists>s1 s2 t'. print_long (ss_sink (\<lambda>_. True) (\<lambda>_. NUL)) (\<lambda>_. NUL) (- 25) 10 (sample ''t='' 0) = Some (3, s1) \<and>
     parseInt string_stream 1000 (s1, 0) = Some (- 25, (s2, t')) \<and> represents s2 []"
proof -
  have "\<forall>c\<in>set ''t=''. \<not> is_digit c \<and> c \<noteq> CHR ''-'' \<and> c \<noteq> NO_SKIP_CHAR" by code_simp
  moreover have "length (dec_int (- 25)) = 3" by code_simp
  ultimately show ?thesis
    using print_then_parse [OF represents_sample [of "''t=''" 0], of "- 25" "\<lambda>_. True" "\<lambda>_. NUL" 1000 0] by auto
qed

section \<open>Datagrams as sources\<close>

definition chr :: "u8 \<Rightarrow> char" where
  "chr b = char_of (unat b)"

lemma code_chr: "code (chr b) = uint b"
proof -
  have "unat b < 256" using unsigned_less [of b] by simp
  then have "(of_char (chr b) :: nat) = unat b" by (simp add: chr_def)
  then show ?thesis by (simp add: code_int)
qed

lemma chr_eq: "chr a = chr b \<longleftrightarrow> a = b"
  using code_eq [of "chr a" "chr b"] by (simp add: code_chr word_uint_eq_iff)

definition received :: "WiFiUDP \<Rightarrow> u8 list" where
  "received u = (case rx_buffer u of None \<Rightarrow> [] | Some b \<Rightarrow> cb_contents b)"

definition udp_text :: "WiFiUDP \<Rightarrow> string" where
  "udp_text u = map chr (received u)"

definition rx_ok :: "WiFiUDP \<Rightarrow> bool" where
  "rx_ok u \<longleftrightarrow> rx_holds (received u) u"

lemma rx_holds_received: "rx_holds cs u \<longleftrightarrow> rx_ok u \<and> received u = cs"
  by (auto simp: rx_holds_def rx_ok_def received_def split: option.splits)

lemma udp_source:
  assumes "rx_ok u"
  shows "\<exists>u'. udp_read_char u = Some (next_code (udp_text u), u') \<and> rx_ok u' \<and> udp_text u' = tl (udp_text u)"
    and "udp_peek u = Some (next_code (udp_text u))"
proof -
  have r: "rx_holds (received u) u" using assms by (simp add: rx_ok_def)
  have both: "(\<exists>u'. udp_read_char u = Some (next_code (udp_text u), u') \<and> rx_holds (tl (received u)) u') \<and>
    udp_peek u = Some (next_code (udp_text u))"
  proof (cases "rx_buffer u")
    case None
    then show ?thesis using r by (simp add: udp_read_char_def udp_peek_def udp_text_def received_def)
  next
    case (Some b)
    then have b: "cb_inv b" "cb_contents b = received u" "received u \<noteq> []" using r by (auto simp: rx_holds_def)
    then obtain c cs where c: "received u = c # cs" by (cases "received u") auto
    obtain b' where b': "cb_peek_char b = Some (uint c)" "cb_read_char b = Some (uint c, b')" "cb_inv b'" "cb_contents b' = cs"
      using cb_read_char_correct [OF b(1)] b(2) c by auto
    then show ?thesis using Some c cb_available_contents [OF b'(3)]
      by (auto simp: udp_read_char_def udp_peek_def udp_text_def code_chr drop_empty_def rx_holds_def)
  qed
  then show "\<exists>u'. udp_read_char u = Some (next_code (udp_text u), u') \<and> rx_ok u' \<and> udp_text u' = tl (udp_text u)"
    by (auto simp: rx_holds_received udp_text_def map_tl)
  show "udp_peek u = Some (next_code (udp_text u))" using both by blast
qed

interpretation udp: immediate_source udp_read_char udp_peek timeout udp_text rx_ok for timeout
  by unfold_locales (use udp_source in auto)

lemma map_chr_inject: "map chr xs = map chr ys \<longleftrightarrow> xs = ys"
  by (rule inj_map_eq_map) (simp add: inj_def chr_eq)

text \<open>
  A received datagram can be read line by line: with enough memory \<open>readStringUntil\<close> returns the text before the
  terminator and leaves the bytes behind it, so that the next line starts there; without a terminator it returns
  the rest, and the buffer is given up.
\<close>
theorem udp_read_line:
  assumes u: "rx_holds cs u" and nz: "0 \<notin> set cs" and heap: "\<forall>n. heap n"
  shows "\<exists>line u' t'. readStringUntil (clocked udp_read_char udp_peek) timeout heap junk (chr sep) (u, t) = Some (line, (u', t')) \<and>
    represents line (map chr (takeWhile (\<lambda>b. b \<noteq> sep) cs)) \<and> rx_holds (tl (dropWhile (\<lambda>b. b \<noteq> sep) cs)) u'"
proof -
  have ok: "rx_ok u" "udp_text u = map chr cs" using u by (auto simp: rx_holds_received udp_text_def)
  have "chr 0 = NUL" by code_simp
  then have c: "is_cstr (map chr cs)" using nz by (auto simp: is_cstr_def chr_eq simp flip: \<open>chr 0 = NUL\<close>)
  have cut: "takeWhile (\<lambda>c. c \<noteq> chr sep) (map chr cs) = map chr (takeWhile (\<lambda>b. b \<noteq> sep) cs)"
    "tl (dropWhile (\<lambda>c. c \<noteq> chr sep) (map chr cs)) = map chr (tl (dropWhile (\<lambda>b. b \<noteq> sep) cs))"
    by (simp_all add: takeWhile_map dropWhile_map comp_def chr_eq map_tl)
  obtain line s' where "readStringUntil (clocked udp_read_char udp_peek) timeout heap junk (chr sep) (u, t) = Some (line, s')"
    "represents line (map chr (takeWhile (\<lambda>b. b \<noteq> sep) cs))" "rx_ok (fst s')" "udp_text (fst s') = map chr (tl (dropWhile (\<lambda>b. b \<noteq> sep) cs))"
    using udp.readStringUntil_takes [where timeout = timeout and s = "(u, t)" and heap = heap and junk = junk and t = "chr sep"] ok c heap
    by (auto simp: cut)
  then show ?thesis by (metis map_chr_inject prod.collapse rx_holds_received udp_text_def)
qed

lemma udp_read_line_witness:
  "\<exists>u1 line u2 t'. parsePacket (\<lambda>_. 0) (Some ([79, 75, 10, 49], 7, 80)) new_WiFiUDP = Some (4, u1) \<and>
     readStringUntil (clocked udp_read_char udp_peek) 1000 (\<lambda>_. True) (\<lambda>_. NUL) (chr 10) (u1, 0) = Some (line, (u2, t')) \<and>
     represents line ''OK'' \<and> rx_holds [49] u2"
proof -
  obtain u1 where u1: "parsePacket (\<lambda>_. 0) (Some ([79, 75, 10, 49], 7, 80)) new_WiFiUDP = Some (4, u1)"
    "rx_holds [79, 75, 10, 49] u1"
    using parsePacket_holds [of new_WiFiUDP "[79, 75, 10, 49]" "\<lambda>_. 0" 7 80] by (auto simp: new_WiFiUDP_def)
  have "map chr [79, 75] = ''OK''" by code_simp
  then show ?thesis
    using udp_read_line [OF u1(2), of "\<lambda>_. True" 1000 "\<lambda>_. NUL" 10 0] u1(1) by auto
qed

end
