(* ===== verification/M5Timer.thy ===== *)
theory M5Timer
  imports Prelude
begin

text \<open>
  The software timers of \<open>components/m5stack/src/utility/M5Timer.cpp\<close>.  The arrays of the object are
  lists of ten cells, an access outside them fails.  A callback is a value of the type \<open>'f\<close>; what it
  does when it is called, to the timers and to a world \<open>'w\<close>, is the argument \<open>call\<close>, so a callback may
  set, delete or disable timers while \<open>run\<close> is under way.  \<open>now\<close> is what \<open>millis\<close> returns.
\<close>

section \<open>The object\<close>

definition MAX_TIMERS :: nat where "MAX_TIMERS = 10"
definition RUN_FOREVER :: int where "RUN_FOREVER = 0"
definition RUN_ONCE :: int where "RUN_ONCE = 1"

datatype defcall = DONTRUN | RUNONLY | RUNANDDEL

record 'f timers =
  prev_millis :: "u32 list"
  callbacks :: "'f option list"
  delays :: "u32 list"
  maxNumRuns :: "int list"
  numRuns :: "int list"
  enabled :: "bool list"
  toBeCalled :: "defcall list"
  numTimers :: int

text \<open>The constructor leaves \<open>delays\<close>, \<open>maxNumRuns\<close> and \<open>toBeCalled\<close> as they are.\<close>

definition new_M5Timer :: "u32 \<Rightarrow> 'f timers \<Rightarrow> 'f timers" where
  "new_M5Timer now junk = junk\<lparr>enabled := replicate MAX_TIMERS False, callbacks := replicate MAX_TIMERS None,
     prev_millis := replicate MAX_TIMERS now, numRuns := replicate MAX_TIMERS 0, numTimers := 0\<rparr>"

section \<open>Slots\<close>

text \<open>The first slot without a callback.\<close>

definition findFirstFreeSlot :: "'f timers \<Rightarrow> int" where
  "findFirstFreeSlot t =
     (if numTimers t \<ge> int MAX_TIMERS then -1
      else case find (\<lambda>i. callbacks t ! i = None) [0..<MAX_TIMERS] of Some i \<Rightarrow> int i | None \<Rightarrow> -1)"

definition setTimer :: "u32 \<Rightarrow> u32 \<Rightarrow> 'f option \<Rightarrow> int \<Rightarrow> 'f timers \<Rightarrow> int \<times> 'f timers" where
  "setTimer now d f n t =
     (let freeTimer = findFirstFreeSlot t
      in if freeTimer < 0 then (-1, t)
         else case f of None \<Rightarrow> (-1, t)
              | Some _ \<Rightarrow>
                  let i = nat freeTimer in
                  (freeTimer,
                   t\<lparr>delays := (delays t)[i := d], callbacks := (callbacks t)[i := f],
                     maxNumRuns := (maxNumRuns t)[i := n], enabled := (enabled t)[i := True],
                     prev_millis := (prev_millis t)[i := now], numTimers := numTimers t + 1\<rparr>))"

definition setInterval :: "u32 \<Rightarrow> u32 \<Rightarrow> 'f option \<Rightarrow> 'f timers \<Rightarrow> int \<times> 'f timers" where
  "setInterval now d f t = setTimer now d f RUN_FOREVER t"

definition setTimeout :: "u32 \<Rightarrow> u32 \<Rightarrow> 'f option \<Rightarrow> 'f timers \<Rightarrow> int \<times> 'f timers" where
  "setTimeout now d f t = setTimer now d f RUN_ONCE t"

text \<open>
  The operations on a timer check the upper bound of the number only: a negative one, such as the
  \<open>-1\<close> of a failed \<open>setTimer\<close>, leaves the arrays.
\<close>

definition slot_index :: "int \<Rightarrow> nat option" where
  "slot_index i = (if 0 \<le> i \<and> i < int MAX_TIMERS then Some (nat i) else None)"

definition deleteTimer :: "int \<Rightarrow> 'f timers \<Rightarrow> 'f timers option" where
  "deleteTimer timerId t =
     (if timerId \<ge> int MAX_TIMERS then Some t
      else if numTimers t = 0 then Some t
      else Option.bind (slot_index timerId) (\<lambda>i.
        Some (if callbacks t ! i \<noteq> None
              then t\<lparr>callbacks := (callbacks t)[i := None], enabled := (enabled t)[i := False],
                     toBeCalled := (toBeCalled t)[i := DONTRUN], delays := (delays t)[i := 0],
                     numRuns := (numRuns t)[i := 0], numTimers := numTimers t - 1\<rparr>
              else t)))"

definition restartTimer :: "u32 \<Rightarrow> int \<Rightarrow> 'f timers \<Rightarrow> 'f timers option" where
  "restartTimer now numTimer t =
     (if numTimer \<ge> int MAX_TIMERS then Some t
      else Option.bind (slot_index numTimer) (\<lambda>i. Some (t\<lparr>prev_millis := (prev_millis t)[i := now]\<rparr>)))"

definition isEnabled :: "int \<Rightarrow> 'f timers \<Rightarrow> bool option" where
  "isEnabled numTimer t =
     (if numTimer \<ge> int MAX_TIMERS then Some False
      else Option.bind (slot_index numTimer) (\<lambda>i. Some (enabled t ! i)))"

definition enable :: "int \<Rightarrow> 'f timers \<Rightarrow> 'f timers option" where
  "enable numTimer t =
     (if numTimer \<ge> int MAX_TIMERS then Some t
      else Option.bind (slot_index numTimer) (\<lambda>i. Some (t\<lparr>enabled := (enabled t)[i := True]\<rparr>)))"

definition disable :: "int \<Rightarrow> 'f timers \<Rightarrow> 'f timers option" where
  "disable numTimer t =
     (if numTimer \<ge> int MAX_TIMERS then Some t
      else Option.bind (slot_index numTimer) (\<lambda>i. Some (t\<lparr>enabled := (enabled t)[i := False]\<rparr>)))"

definition toggle :: "int \<Rightarrow> 'f timers \<Rightarrow> 'f timers option" where
  "toggle numTimer t =
     (if numTimer \<ge> int MAX_TIMERS then Some t
      else Option.bind (slot_index numTimer) (\<lambda>i. Some (t\<lparr>enabled := (enabled t)[i := \<not> enabled t ! i]\<rparr>)))"

definition getNumTimers :: "'f timers \<Rightarrow> int" where
  "getNumTimers t = numTimers t"

definition getNumAvailableTimers :: "'f timers \<Rightarrow> int" where
  "getNumAvailableTimers t = int MAX_TIMERS - numTimers t"

section \<open>Running\<close>

text \<open>The first loop of \<open>run\<close> decides for slot \<open>i\<close> what the second will do.\<close>

definition mark_timer :: "u32 \<Rightarrow> nat \<Rightarrow> 'f timers \<Rightarrow> 'f timers" where
  "mark_timer now i t =
     (let t = t\<lparr>toBeCalled := (toBeCalled t)[i := DONTRUN]\<rparr>
      in if callbacks t ! i \<noteq> None \<and> now - prev_millis t ! i \<ge> delays t ! i then
           let t = t\<lparr>prev_millis := (prev_millis t)[i := prev_millis t ! i + delays t ! i]\<rparr>
           in if enabled t ! i then
                if maxNumRuns t ! i = RUN_FOREVER then t\<lparr>toBeCalled := (toBeCalled t)[i := RUNONLY]\<rparr>
                else if numRuns t ! i < maxNumRuns t ! i then
                  t\<lparr>numRuns := (numRuns t)[i := numRuns t ! i + 1],
                    toBeCalled := (toBeCalled t)[i := (if numRuns t ! i + 1 \<ge> maxNumRuns t ! i then RUNANDDEL else RUNONLY)]\<rparr>
                else t
              else t
         else t)"

text \<open>Calling an empty \<open>std::function\<close> throws.\<close>

definition invoke :: "('f \<Rightarrow> 'f timers \<times> 'w \<Rightarrow> ('f timers \<times> 'w) option) \<Rightarrow> nat \<Rightarrow>
    'f timers \<times> 'w \<Rightarrow> ('f timers \<times> 'w) option" where
  "invoke call i s = Option.bind (callbacks (fst s) ! i) (\<lambda>f. call f s)"

definition call_timer :: "('f \<Rightarrow> 'f timers \<times> 'w \<Rightarrow> ('f timers \<times> 'w) option) \<Rightarrow> nat \<Rightarrow>
    'f timers \<times> 'w \<Rightarrow> ('f timers \<times> 'w) option" where
  "call_timer call i s =
     (case toBeCalled (fst s) ! i of
        DONTRUN \<Rightarrow> Some s
      | RUNONLY \<Rightarrow> invoke call i s
      | RUNANDDEL \<Rightarrow> Option.bind (invoke call i s) (\<lambda>(t, w). map_option (\<lambda>t. (t, w)) (deleteTimer (int i) t)))"

definition run_timers :: "('f \<Rightarrow> 'f timers \<times> 'w \<Rightarrow> ('f timers \<times> 'w) option) \<Rightarrow> u32 \<Rightarrow>
    'f timers \<times> 'w \<Rightarrow> ('f timers \<times> 'w) option" where
  "run_timers call now s = foldM (call_timer call) [0..<MAX_TIMERS] (fold (mark_timer now) [0..<MAX_TIMERS] (fst s), snd s)"

section \<open>The invariant\<close>

text \<open>
  The arrays have ten cells, \<open>numTimers\<close> counts the slots in use, and (while \<open>run\<close> is under way) a
  slot marked for a call has a callback.
\<close>

definition sized :: "'f timers \<Rightarrow> bool" where
  "sized t \<longleftrightarrow> length (prev_millis t) = MAX_TIMERS \<and> length (callbacks t) = MAX_TIMERS \<and> length (delays t) = MAX_TIMERS \<and>
     length (maxNumRuns t) = MAX_TIMERS \<and> length (numRuns t) = MAX_TIMERS \<and> length (enabled t) = MAX_TIMERS \<and>
     length (toBeCalled t) = MAX_TIMERS"

definition used :: "'f timers \<Rightarrow> nat" where
  "used t = length (filter (\<lambda>c. c \<noteq> None) (callbacks t))"

definition timer_inv :: "'f timers \<Rightarrow> bool" where
  "timer_inv t \<longleftrightarrow> sized t \<and> numTimers t = int (used t)"

definition marked :: "'f timers \<Rightarrow> bool" where
  "marked t \<longleftrightarrow> (\<forall>i<MAX_TIMERS. toBeCalled t ! i \<noteq> DONTRUN \<longrightarrow> callbacks t ! i \<noteq> None)"

lemma filter_update_length:
  assumes "i < length xs"
  shows "int (length (filter P (xs[i := x]))) = int (length (filter P xs)) - of_bool (P (xs ! i)) + of_bool (P x)"
proof -
  have "length (filter P xs) = length (filter P (take i xs)) + of_bool (P (xs ! i)) + length (filter P (drop (Suc i) xs))"
    by (subst id_take_nth_drop [OF assms]) simp
  then show ?thesis using assms by (simp add: upd_conv_take_nth_drop)
qed

lemma slot_index_Some: "slot_index i = Some j \<longleftrightarrow> 0 \<le> i \<and> i < int MAX_TIMERS \<and> j = nat i"
  by (auto simp: slot_index_def)

lemma new_M5Timer_inv: "sized junk \<Longrightarrow> timer_inv (new_M5Timer now junk)"
  by (simp add: timer_inv_def sized_def new_M5Timer_def used_def)

lemma findFirstFreeSlot_cases:
  assumes "timer_inv t"
  shows "findFirstFreeSlot t = -1 \<and> numTimers t \<ge> 10 \<or>
    (\<exists>i<MAX_TIMERS. findFirstFreeSlot t = int i \<and> callbacks t ! i = None)"
proof (cases "numTimers t \<ge> 10")
  case False
  then have "used t < length (callbacks t)" using assms by (simp add: timer_inv_def sized_def MAX_TIMERS_def)
  then have "filter (\<lambda>c. c \<noteq> None) (callbacks t) \<noteq> callbacks t" by (auto simp: used_def)
  then obtain i where "i < MAX_TIMERS" "callbacks t ! i = None"
    using assms by (auto simp: filter_id_conv in_set_conv_nth timer_inv_def sized_def)
  then have "find (\<lambda>i. callbacks t ! i = None) [0..<MAX_TIMERS] \<noteq> None" by (auto simp: find_None_iff)
  then obtain j where j: "find (\<lambda>i. callbacks t ! i = None) [0..<MAX_TIMERS] = Some j" by auto
  then have "j < MAX_TIMERS" "callbacks t ! j = None" by (auto simp: find_Some_iff)
  then show ?thesis using False j by (auto simp: findFirstFreeSlot_def MAX_TIMERS_def)
qed (simp add: findFirstFreeSlot_def MAX_TIMERS_def)

lemma setTimer_inv:
  assumes "timer_inv t"
  shows "timer_inv (snd (setTimer now d f n t)) \<and> (marked t \<longrightarrow> marked (snd (setTimer now d f n t)))"
  using findFirstFreeSlot_cases [OF assms]
proof (elim disjE exE conjE)
  fix i assume i: "i < MAX_TIMERS" "findFirstFreeSlot t = int i" "callbacks t ! i = None"
  have "i < length (callbacks t)" using assms i(1) by (simp add: timer_inv_def sized_def)
  then show ?thesis using assms i filter_update_length [of i "callbacks t" "\<lambda>c. c \<noteq> None" f]
    by (cases f) (auto simp: setTimer_def timer_inv_def sized_def used_def marked_def nth_list_update)
qed (use assms in \<open>simp add: setTimer_def\<close>)

lemma deleteTimer_inv:
  assumes "timer_inv t" "0 \<le> i"
  shows "\<exists>t'. deleteTimer i t = Some t' \<and> timer_inv t' \<and> (marked t \<longrightarrow> marked t') \<and>
    (i < int MAX_TIMERS \<longrightarrow> callbacks t' ! nat i = None)"
proof (cases "i \<ge> int MAX_TIMERS \<or> numTimers t = 0")
  case True
  have "callbacks t ! nat i = None" if "numTimers t = 0" "i < int MAX_TIMERS"
    using that assms nth_mem [of "nat i" "callbacks t"] by (auto simp: timer_inv_def used_def sized_def filter_empty_conv)
  then show ?thesis using True assms by (auto simp: deleteTimer_def)
next
  case False
  then have i: "slot_index i = Some (nat i)" "nat i < length (callbacks t)"
    using assms by (auto simp: slot_index_def timer_inv_def sized_def)
  show ?thesis using False assms i filter_update_length [OF i(2), of "\<lambda>c. c \<noteq> None" None]
    by (auto simp: deleteTimer_def timer_inv_def sized_def used_def marked_def nth_list_update)
qed

lemma mark_timer_inv:
  assumes "timer_inv t" "i < MAX_TIMERS"
  shows "timer_inv (mark_timer now i t) \<and> callbacks (mark_timer now i t) = callbacks t \<and>
    (\<forall>j<MAX_TIMERS. toBeCalled (mark_timer now i t) ! j \<noteq> DONTRUN \<longrightarrow> j = i \<and> callbacks t ! i \<noteq> None \<or> toBeCalled t ! j \<noteq> DONTRUN \<and> j \<noteq> i)"
  using assms by (auto simp: mark_timer_def Let_def timer_inv_def sized_def used_def nth_list_update)

lemma mark_all_inv:
  assumes "timer_inv t"
  shows "timer_inv (fold (mark_timer now) [0..<MAX_TIMERS] t) \<and> marked (fold (mark_timer now) [0..<MAX_TIMERS] t)"
proof -
  have "timer_inv (fold (mark_timer now) [0..<n] t) \<and>
      (\<forall>j<n. toBeCalled (fold (mark_timer now) [0..<n] t) ! j \<noteq> DONTRUN \<longrightarrow> callbacks (fold (mark_timer now) [0..<n] t) ! j \<noteq> None)"
    if "n \<le> MAX_TIMERS" for n
    using that
  proof (induction n)
    case (Suc n)
    let ?t = "fold (mark_timer now) [0..<n] t"
    have "timer_inv ?t" "n < MAX_TIMERS" using Suc by auto
    note step = mark_timer_inv [OF this, of now]
    have "callbacks (mark_timer now n ?t) ! j \<noteq> None" if "j < Suc n" "toBeCalled (mark_timer now n ?t) ! j \<noteq> DONTRUN" for j
    proof -
      have "j < MAX_TIMERS" using that(1) \<open>n < MAX_TIMERS\<close> by simp
      with step that(2) consider "j = n" "callbacks ?t ! n \<noteq> None" | "toBeCalled ?t ! j \<noteq> DONTRUN" "j \<noteq> n" by blast
      then show ?thesis
      proof cases
        case 2
        then show ?thesis using that(1) Suc.IH Suc.prems step by auto
      qed (use step in simp)
    qed
    then show ?case using step by simp
  qed (simp add: assms)
  from this [of MAX_TIMERS] show ?thesis by (simp add: marked_def)
qed

section \<open>Callbacks that keep the invariant\<close>

text \<open>
  What \<open>run\<close> needs of a callback: called with the timers in order, it returns with the timers in order.
  It may set, delete and disable timers, its own among them.
\<close>

locale timer_callbacks =
  fixes call :: "'f \<Rightarrow> 'f timers \<times> 'w \<Rightarrow> ('f timers \<times> 'w) option"
  assumes call: "timer_inv t \<Longrightarrow> marked t \<Longrightarrow> \<exists>t' w'. call f (t, w) = Some (t', w') \<and> timer_inv t' \<and> marked t'"
begin

lemma call_timer_safe:
  assumes "timer_inv t" "marked t" "i < MAX_TIMERS"
  shows "\<exists>t' w'. call_timer call i (t, w) = Some (t', w') \<and> timer_inv t' \<and> marked t'"
proof (cases "toBeCalled t ! i")
  case DONTRUN
  then show ?thesis using assms by (simp add: call_timer_def)
next
  case RUNONLY
  then obtain f where "callbacks t ! i = Some f" using assms by (auto simp: marked_def)
  then show ?thesis using call [OF assms(1,2), of f w] RUNONLY by (simp add: call_timer_def invoke_def)
next
  case RUNANDDEL
  then obtain f where f: "callbacks t ! i = Some f" using assms by (auto simp: marked_def)
  obtain t1 w1 where "call f (t, w) = Some (t1, w1)" "timer_inv t1" "marked t1" using call [OF assms(1,2)] by blast
  then show ?thesis using deleteTimer_inv [of t1 "int i"] RUNANDDEL f by (auto simp: call_timer_def invoke_def)
qed

lemma run_safe:
  assumes "timer_inv t"
  shows "\<exists>t' w'. run_timers call now (t, w) = Some (t', w') \<and> timer_inv t'"
proof -
  let ?t = "fold (mark_timer now) [0..<MAX_TIMERS] t"
  have "\<exists>s. foldM (call_timer call) [0..<MAX_TIMERS] (?t, w) = Some s \<and> timer_inv (fst s) \<and> marked (fst s)"
  proof (rule foldM_total [where P = "\<lambda>s. timer_inv (fst s) \<and> marked (fst s)"])
    show "timer_inv (fst (?t, w)) \<and> marked (fst (?t, w))" using mark_all_inv [OF assms] by simp
  next
    fix i and s :: "'f timers \<times> 'w"
    assume "i \<in> set [0..<MAX_TIMERS]" and s: "timer_inv (fst s) \<and> marked (fst s)"
    then show "\<exists>s'. call_timer call i s = Some s' \<and> timer_inv (fst s') \<and> marked (fst s')"
      using call_timer_safe [of "fst s" i "snd s"] by (cases s) auto
  qed
  then show ?thesis by (auto simp: run_timers_def)
qed

end

section \<open>Callbacks that use the timers\<close>

text \<open>
  A callback as a script of operations of the class, on timers with such callbacks again, and of marks
  in a log: the calls a program makes from a callback.  A script names timers by their numbers, never
  \<open>-1\<close>.
\<close>

datatype script = Script "timer_op list"
  and timer_op =
    Set u32 u32 script int | Delete nat | Restart u32 nat | Enable nat | Disable nat | Toggle nat | Log nat

fun run_op :: "timer_op \<Rightarrow> script timers \<times> nat list \<Rightarrow> (script timers \<times> nat list) option" where
  "run_op (Set now d f n) (t, log) = Some (snd (setTimer now d (Some f) n t), log)"
| "run_op (Delete i) (t, log) = map_option (\<lambda>t. (t, log)) (deleteTimer (int i) t)"
| "run_op (Restart now i) (t, log) = map_option (\<lambda>t. (t, log)) (restartTimer now (int i) t)"
| "run_op (Enable i) (t, log) = map_option (\<lambda>t. (t, log)) (enable (int i) t)"
| "run_op (Disable i) (t, log) = map_option (\<lambda>t. (t, log)) (disable (int i) t)"
| "run_op (Toggle i) (t, log) = map_option (\<lambda>t. (t, log)) (toggle (int i) t)"
| "run_op (Log n) (t, log) = Some (t, log @ [n])"

fun run_script :: "script \<Rightarrow> script timers \<times> nat list \<Rightarrow> (script timers \<times> nat list) option" where
  "run_script (Script ops) s = foldM run_op ops s"

lemma flags_inv:
  assumes "timer_inv t"
  shows "\<exists>t'. restartTimer now (int i) t = Some t' \<and> timer_inv t' \<and> (marked t \<longrightarrow> marked t')"
    "\<exists>t'. enable (int i) t = Some t' \<and> timer_inv t' \<and> (marked t \<longrightarrow> marked t')"
    "\<exists>t'. disable (int i) t = Some t' \<and> timer_inv t' \<and> (marked t \<longrightarrow> marked t')"
    "\<exists>t'. toggle (int i) t = Some t' \<and> timer_inv t' \<and> (marked t \<longrightarrow> marked t')"
  using assms
  by (auto simp: restartTimer_def enable_def disable_def toggle_def slot_index_def timer_inv_def sized_def used_def marked_def)

lemma run_op_inv:
  assumes "timer_inv t"
  shows "\<exists>t' log'. run_op k (t, log) = Some (t', log') \<and> timer_inv t' \<and> (marked t \<longrightarrow> marked t')"
proof (cases k)
  case (Set now d f n)
  then show ?thesis using setTimer_inv [OF assms, of now d "Some f" n] by simp
next
  case (Delete i)
  then show ?thesis using deleteTimer_inv [OF assms, of "int i"] by auto
next
  case (Restart now i)
  then show ?thesis using flags_inv(1) [OF assms, of now i] by auto
next
  case (Enable i)
  then show ?thesis using flags_inv(2) [OF assms, of i] by auto
next
  case (Disable i)
  then show ?thesis using flags_inv(3) [OF assms, of i] by auto
next
  case (Toggle i)
  then show ?thesis using flags_inv(4) [OF assms, of i] by auto
qed (use assms in simp)

lemma run_script_inv:
  assumes "timer_inv t" "marked t"
  shows "\<exists>t' log'. run_script f (t, log) = Some (t', log') \<and> timer_inv t' \<and> marked t'"
proof (cases f)
  case (Script ops)
  have "\<exists>s. foldM run_op ops (t, log) = Some s \<and> timer_inv (fst s) \<and> marked (fst s)"
  proof (rule foldM_total [where P = "\<lambda>s. timer_inv (fst s) \<and> marked (fst s)"])
    fix k and s :: "script timers \<times> nat list"
    assume "timer_inv (fst s) \<and> marked (fst s)"
    then show "\<exists>s'. run_op k s = Some s' \<and> timer_inv (fst s') \<and> marked (fst s')"
      using run_op_inv [of "fst s" k "snd s"] by (cases s) auto
  qed (use assms in simp)
  then show ?thesis by (auto simp: Script)
qed

interpretation scripts: timer_callbacks run_script
  using run_script_inv by unfold_locales auto

text \<open>A program around the timers: operations, and calls of \<open>run\<close> from its main loop.\<close>

datatype timer_step = Do timer_op | Run u32

fun do_step :: "timer_step \<Rightarrow> script timers \<times> nat list \<Rightarrow> (script timers \<times> nat list) option" where
  "do_step (Do k) s = run_op k s"
| "do_step (Run now) s = run_timers run_script now s"

text \<open>
  C15.  Whatever operations a program makes and however often it calls \<open>run\<close>, with callbacks that
  themselves set, delete, restart and disable timers, no array is left, no empty callback is called, and
  \<open>getNumTimers\<close> is always the number of slots in use, so that the free ones are
  \<open>getNumAvailableTimers\<close>.
\<close>

theorem timers_consistent:
  assumes "sized junk"
  shows "\<exists>t log. foldM do_step steps (new_M5Timer now junk, []) = Some (t, log) \<and> sized t \<and>
    getNumTimers t = int (used t) \<and> getNumAvailableTimers t = int (MAX_TIMERS - used t)"
proof -
  have "\<exists>s. foldM do_step steps (new_M5Timer now junk, []) = Some s \<and> timer_inv (fst s)"
  proof (rule foldM_total [where P = "\<lambda>s. timer_inv (fst s)"])
    show "timer_inv (fst (new_M5Timer now junk, []))" using new_M5Timer_inv [OF assms] by simp
  next
    fix k and s :: "script timers \<times> nat list"
    assume s: "timer_inv (fst s)"
    show "\<exists>s'. do_step k s = Some s' \<and> timer_inv (fst s')"
    proof (cases k)
      case (Do k)
      then show ?thesis using run_op_inv [OF s, of k "snd s"] by auto
    next
      case (Run now)
      then show ?thesis using scripts.run_safe [OF s, of now "snd s"] by auto
    qed
  qed
  then obtain t log where t: "foldM do_step steps (new_M5Timer now junk, []) = Some (t, log)" "timer_inv t" by auto
  have "used t \<le> MAX_TIMERS"
    using t(2) length_filter_le [of "\<lambda>c. c \<noteq> None" "callbacks t"] by (simp add: timer_inv_def sized_def used_def)
  then show ?thesis using t by (simp add: timer_inv_def getNumTimers_def getNumAvailableTimers_def of_nat_diff)
qed

definition junk_timers :: "'f timers" where
  "junk_timers = \<lparr>prev_millis = replicate 10 7, callbacks = replicate 10 None, delays = replicate 10 9,
     maxNumRuns = replicate 10 5, numRuns = replicate 10 3, enabled = replicate 10 True,
     toBeCalled = replicate 10 RUNANDDEL, numTimers = 77\<rparr>"

lemma junk_timers_sized: "sized junk_timers"
  by (simp add: sized_def junk_timers_def MAX_TIMERS_def)

theorem timers_consistent_witness:
  "\<exists>t log. foldM do_step [Do (Set 0 5 (Script [Log 1, Delete 0]) 0), Run 6, Run 12] (new_M5Timer 0 junk_timers, []) = Some (t, log)
     \<and> getNumTimers t = int (used t)"
  using timers_consistent [OF junk_timers_sized, of "[Do (Set 0 5 (Script [Log 1, Delete 0]) 0), Run 6, Run 12]" 0] by blast

section \<open>One slot at a time\<close>

text \<open>
  The contract of \<open>run\<close> for callbacks that leave the timers alone: every slot is a timer of its own.
  The specification \<open>slot_run\<close> says what one call of \<open>run\<close> does to a slot and which callbacks it makes.
\<close>

record 'f slot =
  s_prev :: u32
  s_call :: "'f option"
  s_delay :: u32
  s_max :: int
  s_num :: int
  s_enabled :: bool

definition slot_of :: "'f timers \<Rightarrow> nat \<Rightarrow> 'f slot" where
  "slot_of t i = \<lparr>s_prev = prev_millis t ! i, s_call = callbacks t ! i, s_delay = delays t ! i,
     s_max = maxNumRuns t ! i, s_num = numRuns t ! i, s_enabled = enabled t ! i\<rparr>"

definition slots :: "'f timers \<Rightarrow> 'f slot list" where
  "slots t = map (slot_of t) [0..<MAX_TIMERS]"

definition due :: "u32 \<Rightarrow> 'f slot \<Rightarrow> bool" where
  "due now s \<longleftrightarrow> s_call s \<noteq> None \<and> now - s_prev s \<ge> s_delay s"

definition calls :: "u32 \<Rightarrow> 'f slot \<Rightarrow> bool" where
  "calls now s \<longleftrightarrow> due now s \<and> s_enabled s \<and> (s_max s = RUN_FOREVER \<or> s_num s < s_max s)"

definition last_call :: "u32 \<Rightarrow> 'f slot \<Rightarrow> bool" where
  "last_call now s \<longleftrightarrow> calls now s \<and> s_max s \<noteq> RUN_FOREVER \<and> s_num s + 1 \<ge> s_max s"

definition slot_marked :: "u32 \<Rightarrow> 'f slot \<Rightarrow> 'f slot" where
  "slot_marked now s = s\<lparr>s_prev := (if due now s then s_prev s + s_delay s else s_prev s),
     s_num := (if calls now s \<and> s_max s \<noteq> RUN_FOREVER then s_num s + 1 else s_num s)\<rparr>"

definition slot_freed :: "'f slot \<Rightarrow> 'f slot" where
  "slot_freed s = s\<lparr>s_call := None, s_delay := 0, s_num := 0, s_enabled := False\<rparr>"

definition slot_run :: "u32 \<Rightarrow> 'f slot \<Rightarrow> 'f slot \<times> 'f list" where
  "slot_run now s =
     ((if last_call now s then slot_freed (slot_marked now s) else slot_marked now s),
      (case s_call s of Some f \<Rightarrow> if calls now s then [f] else [] | None \<Rightarrow> []))"

definition mark_of :: "u32 \<Rightarrow> 'f slot \<Rightarrow> defcall" where
  "mark_of now s = (if last_call now s then RUNANDDEL else if calls now s then RUNONLY else DONTRUN)"

lemma mark_timer_slot:
  assumes "sized t" "i < MAX_TIMERS" "j < MAX_TIMERS"
  shows "slot_of (mark_timer now i t) j = (if j = i then slot_marked now (slot_of t i) else slot_of t j)"
    "toBeCalled (mark_timer now i t) ! j = (if j = i then mark_of now (slot_of t i) else toBeCalled t ! j)"
  using assms
  by (auto simp: mark_timer_def Let_def slot_of_def slot_marked_def mark_of_def due_def calls_def last_call_def sized_def nth_list_update)

lemma mark_all_slots:
  assumes "timer_inv t" "j < MAX_TIMERS"
  shows "slot_of (fold (mark_timer now) [0..<MAX_TIMERS] t) j = slot_marked now (slot_of t j) \<and>
    toBeCalled (fold (mark_timer now) [0..<MAX_TIMERS] t) ! j = mark_of now (slot_of t j)"
proof -
  have "timer_inv (fold (mark_timer now) [0..<n] t) \<and> (\<forall>j<MAX_TIMERS.
      slot_of (fold (mark_timer now) [0..<n] t) j = (if j < n then slot_marked now (slot_of t j) else slot_of t j) \<and>
      (j < n \<longrightarrow> toBeCalled (fold (mark_timer now) [0..<n] t) ! j = mark_of now (slot_of t j)))" if "n \<le> MAX_TIMERS" for n
    using that
  proof (induction n)
    case (Suc n)
    let ?t = "fold (mark_timer now) [0..<n] t"
    have IH: "timer_inv ?t" "n < MAX_TIMERS" "sized ?t" using Suc by (auto simp: timer_inv_def)
    then show ?case using Suc mark_timer_inv [OF IH(1,2), of now] mark_timer_slot [OF IH(3,2)]
      by (auto simp: less_Suc_eq)
  qed (simp add: assms)
  from this [of MAX_TIMERS] assms(2) show ?thesis by simp
qed

text \<open>Callbacks that only leave a trace.\<close>

definition record_call :: "'f \<Rightarrow> 'f timers \<times> 'f list \<Rightarrow> ('f timers \<times> 'f list) option" where
  "record_call f s = Some (fst s, snd s @ [f])"

interpretation recorded: timer_callbacks record_call
  by unfold_locales (simp add: record_call_def)

lemma call_timer_slot:
  assumes t: "timer_inv t" "marked t" and i: "i < MAX_TIMERS"
  shows "\<exists>t'. call_timer record_call i (t, log) =
      Some (t', log @ (case callbacks t ! i of Some f \<Rightarrow> if toBeCalled t ! i = DONTRUN then [] else [f] | None \<Rightarrow> [])) \<and>
    timer_inv t' \<and> marked t' \<and>
    (\<forall>j<MAX_TIMERS. slot_of t' j = (if j = i \<and> toBeCalled t ! i = RUNANDDEL then slot_freed (slot_of t i) else slot_of t j) \<and>
      (j \<noteq> i \<longrightarrow> toBeCalled t' ! j = toBeCalled t ! j))"
proof (cases "toBeCalled t ! i")
  case DONTRUN
  then show ?thesis using t by (auto simp: call_timer_def split: option.split)
next
  case RUNONLY
  then obtain f where "callbacks t ! i = Some f" using t i by (auto simp: marked_def)
  then show ?thesis using t RUNONLY by (auto simp: call_timer_def invoke_def record_call_def)
next
  case RUNANDDEL
  then obtain f where f: "callbacks t ! i = Some f" using t i by (auto simp: marked_def)
  have i': "\<not> int i \<ge> int MAX_TIMERS" "slot_index (int i) = Some i" using i by (auto simp: slot_index_def)
  have "callbacks t ! i \<in> set (callbacks t)" using t(1) i by (auto simp: timer_inv_def sized_def)
  then have "used t \<noteq> 0" using f by (auto simp: used_def filter_empty_conv)
  then have n: "numTimers t \<noteq> 0" using t(1) by (simp add: timer_inv_def)
  obtain t' where t': "deleteTimer (int i) t = Some t'" "timer_inv t'" "marked t'"
    using deleteTimer_inv [OF t(1), of "int i"] t(2) by auto
  have "slot_of t' j = (if j = i then slot_freed (slot_of t i) else slot_of t j) \<and> (j \<noteq> i \<longrightarrow> toBeCalled t' ! j = toBeCalled t ! j)"
    if "j < MAX_TIMERS" for j
    using t'(1) i i' n f t(1) that
    by (auto simp: deleteTimer_def slot_of_def slot_freed_def timer_inv_def sized_def nth_list_update)
  then show ?thesis using RUNANDDEL f t' by (auto simp: call_timer_def invoke_def record_call_def)
qed

text \<open>
  The second loop after \<open>i\<close> slots: they are as \<open>slot_run\<close> leaves them, their calls are made, the others
  are still marked.
\<close>

definition half_run :: "'f timers \<Rightarrow> u32 \<Rightarrow> 'f list \<Rightarrow> nat \<Rightarrow> 'f timers \<times> 'f list \<Rightarrow> bool" where
  "half_run t now log k s \<longleftrightarrow> timer_inv (fst s) \<and> marked (fst s) \<and>
    snd s = log @ concat (map (\<lambda>i. snd (slot_run now (slot_of t i))) [0..<k]) \<and>
    (\<forall>j<MAX_TIMERS. slot_of (fst s) j = (if j < k then fst (slot_run now (slot_of t j)) else slot_marked now (slot_of t j)) \<and>
      (k \<le> j \<longrightarrow> toBeCalled (fst s) ! j = mark_of now (slot_of t j)))"

lemma half_run_step:
  assumes i: "i < MAX_TIMERS" and P: "half_run t now log i s"
  shows "\<exists>s'. call_timer record_call i s = Some s' \<and> half_run t now log (Suc i) s'"
proof -
  let ?s = "slot_of t" and ?calls = "\<lambda>i. snd (slot_run now (slot_of t i))"
  obtain u w where s: "s = (u, w)" by force
  have u: "timer_inv u" "marked u" "slot_of u i = slot_marked now (?s i)" "toBeCalled u ! i = mark_of now (?s i)"
    using P i by (auto simp: half_run_def s)
  have "callbacks u ! i = s_call (slot_of u i)" by (simp add: slot_of_def)
  then have cb: "callbacks u ! i = s_call (?s i)" by (simp add: u(3) slot_marked_def)
  obtain u' where u': "call_timer record_call i (u, w) =
      Some (u', w @ (case callbacks u ! i of Some f \<Rightarrow> if toBeCalled u ! i = DONTRUN then [] else [f] | None \<Rightarrow> []))"
    "timer_inv u'" "marked u'"
    "\<forall>j<MAX_TIMERS. slot_of u' j = (if j = i \<and> toBeCalled u ! i = RUNANDDEL then slot_freed (slot_of u i) else slot_of u j) \<and>
    (j \<noteq> i \<longrightarrow> toBeCalled u' ! j = toBeCalled u ! j)"
    using call_timer_slot [OF u(1,2) i, of w] by blast
  have calls: "(case callbacks u ! i of Some f \<Rightarrow> if toBeCalled u ! i = DONTRUN then [] else [f] | None \<Rightarrow> []) = ?calls i"
    unfolding cb u(4) by (auto simp: slot_run_def mark_of_def last_call_def split: option.split)
  have last: "fst (slot_run now (?s i)) = (if toBeCalled u ! i = RUNANDDEL then slot_freed (slot_of u i) else slot_of u i)"
    unfolding u(3,4) by (auto simp: slot_run_def mark_of_def)
  have "half_run t now log (Suc i) (u', w @ ?calls i)"
    unfolding half_run_def fst_conv snd_conv
  proof (intro conjI allI impI)
    fix j assume j: "j < MAX_TIMERS"
    show "slot_of u' j = (if j < Suc i then fst (slot_run now (?s j)) else slot_marked now (?s j))"
      using u'(4) i j last P by (cases "j = i") (simp_all add: half_run_def s less_Suc_eq)
    show "toBeCalled u' ! j = mark_of now (?s j)" if "Suc i \<le> j"
      using u'(4) j P that by (simp add: half_run_def s)
  qed (use u'(2,3) P in \<open>simp_all add: half_run_def s\<close>)
  then show ?thesis unfolding s u'(1) calls by blast
qed

text \<open>
  C13.  One call of \<open>run\<close> is one step of every slot, in the order of the slots: it makes exactly the
  callbacks of the slots whose delay has passed (modulo the wrap-around of \<open>millis\<close>), that are enabled
  and have runs left, advances each due slot by its delay whether it is enabled or not, and frees a slot
  with its last run.
\<close>

theorem run_refines_slots:
  assumes "timer_inv t"
  shows "\<exists>t'. run_timers record_call now (t, log) = Some (t', log @ concat (map (snd \<circ> slot_run now) (slots t))) \<and>
    slots t' = map (fst \<circ> slot_run now) (slots t) \<and> timer_inv t'"
proof -
  let ?t = "fold (mark_timer now) [0..<MAX_TIMERS] t"
  have "half_run t now log 0 (?t, log)"
    using mark_all_inv [OF assms] mark_all_slots [OF assms] by (simp add: half_run_def)
  from foldM_upt_invariant [where P = "half_run t now log" and f = "call_timer record_call", OF this half_run_step]
  obtain s' where s': "foldM (call_timer record_call) [0..<MAX_TIMERS] (?t, log) = Some s'" "half_run t now log MAX_TIMERS s'"
    by blast
  obtain t' w where tw: "s' = (t', w)" by force
  have "slots t' = map (fst \<circ> slot_run now) (slots t)" using s'(2) by (simp add: half_run_def slots_def tw)
  moreover have "w = log @ concat (map (snd \<circ> slot_run now) (slots t))" using s'(2) by (simp add: half_run_def slots_def tw comp_def)
  ultimately show ?thesis using s' by (simp add: run_timers_def tw half_run_def)
qed

lemma slots_nth: "i < MAX_TIMERS \<Longrightarrow> slots t ! i = slot_of t i" "length (slots t) = MAX_TIMERS"
  by (simp_all add: slots_def)

theorem run_refines_slots_witness:
  "\<exists>t'. run_timers record_call 12 (snd (setTimer 0 5 (Some True) 0 (new_M5Timer 0 junk_timers)), []) = Some (t', [True]) \<and>
     slot_of t' 0 = \<lparr>s_prev = 5, s_call = Some True, s_delay = 5, s_max = 0, s_num = 0, s_enabled = True\<rparr>"
proof -
  define t where "t = snd (setTimer 0 5 (Some True) 0 (new_M5Timer 0 junk_timers))"
  have inv: "timer_inv t"
    unfolding t_def using setTimer_inv [OF new_M5Timer_inv [OF junk_timers_sized]] by blast
  have slots: "slots t = \<lparr>s_prev = 0, s_call = Some True, s_delay = 5, s_max = 0, s_num = 0, s_enabled = True\<rparr>
      # map (\<lambda>i. \<lparr>s_prev = 0, s_call = None, s_delay = 9, s_max = 5, s_num = 0, s_enabled = False\<rparr>) [1..<10]"
    by (simp add: slots_def t_def setTimer_def findFirstFreeSlot_def new_M5Timer_def junk_timers_def MAX_TIMERS_def
        slot_of_def upt_rec numeral_nat)
  obtain t' where t': "run_timers record_call 12 (t, []) = Some (t', concat (map (snd \<circ> slot_run 12) (slots t)))"
      "slots t' = map (fst \<circ> slot_run 12) (slots t)"
    using run_refines_slots [OF inv, of 12 "[]"] by auto
  have "slot_of t' 0 = fst (slot_run 12 (slots t ! 0))"
    using arg_cong [OF t'(2), of "\<lambda>xs. xs ! 0"] by (simp add: slots_def MAX_TIMERS_def)
  then show ?thesis using t'(1) unfolding t_def [symmetric] slots
    by (simp add: slot_run_def slot_marked_def last_call_def calls_def due_def RUN_FOREVER_def)
qed

section \<open>Timers with a number of runs\<close>

lemma idle_run:
  assumes "timer_inv t" "\<forall>i<MAX_TIMERS. s_call (slot_of t i) = None"
  shows "\<exists>t'. run_timers record_call now (t, log) = Some (t', log) \<and> timer_inv t' \<and> (\<forall>i<MAX_TIMERS. s_call (slot_of t' i) = None)"
proof -
  obtain t' where t': "run_timers record_call now (t, log) = Some (t', log @ concat (map (snd \<circ> slot_run now) (slots t)))"
      "slots t' = map (fst \<circ> slot_run now) (slots t)" "timer_inv t'"
    using run_refines_slots [OF assms(1)] by blast
  have "slot_of t' i = fst (slot_run now (slot_of t i))" if "i < MAX_TIMERS" for i
    using arg_cong [OF t'(2), of "\<lambda>xs. xs ! i"] that by (simp add: slots_nth)
  moreover have "concat (map (snd \<circ> slot_run now) (slots t)) = []" using assms(2) by (simp add: slots_def slot_run_def)
  ultimately show ?thesis using t' assms(2)
    by (auto simp: slot_run_def slot_marked_def last_call_def calls_def due_def)
qed

lemma idle_runs:
  "timer_inv t \<Longrightarrow> \<forall>i<MAX_TIMERS. s_call (slot_of t i) = None \<Longrightarrow>
    \<exists>t'. foldM (run_timers record_call) ts (t, log) = Some (t', log) \<and> (\<forall>i<MAX_TIMERS. s_call (slot_of t' i) = None)"
proof (induction ts arbitrary: t)
  case (Cons now ts)
  then show ?case using idle_run [OF Cons.prems, of now log] by fastforce
qed simp

text \<open>The only timer of the object, in slot 0, with \<open>k\<close> of its \<open>n\<close> runs behind it.\<close>

definition counting :: "'f \<Rightarrow> u32 \<Rightarrow> u32 \<Rightarrow> int \<Rightarrow> int \<Rightarrow> 'f timers \<Rightarrow> bool" where
  "counting f p d n k t \<longleftrightarrow> timer_inv t \<and>
     slot_of t 0 = \<lparr>s_prev = p, s_call = Some f, s_delay = d, s_max = n, s_num = k, s_enabled = True\<rparr> \<and>
     (\<forall>i. 0 < i \<and> i < MAX_TIMERS \<longrightarrow> s_call (slot_of t i) = None)"

lemma counting_run:
  assumes c: "counting f p d n k t" and k: "0 \<le> k" "k < n" and now: "now - p \<ge> d"
  shows "\<exists>t'. run_timers record_call now (t, log) = Some (t', log @ [f]) \<and> timer_inv t' \<and>
    (if k + 1 < n then counting f (p + d) d n (k + 1) t' else \<forall>i<MAX_TIMERS. s_call (slot_of t' i) = None)"
proof -
  obtain t' where t': "run_timers record_call now (t, log) = Some (t', log @ concat (map (snd \<circ> slot_run now) (slots t)))"
      "slots t' = map (fst \<circ> slot_run now) (slots t)" "timer_inv t'"
    using run_refines_slots c unfolding counting_def by blast
  have slot: "slot_of t' i = fst (slot_run now (slot_of t i))" if "i < MAX_TIMERS" for i
    using arg_cong [OF t'(2), of "\<lambda>xs. xs ! i"] that by (simp add: slots_nth)
  have "slots t = slot_of t 0 # map (slot_of t) [1..<MAX_TIMERS]" by (simp add: slots_def MAX_TIMERS_def upt_rec)
  moreover have "concat (map (snd \<circ> slot_run now) (map (slot_of t) [1..<MAX_TIMERS])) = []"
    using c by (auto simp: counting_def slot_run_def)
  moreover have "snd (slot_run now (slot_of t 0)) = [f]"
    using c k now by (simp add: counting_def slot_run_def calls_def due_def)
  ultimately have "run_timers record_call now (t, log) = Some (t', log @ [f])" using t'(1) by simp
  moreover have "s_call (slot_of t' i) = None" if "0 < i" "i < MAX_TIMERS" for i
    using c that slot by (simp add: counting_def slot_run_def slot_marked_def last_call_def calls_def due_def)
  moreover have "slot_of t' 0 = (if k + 1 < n then \<lparr>s_prev = p + d, s_call = Some f, s_delay = d, s_max = n, s_num = k + 1, s_enabled = True\<rparr>
      else slot_freed (slot_marked now (slot_of t 0)))"
    using c k now slot [of 0]
    by (auto simp: counting_def slot_run_def slot_marked_def last_call_def calls_def due_def RUN_FOREVER_def MAX_TIMERS_def)
  ultimately have res: "run_timers record_call now (t, log) = Some (t', log @ [f])"
    and others: "\<And>i. 0 < i \<Longrightarrow> i < MAX_TIMERS \<Longrightarrow> s_call (slot_of t' i) = None"
    and first: "slot_of t' 0 = (if k + 1 < n then \<lparr>s_prev = p + d, s_call = Some f, s_delay = d, s_max = n, s_num = k + 1, s_enabled = True\<rparr>
      else slot_freed (slot_marked now (slot_of t 0)))" by blast+
  have "if k + 1 < n then counting f (p + d) d n (k + 1) t' else \<forall>i<MAX_TIMERS. s_call (slot_of t' i) = None"
  proof (cases "k + 1 < n")
    case False
    then have "s_call (slot_of t' 0) = None" by (simp add: first slot_freed_def)
    then have "s_call (slot_of t' i) = None" if "i < MAX_TIMERS" for i using others [of i] that by (cases "i = 0") auto
    then show ?thesis using False by simp
  qed (use t'(3) others first in \<open>simp add: counting_def\<close>)
  then show ?thesis using res t'(3) by blast
qed

lemma counting_wait:
  assumes c: "counting f p d n k t" and now: "\<not> now - p \<ge> d"
  shows "\<exists>t'. run_timers record_call now (t, log) = Some (t', log) \<and> counting f p d n k t'"
proof -
  obtain t' where t': "run_timers record_call now (t, log) = Some (t', log @ concat (map (snd \<circ> slot_run now) (slots t)))"
      "slots t' = map (fst \<circ> slot_run now) (slots t)" "timer_inv t'"
    using run_refines_slots c unfolding counting_def by blast
  have slot: "slot_of t' i = fst (slot_run now (slot_of t i))" if "i < MAX_TIMERS" for i
    using arg_cong [OF t'(2), of "\<lambda>xs. xs ! i"] that by (simp add: slots_nth)
  have same: "slot_run now (slot_of t i) = (slot_of t i, [])" if "i < MAX_TIMERS" for i
    using c now that
    by (cases "i = 0") (auto simp: counting_def slot_run_def slot_marked_def last_call_def calls_def due_def)
  then have "concat (map (snd \<circ> slot_run now) (slots t)) = []" by (simp add: slots_def)
  moreover have "slot_of t' i = slot_of t i" if "i < MAX_TIMERS" for i
    using slot [OF that] same [OF that] by simp
  ultimately show ?thesis using t'(1,3) c by (auto simp: counting_def MAX_TIMERS_def)
qed

text \<open>
  The number of calls that real time asks for: \<open>run\<close> is called at the elapsed times \<open>Ts\<close> since the timer
  was set, and the next call is made when the next multiple of the delay \<open>d\<close> has passed.
\<close>

fun calls_by :: "nat \<Rightarrow> nat \<Rightarrow> nat \<Rightarrow> nat list \<Rightarrow> nat" where
  "calls_by d n k [] = k"
| "calls_by d n k (T # Ts) = calls_by d n (if k < n \<and> (k + 1) * d \<le> T then k + 1 else k) Ts"

lemma calls_by_mono: "k \<le> calls_by d n k Ts"
  by (induction Ts arbitrary: k) (auto intro: Suc_leD)

lemma calls_by_all: "calls_by d n n Ts = n"
  by (induction Ts) simp_all

lemma calls_by_le: "k \<le> n \<Longrightarrow> calls_by d n k Ts \<le> n"
  by (induction Ts arbitrary: k) auto

text \<open>Never early, and, when \<open>run\<close> is called often enough, not late.\<close>

lemma calls_by_not_early:
  "k \<le> n \<Longrightarrow> k * d \<le> E \<Longrightarrow> \<forall>T\<in>set Ts. T \<le> E \<Longrightarrow> calls_by d n k Ts * d \<le> E"
  by (induction Ts arbitrary: k) auto

lemma calls_by_every_tick:
  assumes "0 < d" and "m \<le> n * d"
  shows "calls_by d n 0 [0..<Suc m] = m div d"
  using assms(2)
proof (induction m)
  case 0
  then show ?case using assms(1) by simp
next
  case (Suc m)
  have append: "calls_by d n k (Ts @ [T]) =
      (let c = calls_by d n k Ts in if c < n \<and> (c + 1) * d \<le> T then c + 1 else c)" for k Ts T
    by (induction Ts arbitrary: k) (simp_all add: Let_def)
  have IH: "calls_by d n 0 [0..<Suc m] = m div d" using Suc by simp
  have "m div d * d \<le> m" and "m < (m div d + 1) * d"
    using assms(1) dividend_less_div_times [of d m] by (simp_all add: algebra_simps)
  then have "Suc m div d = (if (m div d + 1) * d \<le> Suc m then m div d + 1 else m div d)"
    using assms(1) by (auto intro!: div_nat_eqI simp: algebra_simps intro: le_SucI)
  moreover have "m div d < n" using Suc.prems assms(1) by (simp add: less_mult_imp_div_less)
  moreover have "[0..<Suc (Suc m)] = [0..<Suc m] @ [Suc m]" by simp
  ultimately show ?case by (simp only: append IH Let_def) simp
qed

lemma elapsed_due:
  assumes "k * unat d \<le> T" and "T < 2 ^ 32"
  shows "(start + word_of_nat T) - (start + word_of_nat k * d) \<ge> (d :: u32) \<longleftrightarrow> (k + 1) * unat d \<le> T"
proof -
  have "word_of_nat k * d = word_of_nat (k * unat d)" by simp
  then have "(start + word_of_nat T) - (start + word_of_nat k * d) = word_of_nat (T - k * unat d)"
    using assms(1) by (simp add: of_nat_diff del: of_nat_mult)
  moreover have "unat (word_of_nat (T - k * unat d) :: u32) = T - k * unat d"
    using assms by (subst unat_of_nat) simp
  ultimately show ?thesis using assms(1) by (simp add: word_le_nat_alt) linarith
qed

lemma counting_runs:
  assumes "counting f (start + word_of_nat k * d) d (int n) (int k) t" and "k < n" and "sorted (E # Ts)"
    and "k * unat d \<le> E" and "\<forall>T\<in>set Ts. T < 2 ^ 32"
  shows "\<exists>t'. foldM (run_timers record_call) (map (\<lambda>T. start + word_of_nat T) Ts) (t, log) =
      Some (t', log @ replicate (calls_by (unat d) n k Ts - k) f) \<and>
    (callbacks t' ! 0 = None \<longleftrightarrow> calls_by (unat d) n k Ts = n)"
  using assms
proof (induction Ts arbitrary: E k t log)
  case Nil
  then have "s_call (slot_of t 0) = Some f" by (simp add: counting_def)
  then show ?case using Nil by (simp add: slot_of_def)
next
  case (Cons T Ts)
  let ?now = "start + word_of_nat T" and ?p = "start + word_of_nat k * d"
  have T: "k * unat d \<le> T" "T < 2 ^ 32" "sorted (T # Ts)" using Cons.prems by auto
  note due = elapsed_due [OF T(1,2), of start]
  show ?case
  proof (cases "(k + 1) * unat d \<le> T")
    case False
    obtain t1 where t1: "run_timers record_call ?now (t, log) = Some (t1, log)" "counting f ?p d (int n) (int k) t1"
      using counting_wait [OF Cons.prems(1)] due False by blast
    from Cons.IH [OF t1(2) Cons.prems(2) T(3,1), of log] Cons.prems(5) t1(1) False show ?thesis by simp
  next
    case True
    then obtain t1 where t1: "run_timers record_call ?now (t, log) = Some (t1, log @ [f])" "timer_inv t1"
        "if int k + 1 < int n then counting f (?p + d) d (int n) (int k + 1) t1
         else \<forall>i<MAX_TIMERS. s_call (slot_of t1 i) = None"
      using counting_run [OF Cons.prems(1) _ _ due [THEN iffD2]] Cons.prems(2) by (auto simp del: mult_Suc)
    have grow: "log @ f # replicate (c - Suc k) f = log @ replicate (c - k) f" if "Suc k \<le> c" for c
      using that by (simp add: Suc_diff_le [symmetric] flip: replicate_Suc)
    show ?thesis
    proof (cases "k + 1 < n")
      case less: True
      have "counting f (start + word_of_nat (k + 1) * d) d (int n) (int (k + 1)) t1"
        using t1(3) less by (simp add: algebra_simps)
      from Cons.IH [OF this less T(3) True, of "log @ [f]"] Cons.prems(2,5) t1(1) True
      show ?thesis using calls_by_mono [of "k + 1" "unat d" n Ts] by (simp add: grow del: mult_Suc)
    next
      case False
      then have n: "n = k + 1" using Cons.prems(2) by simp
      obtain t' where t': "foldM (run_timers record_call) (map (\<lambda>T. start + word_of_nat T) Ts) (t1, log @ [f]) =
          Some (t', log @ [f])" "\<forall>i<MAX_TIMERS. s_call (slot_of t' i) = None"
        using idle_runs [OF t1(2), of "map (\<lambda>T. start + word_of_nat T) Ts" "log @ [f]"] t1(3) n by auto
      moreover have "callbacks t' ! 0 = None" using t'(2) by (auto simp: slot_of_def MAX_TIMERS_def)
      moreover have "calls_by (unat d) n k (T # Ts) = n"
        using True n calls_by_all [of "unat d" n Ts] by (simp del: mult_Suc)
      ultimately show ?thesis using t1(1) n by simp
    qed
  qed
qed

text \<open>
  C14.  A timer for \<open>n\<close> runs, the only one of its object, calls its function once in each call of
  \<open>run\<close> that finds the next multiple of its delay passed, and in no other: whenever \<open>run\<close> is called
  (at the elapsed times \<open>Ts\<close>, less than 49 days after \<open>setTimer\<close>, also across a wrap-around of
  \<open>millis\<close>), the calls made are those that \<open>calls_by\<close> counts in real time.  There are never more than
  \<open>n\<close>, none is made before its time, with a call of \<open>run\<close> in every millisecond the \<open>k\<close>-th is made
  \<open>k\<close> delays after the start, and the slot is free exactly after the \<open>n\<close>-th.  With \<open>n = 1\<close> this is
  \<open>setTimeout\<close>.
\<close>

theorem timer_runs_n_times:
  assumes "sized junk" and "1 \<le> n" and "sorted Ts" and "\<forall>T\<in>set Ts. T < 2 ^ 32"
  shows "\<exists>t t' calls. setTimer start d (Some f) (int n) (new_M5Timer now junk) = (0, t) \<and>
    foldM (run_timers record_call) (map (\<lambda>T. start + word_of_nat T) Ts) (t, []) = Some (t', replicate calls f) \<and>
    calls = calls_by (unat d) n 0 Ts \<and> calls \<le> n \<and> (\<forall>E. (\<forall>T\<in>set Ts. T \<le> E) \<longrightarrow> calls * unat d \<le> E) \<and>
    (\<forall>m. Ts = [0..<Suc m] \<and> d \<noteq> 0 \<and> m \<le> n * unat d \<longrightarrow> calls = m div unat d) \<and>
    (callbacks t' ! 0 = None \<longleftrightarrow> calls = n)"
proof -
  define t where "t = snd (setTimer start d (Some f) (int n) (new_M5Timer now junk))"
  have free: "findFirstFreeSlot (new_M5Timer now junk) = 0"
    by (simp add: findFirstFreeSlot_def new_M5Timer_def MAX_TIMERS_def upt_rec)
  then have set: "setTimer start d (Some f) (int n) (new_M5Timer now junk) = (0, t)"
    by (simp add: t_def setTimer_def Let_def)
  have "timer_inv t" unfolding t_def using setTimer_inv [OF new_M5Timer_inv [OF assms(1)]] by blast
  then have "counting f (start + word_of_nat 0 * d) d (int n) (int 0) t"
    using assms(1) free
    by (auto simp: counting_def t_def setTimer_def Let_def new_M5Timer_def slot_of_def sized_def MAX_TIMERS_def nth_list_update nth_Cons')
  from counting_runs [OF this, of 0 Ts "[]"] assms(2-4) obtain t' where
    "foldM (run_timers record_call) (map (\<lambda>T. start + word_of_nat T) Ts) (t, []) =
      Some (t', replicate (calls_by (unat d) n 0 Ts) f)" "callbacks t' ! 0 = None \<longleftrightarrow> calls_by (unat d) n 0 Ts = n"
    by auto
  moreover have "0 < unat d" if "d \<noteq> 0" using that by (simp add: unat_gt_0)
  then have "calls_by (unat d) n 0 Ts = m div unat d" if "Ts = [0..<Suc m] \<and> d \<noteq> 0 \<and> m \<le> n * unat d" for m
    using that calls_by_every_tick [of "unat d" m n] by blast
  moreover have "calls_by (unat d) n 0 Ts * unat d \<le> E" if "\<forall>T\<in>set Ts. T \<le> E" for E
    using that calls_by_not_early [of 0 n "unat d" E Ts] by simp
  moreover have "calls_by (unat d) n 0 Ts \<le> n" by (rule calls_by_le) simp
  ultimately show ?thesis using set
    by (intro exI [of _ t] exI [of _ t'] exI [of _ "calls_by (unat d) n 0 Ts"] conjI allI impI) simp_all
qed

text \<open>Two runs at a distance of 10 over the wrap-around of the clock; three of the six calls of \<open>run\<close>
  find nothing to do before the second, and the last finds the slot free.\<close>

theorem timer_runs_n_times_witness:
  "\<exists>t t'. setTimer 0xFFFFFFF0 10 (Some True) 2 (new_M5Timer 0 junk_timers) = (0, t) \<and>
     foldM (run_timers record_call) (map (\<lambda>T. 0xFFFFFFF0 + word_of_nat T) [3, 12, 15, 19, 25, 60]) (t, []) =
       Some (t', [True, True]) \<and> callbacks t' ! 0 = None"
proof -
  define Ts :: "nat list" where "Ts = [3, 12, 15, 19, 25, 60]"
  have Ts: "sorted Ts" "\<forall>T\<in>set Ts. T < 2 ^ 32" by (simp_all add: Ts_def)
  have "calls_by (unat (10 :: u32)) 2 0 Ts = 2" by (simp add: Ts_def)
  with timer_runs_n_times [OF junk_timers_sized _ Ts, of 2 "0xFFFFFFF0" 10 True 0]
  show ?thesis unfolding Ts_def [symmetric] by (fastforce simp: numeral_2_eq_2)
qed

text \<open>
  With ten timers set, \<open>setTimer\<close> refuses another and returns \<open>-1\<close>; that value is no timer for the
  operations that take one, which check the upper bound only: each of them accesses its arrays at
  index -1.
\<close>

theorem full_timers_fault:
  assumes "timer_inv t" and "used t = MAX_TIMERS"
  shows "setTimer now d f n t = (-1, t) \<and> deleteTimer (fst (setTimer now d f n t)) t = None \<and>
    restartTimer now (fst (setTimer now d f n t)) t = None \<and> isEnabled (fst (setTimer now d f n t)) t = None \<and>
    toggle (fst (setTimer now d f n t)) t = None"
proof -
  have n: "numTimers t = 10" using assms by (simp add: timer_inv_def MAX_TIMERS_def)
  then have "setTimer now d f n t = (-1, t)" by (simp add: setTimer_def findFirstFreeSlot_def MAX_TIMERS_def)
  then show ?thesis
    by (simp add: deleteTimer_def restartTimer_def isEnabled_def toggle_def slot_index_def MAX_TIMERS_def n)
qed

definition full_timers :: "nat timers" where
  "full_timers = \<lparr>prev_millis = replicate 10 0, callbacks = map Some [0..<10], delays = replicate 10 5,
     maxNumRuns = replicate 10 0, numRuns = replicate 10 0, enabled = replicate 10 True,
     toBeCalled = replicate 10 DONTRUN, numTimers = 10\<rparr>"

theorem full_timers_fault_witness:
  "setTimer 3 4 (Some 5) 0 full_timers = (-1, full_timers) \<and> deleteTimer (-1) full_timers = None"
proof -
  have u: "used full_timers = MAX_TIMERS" by (simp add: used_def full_timers_def MAX_TIMERS_def upt_rec)
  moreover have "timer_inv full_timers"
    using u by (simp add: timer_inv_def sized_def) (simp add: full_timers_def MAX_TIMERS_def)
  ultimately show ?thesis using full_timers_fault [of full_timers 3 4 "Some 5" 0] by (metis fst_conv)
qed

end
