(* ===== verification/ArduinoCore.thy ===== *)
theory ArduinoCore
  imports CString
begin

text \<open>
  Two small classes the firmware takes from its libraries: the debounced push button of
  \<open>components/m5stack/src/utility/Button.cpp\<close>, and the text form of an address in
  \<open>components/arduino/cores/esp32/IPAddress.cpp\<close>.
\<close>

section \<open>Buttons\<close>

text \<open>
  The level of the pin and the time are arguments: \<open>pin\<close> is what \<open>digitalRead\<close> returns, \<open>now\<close> what
  \<open>millis\<close> returns.
\<close>

record Button =
  btn_invert :: u8
  btn_dbTime :: u32
  btn_state :: u8
  btn_lastState :: u8
  btn_changed :: u8
  btn_time :: u32
  btn_lastTime :: u32
  btn_lastChange :: u32

definition logical_not :: "u8 \<Rightarrow> u8" where
  "logical_not v = (if v = 0 then 1 else 0)"

definition pin_value :: "u8 \<Rightarrow> u8 \<Rightarrow> u8" where
  "pin_value invert pin = (if invert \<noteq> 0 then logical_not pin else pin)"

definition new_Button :: "u8 \<Rightarrow> u32 \<Rightarrow> u8 \<Rightarrow> u32 \<Rightarrow> Button" where
  "new_Button invert dbTime pin now =
     (let st = pin_value invert pin in
      \<lparr>btn_invert = invert, btn_dbTime = dbTime, btn_state = st, btn_lastState = st, btn_changed = 0,
       btn_time = now, btn_lastTime = now, btn_lastChange = now\<rparr>)"

definition btn_read :: "u32 \<Rightarrow> u8 \<Rightarrow> Button \<Rightarrow> u8 \<times> Button" where
  "btn_read ms pin b =
     (let pinVal = pin_value (btn_invert b) pin in
      if ms - btn_lastChange b < btn_dbTime b then
        let b = b\<lparr>btn_lastTime := btn_time b, btn_time := ms, btn_changed := 0\<rparr> in (btn_state b, b)
      else
        let b = b\<lparr>btn_lastTime := btn_time b, btn_lastState := btn_state b, btn_state := pinVal, btn_time := ms\<rparr>;
            b = (if btn_state b \<noteq> btn_lastState b then b\<lparr>btn_lastChange := ms, btn_changed := 1\<rparr> else b\<lparr>btn_changed := 0\<rparr>)
        in (btn_state b, b))"

definition isPressed :: "Button \<Rightarrow> u8" where
  "isPressed b = (if btn_state b = 0 then 0 else 1)"

definition isReleased :: "Button \<Rightarrow> u8" where
  "isReleased b = (if btn_state b = 0 then 1 else 0)"

definition wasPressed :: "Button \<Rightarrow> u8" where
  "wasPressed b = (if btn_state b \<noteq> 0 \<and> btn_changed b \<noteq> 0 then 1 else 0)"

definition wasReleased :: "Button \<Rightarrow> u8" where
  "wasReleased b = (if btn_state b = 0 \<and> btn_changed b \<noteq> 0 then 1 else 0)"

definition pressedFor :: "u32 \<Rightarrow> Button \<Rightarrow> u8" where
  "pressedFor ms b = (if btn_state b = 1 \<and> btn_time b - btn_lastChange b \<ge> ms then 1 else 0)"

definition releasedFor :: "u32 \<Rightarrow> Button \<Rightarrow> u8" where
  "releasedFor ms b = (if btn_state b = 0 \<and> btn_time b - btn_lastChange b \<ge> ms then 1 else 0)"

definition lastChange :: "Button \<Rightarrow> u32" where
  "lastChange b = btn_lastChange b"

text \<open>A sequence of reads and the presses it reports: the times of the reads after which \<open>wasPressed\<close> holds.\<close>

fun btn_reads :: "(u32 \<times> u8) list \<Rightarrow> Button \<Rightarrow> u32 list" where
  "btn_reads [] b = []"
| "btn_reads ((ms, pin) # rs) b =
     (let b = snd (btn_read ms pin b) in (if btn_changed b \<noteq> 0 then [ms] else []) @ btn_reads rs b)"

text \<open>
  C40.  The button is debounced: between two changes that its reads report, and between the last change
  before them and the first, at least the debounce time passes (modulo the wrap-around of \<open>millis\<close>),
  however the pin bounces.
\<close>

theorem button_debounced:
  "successively (\<lambda>t u. u - t \<ge> btn_dbTime b) (btn_lastChange b # btn_reads rs b)"
proof (induction rs arbitrary: b)
  case (Cons r rs)
  obtain ms pin where r: "r = (ms, pin)" by force
  let ?b = "snd (btn_read ms pin b)"
  have same: "btn_dbTime ?b = btn_dbTime b" by (simp add: btn_read_def Let_def)
  have "btn_changed ?b = 0 \<and> btn_lastChange ?b = btn_lastChange b \<or>
      btn_changed ?b \<noteq> 0 \<and> btn_lastChange ?b = ms \<and> ms - btn_lastChange b \<ge> btn_dbTime b"
    by (cases "ms - btn_lastChange b < btn_dbTime b") (simp_all add: btn_read_def Let_def not_less)
  then consider "btn_changed ?b = 0" "btn_lastChange ?b = btn_lastChange b"
    | "btn_changed ?b \<noteq> 0" "btn_lastChange ?b = ms" "ms - btn_lastChange b \<ge> btn_dbTime b" by blast
  then show ?case
    using Cons.IH [of ?b] by cases (auto simp: r same Let_def)
qed simp

section \<open>Addresses\<close>

text \<open>The four bytes of an address; \<open>toString\<close> prints them with \<open>sprintf\<close> into sixteen bytes.\<close>

definition toString :: "u8 list \<Rightarrow> string" where
  "toString bytes = dec (unat (bytes ! 0)) @ ''.'' @ dec (unat (bytes ! 1)) @ ''.'' @
     dec (unat (bytes ! 2)) @ ''.'' @ dec (unat (bytes ! 3))"

text \<open>
  The loop of \<open>fromString\<close>: the bytes stored so far, the number of dots and the accumulator.  A failure
  returns \<open>false\<close> and leaves the bytes it has stored.
\<close>

fun fromString_loop :: "string \<Rightarrow> u16 \<Rightarrow> u8 \<Rightarrow> u8 list \<Rightarrow> bool \<times> u8 list" where
  "fromString_loop [] acc dots bytes =
     (if dots \<noteq> 3 then (False, bytes) else (True, bytes[3 := ucast acc]))"
| "fromString_loop (c # cs) acc dots bytes =
     (if is_digit c then
        let acc = acc * 10 + word_of_nat (of_char c - 48)
        in if acc > 255 then (False, bytes) else fromString_loop cs acc dots bytes
      else if c = CHR ''.'' then
        if dots = 3 then (False, bytes)
        else fromString_loop cs 0 (dots + 1) (bytes[unat dots := ucast acc])
      else (False, bytes))"

definition fromString :: "string \<Rightarrow> u8 list \<Rightarrow> bool \<times> u8 list" where
  "fromString address bytes = fromString_loop address 0 0 bytes"

lemma fromString_dec:
  "n < 256 \<Longrightarrow> fromString_loop (dec n @ rest) 0 dots bytes = fromString_loop rest (word_of_nat n) dots bytes"
proof (induction n arbitrary: rest rule: dec.induct)
  case (1 n)
  have digit: "fromString_loop (digit_char d # cs) acc dots bytes =
      (if acc * 10 + word_of_nat d > 255 then (False, bytes) else fromString_loop cs (acc * 10 + word_of_nat d) dots bytes)"
    if "d < 10" for d cs acc
    using that digit_char_value [OF that] by (simp add: is_digit_def Let_def)
  have small: "\<not> word_of_nat n > (255 :: u16)" using 1(2) by (simp add: word_less_nat_alt unat_of_nat)
  show ?case
  proof (cases "n < 10")
    case True
    then show ?thesis using digit [of n rest 0] small by (subst dec.simps) simp
  next
    case False
    have "word_of_nat (n div 10) * 10 + word_of_nat (n mod 10) = (word_of_nat (n div 10 * 10 + n mod 10) :: u16)"
      by (simp only: of_nat_add of_nat_mult of_nat_numeral)
    then have n: "word_of_nat (n div 10) * 10 + word_of_nat (n mod 10) = (word_of_nat n :: u16)" by simp
    have "fromString_loop (dec n @ rest) 0 dots bytes
        = fromString_loop (dec (n div 10) @ (digit_char (n mod 10) # rest)) 0 dots bytes"
      using False by (subst dec.simps) simp
    also have "\<dots> = fromString_loop (digit_char (n mod 10) # rest) (word_of_nat (n div 10)) dots bytes"
      using False 1(2) by (intro 1(1)) auto
    also have "\<dots> = fromString_loop rest (word_of_nat n) dots bytes"
      using digit [of "n mod 10" rest "word_of_nat (n div 10)"] small by (simp only: n) simp
    finally show ?thesis .
  qed
qed

text \<open>
  The text of an address fits the sixteen bytes \<open>toString\<close> gives it, and \<open>fromString\<close> reads the
  same address back, whatever the object held before.
\<close>

theorem address_roundtrip:
  "length (toString [a, b, c, d]) < 16 \<and> fromString (toString [a, b, c, d]) [p, q, r, s] = (True, [a, b, c, d])"
proof -
  have byte: "length (dec (unat x)) \<le> 3" for x :: u8
    using unat_less_u8 [of x] by (auto simp: dec.simps)
  have dot: "fromString_loop (CHR ''.'' # cs) acc dots bytes = (if dots = 3 then (False, bytes)
      else fromString_loop cs 0 (dots + 1) (bytes[unat dots := ucast acc]))" for cs acc dots bytes
    by (simp add: is_digit_def)
  have u: "ucast (ucast x :: u16) = x" for x :: u8
    by (rule bit_word_eqI) (simp add: bit_simps)
  have "fromString (toString [a, b, c, d]) [p, q, r, s] = (True, [a, b, c, d])"
    using fromString_dec [of "unat d" "[]" 3 "[a, b, c, s]"] unat_less_u8
    by (simp add: fromString_def toString_def fromString_dec dot u del: fromString_loop.simps) (simp add: u)
  moreover have "length (toString [a, b, c, d]) < 16"
    using byte [of a] byte [of b] byte [of c] byte [of d] by (simp add: toString_def)
  ultimately show ?thesis by blast
qed

text \<open>Missing numbers are read as zero, and a failure leaves the numbers it has stored.\<close>

lemma fromString_accepts_dots:
  "fromString ''...'' [1, 2, 3, 4] = (True, [0, 0, 0, 0])" "fromString ''10.0.x'' [1, 2, 3, 4] = (False, [10, 0, 3, 4])"
  by (simp_all add: fromString_def is_digit_def)

end
